(* ===== verification/Prelude.thy ===== *)
theory Prelude
  imports Main "HOL-Library.Word"
begin

unbundle bit_operations_syntax

text \<open>
  Shared vocabulary of the development: the integer types of \<^verbatim>\<open>kernel/types.h\<close>, sequencing of
  operations that may fail, the counting search loop that the kernel tables use, little-endian
  encoding of integers, and ring buffers with free-running indices.
\<close>

section \<open>Integer types and rule collections\<close>

type_synonym byte = "8 word"
type_synonym ushort = "16 word"
type_synonym uint = "32 word"
type_synonym uint64 = "64 word"
type_synonym addr = "64 word"

named_theorems seq_simps \<open>rules that run a sequence of fallible operations\<close>
named_theorems lock_simps \<open>rules that run lock operations\<close>
named_theorems mem_simps \<open>rules for reads after writes\<close>

lemma word_unat_eqI: "unat a = unat b \<Longrightarrow> a = (b :: 'a::len word)"
  by (rule unsigned_word_eqI)

lemma unat_less_size: "unat (w :: 'a::len word) < 2 ^ LENGTH('a)"
  by (rule unsigned_less)

lemma uint_sint32: "uint (w :: 32 word) = (if sint w < 0 then sint w + 2 ^ 32 else sint w)"
proof -
  have u: "uint w = sint w mod 2 ^ 32" by (simp add: uint_sint take_bit_eq_mod)
  have r: "- (2 ^ 31) \<le> sint w" "sint w < 2 ^ 31" using sint_ge [of w] sint_lt [of w] by simp_all
  show ?thesis
  proof (cases "sint w < 0")
    case True
    have "sint w mod 2 ^ 32 = (sint w + 2 ^ 32) mod 2 ^ 32" by simp
    also have "\<dots> = sint w + 2 ^ 32" using True r by (intro mod_pos_pos_trivial) simp_all
    finally show ?thesis using True u by simp
  next
    case False
    then show ?thesis using u r by simp
  qed
qed

section \<open>Sequencing of fallible operations\<close>

definition bindE :: "'e + 'a \<Rightarrow> ('a \<Rightarrow> 'e + 'b) \<Rightarrow> 'e + 'b" where
  "bindE m f = (case m of Inl e \<Rightarrow> Inl e | Inr x \<Rightarrow> f x)"

lemma bindE_Inl [simp, seq_simps]: "bindE (Inl e) f = Inl e"
  by (simp add: bindE_def)

lemma bindE_Inr [simp, seq_simps]: "bindE (Inr x) f = f x"
  by (simp add: bindE_def)

lemma bindE_assoc: "bindE (bindE m f) g = bindE m (\<lambda>x. bindE (f x) g)"
  by (cases m) simp_all

lemma bindE_eq_Inr_iff: "bindE m f = Inr y \<longleftrightarrow> (\<exists>x. m = Inr x \<and> f x = Inr y)"
  by (cases m) simp_all

lemma bindE_eq_Inl_iff: "bindE m f = Inl e \<longleftrightarrow> m = Inl e \<or> (\<exists>x. m = Inr x \<and> f x = Inl e)"
  by (cases m) simp_all

lemma bindE_InrE [elim!]:
  assumes "bindE m f = Inr y"
  obtains x where "m = Inr x" and "f x = Inr y"
  using assms by (auto simp: bindE_eq_Inr_iff)

lemma bindE_cong [fundef_cong]:
  assumes "m = m'" and "\<And>x. m' = Inr x \<Longrightarrow> f x = f' x"
  shows "bindE m f = bindE m' f'"
  using assms by (cases m') simp_all

text \<open>\<open>foldE f xs s\<close> is a loop over \<open>xs\<close> whose body \<open>f\<close> may leave it with an error.\<close>

primrec foldE :: "('b \<Rightarrow> 's \<Rightarrow> 'e + 's) \<Rightarrow> 'b list \<Rightarrow> 's \<Rightarrow> 'e + 's" where
  "foldE f [] s = Inr s"
| "foldE f (x # xs) s = bindE (f x s) (foldE f xs)"

lemma foldE_append: "foldE f (xs @ ys) s = bindE (foldE f xs s) (foldE f ys)"
  by (induction xs arbitrary: s) (auto simp: bindE_assoc intro!: bindE_cong)

lemma foldE_cong [fundef_cong]:
  assumes "xs = ys" "s = t" "\<And>x u. x \<in> set ys \<Longrightarrow> f x u = g x u"
  shows "foldE f xs s = foldE g ys t"
  using assms(3) unfolding assms(1,2)
  by (induction ys arbitrary: t) (auto intro!: bindE_cong)

text \<open>The rule for such a loop: an invariant indexed by what is still to be done.\<close>

lemma foldE_inv:
  assumes "I xs s"
    and "\<And>x ys s. I (x # ys) s \<Longrightarrow> \<exists>s'. f x s = Inr s' \<and> I ys s'"
  shows "\<exists>s'. foldE f xs s = Inr s' \<and> I [] s'"
  using assms(1)
proof (induction xs arbitrary: s)
  case (Cons x xs)
  with assms(2) obtain s1 where "f x s = Inr s1" "I xs s1" by blast
  with Cons.IH show ?case by auto
qed simp

section \<open>Counting search loops\<close>

text \<open>
  \<open>scan P i n\<close> is the loop \<^verbatim>\<open>for(; i < n; i++) if(P(i)) goto found;\<close> that the kernel uses on
  its fixed-size tables: the first index that satisfies \<open>P\<close>, if any.
\<close>

function scan :: "(nat \<Rightarrow> bool) \<Rightarrow> nat \<Rightarrow> nat \<Rightarrow> nat option" where
  "scan P i n = (if i < n then if P i then Some i else scan P (Suc i) n else None)"
  by pat_completeness auto
termination
  by (relation "measure (\<lambda>(P, i, n). n - i)") auto

declare scan.simps [simp del]

lemma scan_SomeD:
  "scan P i n = Some j \<Longrightarrow> i \<le> j \<and> j < n \<and> P j \<and> (\<forall>k. i \<le> k \<and> k < j \<longrightarrow> \<not> P k)"
proof (induction P i n rule: scan.induct)
  case (1 P i n)
  show ?case
  proof (cases "i < n \<and> \<not> P i")
    case True
    with "1.prems" have "scan P (Suc i) n = Some j" by (simp add: scan.simps [of P i n])
    with "1.IH" True have "Suc i \<le> j \<and> j < n \<and> P j \<and> (\<forall>k. Suc i \<le> k \<and> k < j \<longrightarrow> \<not> P k)"
      by simp
    with True show ?thesis by (metis Suc_leI Suc_leD le_neq_implies_less)
  next
    case False
    with "1.prems" show ?thesis by (auto simp: scan.simps [of P i n] split: if_splits)
  qed
qed

lemma scan_NoneD: "scan P i n = None \<Longrightarrow> i \<le> k \<Longrightarrow> k < n \<Longrightarrow> \<not> P k"
proof (induction P i n rule: scan.induct)
  case (1 P i n)
  then have "\<not> P i" "scan P (Suc i) n = None"
    by (auto simp: scan.simps [of P i n] split: if_splits)
  with 1 show ?case by (cases "k = i") auto
qed

lemma scan_None_iff: "scan P i n = None \<longleftrightarrow> (\<forall>k. i \<le> k \<and> k < n \<longrightarrow> \<not> P k)"
  by (metis scan_NoneD scan_SomeD not_None_eq)

lemma scan_Some_iff:
  "scan P i n = Some j \<longleftrightarrow> i \<le> j \<and> j < n \<and> P j \<and> (\<forall>k. i \<le> k \<and> k < j \<longrightarrow> \<not> P k)"
proof
  assume R: "i \<le> j \<and> j < n \<and> P j \<and> (\<forall>k. i \<le> k \<and> k < j \<longrightarrow> \<not> P k)"
  then obtain j' where j': "scan P i n = Some j'"
    by (metis scan_None_iff not_None_eq)
  with R have "j' = j" by (metis scan_SomeD linorder_neqE_nat)
  with j' show "scan P i n = Some j" by simp
qed (rule scan_SomeD)

lemma scan_cong [fundef_cong]:
  assumes "i = i'" "n = n'" "\<And>k. i' \<le> k \<Longrightarrow> k < n' \<Longrightarrow> P k = P' k"
  shows "scan P i n = scan P' i' n'"
proof (cases "scan P' i' n'")
  case None
  then have "scan P i n = None" using assms by (simp add: scan_None_iff)
  with None show ?thesis by simp
next
  case (Some j)
  then have "scan P i n = Some j" using assms by (simp add: scan_Some_iff)
  with Some show ?thesis by simp
qed

section \<open>Little-endian encoding\<close>

primrec le_enc :: "nat \<Rightarrow> 'a::len word \<Rightarrow> byte list" where
  "le_enc 0 w = []"
| "le_enc (Suc n) w = ucast w # le_enc n (drop_bit 8 w)"

primrec le_dec :: "byte list \<Rightarrow> 'a::len word" where
  "le_dec [] = 0"
| "le_dec (x # xs) = ucast x OR push_bit 8 (le_dec xs)"

lemma length_le_enc [simp]: "length (le_enc n w) = n"
  by (induction n arbitrary: w) simp_all

lemma le_dec_enc_take: "le_dec (le_enc n w) = take_bit (8 * n) (w::'a::len word)"
proof (induction n arbitrary: w)
  case (Suc n)
  show ?case
    by (rule bit_word_eqI) (auto simp: Suc bit_simps)
qed simp

lemma take_bit_word_full: "LENGTH('a) \<le> n \<Longrightarrow> take_bit n (w::'a::len word) = w"
  by (rule bit_word_eqI) (auto simp: bit_simps)

lemma le_dec_enc16 [simp]: "le_dec (le_enc 2 w) = (w::16 word)"
  by (simp add: le_dec_enc_take take_bit_word_full)

lemma le_dec_enc32 [simp]: "le_dec (le_enc 4 w) = (w::32 word)"
  by (simp add: le_dec_enc_take take_bit_word_full)

lemma le_dec_enc64 [simp]: "le_dec (le_enc 8 w) = (w::64 word)"
  by (simp add: le_dec_enc_take take_bit_word_full)

lemma le_dec_replicate_0 [simp]: "le_dec (replicate n 0) = 0"
  by (induction n) simp_all

lemma le_enc_0 [simp]: "le_enc n 0 = replicate n 0"
  by (induction n) simp_all

lemma bit_le_dec_bound:
  "bit (le_dec xs :: 'a::len word) i \<Longrightarrow> i < 8 * length xs"
proof (induction xs arbitrary: i)
  case (Cons x xs)
  have "i < 8 \<or> 8 \<le> i \<and> bit (le_dec xs :: 'a word) (i - 8)"
    using Cons.prems by (auto simp: bit_simps dest: bit_imp_le_length)
  then show ?case
  proof
    assume "8 \<le> i \<and> bit (le_dec xs :: 'a word) (i - 8)"
    with Cons.IH [of "i - 8"] have "8 \<le> i" "i - 8 < 8 * length xs" by blast+
    then show ?case by simp
  qed simp
qed simp

lemma le_enc_dec:
  assumes "8 * length xs \<le> LENGTH('a)"
  shows "le_enc (length xs) (le_dec xs :: 'a::len word) = xs"
  using assms
proof (induction xs)
  case (Cons x xs)
  then have len: "8 + 8 * length xs \<le> LENGTH('a)" by simp
  let ?w = "ucast x OR push_bit 8 (le_dec xs) :: 'a word"
  have lo: "(ucast ?w :: byte) = x"
    using len by (intro bit_word_eqI) (auto simp: bit_simps)
  have hi: "drop_bit 8 ?w = le_dec xs"
  proof (rule bit_word_eqI)
    fix i assume "i < LENGTH('a)"
    show "bit (drop_bit 8 ?w) i = bit (le_dec xs :: 'a word) i"
      using len bit_le_dec_bound [of xs i, where 'a='a]
      by (auto simp: bit_simps dest: bit_imp_le_length)
  qed
  show ?case using lo hi Cons by simp
qed simp

end
