(* ===== verification/Machine.thy ===== *)
theory Machine
  imports Prelude
begin

unbundle bit_operations_syntax

text \<open>
  The machine below the kernel: the constants and address macros of \<^verbatim>\<open>param.h\<close>, \<^verbatim>\<open>memlayout.h\<close>
  and \<^verbatim>\<open>riscv.h\<close>, the identities of locks and of sleep channels, the ways a kernel path can fail to
  return, the per-CPU state, and the byte-addressed memory that the kernel sees.
\<close>

section \<open>Constants and address arithmetic\<close>

abbreviation (input) NPROC :: nat where "NPROC \<equiv> 64"
abbreviation (input) NCPU :: nat where "NCPU \<equiv> 8"
abbreviation (input) NOFILE :: nat where "NOFILE \<equiv> 16"
abbreviation (input) PGSIZE :: uint64 where "PGSIZE \<equiv> 4096"
abbreviation (input) KERNBASE :: uint64 where "KERNBASE \<equiv> 0x80000000"
abbreviation (input) PHYSTOP :: uint64 where "PHYSTOP \<equiv> 0x88000000"
abbreviation (input) MAXVA :: uint64 where "MAXVA \<equiv> 0x4000000000"
abbreviation (input) PTE_V :: uint64 where "PTE_V \<equiv> 1"
abbreviation (input) PTE_R :: uint64 where "PTE_R \<equiv> 2"
abbreviation (input) PTE_W :: uint64 where "PTE_W \<equiv> 4"
abbreviation (input) PTE_X :: uint64 where "PTE_X \<equiv> 8"
abbreviation (input) PTE_U :: uint64 where "PTE_U \<equiv> 16"

definition TRAMPOLINE :: uint64 where "TRAMPOLINE = MAXVA - PGSIZE"
definition TRAPFRAME :: uint64 where "TRAPFRAME = TRAMPOLINE - PGSIZE"

definition KSTACK :: "nat \<Rightarrow> uint64" where
  "KSTACK p = TRAMPOLINE - (of_nat p + 1) * 2 * PGSIZE"

definition PGROUNDUP :: "uint64 \<Rightarrow> uint64" where
  "PGROUNDUP sz = (sz + PGSIZE - 1) AND NOT (PGSIZE - 1)"

definition PGROUNDDOWN :: "uint64 \<Rightarrow> uint64" where
  "PGROUNDDOWN a = a AND NOT (PGSIZE - 1)"

definition PA2PTE :: "uint64 \<Rightarrow> uint64" where
  "PA2PTE pa = push_bit 10 (drop_bit 12 pa)"

definition PTE2PA :: "uint64 \<Rightarrow> uint64" where
  "PTE2PA pte = push_bit 12 (drop_bit 10 pte)"

definition PTE_FLAGS :: "uint64 \<Rightarrow> uint64" where
  "PTE_FLAGS pte = pte AND 0x3FF"

definition PXSHIFT :: "nat \<Rightarrow> nat" where
  "PXSHIFT level = 12 + 9 * level"

definition PX :: "nat \<Rightarrow> uint64 \<Rightarrow> uint64" where
  "PX level va = drop_bit (PXSHIFT level) va AND 0x1FF"

section \<open>Locks, channels, outcomes\<close>

text \<open>Every spinlock of the kernel, by the object it is embedded in.\<close>

datatype lockid =
    KmemLock | PidLock | WaitLock | ProcLock nat | TicksLock | UartTxLock | ConsLock | PrLock
  | BcacheLock | LogLock | ItableLock | FtableLock | PipeLock addr | VdiskLock
  | BufSleepLk nat | InodeSleepLk nat

text \<open>Every address the kernel passes to \<^verbatim>\<open>sleep\<close> and \<^verbatim>\<open>wakeup\<close>.\<close>

datatype chan =
    ChanProc nat | ChanTicks | ChanUartTx | ChanCons | ChanLog | ChanPipeRead addr
  | ChanPipeWrite addr | ChanDiskFree | ChanBuf nat | ChanBufLock nat | ChanInodeLock nat

text \<open>
  The ways a kernel path does not return to its caller: \<open>Panic\<close> is a call of \<^verbatim>\<open>panic\<close>; \<open>Spin\<close> is
  a spinlock held by another CPU; \<open>Wait\<close> is a sleep that nothing in the modelled run ends;
  \<open>Hang\<close> is an endless loop or a wait for a device; \<open>Fault\<close> is an access through a null or wild
  pointer; \<open>NoReturn\<close> is a function that by design does not return.
\<close>

datatype kerr =
    Panic string | Spin lockid | Wait chan | Hang string | Fault string | NoReturn

section \<open>Machine state\<close>

record spinlock =
  locked :: bool
  lname :: string
  lcpu :: "nat option"

record cpu =
  cproc :: "nat option"
  noff :: nat
  intena :: bool

text \<open>
  The CPU part of the state: the hart that executes (register \<^verbatim>\<open>tp\<close>), the interrupt-enable bit of
  each hart, \<^verbatim>\<open>cpus[]\<close>, and all spinlocks. \<^verbatim>\<open>noff\<close> is a natural number: the code increments it and
  checks it to be positive before it decrements it.
\<close>

record lockst =
  tp :: nat
  sie :: "nat \<Rightarrow> bool"
  cpus :: "nat \<Rightarrow> cpu"
  spin :: "lockid \<Rightarrow> spinlock"

text \<open>
  The memory is indexed by kernel virtual addresses (RAM is mapped one to one). The three addresses
  are the linker's symbols \<^verbatim>\<open>end\<close>, \<^verbatim>\<open>etext\<close> and \<^verbatim>\<open>trampoline\<close>; no operation changes them.
\<close>

record machine =
  lks :: lockst
  mem :: "addr \<Rightarrow> byte"
  kend :: addr
  etext :: addr
  trampoline :: addr

section \<open>Runs of bytes in memory\<close>

definition mem_get :: "(addr \<Rightarrow> byte) \<Rightarrow> addr \<Rightarrow> nat \<Rightarrow> byte list" where
  "mem_get m a n = map (\<lambda>i. m (a + of_nat i)) [0..<n]"

definition mem_put :: "(addr \<Rightarrow> byte) \<Rightarrow> addr \<Rightarrow> byte list \<Rightarrow> addr \<Rightarrow> byte" where
  "mem_put m a bs = (\<lambda>x. if unat (x - a) < length bs then bs ! unat (x - a) else m x)"

definition rd64 :: "(addr \<Rightarrow> byte) \<Rightarrow> addr \<Rightarrow> uint64" where
  "rd64 m a = le_dec (mem_get m a 8)"

definition wr64 :: "(addr \<Rightarrow> byte) \<Rightarrow> addr \<Rightarrow> uint64 \<Rightarrow> addr \<Rightarrow> byte" where
  "wr64 m a v = mem_put m a (le_enc 8 v)"

definition rd32 :: "(addr \<Rightarrow> byte) \<Rightarrow> addr \<Rightarrow> uint" where
  "rd32 m a = le_dec (mem_get m a 4)"

definition wr32 :: "(addr \<Rightarrow> byte) \<Rightarrow> addr \<Rightarrow> uint \<Rightarrow> addr \<Rightarrow> byte" where
  "wr32 m a v = mem_put m a (le_enc 4 v)"

lemma length_mem_get [simp]: "length (mem_get m a n) = n"
  by (simp add: mem_get_def)

lemma nth_mem_get [simp]: "i < n \<Longrightarrow> mem_get m a n ! i = m (a + of_nat i)"
  by (simp add: mem_get_def)

lemma mem_get_0 [simp]: "mem_get m a 0 = []"
  by (simp add: mem_get_def)

lemma mem_put_Nil [simp]: "mem_put m a [] = m"
  by (simp add: mem_put_def)

lemma mem_get_Suc: "mem_get m a (Suc n) = m a # mem_get m (a + 1) n"
  by (rule nth_equalityI) (auto simp: nth_Cons' algebra_simps of_nat_diff)

lemma mem_get_append: "mem_get m a (n + k) = mem_get m a n @ mem_get m (a + of_nat n) k"
  by (rule nth_equalityI) (auto simp: nth_append algebra_simps)

lemma mem_get_cong: "(\<And>i. i < n \<Longrightarrow> m (a + of_nat i) = m' (a + of_nat i)) \<Longrightarrow> mem_get m a n = mem_get m' a n"
  by (rule nth_equalityI) auto

lemma unat_of_nat_64: "i < 2 ^ 64 \<Longrightarrow> unat (of_nat i :: uint64) = i"
  by (simp add: unat_of_nat)

lemma mem_put_in: "i < length bs \<Longrightarrow> length bs \<le> 2 ^ 64 \<Longrightarrow> mem_put m a bs (a + of_nat i) = bs ! i"
  by (simp add: mem_put_def unat_of_nat)

lemma mem_put_out: "length bs \<le> unat (x - a) \<Longrightarrow> mem_put m a bs x = m x"
  by (simp add: mem_put_def)

lemma mem_get_put_same [mem_simps]:
  "length bs = n \<Longrightarrow> n \<le> 2 ^ 64 \<Longrightarrow> mem_get (mem_put m a bs) a n = bs"
  by (rule nth_equalityI) (auto simp: mem_put_in)

lemma mem_get_put_other:
  "(\<And>i. i < n \<Longrightarrow> length bs \<le> unat (b + of_nat i - a)) \<Longrightarrow> mem_get (mem_put m a bs) b n = mem_get m b n"
  by (rule mem_get_cong) (simp add: mem_put_out)

lemma mem_put_get_same: "n \<le> 2 ^ 64 \<Longrightarrow> mem_put m a (mem_get m a n) = m"
  by (rule ext) (simp add: mem_put_def)

lemma rd64_wr64 [mem_simps]: "rd64 (wr64 m a v) a = v"
  by (simp add: rd64_def wr64_def mem_get_put_same)

lemma rd32_wr32 [mem_simps]: "rd32 (wr32 m a v) a = v"
  by (simp add: rd32_def wr32_def mem_get_put_same)

section \<open>Pages\<close>

text \<open>A page-aligned address and the bytes of its page.\<close>

definition aligned :: "uint64 \<Rightarrow> bool" where
  "aligned a \<longleftrightarrow> a mod PGSIZE = 0"

lemma PGROUNDDOWN_shift: "PGROUNDDOWN a = push_bit 12 (drop_bit 12 a)"
proof (rule bit_word_eqI)
  fix i
  have "PGROUNDDOWN a = a AND NOT (mask 12)"
    by (simp add: PGROUNDDOWN_def mask_eq_exp_minus_1)
  then show "bit (PGROUNDDOWN a) i = bit (push_bit 12 (drop_bit 12 a)) i"
    by (auto simp: bit_simps simp del: mask_numeral)
qed

lemma unat_PGROUNDDOWN: "unat (PGROUNDDOWN a) = unat a div 4096 * 4096"
proof -
  have "unat a div 4096 * 4096 < 2 ^ 64"
    using unat_less_size [of a] by (simp add: div_times_less_eq_dividend order_le_less_trans)
  then show ?thesis
    by (simp add: PGROUNDDOWN_shift push_bit_eq_mult drop_bit_eq_div unat_word_ariths unat_div)
qed

lemma aligned_unat: "aligned a \<longleftrightarrow> unat a mod 4096 = 0"
  by (simp add: aligned_def unat_eq_0 [symmetric] unat_mod)

lemma aligned_0 [simp]: "aligned 0"
  by (simp add: aligned_def)

lemma aligned_PGROUNDDOWN [simp]: "aligned (PGROUNDDOWN a)"
  by (simp add: aligned_unat unat_PGROUNDDOWN)

lemma PGROUNDDOWN_aligned: "aligned a \<Longrightarrow> PGROUNDDOWN a = a"
  by (rule word_unat_eqI) (auto simp: aligned_unat unat_PGROUNDDOWN)

lemma PGROUNDDOWN_le: "PGROUNDDOWN a \<le> a"
  by (simp add: word_le_nat_alt unat_PGROUNDDOWN div_times_less_eq_dividend)

lemma unat_PGROUNDUP:
  assumes "unat a \<le> 2 ^ 64 - 4096"
  shows "unat (PGROUNDUP a) = (unat a + 4095) div 4096 * 4096"
proof -
  have "PGROUNDUP a = PGROUNDDOWN (a + 4095)"
    by (simp add: PGROUNDUP_def PGROUNDDOWN_def add_diff_eq [symmetric])
  moreover have "unat (a + 4095) = unat a + 4095"
    using assms by (simp add: unat_word_ariths)
  ultimately show ?thesis by (simp add: unat_PGROUNDDOWN)
qed

lemma aligned_PGROUNDUP [simp]: "aligned (PGROUNDUP a)"
  by (metis PGROUNDUP_def PGROUNDDOWN_def aligned_PGROUNDDOWN)

lemma aligned_add: "aligned a \<Longrightarrow> aligned b \<Longrightarrow> aligned (a + b)"
proof -
  assume "aligned a" "aligned b"
  then have "4096 dvd unat a + unat b" by (simp add: aligned_unat mod_eq_0_iff_dvd)
  then have "4096 dvd (unat a + unat b) mod 2 ^ 64"
    by (rule dvd_mod) simp
  then show ?thesis by (simp add: aligned_unat unat_word_ariths mod_eq_0_iff_dvd)
qed

lemma aligned_PGSIZE [simp]: "aligned 4096"
  by (simp add: aligned_def)

text \<open>Offsets inside a page do not overflow, and determine page and offset.\<close>

lemma unat_page_off: "aligned p \<Longrightarrow> unat d < 4096 \<Longrightarrow> unat (p + d) = unat p + unat d"
proof -
  assume p: "aligned p" and d: "unat d < 4096"
  from p obtain k where k: "unat p = 4096 * k" by (auto simp: aligned_unat mod_eq_0_iff_dvd)
  then have "k < 2 ^ 52" using unat_less_size [of p] by simp
  with k have "unat p \<le> 2 ^ 64 - 4096" by simp
  with d show ?thesis by (simp add: unat_word_ariths)
qed

lemma PGROUNDDOWN_page_off:
  assumes "aligned p" and "unat d < 4096"
  shows "PGROUNDDOWN (p + d) = p"
proof (rule word_unat_eqI)
  show "unat (PGROUNDDOWN (p + d)) = unat p"
    using assms by (auto simp: unat_PGROUNDDOWN unat_page_off aligned_unat)
qed

text \<open>A write that stays inside one page leaves every other page alone.\<close>

lemma mem_put_other_page:
  assumes "aligned p" "unat d + length bs \<le> 4096" "PGROUNDDOWN x \<noteq> p"
  shows "mem_put m (p + d) bs x = m x"
proof (cases "unat (x - (p + d)) < length bs")
  case True
  define k where "k = unat (x - (p + d))"
  have x: "x = p + (d + of_nat k)" by (simp add: k_def)
  have "k < length bs" using True by (simp add: k_def)
  then have "unat (d + of_nat k) = unat d + k"
    using assms(2) by (simp add: unat_word_ariths unat_of_nat)
  then have "PGROUNDDOWN x = p"
    using \<open>k < length bs\<close> assms(1,2) unfolding x by (intro PGROUNDDOWN_page_off) simp_all
  with assms(3) show ?thesis by simp
qed (simp add: mem_put_def)

lemma mem_get_other_page:
  assumes "aligned p" "unat d + length bs \<le> 4096" "aligned q" "p \<noteq> q" "unat d' + n \<le> 4096"
  shows "mem_get (mem_put m (p + d) bs) (q + d') n = mem_get m (q + d') n"
proof (rule mem_get_cong)
  fix i assume i: "i < n"
  have "unat (d' + of_nat i) = unat d' + i"
    using i assms(5) by (simp add: unat_word_ariths unat_of_nat)
  then have "PGROUNDDOWN (q + (d' + of_nat i)) = q"
    using i assms by (intro PGROUNDDOWN_page_off) simp_all
  then show "mem_put m (p + d) bs (q + d' + of_nat i) = m (q + d' + of_nat i)"
    using assms by (intro mem_put_other_page) (simp_all add: add.assoc)
qed

end
