(* ===== verification/Cstring.thy ===== *)
theory Cstring
  imports Machine
begin

text \<open>
  The kernel's memory and string functions (\<^verbatim>\<open>kernel/string.c\<close>). \<^verbatim>\<open>memset\<close> and \<^verbatim>\<open>memmove\<close> work on
  the memory of the machine, byte by byte and in the direction the code chooses. The functions that
  only read take a pointer as the stream of bytes from it on; the bounded copies write into an array
  of bytes.
\<close>

type_synonym cptr = "nat \<Rightarrow> byte"

definition ptr :: "(addr \<Rightarrow> byte) \<Rightarrow> addr \<Rightarrow> cptr" where
  "ptr m a = (\<lambda>i. m (a + of_nat i))"

definition arr :: "byte list \<Rightarrow> cptr" where
  "arr xs = (\<lambda>i. if i < length xs then xs ! i else 0)"

section \<open>Memory\<close>

primrec memset_loop :: "byte \<Rightarrow> nat \<Rightarrow> addr \<Rightarrow> (addr \<Rightarrow> byte) \<Rightarrow> addr \<Rightarrow> byte" where
  "memset_loop c 0 dst m = m"
| "memset_loop c (Suc k) dst m = memset_loop c k (dst + 1) (m(dst := c))"

definition memset :: "addr \<Rightarrow> byte \<Rightarrow> nat \<Rightarrow> (addr \<Rightarrow> byte) \<Rightarrow> addr \<Rightarrow> byte" where
  "memset dst c n m = memset_loop c n dst m"

primrec memmove_up :: "nat \<Rightarrow> addr \<Rightarrow> addr \<Rightarrow> (addr \<Rightarrow> byte) \<Rightarrow> addr \<Rightarrow> byte" where
  "memmove_up 0 d s m = m"
| "memmove_up (Suc n) d s m = memmove_up n (d + 1) (s + 1) (m(d := m s))"

primrec memmove_down :: "nat \<Rightarrow> addr \<Rightarrow> addr \<Rightarrow> (addr \<Rightarrow> byte) \<Rightarrow> addr \<Rightarrow> byte" where
  "memmove_down 0 d s m = m"
| "memmove_down (Suc n) d s m = memmove_down n (d - 1) (s - 1) (m(d - 1 := m (s - 1)))"

definition memmove :: "addr \<Rightarrow> addr \<Rightarrow> nat \<Rightarrow> (addr \<Rightarrow> byte) \<Rightarrow> addr \<Rightarrow> byte" where
  "memmove dst src n m =
     (if n = 0 then m
      else if src < dst \<and> src + of_nat n > dst
      then memmove_down n (dst + of_nat n) (src + of_nat n) m
      else memmove_up n dst src m)"

definition memcpy :: "addr \<Rightarrow> addr \<Rightarrow> nat \<Rightarrow> (addr \<Rightarrow> byte) \<Rightarrow> addr \<Rightarrow> byte" where
  "memcpy dst src n m = memmove dst src n m"

fun memcmp :: "cptr \<Rightarrow> cptr \<Rightarrow> nat \<Rightarrow> int" where
  "memcmp s1 s2 0 = 0"
| "memcmp s1 s2 (Suc n) =
     (if s1 0 \<noteq> s2 0 then uint (s1 0) - uint (s2 0)
      else memcmp (\<lambda>i. s1 (Suc i)) (\<lambda>i. s2 (Suc i)) n)"

section \<open>Strings\<close>

fun strncmp :: "cptr \<Rightarrow> cptr \<Rightarrow> nat \<Rightarrow> int" where
  "strncmp p q 0 = 0"
| "strncmp p q (Suc n) =
     (if p 0 \<noteq> 0 \<and> p 0 = q 0 then strncmp (\<lambda>i. p (Suc i)) (\<lambda>i. q (Suc i)) n
      else uint (p 0) - uint (q 0))"

text \<open>The first loop of \<^verbatim>\<open>strncpy\<close> stops at the terminator or at the bound; the second pads.\<close>

fun strncpy_pad :: "byte list \<Rightarrow> nat \<Rightarrow> nat \<Rightarrow> byte list" where
  "strncpy_pad s i 0 = s"
| "strncpy_pad s i (Suc n) = strncpy_pad (s[i := 0]) (Suc i) n"

fun strncpy_loop :: "byte list \<Rightarrow> cptr \<Rightarrow> nat \<Rightarrow> nat \<Rightarrow> byte list" where
  "strncpy_loop s t i 0 = s"
| "strncpy_loop s t i (Suc n) =
     (if t i \<noteq> 0 then strncpy_loop (s[i := t i]) t (Suc i) n
      else strncpy_pad (s[i := t i]) (Suc i) n)"

definition strncpy :: "byte list \<Rightarrow> cptr \<Rightarrow> nat \<Rightarrow> byte list" where
  "strncpy s t n = strncpy_loop s t 0 n"

fun safestrcpy_loop :: "byte list \<Rightarrow> cptr \<Rightarrow> nat \<Rightarrow> nat \<Rightarrow> byte list" where
  "safestrcpy_loop s t i n =
     (if n - 1 > 0
      then if t i \<noteq> 0 then safestrcpy_loop (s[i := t i]) t (Suc i) (n - 1)
           else (s[i := t i])[Suc i := 0]
      else s[i := 0])"

declare safestrcpy_loop.simps [simp del]

definition safestrcpy :: "byte list \<Rightarrow> cptr \<Rightarrow> int \<Rightarrow> byte list" where
  "safestrcpy s t n = (if n \<le> 0 then s else safestrcpy_loop s t 0 (nat n))"

partial_function (option) strlen_loop :: "cptr \<Rightarrow> nat \<Rightarrow> nat option" where
  "strlen_loop s n = (if s n \<noteq> 0 then strlen_loop s (Suc n) else Some n)"

definition strlen :: "cptr \<Rightarrow> nat option" where
  "strlen s = strlen_loop s 0"

section \<open>Memory: the loops against whole-block updates\<close>

lemma unat_eq_of_nat_64: "k < 2 ^ 64 \<Longrightarrow> unat (x :: uint64) = k \<longleftrightarrow> x = of_nat k"
  by (auto simp: unat_of_nat_64 intro: word_unat_eqI)

lemma mem_put_Cons:
  assumes "length bs < 2 ^ 64"
  shows "mem_put m a (b # bs) = mem_put (m(a := b)) (a + 1) bs"
proof
  fix x
  show "mem_put m a (b # bs) x = mem_put (m(a := b)) (a + 1) bs x"
  proof (cases "x = a")
    case True
    have "unat (a - (a + 1)) = 2 ^ 64 - 1" by (simp add: unsigned_minus_1_eq_mask mask_eq_exp_minus_1)
    with True assms show ?thesis by (simp add: mem_put_def)
  next
    case False
    then have "x - a \<noteq> 0" by simp
    then have "unat (x - (a + 1)) = unat (x - a) - 1" "0 < unat (x - a)"
      by (simp_all add: diff_diff_eq [symmetric] unat_minus_one unat_gt_0)
    with False show ?thesis by (auto simp: mem_put_def nth_Cons')
  qed
qed

lemma mem_put_snoc:
  assumes "length bs < 2 ^ 64"
  shows "mem_put m a (bs @ [b]) = mem_put (m(a + of_nat (length bs) := b)) a bs"
proof
  fix x
  have "unat (x - a) = length bs \<longleftrightarrow> x = a + of_nat (length bs)"
    using assms unat_eq_of_nat_64 [of "length bs" "x - a"] by (simp add: diff_eq_eq add.commute)
  then show "mem_put m a (bs @ [b]) x = mem_put (m(a + of_nat (length bs) := b)) a bs x"
    by (auto simp: mem_put_def nth_append)
qed

lemma memset_eq: "n \<le> 2 ^ 64 \<Longrightarrow> memset dst c n m = mem_put m dst (replicate n c)"
  unfolding memset_def
proof (induction n arbitrary: dst m)
  case (Suc n)
  then show ?case by (simp add: mem_put_Cons)
qed simp

lemma memmove_up_eq:
  assumes "unat (d - s) = 0 \<or> n \<le> unat (d - s)" "n \<le> 2 ^ 64"
  shows "memmove_up n d s m = mem_put m d (mem_get m s n)"
  using assms
proof (induction n arbitrary: d s m)
  case (Suc n)
  have same: "(d + 1) - (s + 1) = d - s" by simp
  have "mem_get (m(d := m s)) (s + 1) n = mem_get m (s + 1) n"
  proof (rule mem_get_cong)
    fix i assume "i < n"
    have "d \<noteq> s + 1 + of_nat i"
    proof
      assume "d = s + 1 + of_nat i"
      then have "d - s = of_nat (Suc i)" by simp
      then have "unat (d - s) = Suc i"
        using \<open>i < n\<close> Suc.prems(2) unat_of_nat_64 [of "Suc i"] by simp
      with Suc.prems(1) \<open>i < n\<close> show False by simp
    qed
    then show "(m(d := m s)) (s + 1 + of_nat i) = m (s + 1 + of_nat i)" by simp
  qed
  with Suc show ?case by (auto simp: same mem_get_Suc mem_put_Cons)
qed simp

lemma memmove_down_eq:
  assumes "unat (s - d) = 0 \<or> n \<le> unat (s - d)" "n \<le> 2 ^ 64"
  shows "memmove_down n (d + of_nat n) (s + of_nat n) m = mem_put m d (mem_get m s n)"
  using assms
proof (induction n arbitrary: m)
  case (Suc n)
  let ?m = "m(d + of_nat n := m (s + of_nat n))"
  have "mem_get ?m s n = mem_get m s n"
  proof (rule mem_get_cong)
    fix i assume i: "i < n"
    have "d + of_nat n \<noteq> s + of_nat i"
    proof
      assume "d + of_nat n = s + of_nat i"
      then have "s - d = of_nat (n - i)"
        using i by (simp add: of_nat_diff algebra_simps)
      then have "unat (s - d) = n - i"
        using i Suc.prems(2) unat_of_nat_64 [of "n - i"] by simp
      with Suc.prems(1) i show False by simp
    qed
    then show "?m (s + of_nat i) = m (s + of_nat i)" by simp
  qed
  moreover have "mem_get m s (Suc n) = mem_get m s n @ [m (s + of_nat n)]"
    using mem_get_append [of m s n 1] by (simp add: mem_get_def)
  moreover have "memmove_down n (d + of_nat n) (s + of_nat n) ?m = mem_put ?m d (mem_get ?m s n)"
    using Suc by (intro Suc.IH) auto
  ultimately show ?case using Suc.prems by (simp add: mem_put_snoc)
qed simp

text \<open>
  C15: \<^verbatim>\<open>memmove\<close> copies the \<open>n\<close> bytes that were at \<open>src\<close> before the call to \<open>dst\<close> and changes nothing
  else, however the two regions overlap, for regions that do not run past the end of the address
  space.
\<close>

theorem memmove_correct:
  assumes "unat src + n < 2 ^ 64" and "unat dst + n \<le> 2 ^ 64"
  shows "memmove dst src n m = mem_put m dst (mem_get m src n)"
proof -
  have lt: "src + of_nat n > dst \<longleftrightarrow> unat dst < unat src + n"
    using assms(1) by (simp add: word_less_nat_alt unat_word_ariths unat_of_nat)
  show ?thesis
  proof (cases "src < dst \<and> src + of_nat n > dst")
    case True
    then have "unat (src - dst) = 2 ^ 64 + unat src - unat dst"
      by (simp add: word_less_nat_alt unat_sub_if')
    with True lt assms have "n \<le> unat (src - dst)" by (simp add: word_less_nat_alt)
    with True assms show ?thesis by (simp add: memmove_def memmove_down_eq)
  next
    case False
    then have "unat (dst - src) = 0 \<or> n \<le> unat (dst - src)"
      using lt assms by (auto simp: word_less_nat_alt unat_sub_if')
    with False assms show ?thesis by (auto simp: memmove_def memmove_up_eq)
  qed
qed

theorem memmove_correct_witness:
  "memmove 102 100 4 (\<lambda>a. ucast a) = mem_put (\<lambda>a. ucast a) 102 [100, 101, 102, 103]"
  using memmove_correct [of 100 4 102 "\<lambda>a. ucast a"] by (simp add: mem_get_def upt_rec)

section \<open>Strings\<close>

text \<open>\<open>ends t i\<close>: the terminator of the string at \<open>t\<close> is at or before position \<open>i\<close>.\<close>

definition ends :: "cptr \<Rightarrow> nat \<Rightarrow> bool" where
  "ends t i \<longleftrightarrow> (\<exists>j\<le>i. t j = 0)"

lemma ends_0 [simp]: "ends t 0 \<longleftrightarrow> t 0 = 0"
  by (simp add: ends_def)

lemma ends_Suc: "ends t (Suc i) \<longleftrightarrow> ends t i \<or> t (Suc i) = 0"
  by (auto simp: ends_def le_Suc_eq)

lemma strlen_loop_eq:
  assumes "s k = 0" "\<And>i. n \<le> i \<Longrightarrow> i < k \<Longrightarrow> s i \<noteq> 0" "n \<le> k"
  shows "strlen_loop s n = Some k"
  using assms(2,3)
proof (induction "k - n" arbitrary: n)
  case 0
  then have "n = k" by simp
  then show ?case using assms(1) by (subst strlen_loop.simps) simp
next
  case (Suc d)
  then have "s n \<noteq> 0" "n < k" by auto
  moreover have "strlen_loop s (Suc n) = Some k"
    using Suc by (intro Suc.hyps(1)) auto
  ultimately show ?case by (subst strlen_loop.simps) simp
qed

lemma strlen_eq: "s k = 0 \<Longrightarrow> (\<And>i. i < k \<Longrightarrow> s i \<noteq> 0) \<Longrightarrow> strlen s = Some k"
  unfolding strlen_def by (rule strlen_loop_eq) auto

lemma strncpy_pad_nth:
  "i + n \<le> length s \<Longrightarrow>
   length (strncpy_pad s i n) = length s \<and>
   (\<forall>k<length s. strncpy_pad s i n ! k = (if i \<le> k \<and> k < i + n then 0 else s ! k))"
  by (induction s i n rule: strncpy_pad.induct) (auto simp: nth_list_update)

lemma strncpy_loop_nth:
  "i + n \<le> length s \<Longrightarrow> (\<forall>j<i. t j \<noteq> 0) \<Longrightarrow>
   length (strncpy_loop s t i n) = length s \<and>
   (\<forall>k<length s. strncpy_loop s t i n ! k =
      (if i \<le> k \<and> k < i + n then if ends t k then 0 else t k else s ! k))"
proof (induction s t i n rule: strncpy_loop.induct)
  case (2 s t i n)
  show ?case
  proof (cases "t i = 0")
    case True
    then have "ends t k" if "i \<le> k" for k using that by (auto simp: ends_def)
    with True 2 strncpy_pad_nth [of "Suc i" n "s[i := 0]"] show ?thesis
      by (auto simp: nth_list_update)
  next
    case False
    with 2 have "\<not> ends t i" by (auto simp: ends_def le_eq_less_or_eq)
    moreover have "\<forall>j<Suc i. t j \<noteq> 0" using False 2 by (auto simp: less_Suc_eq)
    moreover have "i \<le> k \<longleftrightarrow> Suc i \<le> k \<or> k = i" for k by auto
    ultimately show ?thesis using False 2 by (auto simp: nth_list_update)
  qed
qed auto

text \<open>
  \<^verbatim>\<open>strncpy\<close> fills exactly the first \<open>n\<close> bytes of the destination: the string's bytes up to
  its terminator, then zeros; the rest of the destination is unchanged.
\<close>

lemma strncpy_correct:
  assumes "n \<le> length s"
  shows "length (strncpy s t n) = length s \<and>
    (\<forall>k<length s. strncpy s t n ! k = (if k < n then if ends t k then 0 else t k else s ! k))"
  using strncpy_loop_nth [of 0 n s t] assms by (simp add: strncpy_def)

lemma strncmp_eq_0:
  "strncmp p q n = 0 \<longleftrightarrow> (\<forall>i<n. (\<forall>j<i. p j \<noteq> 0) \<longrightarrow> p i = q i)"
proof (induction n arbitrary: p q)
  case (Suc n)
  show ?case
  proof (cases "p 0 \<noteq> 0 \<and> p 0 = q 0")
    case True
    then show ?thesis by (subst All_less_Suc2) (simp add: Suc All_less_Suc2)
  next
    case False
    then have "strncmp p q (Suc n) = uint (p 0) - uint (q 0)" by auto
    with False show ?thesis
      by (auto simp: All_less_Suc2 word_uint_eq_iff)
  qed
qed simp

text \<open>
  A name stored with \<^verbatim>\<open>strncpy\<close> compares under \<^verbatim>\<open>strncmp\<close>, with the same bound, exactly as the
  string it was copied from. This is what makes a directory entry found again by the name it was
  linked under (\<^verbatim>\<open>dirlink\<close>, \<^verbatim>\<open>dirlookup\<close>).
\<close>

lemma strncmp_strncpy:
  assumes "n \<le> length s"
  shows "strncmp p (arr (strncpy s t n)) n = 0 \<longleftrightarrow> strncmp p t n = 0"
proof -
  let ?q = "arr (strncpy s t n)"
  have q: "?q i = (if ends t i then 0 else t i)" if "i < n" for i
    using strncpy_correct [OF assms, of t] assms that by (auto simp: arr_def)
  have le: "p i = ?q i" if "\<forall>i<n. (\<forall>j<i. p j \<noteq> 0) \<longrightarrow> p i = t i" "i < n" "\<forall>j<i. p j \<noteq> 0" for i
  proof -
    have "t j \<noteq> 0" if "j < i" for j
      using that \<open>\<forall>i<n. (\<forall>j<i. p j \<noteq> 0) \<longrightarrow> p i = t i\<close> \<open>i < n\<close> \<open>\<forall>j<i. p j \<noteq> 0\<close>
      by (metis less_trans)
    then have "ends t i \<longleftrightarrow> t i = 0" by (auto simp: ends_def le_eq_less_or_eq)
    then show ?thesis using that q [of i] by auto
  qed
  have ge: "p i = t i" if "\<forall>i<n. (\<forall>j<i. p j \<noteq> 0) \<longrightarrow> p i = ?q i" "i < n" "\<forall>j<i. p j \<noteq> 0" for i
  proof -
    have "\<not> ends t j" if "j < i" for j
    proof -
      have "p j = ?q j" "p j \<noteq> 0" using \<open>j < i\<close> that(1) \<open>i < n\<close> \<open>\<forall>j<i. p j \<noteq> 0\<close>
          \<open>\<forall>i<n. (\<forall>j<i. p j \<noteq> 0) \<longrightarrow> p i = ?q i\<close> by (metis less_trans)+
      then show ?thesis using q [of j] \<open>j < i\<close> \<open>i < n\<close> by auto
    qed
    then have "ends t i \<longleftrightarrow> t i = 0" by (auto simp: ends_def le_eq_less_or_eq)
    then show ?thesis using that q [of i] by auto
  qed
  show ?thesis unfolding strncmp_eq_0 using le ge by blast
qed

lemma strncmp_strncpy_example:
  "strncmp (arr [97, 0]) (arr (strncpy [1, 1, 1] (arr [97, 0, 98]) 2)) 2 = 0"
  using strncmp_strncpy [of 2 "[1, 1, 1]" "arr [97, 0]" "arr [97, 0, 98]"]
  by (simp add: arr_def numeral_2_eq_2)

lemma safestrcpy_loop_correct:
  "0 < n \<Longrightarrow> i + n \<le> length s \<Longrightarrow>
   length (safestrcpy_loop s t i n) = length s \<and>
   (\<forall>j<length s. j < i \<or> i + n \<le> j \<longrightarrow> safestrcpy_loop s t i n ! j = s ! j) \<and>
   (\<exists>k. i \<le> k \<and> k < i + n \<and> safestrcpy_loop s t i n ! k = 0 \<and>
      (\<forall>j. i \<le> j \<and> j < k \<longrightarrow> safestrcpy_loop s t i n ! j = t j \<and> t j \<noteq> 0) \<and>
      (k = i + n - 1 \<or> t k = 0))"
proof (induction s t i n rule: safestrcpy_loop.induct)
  case (1 s t i n)
  let ?r = "safestrcpy_loop s t i n"
  consider (stop) "n = 1" | (nul) "1 < n" "t i = 0" | (go) "1 < n" "t i \<noteq> 0"
    using "1.prems" by linarith
  then show ?case
  proof cases
    case stop
    then have r: "?r = s[i := 0]" by (simp add: safestrcpy_loop.simps)
    show ?thesis unfolding r using stop "1.prems" by (auto intro!: exI [of _ i])
  next
    case nul
    then have r: "?r = (s[i := 0])[Suc i := 0]" by (simp add: safestrcpy_loop.simps [of s t i n])
    show ?thesis unfolding r using nul "1.prems" by (auto simp: nth_list_update intro!: exI [of _ i])
  next
    case go
    let ?q = "safestrcpy_loop (s[i := t i]) t (Suc i) (n - 1)"
    have r: "?r = ?q" using go by (simp add: safestrcpy_loop.simps [of s t i n])
    have IH: "length ?q = length s" "\<forall>j<length s. j < Suc i \<or> i + n \<le> j \<longrightarrow> ?q ! j = s[i := t i] ! j"
      and "\<exists>k. Suc i \<le> k \<and> k < i + n \<and> ?q ! k = 0 \<and>
        (\<forall>j. Suc i \<le> j \<and> j < k \<longrightarrow> ?q ! j = t j \<and> t j \<noteq> 0) \<and> (k = i + n - 1 \<or> t k = 0)"
      using "1.IH" go "1.prems" by auto
    then obtain k where k: "Suc i \<le> k" "k < i + n" "?q ! k = 0"
      "\<forall>j. Suc i \<le> j \<and> j < k \<longrightarrow> ?q ! j = t j \<and> t j \<noteq> 0" "k = i + n - 1 \<or> t k = 0" by blast
    have "?q ! i = t i" using IH(2) "1.prems" by auto
    then have "\<forall>j. i \<le> j \<and> j < k \<longrightarrow> ?q ! j = t j \<and> t j \<noteq> 0"
      using k(4) go by (metis Suc_leI le_neq_implies_less)
    with IH k show ?thesis unfolding r by (auto intro!: exI [of _ k])
  qed
qed

text \<open>
  \<^verbatim>\<open>safestrcpy\<close> always leaves a terminated string in the first \<open>n\<close> bytes: the longest prefix of
  the source that fits, then a zero byte; bytes at and beyond \<open>n\<close> are unchanged.
\<close>

lemma safestrcpy_correct:
  assumes "0 < n" and "n \<le> length s"
  shows "length (safestrcpy s t (int n)) = length s \<and>
    (\<forall>j. n \<le> j \<and> j < length s \<longrightarrow> safestrcpy s t (int n) ! j = s ! j) \<and>
    (\<exists>k<n. safestrcpy s t (int n) ! k = 0 \<and>
       (\<forall>j<k. safestrcpy s t (int n) ! j = t j \<and> t j \<noteq> 0) \<and> (k = n - 1 \<or> t k = 0))"
  using safestrcpy_loop_correct [of n 0 s t] assms by (auto simp: safestrcpy_def)

lemma safestrcpy_correct_example:
  "length (safestrcpy [1, 1, 1] (arr [97, 98, 99, 0]) 2) = 3 \<and>
   safestrcpy [1, 1, 1] (arr [97, 98, 99, 0]) 2 ! 2 = 1"
  using safestrcpy_correct [of 2 "[1, 1, 1]" "arr [97, 98, 99, 0]"] by simp

end
