(* ===== verification/Spinlock.thy ===== *)
theory Spinlock
  imports Machine
begin

text \<open>
  Mutual exclusion locks (\<^verbatim>\<open>kernel/spinlock.c\<close>) and the interrupt bits they manage
  (\<^verbatim>\<open>intr_get\<close>, \<^verbatim>\<open>intr_on\<close>, \<^verbatim>\<open>intr_off\<close> of \<^verbatim>\<open>kernel/riscv.h\<close>). The operations work on the CPU part
  of the machine state; \<open>lock\<close> and \<open>unlock\<close> lift them to any state that extends it. The spin loop
  of \<^verbatim>\<open>acquire\<close> is one test: a lock held elsewhere gives the outcome \<open>Spin\<close>, from which the
  hart can only try again.
\<close>

section \<open>The operations\<close>

definition intr_get :: "lockst \<Rightarrow> bool" where
  "intr_get l = sie l (tp l)"

definition intr_on :: "lockst \<Rightarrow> lockst" where
  "intr_on l = l\<lparr>sie := (sie l)(tp l := True)\<rparr>"

definition intr_off :: "lockst \<Rightarrow> lockst" where
  "intr_off l = l\<lparr>sie := (sie l)(tp l := False)\<rparr>"

definition mycpu :: "lockst \<Rightarrow> cpu" where
  "mycpu l = cpus l (tp l)"

definition set_mycpu :: "cpu \<Rightarrow> lockst \<Rightarrow> lockst" where
  "set_mycpu c l = l\<lparr>cpus := (cpus l)(tp l := c)\<rparr>"

definition initlock :: "lockid \<Rightarrow> string \<Rightarrow> lockst \<Rightarrow> lockst" where
  "initlock L name l = l\<lparr>spin := (spin l)(L := \<lparr>locked = False, lname = name, lcpu = None\<rparr>)\<rparr>"

definition holding :: "lockid \<Rightarrow> lockst \<Rightarrow> bool" where
  "holding L l \<longleftrightarrow> locked (spin l L) \<and> lcpu (spin l L) = Some (tp l)"

definition push_off :: "lockst \<Rightarrow> lockst" where
  "push_off l =
     (let old = intr_get l;
          l = intr_off l;
          c = mycpu l;
          c = (if noff c = 0 then c\<lparr>intena := old\<rparr> else c)
      in set_mycpu (c\<lparr>noff := noff c + 1\<rparr>) l)"

definition pop_off :: "lockst \<Rightarrow> kerr + lockst" where
  "pop_off l =
     (if intr_get l then Inl (Panic ''pop_off - interruptible'')
      else if noff (mycpu l) < 1 then Inl (Panic ''pop_off'')
      else let c = (mycpu l)\<lparr>noff := noff (mycpu l) - 1\<rparr>;
               l = set_mycpu c l
           in if noff c = 0 \<and> intena c then Inr (intr_on l) else Inr l)"

definition acquire :: "lockid \<Rightarrow> lockst \<Rightarrow> kerr + lockst" where
  "acquire L l =
     (let l = push_off l
      in if holding L l then Inl (Panic ''acquire'')
         else if locked (spin l L) then Inl (Spin L)
         else Inr (l\<lparr>spin := (spin l)(L := (spin l L)\<lparr>locked := True, lcpu := Some (tp l)\<rparr>)\<rparr>))"

definition release :: "lockid \<Rightarrow> lockst \<Rightarrow> kerr + lockst" where
  "release L l =
     (if \<not> holding L l then Inl (Panic ''release'')
      else pop_off (l\<lparr>spin := (spin l)(L := (spin l L)\<lparr>locked := False, lcpu := None\<rparr>)\<rparr>))"

text \<open>Lifting to a state that extends the machine.\<close>

definition on_lks :: "(lockst \<Rightarrow> kerr + lockst) \<Rightarrow> 'a machine_scheme \<Rightarrow> kerr + 'a machine_scheme" where
  "on_lks f s = bindE (f (lks s)) (\<lambda>l. Inr (s\<lparr>lks := l\<rparr>))"

abbreviation lock :: "lockid \<Rightarrow> 'a machine_scheme \<Rightarrow> kerr + 'a machine_scheme" where
  "lock L \<equiv> on_lks (acquire L)"

abbreviation unlock :: "lockid \<Rightarrow> 'a machine_scheme \<Rightarrow> kerr + 'a machine_scheme" where
  "unlock L \<equiv> on_lks (release L)"

section \<open>An algebra of lock states\<close>

text \<open>
  \<open>acq L l\<close> is the state after a successful \<^verbatim>\<open>acquire\<close>; \<open>settle l\<close> is what a matched pair of
  \<^verbatim>\<open>push_off\<close> and \<^verbatim>\<open>pop_off\<close> leaves behind: all of \<open>l\<close>, except that at nesting depth 0 the saved
  interrupt bit is refreshed, and at a greater depth interrupts are off.
\<close>

definition lock_free :: "lockid \<Rightarrow> lockst \<Rightarrow> bool" where
  "lock_free L l \<longleftrightarrow> \<not> locked (spin l L) \<and> lcpu (spin l L) = None"

definition acq :: "lockid \<Rightarrow> lockst \<Rightarrow> lockst" where
  "acq L l = (push_off l)\<lparr>spin := (spin l)(L := (spin l L)\<lparr>locked := True, lcpu := Some (tp l)\<rparr>)\<rparr>"

definition settle :: "lockst \<Rightarrow> lockst" where
  "settle l = (if noff (mycpu l) = 0 then set_mycpu ((mycpu l)\<lparr>intena := sie l (tp l)\<rparr>) l
     else intr_off l)"

text \<open>The locks of a machine on which hart 0 runs and nothing is held.\<close>

definition lks0 :: lockst where
  "lks0 = \<lparr>tp = 0, sie = (\<lambda>_. False), cpus = (\<lambda>_. \<lparr>cproc = None, noff = 0, intena = False\<rparr>),
     spin = (\<lambda>_. \<lparr>locked = False, lname = [], lcpu = None\<rparr>)\<rparr>"

lemma lock_free_lks0 [simp]: "lock_free L lks0"
  by (simp add: lks0_def lock_free_def)

lemmas cpu_defs = intr_get_def intr_on_def intr_off_def mycpu_def set_mycpu_def

lemma spinlock_free_eq [simp]:
  "\<not> locked k \<Longrightarrow> lcpu k = None \<Longrightarrow> k\<lparr>locked := False, lcpu := None\<rparr> = (k :: spinlock)"
  by (cases k) simp

lemma push_off_fields [simp]:
  "tp (push_off l) = tp l" "spin (push_off l) = spin l"
  "noff (mycpu (push_off l)) = Suc (noff (mycpu l))"
  "cproc (mycpu (push_off l)) = cproc (mycpu l)"
  "sie (push_off l) (tp l) = False"
  by (simp_all add: push_off_def cpu_defs Let_def)

lemma settle_fields [simp]:
  "tp (settle l) = tp l" "spin (settle l) = spin l"
  "noff (mycpu (settle l)) = noff (mycpu l)" "cproc (mycpu (settle l)) = cproc (mycpu l)"
  by (simp_all add: settle_def cpu_defs)

lemma settle_settle [simp]: "settle (settle l) = settle l"
  by (auto simp: settle_def cpu_defs)

lemma push_off_settle [simp]: "push_off (settle l) = push_off l"
  by (auto simp: push_off_def settle_def cpu_defs Let_def)

lemma acq_fields [simp]:
  "tp (acq L l) = tp l" "noff (mycpu (acq L l)) = Suc (noff (mycpu l))"
  "cproc (mycpu (acq L l)) = cproc (mycpu l)" "sie (acq L l) (tp l) = False"
  by (simp_all add: acq_def push_off_def cpu_defs Let_def)

lemma acq_settle [simp]: "acq L (settle l) = acq L l"
  by (simp add: acq_def)

lemma settle_acq [simp]: "settle (acq L l) = acq L l"
  by (simp add: settle_def) (simp add: intr_off_def acq_def push_off_def Let_def cpu_defs)

lemma lock_free_settle [simp]: "lock_free L (settle l) = lock_free L l"
  by (simp add: lock_free_def)

lemma lock_free_acq [simp]: "lock_free L (acq M l) \<longleftrightarrow> L \<noteq> M \<and> lock_free L l"
  by (simp add: lock_free_def acq_def)

lemma holding_acq [simp]: "holding L (acq L l)"
  by (simp add: holding_def acq_def)

lemma holding_acq_other [simp]: "L \<noteq> M \<Longrightarrow> holding L (acq M l) = holding L l"
  by (simp add: holding_def acq_def)

lemma holding_settle [simp]: "holding L (settle l) = holding L l"
  by (simp add: holding_def)

lemma acquire_free [lock_simps]: "lock_free L l \<Longrightarrow> acquire L l = Inr (acq L l)"
  by (simp add: acquire_def lock_free_def holding_def acq_def)

lemma pop_push_off [lock_simps]: "pop_off (push_off l) = Inr (settle l)"
  by (auto simp: pop_off_def push_off_def settle_def cpu_defs Let_def fun_upd_idem_iff)

lemma release_acq [lock_simps]: "lock_free L l \<Longrightarrow> release L (acq L l) = Inr (settle l)"
  by (auto simp: release_def holding_def pop_off_def acq_def push_off_def settle_def cpu_defs
      lock_free_def Let_def fun_upd_idem_iff)

lemma release_acq_under [lock_simps]:
  "lock_free L l \<Longrightarrow> L \<noteq> M \<Longrightarrow> release L (acq M (acq L l)) = Inr (acq M l)"
  by (auto simp: release_def holding_def pop_off_def acq_def push_off_def settle_def cpu_defs
      lock_free_def Let_def fun_upd_twist fun_upd_idem_iff)

lemma lock_ok [lock_simps]: "lock_free L (lks s) \<Longrightarrow> lock L s = Inr (s\<lparr>lks := acq L (lks s)\<rparr>)"
  by (simp add: on_lks_def acquire_free)

lemma unlock_ok [lock_simps]:
  "lks s = acq L l \<Longrightarrow> lock_free L l \<Longrightarrow> unlock L s = Inr (s\<lparr>lks := settle l\<rparr>)"
  by (simp add: on_lks_def release_acq)

lemma unlock_under [lock_simps]:
  "lks s = acq M (acq L l) \<Longrightarrow> lock_free L l \<Longrightarrow> L \<noteq> M \<Longrightarrow> unlock L s = Inr (s\<lparr>lks := acq M l\<rparr>)"
  by (simp add: on_lks_def release_acq_under)

section \<open>All harts together\<close>

text \<open>
  Any interleaving of the harts' lock operations. An unmatched \<^verbatim>\<open>pop_off\<close> is excluded, as in the
  code, where every \<^verbatim>\<open>pop_off\<close> outside \<^verbatim>\<open>release\<close> closes a \<^verbatim>\<open>push_off\<close>; interrupts are turned on
  explicitly only at depth 0 (\<^verbatim>\<open>scheduler\<close>, \<^verbatim>\<open>usertrap\<close>).
\<close>

definition held :: "lockst \<Rightarrow> nat \<Rightarrow> lockid set" where
  "held l i = {L. lcpu (spin l L) = Some i}"

inductive spin_step :: "lockst \<Rightarrow> lockst \<Rightarrow> bool" where
  run: "spin_step l (l\<lparr>tp := i\<rparr>)"
| acquire: "acquire L l = Inr l' \<Longrightarrow> spin_step l l'"
| release: "release L l = Inr l' \<Longrightarrow> spin_step l l'"
| push: "spin_step l (push_off l)"
| pop: "card (held l (tp l)) < noff (mycpu l) \<Longrightarrow> pop_off l = Inr l' \<Longrightarrow> spin_step l l'"
| on: "noff (mycpu l) = 0 \<Longrightarrow> spin_step l (intr_on l)"
| off: "spin_step l (intr_off l)"

inductive spin_reach :: "lockst \<Rightarrow> bool" where
  start: "(\<And>L. lock_free L l) \<Longrightarrow> (\<And>i. noff (cpus l i) = 0) \<Longrightarrow> spin_reach l"
| step: "spin_reach l \<Longrightarrow> spin_step l l' \<Longrightarrow> spin_reach l'"

definition spin_inv :: "lockst \<Rightarrow> bool" where
  "spin_inv l \<longleftrightarrow>
     (\<forall>L. locked (spin l L) \<longleftrightarrow> lcpu (spin l L) \<noteq> None) \<and>
     (\<forall>i. finite (held l i) \<and> card (held l i) \<le> noff (cpus l i)) \<and>
     (\<forall>i. 0 < noff (cpus l i) \<longrightarrow> \<not> sie l i)"

lemma spin_invD:
  assumes "spin_inv l"
  shows "locked (spin l L) \<longleftrightarrow> lcpu (spin l L) \<noteq> None" "finite (held l i)"
    "card (held l i) \<le> noff (cpus l i)" "0 < noff (cpus l i) \<Longrightarrow> \<not> sie l i"
  using assms by (auto simp: spin_inv_def)

lemma held_push_off [simp]: "held (push_off l) i = held l i"
  by (simp add: held_def)

lemma push_off_inv:
  assumes "spin_inv l"
  shows "spin_inv (push_off l)"
    and "noff (cpus (push_off l) i) = (if i = tp l then Suc (noff (cpus l i)) else noff (cpus l i))"
proof -
  show *: "noff (cpus (push_off l) i) = (if i = tp l then Suc (noff (cpus l i)) else noff (cpus l i))" for i
    by (simp add: push_off_def cpu_defs Let_def)
  have "sie (push_off l) i = (i \<noteq> tp l \<and> sie l i)" for i
    by (simp add: push_off_def cpu_defs Let_def)
  with assms * show "spin_inv (push_off l)"
    by (auto simp: spin_inv_def le_Suc_eq)
qed

lemma pop_off_inv:
  assumes "spin_inv l" "pop_off l = Inr l'" "card (held l (tp l)) < noff (mycpu l)"
  shows "spin_inv l'"
proof -
  have "held l' i = held l i" "spin l' = spin l" for i
    using assms(2) by (auto simp: pop_off_def held_def cpu_defs Let_def split: if_splits)
  moreover have "noff (cpus l' i) = (if i = tp l then noff (cpus l i) - 1 else noff (cpus l i))" for i
    using assms(2) by (auto simp: pop_off_def cpu_defs Let_def split: if_splits)
  moreover have "0 < noff (cpus l' i) \<Longrightarrow> \<not> sie l' i" for i
    using assms(1,2) by (auto simp: pop_off_def cpu_defs Let_def spin_inv_def split: if_splits)
  ultimately show ?thesis
    using assms(1,3) by (auto simp: spin_inv_def cpu_defs)
qed

lemma acquire_inv:
  assumes "spin_inv l" "acquire L l = Inr l'"
  shows "spin_inv l'"
proof -
  have free: "\<not> locked (spin l L)" and
    l': "l' = (push_off l)\<lparr>spin := (spin l)(L := (spin l L)\<lparr>locked := True, lcpu := Some (tp l)\<rparr>)\<rparr>"
    using assms(2) by (auto simp: acquire_def holding_def Let_def split: if_splits)
  have none: "lcpu (spin l L) = None" using free assms(1) by (auto simp: spin_inv_def)
  have h: "held l' i = (if i = tp l then insert L (held l i) else held l i)" for i
    using none by (auto simp: l' held_def)
  have "L \<notin> held l i" for i using none by (simp add: held_def)
  with h push_off_inv [OF assms(1)] assms(1) show ?thesis
    by (auto simp: spin_inv_def l' card_insert_disjoint)
qed

lemma release_inv:
  assumes "spin_inv l" "release L l = Inr l'"
  shows "spin_inv l'"
proof -
  define m where "m = l\<lparr>spin := (spin l)(L := (spin l L)\<lparr>locked := False, lcpu := None\<rparr>)\<rparr>"
  have h: "lcpu (spin l L) = Some (tp l)" and pop: "pop_off m = Inr l'"
    using assms(2) by (auto simp: release_def holding_def m_def split: if_splits)
  have held: "held m i = held l i - {L}" for i by (auto simp: held_def m_def)
  have same: "cpus m = cpus l" "sie m = sie l" "tp m = tp l" by (simp_all add: m_def)
  have "card (held m i) \<le> noff (cpus m i)" for i
    using spin_invD(2,3) [OF assms(1)] by (simp add: held same) (meson card_Diff1_le le_trans)
  then have inv: "spin_inv m"
    using assms(1) by (auto simp: spin_inv_def held same) (auto simp: m_def split: if_splits)
  have "L \<in> held l (tp l)" using h by (simp add: held_def)
  then have "card (held m (tp m)) < card (held l (tp l))"
    using spin_invD(2) [OF assms(1)] unfolding held same by (intro card_Diff1_less)
  then have "card (held m (tp m)) < noff (mycpu m)"
    using spin_invD(3) [OF assms(1), of "tp l"] by (simp add: mycpu_def same)
  then show ?thesis using pop_off_inv [OF inv pop] by simp
qed

lemma spin_step_inv: "spin_step l l' \<Longrightarrow> spin_inv l \<Longrightarrow> spin_inv l'"
proof (induction rule: spin_step.induct)
  case (run l i)
  then show ?case by (simp add: spin_inv_def held_def)
next
  case (on l)
  then show ?case by (auto simp: spin_inv_def held_def cpu_defs)
next
  case (off l)
  then show ?case by (auto simp: spin_inv_def held_def cpu_defs)
qed (auto intro: acquire_inv release_inv push_off_inv pop_off_inv)

lemma spin_reach_inv: "spin_reach l \<Longrightarrow> spin_inv l"
proof (induction rule: spin_reach.induct)
  case (start l)
  then show ?case by (simp add: spin_inv_def held_def lock_free_def)
next
  case (step l l')
  then show ?case by (blast intro: spin_step_inv)
qed

text \<open>
  C6: mutual exclusion. In every reachable state, while hart \<open>i\<close> holds lock \<open>L\<close>, no hart can
  acquire it: another hart keeps spinning, and hart \<open>i\<close> itself panics instead of deadlocking.
  Interrupts are off on the holder, and its nesting depth is positive.
\<close>

theorem spin_mutual_exclusion:
  assumes "spin_reach l" and "lcpu (spin l L) = Some i"
  shows "acquire L (l\<lparr>tp := j\<rparr>) = (if j = i then Inl (Panic ''acquire'') else Inl (Spin L))
    \<and> \<not> sie l i \<and> 0 < noff (cpus l i)"
proof -
  have inv: "spin_inv l" using assms(1) by (rule spin_reach_inv)
  have "locked (spin l L)" using inv assms(2) by (simp add: spin_inv_def)
  then have "acquire L (l\<lparr>tp := j\<rparr>) = (if j = i then Inl (Panic ''acquire'') else Inl (Spin L))"
    using assms(2) by (auto simp: acquire_def holding_def Let_def)
  moreover have "L \<in> held l i" using assms(2) by (simp add: held_def)
  then have "0 < noff (cpus l i)"
    using spin_invD(2,3) [OF inv, of i] by (metis card_gt_0_iff empty_iff le_zero_eq neq0_conv)
  ultimately show ?thesis using spin_invD(4) [OF inv] by blast
qed

theorem spin_mutual_exclusion_witness:
  "acquire KmemLock ((acq KmemLock lks0)\<lparr>tp := 1\<rparr>) = Inl (Spin KmemLock) \<and> \<not> sie (acq KmemLock lks0) 0"
proof -
  have "spin_reach lks0" by (rule spin_reach.start) (simp_all add: lks0_def lock_free_def)
  then have "spin_reach (acq KmemLock lks0)"
    by (rule spin_reach.step) (rule spin_step.acquire, simp add: acquire_free)
  moreover have "lcpu (spin (acq KmemLock lks0) KmemLock) = Some 0" by (simp add: acq_def lks0_def)
  ultimately show ?thesis using spin_mutual_exclusion [of "acq KmemLock lks0" KmemLock 0 1] by simp
qed

end
