(* ===== verification/Printf.thy ===== *)
theory Printf
  imports Spinlock
begin

unbundle bit_operations_syntax

text \<open>
  Formatted kernel output: the polled transmit path of \<^verbatim>\<open>kernel/uart.c\<close>, \<^verbatim>\<open>consputc\<close> of
  \<^verbatim>\<open>kernel/console.c\<close> and \<^verbatim>\<open>kernel/printf.c\<close>. The UART is an environment: the list \<open>lsr_in\<close> holds
  what successive reads of its line status register return (0, that is not ready, once it is used
  up), \<open>rhr_in\<close> what reads of the receive register return, and \<open>thr_out\<close> collects the bytes
  written to the transmit register.
\<close>

record uartst = machine +
  lsr_in :: "byte list"
  rhr_in :: "byte list"
  thr_out :: "byte list"
  panicked :: bool
  pr_locking :: bool

definition str :: "string \<Rightarrow> byte list" where
  "str cs = map of_char cs"

section \<open>Polled output\<close>

definition tx_idle :: "byte \<Rightarrow> bool" where
  "tx_idle x \<longleftrightarrow> x AND 0x20 \<noteq> 0"

text \<open>The loop \<^verbatim>\<open>while((ReadReg(LSR) & LSR_TX_IDLE) == 0)\<close>; no reading left means it spins forever.\<close>

fun lsr_wait :: "byte list \<Rightarrow> byte list option" where
  "lsr_wait [] = None"
| "lsr_wait (x # xs) = (if tx_idle x then Some xs else lsr_wait xs)"

definition uartputc_sync :: "byte \<Rightarrow> 'a uartst_scheme \<Rightarrow> kerr + 'a uartst_scheme" where
  "uartputc_sync c s =
     (let s = s\<lparr>lks := push_off (lks s)\<rparr>
      in if panicked s then Inl (Hang ''panicked'')
         else case lsr_wait (lsr_in s) of
                None \<Rightarrow> Inl (Hang ''LSR'')
              | Some rest \<Rightarrow> on_lks pop_off (s\<lparr>lsr_in := rest, thr_out := thr_out s @ [c]\<rparr>))"

abbreviation (input) BACKSPACE :: int where "BACKSPACE \<equiv> 0x100"

definition consputc :: "int \<Rightarrow> 'a uartst_scheme \<Rightarrow> kerr + 'a uartst_scheme" where
  "consputc c s =
     (if c = BACKSPACE
      then bindE (uartputc_sync 8 s) (\<lambda>s. bindE (uartputc_sync 32 s) (uartputc_sync 8))
      else uartputc_sync (of_int c) s)"

fun consputs :: "byte list \<Rightarrow> 'a uartst_scheme \<Rightarrow> kerr + 'a uartst_scheme" where
  "consputs [] s = Inr s"
| "consputs (c # cs) s = bindE (consputc (uint c) s) (consputs cs)"

section \<open>printf\<close>

definition digits :: "byte list" where
  "digits = str ''0123456789abcdef''"

text \<open>
  The digit loop of \<^verbatim>\<open>printint\<close>, least significant digit first, as it fills \<^verbatim>\<open>buf\<close>. The code calls it
  with base 10 and 16 only.
\<close>

function int_digits :: "uint \<Rightarrow> uint \<Rightarrow> byte list" where
  "int_digits base x =
     digits ! unat (x mod base) # (if 1 < base \<and> x div base \<noteq> 0 then int_digits base (x div base) else [])"
  by pat_completeness auto
termination
proof (relation "measure (\<lambda>(base, x). unat x)")
  fix base x :: uint
  assume "1 < base \<and> x div base \<noteq> 0"
  then have "1 < unat base" "x \<noteq> 0" by (auto simp: word_less_nat_alt)
  then show "((base, x div base), base, x) \<in> measure (\<lambda>(base, x). unat x)"
    by (simp add: unat_div unat_gt_0)
qed simp

declare int_digits.simps [simp del]

definition int_text :: "uint \<Rightarrow> uint \<Rightarrow> bool \<Rightarrow> byte list" where
  "int_text xx base sign =
     (let neg = sign \<and> xx <s 0;
          x = (if neg then - xx else xx)
      in rev (int_digits base x @ (if neg then str ''-'' else [])))"

definition printint :: "uint \<Rightarrow> uint \<Rightarrow> bool \<Rightarrow> 'a uartst_scheme \<Rightarrow> kerr + 'a uartst_scheme" where
  "printint xx base sign s = consputs (int_text xx base sign) s"

primrec ptr_digits :: "nat \<Rightarrow> uint64 \<Rightarrow> byte list" where
  "ptr_digits 0 x = []"
| "ptr_digits (Suc k) x = digits ! unat (drop_bit 60 x) # ptr_digits k (push_bit 4 x)"

definition printptr :: "uint64 \<Rightarrow> 'a uartst_scheme \<Rightarrow> kerr + 'a uartst_scheme" where
  "printptr x s = consputs (str ''0x'' @ ptr_digits 16 x) s"

text \<open>The variable arguments of \<^verbatim>\<open>printf\<close>; a null string pointer is \<open>None\<close>.\<close>

datatype parg = AInt uint | APtr uint64 | AStr "byte list option"

fun printf_loop :: "byte list \<Rightarrow> parg list \<Rightarrow> 'a uartst_scheme \<Rightarrow> kerr + 'a uartst_scheme" where
  "printf_loop [] ap s = Inr s"
| "printf_loop (c # fmt) ap s =
     (if c = 0 then Inr s
      else if c \<noteq> of_char CHR ''%'' then bindE (consputc (uint c) s) (printf_loop fmt ap)
      else case fmt of
        [] \<Rightarrow> Inr s
      | k # fmt' \<Rightarrow>
          if k = 0 then Inr s
          else if k = of_char CHR ''d'' then
            (case ap of AInt x # ap' \<Rightarrow> bindE (printint x 10 True s) (printf_loop fmt' ap')
             | _ \<Rightarrow> Inl (Fault ''va_arg''))
          else if k = of_char CHR ''x'' then
            (case ap of AInt x # ap' \<Rightarrow> bindE (printint x 16 True s) (printf_loop fmt' ap')
             | _ \<Rightarrow> Inl (Fault ''va_arg''))
          else if k = of_char CHR ''p'' then
            (case ap of APtr x # ap' \<Rightarrow> bindE (printptr x s) (printf_loop fmt' ap')
             | _ \<Rightarrow> Inl (Fault ''va_arg''))
          else if k = of_char CHR ''s'' then
            (case ap of AStr t # ap' \<Rightarrow>
               bindE (consputs (case t of None \<Rightarrow> str ''(null)'' | Some cs \<Rightarrow> takeWhile (\<lambda>c. c \<noteq> 0) cs) s)
                 (printf_loop fmt' ap')
             | _ \<Rightarrow> Inl (Fault ''va_arg''))
          else if k = of_char CHR ''%'' then bindE (consputc (uint k) s) (printf_loop fmt' ap)
          else bindE (consputs (str ''%'' @ [k]) s) (printf_loop fmt' ap))"

definition printf :: "byte list \<Rightarrow> parg list \<Rightarrow> 'a uartst_scheme \<Rightarrow> kerr + 'a uartst_scheme" where
  "printf fmt ap s =
     (let locking = pr_locking s
      in bindE (if locking then lock PrLock s else Inr s) (\<lambda>s.
         bindE (printf_loop fmt ap s) (\<lambda>s.
         if locking then unlock PrLock s else Inr s)))"

definition printfinit :: "'a uartst_scheme \<Rightarrow> 'a uartst_scheme" where
  "printfinit s = s\<lparr>lks := initlock PrLock ''pr'' (lks s), pr_locking := True\<rparr>"

section \<open>What is transmitted\<close>

text \<open>The device is ready often enough: at least \<open>n\<close> of the coming status reads show it idle.\<close>

definition idle_count :: "byte list \<Rightarrow> nat" where
  "idle_count xs = length (filter tx_idle xs)"

lemma lsr_wait_idle:
  "0 < idle_count xs \<Longrightarrow> \<exists>rest. lsr_wait xs = Some rest \<and> idle_count rest = idle_count xs - 1"
  by (induction xs) (auto simp: idle_count_def)

lemma uartputc_sync_ok:
  assumes "\<not> panicked s" "lsr_wait (lsr_in s) = Some rest"
  shows "uartputc_sync c s =
    Inr (s\<lparr>lks := settle (lks s), lsr_in := rest, thr_out := thr_out s @ [c]\<rparr>)"
  using assms by (simp add: uartputc_sync_def on_lks_def pop_push_off Let_def)

lemma consputc_byte: "consputc (uint (c::byte)) s = uartputc_sync c s"
proof -
  have "uint c < 256" using uint_bounded [of c] by simp
  then show ?thesis by (simp add: consputc_def)
qed

lemma consputs_ok:
  assumes "\<not> panicked s" "length cs \<le> idle_count (lsr_in s)"
  shows "\<exists>rest. consputs cs s =
      Inr (s\<lparr>lks := (if cs = [] then lks s else settle (lks s)), lsr_in := rest, thr_out := thr_out s @ cs\<rparr>)
    \<and> idle_count rest = idle_count (lsr_in s) - length cs"
  using assms
proof (induction cs arbitrary: s)
  case Nil
  show ?case by (rule exI [of _ "lsr_in s"]) simp
next
  case (Cons c cs)
  then obtain rest where rest: "lsr_wait (lsr_in s) = Some rest"
      and n: "idle_count rest = idle_count (lsr_in s) - 1"
    using lsr_wait_idle [of "lsr_in s"] by auto
  let ?s = "s\<lparr>lks := settle (lks s), lsr_in := rest, thr_out := thr_out s @ [c]\<rparr>"
  have step: "consputc (uint c) s = Inr ?s"
    using Cons.prems rest by (simp add: consputc_byte uartputc_sync_ok)
  have "\<not> panicked ?s" "length cs \<le> idle_count (lsr_in ?s)" using Cons.prems n by simp_all
  from Cons.IH [OF this] obtain rest' where r: "consputs cs ?s =
      Inr (?s\<lparr>lks := (if cs = [] then lks ?s else settle (lks ?s)), lsr_in := rest', thr_out := thr_out ?s @ cs\<rparr>)"
    and n': "idle_count rest' = idle_count (lsr_in ?s) - length cs" by blast
  have "consputs (c # cs) s =
      Inr (s\<lparr>lks := settle (lks s), lsr_in := rest', thr_out := thr_out s @ c # cs\<rparr>)"
    using step r by (cases "cs = []") simp_all
  with n n' show ?case by (auto intro!: exI [of _ rest'])
qed

section \<open>The number printed is the number given\<close>

text \<open>The value of a digit, and of a text of digits with an optional minus sign.\<close>

definition dval :: "byte \<Rightarrow> nat" where
  "dval d = (case scan (\<lambda>i. digits ! i = d) 0 16 of None \<Rightarrow> 0 | Some i \<Rightarrow> i)"

definition digits_value :: "nat \<Rightarrow> byte list \<Rightarrow> nat" where
  "digits_value base ds = foldl (\<lambda>a d. base * a + dval d) 0 ds"

definition text_value :: "nat \<Rightarrow> byte list \<Rightarrow> int" where
  "text_value base t =
     (if t \<noteq> [] \<and> hd t = of_char CHR ''-'' then - int (digits_value base (tl t))
      else int (digits_value base t))"

lemma digits_nth: "digits = [48,49,50,51,52,53,54,55,56,57,97,98,99,100,101,102]"
  by (simp add: digits_def str_def of_char_def)

lemma dval_digits: "i < 16 \<Longrightarrow> dval (digits ! i) = i"
proof -
  have "\<forall>i\<in>set [0..<16]. dval (digits ! i) = i"
    by (simp add: upt_rec dval_def digits_nth scan.simps)
  then show "i < 16 \<Longrightarrow> dval (digits ! i) = i" by simp
qed

lemma digits_not_minus: "i < 16 \<Longrightarrow> digits ! i \<noteq> of_char CHR ''-''"
proof -
  have "\<forall>i\<in>set [0..<16]. digits ! i \<noteq> of_char CHR ''-''"
    by (simp add: upt_rec digits_nth of_char_def)
  then show "i < 16 \<Longrightarrow> digits ! i \<noteq> of_char CHR ''-''" by simp
qed

lemma int_digits_value:
  assumes "1 < base" "base \<le> 16"
  shows "digits_value (unat base) (rev (int_digits base x)) = unat x"
  using assms
proof (induction base x rule: int_digits.induct)
  case (1 base x)
  have b: "1 < unat base" "unat base \<le> 16"
    using "1.prems" by (simp_all add: word_less_nat_alt word_le_nat_alt)
  then have m: "unat (x mod base) < 16" "unat (x mod base) = unat x mod unat base"
    using mod_less_divisor [of "unat base" "unat x"] unfolding unat_mod by linarith+
  have snoc: "digits_value n (ds @ [d]) = n * digits_value n ds + dval d" for n ds d
    by (simp add: digits_value_def)
  show ?case
  proof (cases "x div base = 0")
    case True
    then have "unat x div unat base = 0" by (metis unat_div unsigned_0)
    then have "unat x mod unat base = unat x" by (metis mod_less div_eq_0_iff b(1) not_less0)
    with True m show ?thesis
      by (subst int_digits.simps) (simp add: digits_value_def dval_digits)
  next
    case False
    with "1.IH" "1.prems" have "digits_value (unat base) (rev (int_digits base (x div base))) = unat (x div base)"
      by simp
    with False "1.prems" m show ?thesis
      by (subst int_digits.simps) (simp add: snoc dval_digits unat_div)
  qed
qed

lemma int_digits_no_minus:
  assumes "1 < base" "base \<le> 16" "d \<in> set (int_digits base x)"
  shows "d \<noteq> of_char CHR ''-''"
  using assms
proof (induction base x rule: int_digits.induct)
  case (1 base x)
  have "unat base \<le> 16" "0 < unat base"
    using "1.prems" by (auto simp: word_less_nat_alt word_le_nat_alt)
  then have "unat (x mod base) < 16"
    using mod_less_divisor [of "unat base" "unat x"] unfolding unat_mod by linarith
  moreover have "d = digits ! unat (x mod base) \<or> x div base \<noteq> 0 \<and> d \<in> set (int_digits base (x div base))"
    using "1.prems"(3) by (subst (asm) int_digits.simps) (auto split: if_splits)
  ultimately show ?case
    using "1.IH" "1.prems"(1,2) digits_not_minus [of "unat (x mod base)"] by auto
qed

lemma int_digits_ne: "int_digits base x \<noteq> []"
  by (subst int_digits.simps) simp

text \<open>
  C16: the text \<^verbatim>\<open>printint\<close> sends for a signed number, read back in the same base, is the number:
  for every 32-bit value, the most negative one included, and in base 10 as in base 16.
\<close>

theorem printint_roundtrip:
  assumes "base = 10 \<or> base = 16"
  shows "text_value (unat base) (int_text xx base True) = sint xx"
proof -
  have b: "1 < base" "base \<le> 16" using assms by auto
  have nm: "hd (rev (int_digits base x)) \<noteq> of_char CHR ''-''" for x
    using int_digits_no_minus [OF b] int_digits_ne by (metis hd_in_set rev_is_Nil_conv set_rev)
  have v: "digits_value (unat base) (rev (int_digits base x)) = unat x" for x
    by (rule int_digits_value [OF b])
  show ?thesis
  proof (cases "xx <s 0")
    case True
    then have neg: "sint xx < 0" by (simp add: word_sless_alt)
    then have u: "- uint xx = - sint xx - 2 ^ 32" by (simp add: uint_sint32)
    have "uint (- xx) = (- uint xx) mod 2 ^ LENGTH(32)" by (rule uint_word_ariths)
    also have "\<dots> = (- sint xx) mod 2 ^ 32" unfolding u by simp
    also have "\<dots> = - sint xx"
      using neg sint_ge [of xx] by (intro mod_pos_pos_trivial) simp_all
    finally have "int (unat (- xx)) = - sint xx" by simp
    with True v show ?thesis
      by (simp add: int_text_def text_value_def str_def)
  next
    case False
    then have "0 \<le> sint xx" by (simp add: word_sless_alt)
    then have "int (unat xx) = sint xx"
      by (simp add: uint_sint32)
    with False v [of xx] nm [of xx] show ?thesis
      by (simp add: int_text_def text_value_def int_digits_ne)
  qed
qed

theorem printint_roundtrip_witness: "text_value 10 (int_text (- 2147483648) 10 True) = - 2147483648"
  using printint_roundtrip [of 10 "- 2147483648"] by simp

end
