(* ===== verification/Kalloc.thy ===== *)
theory Kalloc
  imports Cstring Printf
begin

unbundle bit_operations_syntax

text \<open>
  The physical page allocator (\<^verbatim>\<open>kernel/kalloc.c\<close>). The free list is threaded through the free pages
  themselves: the first eight bytes of a free page hold the address of the next one. The interface
  \<open>page_allocator\<close> says what the rest of the kernel relies on, in terms of the list of free pages.
\<close>

record kmemst = uartst +
  freelist :: addr

section \<open>The operations\<close>

definition kfree :: "addr \<Rightarrow> 'a kmemst_scheme \<Rightarrow> kerr + 'a kmemst_scheme" where
  "kfree pa s =
     (if pa mod PGSIZE \<noteq> 0 \<or> pa < kend s \<or> pa \<ge> PHYSTOP then Inl (Panic ''kfree'')
      else let s = s\<lparr>mem := memset pa 1 4096 (mem s)\<rparr>
           in bindE (lock KmemLock s) (\<lambda>s.
              let s = s\<lparr>mem := wr64 (mem s) pa (freelist s)\<rparr>;
                  s = s\<lparr>freelist := pa\<rparr>
              in unlock KmemLock s))"

definition kalloc :: "'a kmemst_scheme \<Rightarrow> kerr + addr \<times> 'a kmemst_scheme" where
  "kalloc s =
     bindE (lock KmemLock s) (\<lambda>s.
     let r = freelist s;
         s = (if r \<noteq> 0 then s\<lparr>freelist := rd64 (mem s) r\<rparr> else s)
     in bindE (unlock KmemLock s) (\<lambda>s.
        Inr (r, if r \<noteq> 0 then s\<lparr>mem := memset r 5 4096 (mem s)\<rparr> else s)))"

lemma kfree_bound: "kfree pa s = Inr s' \<Longrightarrow> pa < PHYSTOP"
  by (auto simp: kfree_def not_le split: if_splits)

function freerange_loop :: "addr \<Rightarrow> addr \<Rightarrow> 'a kmemst_scheme \<Rightarrow> kerr + 'a kmemst_scheme" where
  "freerange_loop p pa_end s =
     (if p + PGSIZE \<le> pa_end then bindE (kfree p s) (freerange_loop (p + PGSIZE) pa_end) else Inr s)"
  by pat_completeness auto
termination
proof (relation "measure (\<lambda>(p, e, s). 2 ^ 32 - unat p)")
  fix p e s s'
  assume "kfree p s = Inr s'"
  then have "unat p < 0x88000000" by (drule_tac kfree_bound) (simp add: word_less_nat_alt)
  then show "((p + 4096, e, s'), p, e, s) \<in> measure (\<lambda>(p, e, s). 2 ^ 32 - unat p)"
    by (simp add: unat_word_ariths)
qed simp

declare freerange_loop.simps [simp del]

definition freerange :: "addr \<Rightarrow> addr \<Rightarrow> 'a kmemst_scheme \<Rightarrow> kerr + 'a kmemst_scheme" where
  "freerange pa_start pa_end s = freerange_loop (PGROUNDUP pa_start) pa_end s"

definition kinit :: "'a kmemst_scheme \<Rightarrow> kerr + 'a kmemst_scheme" where
  "kinit s = freerange (kend s) PHYSTOP (s\<lparr>lks := initlock KmemLock ''kmem'' (lks s)\<rparr>)"

section \<open>The free list\<close>

fun free_chain_from :: "(addr \<Rightarrow> byte) \<Rightarrow> addr \<Rightarrow> addr list \<Rightarrow> bool" where
  "free_chain_from m p [] \<longleftrightarrow> p = 0"
| "free_chain_from m p (x # xs) \<longleftrightarrow> p = x \<and> x \<noteq> 0 \<and> free_chain_from m (rd64 m x) xs"

definition ram_page :: "'a machine_scheme \<Rightarrow> addr \<Rightarrow> bool" where
  "ram_page s x \<longleftrightarrow> aligned x \<and> kend s \<le> x \<and> x < PHYSTOP \<and> x \<noteq> 0"

text \<open>
  The allocator's invariant: the chain from \<open>freelist\<close> runs through exactly the pages \<open>xs\<close>, each once,
  all of them pages of the allocator's range; and nobody is inside a critical section.
\<close>

definition kmem_inv :: "'a kmemst_scheme \<Rightarrow> addr list \<Rightarrow> bool" where
  "kmem_inv s xs \<longleftrightarrow>
     free_chain_from (mem s) (freelist s) xs \<and> distinct xs \<and> (\<forall>x\<in>set xs. ram_page s x) \<and>
     lock_free KmemLock (lks s)"

lemma ram_page_aligned: "ram_page s x \<Longrightarrow> aligned x"
  by (simp add: ram_page_def)

lemma rd64_other_page:
  assumes "aligned x" "\<And>a. PGROUNDDOWN a = x \<Longrightarrow> m' a = m a"
  shows "rd64 m' x = rd64 m x"
proof -
  have "m' (x + of_nat i) = m (x + of_nat i)" if "i < 8" for i
    using that assms by (intro assms(2) PGROUNDDOWN_page_off) (simp_all add: unat_of_nat)
  then show ?thesis unfolding rd64_def by (metis mem_get_cong)
qed

text \<open>Writes outside the free pages keep the chain.\<close>

lemma free_chain_frame:
  assumes "free_chain_from m p xs" "\<And>x. x \<in> set xs \<Longrightarrow> aligned x"
    "\<And>a. PGROUNDDOWN a \<in> set xs \<Longrightarrow> m' a = m a"
  shows "free_chain_from m' p xs"
  using assms
proof (induction xs arbitrary: p)
  case (Cons x xs)
  have "rd64 m' x = rd64 m x" using Cons.prems by (intro rd64_other_page) auto
  with Cons show ?case by auto
qed simp

lemma page_fill_other:
  assumes "aligned p" "PGROUNDDOWN a \<noteq> p"
  shows "mem_put m p (replicate 4096 c) a = m a"
  using mem_put_other_page [of p 0 "replicate 4096 c" a m] assms by simp

lemma page_head_other:
  assumes "aligned p" "PGROUNDDOWN a \<noteq> p"
  shows "wr64 m p v a = m a"
  using mem_put_other_page [of p 0 "le_enc 8 v" a m] assms by (simp add: wr64_def)

section \<open>The operations against the free list\<close>

lemma kalloc_empty:
  assumes "kmem_inv s []"
  shows "kalloc s = Inr (0, s\<lparr>lks := settle (lks s)\<rparr>)"
  using assms by (simp add: kalloc_def kmem_inv_def lock_simps Let_def)

lemma kalloc_Cons:
  assumes "kmem_inv s (x # xs)"
  shows "kalloc s = Inr (x, s\<lparr>lks := settle (lks s), freelist := rd64 (mem s) x,
    mem := mem_put (mem s) x (replicate 4096 5)\<rparr>)"
  using assms by (simp add: kalloc_def kmem_inv_def lock_simps Let_def memset_eq)

lemma kalloc_inv:
  assumes "kmem_inv s (x # xs)" "kalloc s = Inr (r, s')"
  shows "r = x \<and> kmem_inv s' xs"
proof -
  have s': "r = x" "s' = s\<lparr>lks := settle (lks s), freelist := rd64 (mem s) x,
      mem := mem_put (mem s) x (replicate 4096 5)\<rparr>"
    using kalloc_Cons [OF assms(1)] assms(2) by simp_all
  have inv: "free_chain_from (mem s) (rd64 (mem s) x) xs" "x \<notin> set xs" "aligned x"
      "\<And>y. y \<in> set xs \<Longrightarrow> aligned y"
    using assms(1) by (auto simp: kmem_inv_def ram_page_aligned)
  have "free_chain_from (mem_put (mem s) x (replicate 4096 5)) (rd64 (mem s) x) xs"
  proof (rule free_chain_frame [OF inv(1)])
    fix a assume "PGROUNDDOWN a \<in> set xs"
    with inv(2) have "PGROUNDDOWN a \<noteq> x" by metis
    then show "mem_put (mem s) x (replicate 4096 5) a = mem s a"
      by (rule page_fill_other [OF inv(3)])
  qed (rule inv(4))
  then show ?thesis using assms(1) by (simp add: s' kmem_inv_def ram_page_def)
qed

lemma kfree_ok:
  assumes "kmem_inv s xs" "ram_page s x"
  shows "kfree x s = Inr (s\<lparr>lks := settle (lks s), freelist := x,
    mem := wr64 (mem_put (mem s) x (replicate 4096 1)) x (freelist s)\<rparr>)"
  using assms
  by (simp add: kfree_def kmem_inv_def ram_page_def aligned_def lock_simps Let_def memset_eq not_less not_le)

lemma kfree_inv:
  assumes "kmem_inv s xs" "ram_page s x" "x \<notin> set xs" "kfree x s = Inr s'"
  shows "kmem_inv s' (x # xs)"
proof -
  have s': "s' = s\<lparr>lks := settle (lks s), freelist := x,
      mem := wr64 (mem_put (mem s) x (replicate 4096 1)) x (freelist s)\<rparr>"
    using kfree_ok [OF assms(1,2)] assms(4) by simp
  have inv: "free_chain_from (mem s) (freelist s) xs" "aligned x" "\<And>y. y \<in> set xs \<Longrightarrow> aligned y"
    using assms(1,2) by (auto simp: kmem_inv_def ram_page_aligned)
  have "free_chain_from (wr64 (mem_put (mem s) x (replicate 4096 1)) x (freelist s)) (freelist s) xs"
  proof (rule free_chain_frame [OF inv(1)])
    fix a assume "PGROUNDDOWN a \<in> set xs"
    with assms(3) have "PGROUNDDOWN a \<noteq> x" by metis
    then show "wr64 (mem_put (mem s) x (replicate 4096 1)) x (freelist s) a = mem s a"
      using inv(2) by (simp add: page_head_other page_fill_other)
  qed (rule inv(3))
  then show ?thesis using assms(1-3) by (simp add: s' kmem_inv_def ram_page_def rd64_wr64)
qed

text \<open>\<^verbatim>\<open>kfree\<close> refuses every address that is not a page of the allocator's range.\<close>

lemma kfree_panics:
  "\<not> aligned pa \<or> pa < kend s \<or> PHYSTOP \<le> pa \<Longrightarrow> kfree pa s = Inl (Panic ''kfree'')"
  by (auto simp: kfree_def aligned_def)

section \<open>The allocator's interface\<close>

text \<open>\<open>n\<close> allocations in a row, as a client that needs several pages makes them.\<close>

primrec alloc_n :: "('s \<Rightarrow> kerr + addr \<times> 's) \<Rightarrow> nat \<Rightarrow> 's \<Rightarrow> kerr + addr list \<times> 's" where
  "alloc_n f 0 s = Inr ([], s)"
| "alloc_n f (Suc n) s =
     bindE (f s) (\<lambda>(x, s). bindE (alloc_n f n s) (\<lambda>(xs, s). Inr (x # xs, s)))"

locale page_allocator =
  fixes alloc :: "'s \<Rightarrow> kerr + addr \<times> 's"
    and free :: "addr \<Rightarrow> 's \<Rightarrow> kerr + 's"
    and inv :: "'s \<Rightarrow> addr list \<Rightarrow> bool"
    and page :: "'s \<Rightarrow> addr \<Rightarrow> bool"
    and memory :: "'s \<Rightarrow> addr \<Rightarrow> byte"
  assumes inv_pages: "inv s xs \<Longrightarrow> distinct xs \<and> 0 \<notin> set xs \<and> (\<forall>x\<in>set xs. page s x)"
    and alloc_some: "inv s (x # xs) \<Longrightarrow> \<exists>s'. alloc s = Inr (x, s') \<and> inv s' xs \<and> page s' = page s \<and>
          (\<forall>a. PGROUNDDOWN a \<noteq> x \<longrightarrow> memory s' a = memory s a)"
    and alloc_none: "inv s [] \<Longrightarrow> \<exists>s'. alloc s = Inr (0, s') \<and> inv s' [] \<and> page s' = page s \<and>
          memory s' = memory s"
    and free_page: "inv s xs \<Longrightarrow> page s x \<Longrightarrow> x \<notin> set xs \<Longrightarrow>
          \<exists>s'. free x s = Inr s' \<and> inv s' (x # xs) \<and> page s' = page s \<and>
            (\<forall>a. PGROUNDDOWN a \<noteq> x \<longrightarrow> memory s' a = memory s a)"
begin

lemma alloc_n_take:
  "inv s xs \<Longrightarrow> n \<le> length xs \<Longrightarrow>
   \<exists>s'. alloc_n alloc n s = Inr (take n xs, s') \<and> inv s' (drop n xs) \<and> page s' = page s \<and>
     (\<forall>a. PGROUNDDOWN a \<notin> set (take n xs) \<longrightarrow> memory s' a = memory s a)"
proof (induction n arbitrary: s xs)
  case (Suc n)
  then obtain x ys where xs: "xs = x # ys" by (cases xs) auto
  from alloc_some [of s x ys] Suc.prems(1) obtain s1 where s1: "alloc s = Inr (x, s1)" "inv s1 ys"
    "page s1 = page s" "\<forall>a. PGROUNDDOWN a \<noteq> x \<longrightarrow> memory s1 a = memory s a" unfolding xs by blast
  moreover from Suc.IH [OF s1(2)] Suc.prems(2) obtain s2 where "alloc_n alloc n s1 = Inr (take n ys, s2)"
    "inv s2 (drop n ys)" "page s2 = page s1"
    "\<forall>a. PGROUNDDOWN a \<notin> set (take n ys) \<longrightarrow> memory s2 a = memory s1 a" unfolding xs by auto
  ultimately show ?case unfolding xs by simp
qed simp

lemma alloc_zero_iff:
  "inv s xs \<Longrightarrow> (\<exists>s'. alloc s = Inr (0, s')) \<longleftrightarrow> xs = []"
  using alloc_none [of s] alloc_some [of s] inv_pages [of s xs] by (cases xs) force+

text \<open>A page that is freed is the next one to be handed out, and nothing else is lost.\<close>

lemma free_then_alloc:
  assumes "inv s xs" "page s x" "x \<notin> set xs"
  shows "\<exists>s1 s2. free x s = Inr s1 \<and> alloc s1 = Inr (x, s2) \<and> inv s2 xs \<and>
    (\<forall>a. PGROUNDDOWN a \<noteq> x \<longrightarrow> memory s2 a = memory s a)"
proof -
  obtain s1 where s1: "free x s = Inr s1" "inv s1 (x # xs)"
      "\<forall>a. PGROUNDDOWN a \<noteq> x \<longrightarrow> memory s1 a = memory s a"
    using free_page [OF assms] by blast
  obtain s2 where "alloc s1 = Inr (x, s2)" "inv s2 xs"
      "\<forall>a. PGROUNDDOWN a \<noteq> x \<longrightarrow> memory s2 a = memory s1 a"
    using alloc_some [OF s1(2)] by blast
  with s1 show ?thesis by auto
qed

end

interpretation kpages: page_allocator kalloc kfree kmem_inv ram_page mem
proof unfold_locales
  fix s :: "'a kmemst_scheme" and xs
  assume "kmem_inv s xs"
  then show "distinct xs \<and> 0 \<notin> set xs \<and> (\<forall>x\<in>set xs. ram_page s x)"
    by (auto simp: kmem_inv_def ram_page_def)
next
  fix s :: "'a kmemst_scheme" and x xs
  assume inv: "kmem_inv s (x # xs)"
  then have "aligned x" by (auto simp: kmem_inv_def dest: ram_page_aligned)
  with kalloc_Cons [OF inv] kalloc_inv [OF inv] show
    "\<exists>s'. kalloc s = Inr (x, s') \<and> kmem_inv s' xs \<and> ram_page s' = ram_page s \<and>
       (\<forall>a. PGROUNDDOWN a \<noteq> x \<longrightarrow> mem s' a = mem s a)"
    by (simp add: page_fill_other ram_page_def fun_eq_iff)
next
  fix s :: "'a kmemst_scheme"
  assume inv: "kmem_inv s []"
  with kalloc_empty [OF inv] show
    "\<exists>s'. kalloc s = Inr (0, s') \<and> kmem_inv s' [] \<and> ram_page s' = ram_page s \<and> mem s' = mem s"
    by (simp add: kmem_inv_def ram_page_def fun_eq_iff)
next
  fix s :: "'a kmemst_scheme" and xs x
  assume inv: "kmem_inv s xs" and x: "ram_page s x" "x \<notin> set xs"
  then have "aligned x" by (auto dest: ram_page_aligned)
  with kfree_ok [OF inv x(1)] kfree_inv [OF inv x] show
    "\<exists>s'. kfree x s = Inr s' \<and> kmem_inv s' (x # xs) \<and> ram_page s' = ram_page s \<and>
       (\<forall>a. PGROUNDDOWN a \<noteq> x \<longrightarrow> mem s' a = mem s a)"
    by (simp add: page_fill_other page_head_other ram_page_def fun_eq_iff)
qed

section \<open>Initialisation\<close>

text \<open>The \<open>n\<close> pages from \<open>p\<close> on.\<close>

definition pages_from :: "addr \<Rightarrow> nat \<Rightarrow> addr list" where
  "pages_from p n = map (\<lambda>i. p + 4096 * of_nat i) [0..<n]"

lemma pages_from_0 [simp]: "pages_from p 0 = []"
  by (simp add: pages_from_def)

lemma pages_from_Suc: "pages_from p (Suc n) = p # pages_from (p + 4096) n"
  by (rule nth_equalityI) (auto simp: pages_from_def nth_Cons' of_nat_diff algebra_simps simp del: upt_Suc)

lemma freerange_loop_pages:
  assumes "kmem_inv s xs" "aligned p" "kend s \<le> p" "p \<noteq> 0" "unat e \<le> 0x88000000" "unat p \<le> unat e"
    "\<forall>x\<in>set xs. x < p" "n = (unat e - unat p) div 4096"
  shows "\<exists>s'. freerange_loop p e s = Inr s' \<and> kmem_inv s' (rev (pages_from p n) @ xs)"
  using assms
proof (induction n arbitrary: p s xs)
  case 0
  then have "\<not> p + 4096 \<le> e" by (simp add: word_le_nat_alt unat_word_ariths)
  with 0 show ?case by (simp add: freerange_loop.simps)
next
  case (Suc n)
  have room: "unat p + 4096 \<le> unat e" using Suc.prems(6,8) by simp
  then have up: "unat (p + 4096) = unat p + 4096" using Suc.prems(5) by (simp add: unat_word_ariths)
  then have go: "p + 4096 \<le> e" using room by (simp add: word_le_nat_alt)
  have page: "ram_page s p" "p \<notin> set xs"
    using Suc.prems room by (auto simp: ram_page_def word_less_nat_alt)
  obtain s1 where s1: "kfree p s = Inr s1" "kmem_inv s1 (p # xs)" "ram_page s1 = ram_page s" "kend s1 = kend s"
    using kfree_ok [OF Suc.prems(1) page(1)] kfree_inv [OF Suc.prems(1) page]
    by (simp add: ram_page_def fun_eq_iff)
  have "\<exists>s'. freerange_loop (p + 4096) e s1 = Inr s' \<and>
      kmem_inv s' (rev (pages_from (p + 4096) n) @ (p # xs))"
  proof (rule Suc.IH [OF s1(2)])
    show "aligned (p + 4096)" using Suc.prems(2) by (simp add: aligned_add)
    show "kend s1 \<le> p + 4096" using s1(4) Suc.prems(3) up by (simp add: word_le_nat_alt)
    show "p + 4096 \<noteq> 0" using up by (metis add_eq_0_iff_both_eq_0 unat_0 zero_neq_numeral)
    show "unat e \<le> 0x88000000" by (rule Suc.prems(5))
    show "unat (p + 4096) \<le> unat e" using up room by simp
    show "\<forall>x\<in>set (p # xs). x < p + 4096" using Suc.prems(7) up by (auto simp: word_less_nat_alt)
    have "unat e - unat p = (unat e - unat (p + 4096)) + 4096" using up room by simp
    then show "n = (unat e - unat (p + 4096)) div 4096" using Suc.prems(8) by simp
  qed
  then show ?case using s1(1) go by (auto simp: freerange_loop.simps [of p] pages_from_Suc)
qed

text \<open>A machine whose last two pages of RAM lie above the kernel image.\<close>

definition kmem0 :: kmemst where
  "kmem0 = \<lparr>lks = lks0, mem = (\<lambda>_. 0), kend = 0x87FFE000, etext = 0x80008000, trampoline = 0x80007000,
     lsr_in = [], rhr_in = [], thr_out = [], panicked = False, pr_locking = False, freelist = 0\<rparr>"

lemma kmem0_one_free: "kmem_inv (kmem0\<lparr>freelist := 0x87FFF000\<rparr>) [0x87FFF000]"
  by (simp add: kmem_inv_def kmem0_def ram_page_def aligned_def rd64_def mem_get_def upt_rec)

section \<open>Properties\<close>

text \<open>
  C12: \<^verbatim>\<open>kinit\<close> hands the allocator every whole page between the end of the kernel image and
  \<^verbatim>\<open>PHYSTOP\<close>, each exactly once, and leaves \<^verbatim>\<open>kmem.lock\<close> free.
\<close>

theorem kinit_all_pages:
  assumes "freelist s = 0" "0 < kend s" "unat (kend s) \<le> 0x88000000"
  shows "\<exists>s'. kinit s = Inr s' \<and>
    kmem_inv s' (rev (pages_from (PGROUNDUP (kend s)) ((0x88000000 - unat (PGROUNDUP (kend s))) div 4096)))"
proof -
  have up: "unat (PGROUNDUP (kend s)) = (unat (kend s) + 4095) div 4096 * 4096"
    using assms(3) by (intro unat_PGROUNDUP) simp
  have pos: "0 < unat (kend s)" using assms(2) by (simp add: word_less_nat_alt)
  let ?s = "s\<lparr>lks := initlock KmemLock ''kmem'' (lks s)\<rparr>"
  have "\<exists>s'. freerange_loop (PGROUNDUP (kend s)) PHYSTOP ?s = Inr s' \<and>
      kmem_inv s' (rev (pages_from (PGROUNDUP (kend s)) ((unat PHYSTOP - unat (PGROUNDUP (kend s))) div 4096)) @ [])"
  proof (rule freerange_loop_pages)
    show "kmem_inv ?s []" using assms(1) by (simp add: kmem_inv_def lock_free_def initlock_def)
    show "kend ?s \<le> PGROUNDUP (kend s)" using up by (simp add: word_le_nat_alt)
    show "PGROUNDUP (kend s) \<noteq> 0"
    proof
      assume "PGROUNDUP (kend s) = 0"
      with up pos show False by simp
    qed
    show "unat (PGROUNDUP (kend s)) \<le> unat PHYSTOP" using up assms(3) by simp
  qed simp_all
  then show ?thesis by (simp add: kinit_def freerange_def)
qed

theorem kinit_all_pages_witness:
  "\<exists>s'. kinit kmem0 = Inr s' \<and> kmem_inv s' [0x87FFF000, 0x87FFE000]"
  using kinit_all_pages [of kmem0]
  by (simp add: kmem0_def PGROUNDUP_def pages_from_def upt_rec)

text \<open>
  C13: While the free list holds at least \<open>n\<close> pages, \<open>n\<close> calls of \<^verbatim>\<open>kalloc\<close> succeed and return \<open>n\<close>
  pairwise different pages of the allocator's range, the rest of the list stays free, and no byte
  outside the returned pages changes.
\<close>

theorem kalloc_distinct_pages:
  assumes "kmem_inv s xs" "n \<le> length xs"
  shows "\<exists>ps s'. alloc_n kalloc n s = Inr (ps, s') \<and> length ps = n \<and> distinct ps \<and>
    (\<forall>p\<in>set ps. ram_page s p) \<and> kmem_inv s' (drop n xs) \<and> set xs = set ps \<union> set (drop n xs) \<and>
    set ps \<inter> set (drop n xs) = {} \<and> (\<forall>a. PGROUNDDOWN a \<notin> set ps \<longrightarrow> mem s' a = mem s a)"
proof -
  have "distinct (take n xs @ drop n xs)" using assms(1) by (simp add: kmem_inv_def)
  then have d: "distinct (take n xs)" "set (take n xs) \<inter> set (drop n xs) = {}"
    unfolding distinct_append by blast+
  have u: "set xs = set (take n xs) \<union> set (drop n xs)" by (metis append_take_drop_id set_append)
  have "\<forall>p\<in>set (take n xs). ram_page s p"
    using assms(1) by (auto simp: kmem_inv_def dest: in_set_takeD)
  moreover obtain s' where "alloc_n kalloc n s = Inr (take n xs, s')" "kmem_inv s' (drop n xs)"
      "\<forall>a. PGROUNDDOWN a \<notin> set (take n xs) \<longrightarrow> mem s' a = mem s a"
    using kpages.alloc_n_take [OF assms] by blast
  ultimately show ?thesis using d u assms(2) by (intro exI [of _ "take n xs"] exI [of _ s']) simp
qed

theorem kalloc_distinct_pages_witness:
  "\<exists>p s'. alloc_n kalloc 1 (kmem0\<lparr>freelist := 0x87FFF000\<rparr>) = Inr ([p], s') \<and> kmem_inv s' []"
  using kalloc_distinct_pages [where n = 1, OF kmem0_one_free]
  by (auto simp del: alloc_n.simps simp: length_Suc_conv)

text \<open>
  C14: \<^verbatim>\<open>kfree\<close> accepts a page exactly when it is aligned and lies in the allocator's range. Freeing a
  page that is not on the list and allocating again gives that page back and restores the free list,
  and only the bytes of that page change.
\<close>

theorem kfree_kalloc_roundtrip:
  assumes "kmem_inv s xs" "ram_page s x" "x \<notin> set xs"
  shows "(\<exists>s1 s2. kfree x s = Inr s1 \<and> kalloc s1 = Inr (x, s2) \<and> kmem_inv s2 xs \<and>
      (\<forall>a. PGROUNDDOWN a \<noteq> x \<longrightarrow> mem s2 a = mem s a)) \<and>
    (\<forall>pa. pa \<noteq> 0 \<and> \<not> ram_page s pa \<longrightarrow> kfree pa s = Inl (Panic ''kfree''))"
proof -
  have "kfree pa s = Inl (Panic ''kfree'')" if "pa \<noteq> 0" "\<not> ram_page s pa" for pa
    using that by (intro kfree_panics) (auto simp: ram_page_def)
  with kpages.free_then_alloc [OF assms] show ?thesis by blast
qed

theorem kfree_kalloc_roundtrip_witness:
  "\<exists>s1 s2. kfree 0x87FFE000 (kmem0\<lparr>freelist := 0x87FFF000\<rparr>) = Inr s1 \<and> kalloc s1 = Inr (0x87FFE000, s2) \<and>
     kmem_inv s2 [0x87FFF000]"
  using kfree_kalloc_roundtrip [where x = "0x87FFE000", OF kmem0_one_free]
  by (auto simp: kmem0_def ram_page_def aligned_def)

end
