(* ===== verification/Pagetable.thy ===== *)
theory Pagetable
  imports Kalloc
begin

unbundle bit_operations_syntax

text \<open>
  Three-level Sv39 page tables: \<^verbatim>\<open>walk\<close>, \<^verbatim>\<open>walkaddr\<close>, \<^verbatim>\<open>mappages\<close>, \<^verbatim>\<open>kvmmap\<close> and the kernel's own page
  table, of \<^verbatim>\<open>kernel/vm.c\<close> (and \<^verbatim>\<open>proc_mapstacks\<close> of \<^verbatim>\<open>kernel/proc.c\<close>, which \<^verbatim>\<open>kvmmake\<close> calls). A page table is
  the bytes of its pages in the modelled memory. \<open>leaf\<close> reads it as a function from virtual
  addresses to page table entries; \<open>pt_wf\<close> says that its pages form a tree.
\<close>

record vmst = kmemst +
  kernel_pagetable :: addr
  satp :: "nat \<Rightarrow> uint64"

section \<open>The operations\<close>

text \<open>A null pointer is the address 0; \<open>walk\<close> returns the address of the entry, or 0.\<close>

fun walk_loop :: "nat \<Rightarrow> addr \<Rightarrow> uint64 \<Rightarrow> bool \<Rightarrow> 'a kmemst_scheme \<Rightarrow> kerr + addr \<times> 'a kmemst_scheme" where
  "walk_loop 0 pagetable va alloc s = Inr (pagetable + 8 * PX 0 va, s)"
| "walk_loop (Suc l) pagetable va alloc s =
     (let pte = pagetable + 8 * PX (Suc l) va
      in if rd64 (mem s) pte AND PTE_V \<noteq> 0 then walk_loop l (PTE2PA (rd64 (mem s) pte)) va alloc s
         else if \<not> alloc then Inr (0, s)
         else bindE (kalloc s) (\<lambda>(pagetable, s).
           if pagetable = 0 then Inr (0, s)
           else let s = s\<lparr>mem := memset pagetable 0 4096 (mem s)\<rparr>;
                    s = s\<lparr>mem := wr64 (mem s) pte (PA2PTE pagetable OR PTE_V)\<rparr>
                in walk_loop l pagetable va alloc s))"

definition walk :: "addr \<Rightarrow> uint64 \<Rightarrow> bool \<Rightarrow> 'a kmemst_scheme \<Rightarrow> kerr + addr \<times> 'a kmemst_scheme" where
  "walk pagetable va alloc s =
     (if va \<ge> MAXVA then Inl (Panic ''walk'') else walk_loop 2 pagetable va alloc s)"

text \<open>A walk that does not allocate leaves the state as it is, so \<open>walkaddr\<close> returns only the address.\<close>

definition walkaddr :: "addr \<Rightarrow> uint64 \<Rightarrow> 'a kmemst_scheme \<Rightarrow> kerr + addr" where
  "walkaddr pagetable va s =
     (if va \<ge> MAXVA then Inr 0
      else bindE (walk pagetable va False s) (\<lambda>(pte, s).
        if pte = 0 then Inr 0
        else if rd64 (mem s) pte AND PTE_V = 0 then Inr 0
        else if rd64 (mem s) pte AND PTE_U = 0 then Inr 0
        else Inr (PTE2PA (rd64 (mem s) pte))))"

lemma walk_bound: "walk pagetable va alloc s = Inr r \<Longrightarrow> unat va < 0x4000000000"
  by (auto simp: walk_def not_le word_less_nat_alt split: if_splits)

function mappages_loop ::
  "addr \<Rightarrow> uint64 \<Rightarrow> uint64 \<Rightarrow> uint64 \<Rightarrow> uint64 \<Rightarrow> 'a kmemst_scheme \<Rightarrow> kerr + int \<times> 'a kmemst_scheme" where
  "mappages_loop pagetable a last_a pa perm s =
     bindE (walk pagetable a True s) (\<lambda>(pte, s).
       if pte = 0 then Inr (- 1, s)
       else if rd64 (mem s) pte AND PTE_V \<noteq> 0 then Inl (Panic ''mappages: remap'')
       else let s = s\<lparr>mem := wr64 (mem s) pte (PA2PTE pa OR perm OR PTE_V)\<rparr>
            in if a = last_a then Inr (0, s)
               else mappages_loop pagetable (a + PGSIZE) last_a (pa + PGSIZE) perm s)"
  by pat_completeness auto
termination
  by (relation "measure (\<lambda>(pt, a, rest). 0x4000001000 - unat a)")
    (auto dest!: walk_bound simp: unat_word_ariths)

declare mappages_loop.simps [simp del]

definition mappages ::
  "addr \<Rightarrow> uint64 \<Rightarrow> uint64 \<Rightarrow> uint64 \<Rightarrow> uint64 \<Rightarrow> 'a kmemst_scheme \<Rightarrow> kerr + int \<times> 'a kmemst_scheme" where
  "mappages pagetable va sz pa perm s =
     (if sz = 0 then Inl (Panic ''mappages: size'')
      else mappages_loop pagetable (PGROUNDDOWN va) (PGROUNDDOWN (va + sz - 1)) pa perm s)"

definition kvmmap ::
  "addr \<Rightarrow> uint64 \<Rightarrow> uint64 \<Rightarrow> uint64 \<Rightarrow> uint64 \<Rightarrow> 'a kmemst_scheme \<Rightarrow> kerr + 'a kmemst_scheme" where
  "kvmmap kpgtbl va pa sz perm s =
     bindE (mappages kpgtbl va sz pa perm s) (\<lambda>(r, s).
       if r \<noteq> 0 then Inl (Panic ''kvmmap'') else Inr s)"

definition proc_mapstacks :: "addr \<Rightarrow> 'a kmemst_scheme \<Rightarrow> kerr + 'a kmemst_scheme" where
  "proc_mapstacks kpgtbl s =
     foldE (\<lambda>p s. bindE (kalloc s) (\<lambda>(pa, s).
       if pa = 0 then Inl (Panic ''kalloc'')
       else kvmmap kpgtbl (KSTACK p) pa PGSIZE (PTE_R OR PTE_W) s)) [0..<NPROC] s"

definition UART0 :: uint64 where "UART0 = 0x10000000"
definition VIRTIO0 :: uint64 where "VIRTIO0 = 0x10001000"
definition PLIC :: uint64 where "PLIC = 0x0c000000"

text \<open>The code does not check the first \<^verbatim>\<open>kalloc\<close>: with no memory it clears the null page, a fault.\<close>

definition kvmmake :: "'a kmemst_scheme \<Rightarrow> kerr + addr \<times> 'a kmemst_scheme" where
  "kvmmake s =
     bindE (kalloc s) (\<lambda>(kpgtbl, s).
     if kpgtbl = 0 then Inl (Fault ''kvmmake'')
     else let s = s\<lparr>mem := memset kpgtbl 0 4096 (mem s)\<rparr> in
     bindE (kvmmap kpgtbl UART0 UART0 PGSIZE (PTE_R OR PTE_W) s) (\<lambda>s.
     bindE (kvmmap kpgtbl VIRTIO0 VIRTIO0 PGSIZE (PTE_R OR PTE_W) s) (\<lambda>s.
     bindE (kvmmap kpgtbl PLIC PLIC 0x400000 (PTE_R OR PTE_W) s) (\<lambda>s.
     bindE (kvmmap kpgtbl KERNBASE KERNBASE (etext s - KERNBASE) (PTE_R OR PTE_X) s) (\<lambda>s.
     bindE (kvmmap kpgtbl (etext s) (etext s) (PHYSTOP - etext s) (PTE_R OR PTE_W) s) (\<lambda>s.
     bindE (kvmmap kpgtbl TRAMPOLINE (trampoline s) PGSIZE (PTE_R OR PTE_X) s) (\<lambda>s.
     bindE (proc_mapstacks kpgtbl s) (\<lambda>s. Inr (kpgtbl, s)))))))))"

definition kvminit :: "'a vmst_scheme \<Rightarrow> kerr + 'a vmst_scheme" where
  "kvminit s = bindE (kvmmake s) (\<lambda>(kpgtbl, s). Inr (s\<lparr>kernel_pagetable := kpgtbl\<rparr>))"

definition MAKE_SATP :: "addr \<Rightarrow> uint64" where
  "MAKE_SATP pagetable = push_bit 60 8 OR drop_bit 12 pagetable"

definition kvminithart :: "'a vmst_scheme \<Rightarrow> 'a vmst_scheme" where
  "kvminithart s = s\<lparr>satp := (satp s)(tp (lks s) := MAKE_SATP (kernel_pagetable s))\<rparr>"

section \<open>Entries\<close>

definition pte_at :: "(addr \<Rightarrow> byte) \<Rightarrow> addr \<Rightarrow> uint64 \<Rightarrow> uint64" where
  "pte_at m P i = rd64 m (P + 8 * i)"

abbreviation valid :: "uint64 \<Rightarrow> bool" where
  "valid pte \<equiv> pte AND PTE_V \<noteq> 0"

lemma PX_less [simp]: "PX l va < 512"
proof -
  have "PX l va \<le> 0x1FF" unfolding PX_def by (rule word_and_le1)
  then show ?thesis by (simp add: word_le_nat_alt word_less_nat_alt)
qed

lemma unat_idx8: "i < 512 \<Longrightarrow> unat (8 * i :: uint64) = 8 * unat i"
  by (simp add: word_less_nat_alt unat_word_ariths)

lemma rd64_same: "(\<And>k. k < 8 \<Longrightarrow> m' (a + of_nat k) = m (a + of_nat k)) \<Longrightarrow> rd64 m' a = rd64 m a"
  unfolding rd64_def by (metis mem_get_cong)

lemma pte_at_page:
  assumes "aligned P" "i < 512" "\<And>a. PGROUNDDOWN a = P \<Longrightarrow> m' a = m a"
  shows "pte_at m' P i = pte_at m P i"
  unfolding pte_at_def
proof (rule rd64_same)
  fix k :: nat assume k: "k < 8"
  have "unat (8 * i) = 8 * unat i" "unat i < 512"
    using assms(2) by (simp_all add: unat_idx8 word_less_nat_alt)
  then have "unat (8 * i + of_nat k) < 4096" using k by (simp add: unat_word_ariths unat_of_nat)
  then have "PGROUNDDOWN (P + (8 * i + of_nat k)) = P" by (rule PGROUNDDOWN_page_off [OF assms(1)])
  then show "m' (P + 8 * i + of_nat k) = m (P + 8 * i + of_nat k)"
    by (intro assms(3)) (simp add: add.assoc)
qed

lemma pte_at_wr64:
  assumes "i < 512" "j < 512"
  shows "pte_at (wr64 m (P + 8 * i) v) P j = (if j = i then v else pte_at m P j)"
proof (cases "j = i")
  case False
  have "rd64 (wr64 m (P + 8 * i) v) (P + 8 * j) = rd64 m (P + 8 * j)"
  proof (rule rd64_same)
    fix k :: nat assume k: "k < 8"
    let ?d = "P + 8 * j + of_nat k - (P + 8 * i)"
    have ij: "unat i < 512" "unat j < 512" "unat i \<noteq> unat j"
      using assms False by (auto simp: word_less_nat_alt word_unat_eq_iff)
    have u: "unat (8 * j + of_nat k) = 8 * unat j + k" "unat (8 * i) = 8 * unat i"
      using ij k by (simp_all add: unat_word_ariths unat_of_nat)
    have "?d = (8 * j + of_nat k) - 8 * i" by simp
    then have "8 \<le> unat ?d" using u ij k by (simp only: unat_sub_if') (auto simp: not_le)
    then show "wr64 m (P + 8 * i) v (P + 8 * j + of_nat k) = m (P + 8 * j + of_nat k)"
      by (simp add: wr64_def mem_put_def)
  qed
  with False show ?thesis by (simp add: pte_at_def)
qed (simp add: pte_at_def rd64_wr64)

lemma pte_at_zeroed:
  assumes "aligned P" "i < 512"
  shows "pte_at (mem_put m P (replicate 4096 0)) P i = 0"
proof -
  have u: "unat (8 * i) = 8 * unat i" "unat i < 512" using assms by (simp_all add: unat_idx8 word_less_nat_alt)
  have "mem_get (mem_put m P (replicate 4096 0)) (P + 8 * i) 8 = replicate 8 0"
  proof (rule nth_equalityI)
    fix k assume "k < length (mem_get (mem_put m P (replicate 4096 0)) (P + 8 * i) 8)"
    then have k: "k < 8" by simp
    then have "unat (P + 8 * i + of_nat k - P) = 8 * unat i + k"
      using u by (simp add: add.assoc) (simp add: unat_word_ariths unat_of_nat)
    then show "mem_get (mem_put m P (replicate 4096 0)) (P + 8 * i) 8 ! k = replicate 8 0 ! k"
      using k u by (simp add: mem_put_def)
  qed simp
  then show ?thesis by (simp only: pte_at_def rd64_def le_dec_replicate_0)
qed

lemma flags10: "f < 1024 \<Longrightarrow> take_bit 10 f = (f :: uint64)"
  by (rule word_unat_eqI) (simp add: take_bit_eq_mod unat_mod word_less_nat_alt)

lemma PTE2PA_PA2PTE:
  assumes "aligned x" "f < 1024"
  shows "PTE2PA (PA2PTE x OR f) = x"
proof (rule bit_word_eqI)
  fix n assume n: "n < LENGTH(64)"
  have x: "x = push_bit 12 (drop_bit 12 x)" using PGROUNDDOWN_aligned [OF assms(1)] PGROUNDDOWN_shift by metis
  have lo: "bit x n \<Longrightarrow> 12 \<le> n" by (subst (asm) x) (simp add: bit_simps)
  have "take_bit 10 f = f" by (rule flags10 [OF assms(2)])
  then have f: "bit f k \<Longrightarrow> k < 10" for k by (metis bit_take_bit_iff)
  show "bit (PTE2PA (PA2PTE x OR f)) n = bit x n"
    using n lo f [of "n - 2"] by (auto simp: PTE2PA_def PA2PTE_def bit_simps)
qed

lemma PTE_FLAGS_PA2PTE:
  assumes "f < 1024"
  shows "PTE_FLAGS (PA2PTE x OR f) = f"
proof -
  have "take_bit 10 f = f" by (rule flags10 [OF assms])
  moreover have "PTE_FLAGS w = take_bit 10 w" for w by (simp add: PTE_FLAGS_def take_bit_eq_mask mask_eq_exp_minus_1)
  moreover have "take_bit 10 (PA2PTE x) = 0"
    by (rule bit_word_eqI) (auto simp: PA2PTE_def bit_simps)
  ultimately show ?thesis by simp
qed

lemma valid_or [simp]: "valid (w OR 1)" "valid (w OR v OR 1)"
proof -
  have "bit (w' AND 1) 0 = bit w' 0" for w' :: uint64 by (simp add: bit_simps)
  moreover have "bit (w OR 1) 0" "bit (w OR v OR 1) 0" by (simp_all add: bit_simps)
  ultimately show "valid (w OR 1)" "valid (w OR v OR 1)" by (metis bit_0_eq bot_apply bot_bool_def)+
qed

section \<open>Page tables as trees\<close>

text \<open>
  \<open>tabset l m P\<close> are the pages of the table of level \<open>l\<close> whose root page is \<open>P\<close>; \<open>leaf\<close> is the entry
  that translates an address, 0 if there is none; \<open>walk_ro\<close> is where it is stored.
\<close>

primrec tabset :: "nat \<Rightarrow> (addr \<Rightarrow> byte) \<Rightarrow> addr \<Rightarrow> addr set" where
  "tabset 0 m P = {P}"
| "tabset (Suc l) m P =
     insert P (\<Union>i\<in>{i. i < 512 \<and> valid (pte_at m P i)}. tabset l m (PTE2PA (pte_at m P i)))"

primrec pt_wf :: "nat \<Rightarrow> (addr \<Rightarrow> byte) \<Rightarrow> addr \<Rightarrow> bool" where
  "pt_wf 0 m P \<longleftrightarrow> aligned P \<and> P \<noteq> 0"
| "pt_wf (Suc l) m P \<longleftrightarrow> aligned P \<and> P \<noteq> 0 \<and>
     (\<forall>i<512. valid (pte_at m P i) \<longrightarrow>
        pt_wf l m (PTE2PA (pte_at m P i)) \<and> P \<notin> tabset l m (PTE2PA (pte_at m P i)) \<and>
        (\<forall>j<512. j \<noteq> i \<and> valid (pte_at m P j) \<longrightarrow>
           tabset l m (PTE2PA (pte_at m P i)) \<inter> tabset l m (PTE2PA (pte_at m P j)) = {}))"

primrec leaf :: "nat \<Rightarrow> (addr \<Rightarrow> byte) \<Rightarrow> addr \<Rightarrow> uint64 \<Rightarrow> uint64" where
  "leaf 0 m P va = pte_at m P (PX 0 va)"
| "leaf (Suc l) m P va =
     (if valid (pte_at m P (PX (Suc l) va)) then leaf l m (PTE2PA (pte_at m P (PX (Suc l) va))) va else 0)"

primrec walk_ro :: "nat \<Rightarrow> (addr \<Rightarrow> byte) \<Rightarrow> addr \<Rightarrow> uint64 \<Rightarrow> addr" where
  "walk_ro 0 m P va = P + 8 * PX 0 va"
| "walk_ro (Suc l) m P va =
     (if valid (pte_at m P (PX (Suc l) va)) then walk_ro l m (PTE2PA (pte_at m P (PX (Suc l) va))) va else 0)"

lemma walk_loop_ro: "walk_loop l P va False s = Inr (walk_ro l (mem s) P va, s)"
  by (induction l arbitrary: P) (simp_all add: pte_at_def Let_def)

lemma pt_wf_root: "pt_wf l m P \<Longrightarrow> aligned P \<and> P \<noteq> 0"
  by (cases l) simp_all

lemma tabset_root [simp]: "P \<in> tabset l m P"
  by (cases l) simp_all

lemma pt_wf_child:
  assumes "pt_wf (Suc l) m P" "i < 512" "valid (pte_at m P i)"
  shows "pt_wf l m (PTE2PA (pte_at m P i))" "P \<notin> tabset l m (PTE2PA (pte_at m P i))"
    "tabset l m (PTE2PA (pte_at m P i)) \<subseteq> tabset (Suc l) m P"
    "\<And>j. j < 512 \<Longrightarrow> j \<noteq> i \<Longrightarrow> valid (pte_at m P j) \<Longrightarrow>
       tabset l m (PTE2PA (pte_at m P i)) \<inter> tabset l m (PTE2PA (pte_at m P j)) = {}"
  using assms by auto

lemma tabset_page: "pt_wf l m P \<Longrightarrow> Q \<in> tabset l m P \<Longrightarrow> aligned Q \<and> Q \<noteq> 0"
  by (induction l arbitrary: P) auto

text \<open>A change outside the pages of a table is not seen through it.\<close>

lemma table_frame:
  assumes "pt_wf l m P" "\<And>a. PGROUNDDOWN a \<in> tabset l m P \<Longrightarrow> m' a = m a"
  shows "tabset l m' P = tabset l m P" "pt_wf l m' P" "leaf l m' P va = leaf l m P va"
    "walk_ro l m' P va = walk_ro l m P va"
proof -
  have "tabset l m' P = tabset l m P \<and> pt_wf l m' P \<and> (\<forall>va. leaf l m' P va = leaf l m P va) \<and>
      (\<forall>va. walk_ro l m' P va = walk_ro l m P va)"
    using assms
  proof (induction l arbitrary: P)
    case 0
    then have "pte_at m' P i = pte_at m P i" if "i < 512" for i using that by (intro pte_at_page) auto
    with 0 show ?case by simp
  next
    case (Suc l)
    have e: "pte_at m' P i = pte_at m P i" if "i < 512" for i
      using that Suc.prems by (intro pte_at_page) auto
    have sub: "tabset l m' (PTE2PA (pte_at m P i)) = tabset l m (PTE2PA (pte_at m P i)) \<and>
        pt_wf l m' (PTE2PA (pte_at m P i)) \<and>
        (\<forall>va. leaf l m' (PTE2PA (pte_at m P i)) va = leaf l m (PTE2PA (pte_at m P i)) va) \<and>
        (\<forall>va. walk_ro l m' (PTE2PA (pte_at m P i)) va = walk_ro l m (PTE2PA (pte_at m P i)) va)"
      if "i < 512" "valid (pte_at m P i)" for i
      using that Suc.prems by (intro Suc.IH) auto
    then show ?case using Suc.prems(1) e by (auto cong: conj_cong)
  qed
  then show "tabset l m' P = tabset l m P" "pt_wf l m' P" "leaf l m' P va = leaf l m P va"
    "walk_ro l m' P va = walk_ro l m P va" by auto
qed

text \<open>
  The effect of a change below entry \<open>i\<close> of the root, or of a new subtree there: the new pages come
  from \<open>F\<close>, the other subtrees are as before.
\<close>

lemma child_update:
  assumes wf: "pt_wf (Suc l) m P" and i: "i < 512"
    and same: "\<And>j. j < 512 \<Longrightarrow> j \<noteq> i \<Longrightarrow> pte_at m' P j = pte_at m P j"
    and new: "valid (pte_at m' P i)" "pt_wf l m' (PTE2PA (pte_at m' P i))"
      "tabset l m' (PTE2PA (pte_at m' P i)) \<subseteq> N"
    and N: "N = (if valid (pte_at m P i) then tabset l m (PTE2PA (pte_at m P i)) else {}) \<union> F"
    and F: "F \<inter> tabset (Suc l) m P = {}"
    and out: "\<And>a. PGROUNDDOWN a \<notin> insert P N \<Longrightarrow> m' a = m a"
  shows "pt_wf (Suc l) m' P" "tabset (Suc l) m' P \<subseteq> tabset (Suc l) m P \<union> F"
    "PX (Suc l) va \<noteq> i \<Longrightarrow> leaf (Suc l) m' P va = leaf (Suc l) m P va"
proof -
  have disj: "tabset l m (PTE2PA (pte_at m P j)) \<inter> insert P N = {}"
    if j: "j < 512" "j \<noteq> i" "valid (pte_at m P j)" for j
  proof -
    have "tabset l m (PTE2PA (pte_at m P j)) \<subseteq> tabset (Suc l) m P" using j by auto
    moreover have "P \<notin> tabset l m (PTE2PA (pte_at m P j))" using j wf by auto
    moreover have "valid (pte_at m P i) \<Longrightarrow>
        tabset l m (PTE2PA (pte_at m P j)) \<inter> tabset l m (PTE2PA (pte_at m P i)) = {}"
      using j i wf by auto
    ultimately show ?thesis using F unfolding N by auto
  qed
  have sub: "tabset l m' (PTE2PA (pte_at m P j)) = tabset l m (PTE2PA (pte_at m P j))"
      "pt_wf l m' (PTE2PA (pte_at m P j))"
      "leaf l m' (PTE2PA (pte_at m P j)) va = leaf l m (PTE2PA (pte_at m P j)) va"
    if j: "j < 512" "j \<noteq> i" "valid (pte_at m P j)" for j va
    using table_frame [of l m "PTE2PA (pte_at m P j)" m'] pt_wf_child(1) [OF wf j(1,3)] disj [OF j] out
    by blast+
  have P: "P \<notin> N"
  proof -
    have "P \<notin> F" using F by auto
    then show ?thesis using wf i unfolding N by auto
  qed
  show "pt_wf (Suc l) m' P"
    unfolding pt_wf.simps
  proof (intro conjI allI impI)
    fix j assume j: "j < 512" "valid (pte_at m' P j)"
    show "pt_wf l m' (PTE2PA (pte_at m' P j))" using j new(2) same sub(2) by (cases "j = i") auto
    show "P \<notin> tabset l m' (PTE2PA (pte_at m' P j))"
      using j new(3) P same sub(1) wf by (cases "j = i") auto
    fix k assume k: "k < 512" "k \<noteq> j \<and> valid (pte_at m' P k)"
    show "tabset l m' (PTE2PA (pte_at m' P j)) \<inter> tabset l m' (PTE2PA (pte_at m' P k)) = {}"
    proof (cases "j = i \<or> k = i")
      case True
      then consider "j = i" "k \<noteq> i" | "k = i" "j \<noteq> i" using k by auto
      then show ?thesis
      proof cases
        case 1
        then show ?thesis using k same [of k] sub(1) [of k] disj [of k] new(3) by auto
      next
        case 2
        then show ?thesis using j same [of j] sub(1) [of j] disj [of j] new(3) by auto
      qed
    next
      case False
      then show ?thesis using j k same sub(1) pt_wf_child(4) [OF wf, of j k] by auto
    qed
  qed (use wf in auto)
  show "tabset (Suc l) m' P \<subseteq> tabset (Suc l) m P \<union> F"
  proof
    fix Q assume "Q \<in> tabset (Suc l) m' P"
    then consider "Q = P" | j where "j < 512" "valid (pte_at m' P j)" "Q \<in> tabset l m' (PTE2PA (pte_at m' P j))"
      by auto
    then show "Q \<in> tabset (Suc l) m P \<union> F"
    proof cases
      case (2 j)
      show ?thesis
      proof (cases "j = i")
        case True
        then have "Q \<in> N" using 2 new(3) by auto
        then show ?thesis using i unfolding N by (auto split: if_splits)
      next
        case False
        then show ?thesis using 2 same [of j] sub(1) [of j] by auto
      qed
    qed simp
  qed
  show "PX (Suc l) va \<noteq> i \<Longrightarrow> leaf (Suc l) m' P va = leaf (Suc l) m P va"
    using same [of "PX (Suc l) va"] sub(3) [of "PX (Suc l) va"] by auto
qed

section \<open>Walks that allocate\<close>

text \<open>
  What an operation that only uses memory and the allocator may change: memory, free list and the
  interrupt bits that a critical section refreshes.
\<close>

definition erase :: "'a kmemst_scheme \<Rightarrow> 'a kmemst_scheme" where
  "erase s = s\<lparr>lks := lks0, freelist := 0, mem := (\<lambda>_. 0)\<rparr>"

definition only_mem :: "'a kmemst_scheme \<Rightarrow> 'a kmemst_scheme \<Rightarrow> bool" where
  "only_mem s s' \<longleftrightarrow> erase s' = erase s \<and> settle (lks s') = settle (lks s)"

lemma erase_upd [simp]:
  "erase (s\<lparr>lks := l\<rparr>) = erase s" "erase (s\<lparr>freelist := f\<rparr>) = erase s" "erase (s\<lparr>mem := m\<rparr>) = erase s"
  by (simp_all add: erase_def)

lemma only_mem_refl [simp]: "only_mem s s"
  by (simp add: only_mem_def)

lemma only_mem_mem [simp]: "only_mem s (s\<lparr>mem := m\<rparr>)"
  by (simp add: only_mem_def)

lemma only_mem_trans [trans]: "only_mem s s' \<Longrightarrow> only_mem s' s'' \<Longrightarrow> only_mem s s''"
  by (simp add: only_mem_def)

lemma only_memD:
  assumes "only_mem s s'"
  shows "kend s' = kend s" "etext s' = etext s" "trampoline s' = trampoline s" "ram_page s' = ram_page s"
    "settle (lks s') = settle (lks s)"
proof -
  have e: "kend u = kend (erase u)" "etext u = etext (erase u)" "trampoline u = trampoline (erase u)"
    for u :: "'a kmemst_scheme" by (simp_all add: erase_def)
  show *: "kend s' = kend s" "etext s' = etext s" "trampoline s' = trampoline s"
    using e assms unfolding only_mem_def by metis+
  show "ram_page s' = ram_page s" using * by (simp add: ram_page_def fun_eq_iff)
  show "settle (lks s') = settle (lks s)" using assms by (simp add: only_mem_def)
qed

lemma kmem_inv_frame:
  assumes "kmem_inv s fs" "\<And>a. PGROUNDDOWN a \<in> set fs \<Longrightarrow> m a = mem s a"
  shows "kmem_inv (s\<lparr>mem := m\<rparr>) fs"
proof -
  have "free_chain_from m (freelist s) fs"
  proof (rule free_chain_frame)
    show "free_chain_from (mem s) (freelist s) fs" using assms(1) by (simp add: kmem_inv_def)
    show "aligned x" if "x \<in> set fs" for x
      using assms(1) that by (simp add: kmem_inv_def ram_page_def)
  qed (rule assms(2))
  then show ?thesis using assms(1) by (simp add: kmem_inv_def ram_page_def)
qed

lemma kalloc_only_mem: "kmem_inv s fs \<Longrightarrow> kalloc s = Inr (x, s') \<Longrightarrow> only_mem s s'"
  by (cases fs) (auto simp: kalloc_empty kalloc_Cons only_mem_def)

lemma kfree_only_mem: "lock_free KmemLock (lks s) \<Longrightarrow> kfree x s = Inr s' \<Longrightarrow> only_mem s s'"
  by (auto simp: kfree_def lock_simps Let_def only_mem_def split: if_splits)

text \<open>The state of a table and of the allocator it takes its pages from.\<close>

definition tab_inv :: "'a kmemst_scheme \<Rightarrow> addr \<Rightarrow> nat \<Rightarrow> addr list \<Rightarrow> bool" where
  "tab_inv s P l fs \<longleftrightarrow> kmem_inv s fs \<and> pt_wf l (mem s) P \<and> tabset l (mem s) P \<inter> set fs = {}"

text \<open>A page of zeros is a table without entries.\<close>

lemma zero_table:
  assumes "aligned x" "x \<noteq> 0" "\<And>i. i < 512 \<Longrightarrow> pte_at m x i = 0"
  shows "pt_wf l m x" "tabset l m x = {x}" "leaf l m x va = 0"
  using assms by (cases l; simp)+

lemma entry_nz: "aligned P \<Longrightarrow> P \<noteq> 0 \<Longrightarrow> P + 8 * PX l va \<noteq> 0"
proof
  assume P: "aligned P" "P \<noteq> 0" "P + 8 * PX l va = 0"
  have "unat (8 * PX l va) < 4096" using PX_less [of l va] by (simp add: unat_idx8 word_less_nat_alt)
  then have "unat (P + 8 * PX l va) = unat P + unat (8 * PX l va)" by (rule unat_page_off [OF P(1)])
  with P show False by (simp add: unat_eq_0)
qed

lemma entry_page:
  assumes "aligned P" "i < 512" "PGROUNDDOWN a \<noteq> P"
  shows "wr64 m (P + 8 * i) v a = m a"
  using assms mem_put_other_page [of P "8 * i" "le_enc 8 v" a m]
  by (simp add: wr64_def unat_idx8 word_less_nat_alt)

definition walk_post :: "nat \<Rightarrow> addr \<Rightarrow> uint64 \<Rightarrow> 'a kmemst_scheme \<Rightarrow> addr list \<Rightarrow> addr \<Rightarrow> 'a kmemst_scheme \<Rightarrow> nat \<Rightarrow> bool" where
  "walk_post l P va s fs p s' k \<longleftrightarrow> k \<le> length fs \<and> tab_inv s' P l (drop k fs) \<and>
    tabset l (mem s') P \<subseteq> tabset l (mem s) P \<union> set (take k fs) \<and>
    (\<forall>va. leaf l (mem s') P va = leaf l (mem s) P va) \<and>
    (\<forall>a. PGROUNDDOWN a \<notin> tabset l (mem s) P \<union> set (take k fs) \<longrightarrow> mem s' a = mem s a) \<and>
    only_mem s s' \<and> k \<le> l \<and> (p = 0 \<longrightarrow> k = length fs \<and> k < l) \<and>
    (p \<noteq> 0 \<longrightarrow> walk_ro l (mem s') P va = p)"

text \<open>A walk through an entry that exists.\<close>

lemma walk_alloc_valid:
  assumes inv: "tab_inv s P (Suc l) fs" and v: "valid (pte_at (mem s) P (PX (Suc l) va))"
    and IH: "walk_post l (PTE2PA (pte_at (mem s) P (PX (Suc l) va))) va s fs p s' k"
  shows "walk_post (Suc l) P va s fs p s' k"
proof -
  let ?i = "PX (Suc l) va" and ?C = "PTE2PA (pte_at (mem s) P (PX (Suc l) va))"
  let ?N = "tabset l (mem s) ?C \<union> set (take k fs)"
  have wf: "pt_wf (Suc l) (mem s) P" and disj: "tabset (Suc l) (mem s) P \<inter> set fs = {}"
    using inv by (simp_all add: tab_inv_def)
  have F: "set (take k fs) \<inter> tabset (Suc l) (mem s) P = {}"
    using disj set_take_subset [of k fs] by blast
  have P: "aligned P" using wf by simp
  have "P \<notin> ?N" using F pt_wf_child(2) [OF wf _ v] tabset_root [of P "Suc l" "mem s"] by auto
  then have same: "pte_at (mem s') P j = pte_at (mem s) P j" if "j < 512" for j
    using IH that by (intro pte_at_page [OF P]) (auto simp: walk_post_def)
  have out: "mem s' a = mem s a" if "PGROUNDDOWN a \<notin> ?N" for a
    using IH that by (auto simp: walk_post_def)
  have inv': "pt_wf l (mem s') ?C" "tabset l (mem s') ?C \<subseteq> ?N"
    using IH by (simp_all add: walk_post_def tab_inv_def)
  have i: "?i < 512" by simp
  have same2: "pte_at (mem s') P j = pte_at (mem s) P j" if "j < 512" "j \<noteq> ?i" for j
    using that same by simp
  have new: "valid (pte_at (mem s') P ?i)" "pt_wf l (mem s') (PTE2PA (pte_at (mem s') P ?i))"
    "tabset l (mem s') (PTE2PA (pte_at (mem s') P ?i)) \<subseteq> ?N"
    unfolding same [OF i] by (rule v inv')+
  have N: "?N = (if valid (pte_at (mem s) P ?i) then tabset l (mem s) ?C else {}) \<union> set (take k fs)"
    using v by simp
  have out2: "mem s' a = mem s a" if "PGROUNDDOWN a \<notin> insert P ?N" for a
    using that out by simp
  note upd = child_update [OF wf i same2 new N F out2]
  have "leaf (Suc l) (mem s') P va' = leaf (Suc l) (mem s) P va'" for va'
    using upd(3) [of va'] IH same by (cases "PX (Suc l) va' = ?i") (auto simp: walk_post_def)
  moreover have "tabset (Suc l) (mem s') P \<inter> set (drop k fs) = {}"
  proof -
    have "set (take k fs) \<inter> set (drop k fs) = {}"
      using inv by (auto simp: tab_inv_def kmem_inv_def dest: set_take_disj_set_drop_if_distinct)
    then show ?thesis using upd(2) disj set_drop_subset [of k fs] by blast
  qed
  moreover have "mem s' a = mem s a" if "PGROUNDDOWN a \<notin> tabset (Suc l) (mem s) P \<union> set (take k fs)" for a
    using that out pt_wf_child(3) [OF wf _ v] by auto
  ultimately show ?thesis
    using IH upd(1,2) same [of ?i] v by (auto simp: walk_post_def tab_inv_def)
qed

text \<open>A new, empty table of the next level, and a walk through it.\<close>

definition new_table :: "addr \<Rightarrow> uint64 \<Rightarrow> addr \<Rightarrow> (addr \<Rightarrow> byte) \<Rightarrow> addr \<Rightarrow> byte" where
  "new_table P i x m = wr64 (mem_put m x (replicate 4096 0)) (P + 8 * i) (PA2PTE x OR 1)"

lemma new_table_mem:
  assumes "aligned P" "aligned x" "x \<noteq> P" "i < 512"
  shows "PGROUNDDOWN a \<notin> {x, P} \<Longrightarrow> new_table P i x m a = m a"
    and "j < 512 \<Longrightarrow> pte_at (new_table P i x m) P j = (if j = i then PA2PTE x OR 1 else pte_at m P j)"
    and "j < 512 \<Longrightarrow> pte_at (new_table P i x m) x j = 0"
proof -
  let ?z = "mem_put m x (replicate 4096 0)"
  show "PGROUNDDOWN a \<notin> {x, P} \<Longrightarrow> new_table P i x m a = m a"
    using assms by (simp add: new_table_def entry_page page_fill_other)
  have "pte_at ?z P j = pte_at m P j" if "j < 512" for j
    using assms that by (intro pte_at_page) (auto simp: page_fill_other)
  then show "j < 512 \<Longrightarrow> pte_at (new_table P i x m) P j = (if j = i then PA2PTE x OR 1 else pte_at m P j)"
    using assms by (simp add: new_table_def pte_at_wr64)
  have "pte_at (new_table P i x m) x j = pte_at ?z x j" if "j < 512"
    unfolding new_table_def using assms that by (intro pte_at_page) (auto simp: entry_page)
  then show "j < 512 \<Longrightarrow> pte_at (new_table P i x m) x j = 0" using assms by (simp add: pte_at_zeroed)
qed

lemma tab_inv_new:
  assumes inv: "tab_inv s P (Suc l) (x # fs)" and k: "kalloc s = Inr (r, s1)" and i: "i < 512"
  shows "r = x" "x \<noteq> 0" "aligned x" "x \<noteq> P" "only_mem s s1"
    "PGROUNDDOWN a \<noteq> x \<Longrightarrow> mem s1 a = mem s a"
    "tab_inv (s1\<lparr>mem := new_table P i x (mem s1)\<rparr>) x l fs"
proof -
  have km: "kmem_inv s (x # fs)" and P: "aligned P" "P \<notin> set (x # fs)"
    using inv tabset_root [of P "Suc l" "mem s"] by (auto simp: tab_inv_def)
  have x: "x \<noteq> 0" "aligned x" "x \<notin> set fs"
    using km by (auto simp: kmem_inv_def dest: ram_page_aligned)
  then show "x \<noteq> 0" "aligned x" "x \<noteq> P" using P by auto
  have s1: "r = x" "kmem_inv s1 fs" using kalloc_inv [OF km k] by auto
  then show "r = x" by simp
  show "only_mem s s1" using kalloc_only_mem [OF km k] .
  show "PGROUNDDOWN a \<noteq> x \<Longrightarrow> mem s1 a = mem s a"
    using kalloc_Cons [OF km] k x by (auto simp: page_fill_other)
  have "kmem_inv (s1\<lparr>mem := new_table P i x (mem s1)\<rparr>) fs"
    using s1(2)
  proof (rule kmem_inv_frame)
    fix a assume "PGROUNDDOWN a \<in> set fs"
    then show "new_table P i x (mem s1) a = mem s1 a"
      using P x i by (intro new_table_mem(1)) auto
  qed
  moreover have "pt_wf l (new_table P i x (mem s1)) x" "tabset l (new_table P i x (mem s1)) x = {x}"
    using zero_table [of x "new_table P i x (mem s1)"] new_table_mem(3) [of P x i] P x i by auto
  ultimately show "tab_inv (s1\<lparr>mem := new_table P i x (mem s1)\<rparr>) x l fs"
    using x by (simp add: tab_inv_def)
qed

lemma walk_alloc_new:
  assumes inv: "tab_inv s P (Suc l) (x # fs)" and nv: "\<not> valid (pte_at (mem s) P (PX (Suc l) va))"
    and k: "kalloc s = Inr (r, s1)"
    and IH: "walk_post l x va (s1\<lparr>mem := new_table P (PX (Suc l) va) x (mem s1)\<rparr>) fs p s' n"
  shows "walk_post (Suc l) P va s (x # fs) p s' (Suc n)"
proof -
  let ?i = "PX (Suc l) va" and ?m = "new_table P (PX (Suc l) va) x (mem s1)"
  let ?F = "set (take (Suc n) (x # fs))"
  have i: "?i < 512" by simp
  note new = tab_inv_new [OF inv k i]
  have wf: "pt_wf (Suc l) (mem s) P" and disj: "tabset (Suc l) (mem s) P \<inter> set (x # fs) = {}"
    and dist: "distinct (x # fs)"
    using inv by (simp_all add: tab_inv_def kmem_inv_def)
  have P: "aligned P" using wf by simp
  have F: "?F \<inter> tabset (Suc l) (mem s) P = {}" using disj set_take_subset [of "Suc n" "x # fs"] by blast
  have PF: "P \<notin> ?F" using F tabset_root [of P "Suc l" "mem s"] by blast
  note tab = new_table_mem [OF P new(3,4) i]
  have x: "tabset l ?m x = {x}" "leaf l ?m x w = 0" for w
    using zero_table [OF new(3,2)] tab(3) by auto
  have out: "mem s' a = ?m a" if "PGROUNDDOWN a \<notin> ?F" for a
    using IH that x(1) by (auto simp: walk_post_def)
  have eP: "pte_at (mem s') P j = (if j = ?i then PA2PTE x OR 1 else pte_at (mem s) P j)" if "j < 512" for j
  proof -
    have "pte_at (mem s') P j = pte_at ?m P j" using that PF out by (intro pte_at_page [OF P]) auto
    moreover have "pte_at (mem s1) P j = pte_at (mem s) P j"
      using that new(4,6) by (intro pte_at_page [OF P]) auto
    ultimately show ?thesis using tab(2) [OF that] by simp
  qed
  have child: "PTE2PA (pte_at (mem s') P ?i) = x" using eP [OF i] new(3) by (simp add: PTE2PA_PA2PTE)
  have same2: "pte_at (mem s') P j = pte_at (mem s) P j" if "j < 512" "j \<noteq> ?i" for j
    using that eP by simp
  have nw: "valid (pte_at (mem s') P ?i)" "pt_wf l (mem s') (PTE2PA (pte_at (mem s') P ?i))"
    "tabset l (mem s') (PTE2PA (pte_at (mem s') P ?i)) \<subseteq> ?F"
    unfolding child using eP [OF i] IH x(1) by (auto simp: walk_post_def tab_inv_def)
  have N: "?F = (if valid (pte_at (mem s) P ?i) then tabset l (mem s) (PTE2PA (pte_at (mem s) P ?i)) else {}) \<union> ?F"
    using nv by simp
  have out2: "mem s' a = mem s a" if "PGROUNDDOWN a \<notin> insert P ?F" for a
    using that out [of a] tab(1) [of a "mem s1"] new(6) [of a] by simp
  note upd = child_update [OF wf i same2 nw N F out2]
  have lf: "leaf (Suc l) (mem s') P w = leaf (Suc l) (mem s) P w" for w
  proof (cases "PX (Suc l) w = ?i")
    case True
    have "leaf l (mem s') x w = 0" using IH x(2) by (simp add: walk_post_def)
    then show ?thesis using True nv nw(1) child by simp
  qed (rule upd(3))
  have ro: "p \<noteq> 0 \<Longrightarrow> walk_ro (Suc l) (mem s') P va = p" using IH nw(1) child by (simp add: walk_post_def)
  have "tabset (Suc l) (mem s') P \<inter> set (drop (Suc n) (x # fs)) = {}"
  proof -
    have "?F \<inter> set (drop (Suc n) (x # fs)) = {}"
      using dist by (rule set_take_disj_set_drop_if_distinct) simp
    then show ?thesis using upd(2) disj set_drop_subset [of "Suc n" "x # fs"] by blast
  qed
  moreover have "kmem_inv s' (drop n fs)" "only_mem s s'" "n \<le> length fs"
    using IH new(5) by (simp_all add: walk_post_def tab_inv_def only_mem_def)
  moreover have "n \<le> l" "p = 0 \<longrightarrow> n = length fs" "p = 0 \<longrightarrow> length fs < l"
    using IH unfolding walk_post_def by (blast, blast, metis)
  moreover have "mem s' a = mem s a" if "PGROUNDDOWN a \<notin> tabset (Suc l) (mem s) P \<union> ?F" for a
    using that out2 by auto
  ultimately show ?thesis unfolding walk_post_def tab_inv_def using upd(1,2) lf ro by simp
qed

lemma walk_alloc:
  assumes "tab_inv s P l fs"
  shows "\<exists>p s' k. walk_loop l P va True s = Inr (p, s') \<and> walk_post l P va s fs p s' k"
  using assms
proof (induction l arbitrary: P s fs)
  case 0
  then have "P + 8 * PX 0 va \<noteq> 0" by (simp add: tab_inv_def entry_nz)
  with 0 show ?case by (auto simp: walk_post_def intro!: exI [of _ 0])
next
  case (Suc l)
  let ?i = "PX (Suc l) va"
  show ?case
  proof (cases "valid (pte_at (mem s) P ?i)")
    case True
    let ?C = "PTE2PA (pte_at (mem s) P ?i)"
    have wf: "pt_wf (Suc l) (mem s) P" using Suc.prems by (simp add: tab_inv_def)
    have "tabset l (mem s) ?C \<subseteq> tabset (Suc l) (mem s) P" "pt_wf l (mem s) ?C"
      by (rule pt_wf_child [OF wf PX_less True])+
    then have "tab_inv s ?C l fs" using Suc.prems unfolding tab_inv_def by blast
    from Suc.IH [OF this] obtain p s' k where
      w: "walk_loop l ?C va True s = Inr (p, s')" "walk_post l ?C va s fs p s' k" by blast
    have "walk_loop (Suc l) P va True s = Inr (p, s')"
      using w(1) True by (simp add: pte_at_def Let_def)
    with walk_alloc_valid [OF Suc.prems True w(2)] show ?thesis by blast
  next
    case False
    show ?thesis
    proof (cases fs)
      case Nil
      then have km: "kmem_inv s []" using Suc.prems by (simp add: tab_inv_def)
      let ?s' = "s\<lparr>lks := settle (lks s)\<rparr>"
      have w: "walk_loop (Suc l) P va True s = Inr (0, ?s')"
        using False km by (simp add: pte_at_def Let_def kalloc_empty)
      have "kmem_inv ?s' []" using km by (simp add: kmem_inv_def ram_page_def)
      then have "walk_post (Suc l) P va s fs 0 ?s' 0"
        using Suc.prems Nil by (simp add: walk_post_def tab_inv_def only_mem_def)
      with w show ?thesis by blast
    next
      case (Cons x gs)
      have inv: "tab_inv s P (Suc l) (x # gs)" using Suc.prems Cons by simp
      then have "kmem_inv s (x # gs)" by (simp add: tab_inv_def)
      then obtain r s1 where k: "kalloc s = Inr (r, s1)" by (simp add: kalloc_Cons)
      have i: "?i < 512" by simp
      note new = tab_inv_new [OF inv k i]
      let ?s2 = "s1\<lparr>mem := new_table P ?i x (mem s1)\<rparr>"
      from Suc.IH [OF new(7)] obtain p s' n where
        w: "walk_loop l x va True ?s2 = Inr (p, s')" "walk_post l x va ?s2 gs p s' n" by blast
      have "walk_loop (Suc l) P va True s = Inr (p, s')"
        using w(1) False k new(1,2) by (simp add: pte_at_def Let_def memset_eq new_table_def)
      with walk_alloc_new [OF inv False k w(2)] Cons show ?thesis by blast
    qed
  qed
qed

section \<open>Changing the entry of one page\<close>

lemma walk_ro_page:
  "pt_wf l m P \<Longrightarrow> walk_ro l m P va = p \<Longrightarrow> p \<noteq> 0 \<Longrightarrow>
   \<exists>Q\<in>tabset l m P. p = Q + 8 * PX 0 va \<and> rd64 m p = leaf l m P va"
proof (induction l arbitrary: P)
  case (Suc l)
  then have v: "valid (pte_at m P (PX (Suc l) va))" by (auto split: if_splits)
  note C = pt_wf_child [OF Suc.prems(1) PX_less v]
  have w: "walk_ro l m (PTE2PA (pte_at m P (PX (Suc l) va))) va = p" using Suc.prems(2) v by simp
  obtain Q where "Q \<in> tabset l m (PTE2PA (pte_at m P (PX (Suc l) va)))" "p = Q + 8 * PX 0 va"
      "rd64 m p = leaf (Suc l) m P va"
    using Suc.IH [OF C(1) w Suc.prems(3)] v by auto
  with C(3) show ?case by blast
qed (simp add: pte_at_def)

lemma leaf_set:
  assumes "pt_wf l m P" "walk_ro l m P va = p" "p \<noteq> 0"
  shows "pt_wf l (wr64 m p v) P \<and> tabset l (wr64 m p v) P = tabset l m P \<and>
    (\<forall>w. leaf l (wr64 m p v) P w = (if \<forall>k\<le>l. PX k w = PX k va then v else leaf l m P w))"
  using assms
proof (induction l arbitrary: P)
  case 0
  then show ?case by (auto simp: pte_at_wr64)
next
  case (Suc l)
  let ?i = "PX (Suc l) va" and ?C = "PTE2PA (pte_at m P (PX (Suc l) va))" and ?m = "wr64 m p v"
  have v: "valid (pte_at m P ?i)" using Suc.prems by (auto split: if_splits)
  have i: "?i < 512" by simp
  note wf = Suc.prems(1)
  have C: "pt_wf l m ?C" "walk_ro l m ?C va = p" using Suc.prems v by (auto split: if_splits)
  note IH = Suc.IH [OF C Suc.prems(3)]
  obtain Q where Q: "Q \<in> tabset l m ?C" "p = Q + 8 * PX 0 va"
    using walk_ro_page [OF C Suc.prems(3)] by blast
  have "aligned Q" using tabset_page [OF C(1) Q(1)] by simp
  then have out: "?m a = m a" if "PGROUNDDOWN a \<notin> tabset l m ?C" for a
  proof -
    have "PGROUNDDOWN a \<noteq> Q" using that Q(1) by metis
    then show ?thesis unfolding Q(2) using \<open>aligned Q\<close> by (intro entry_page) simp_all
  qed
  have P: "aligned P" "P \<notin> tabset l m ?C" using pt_wf_child(2) [OF wf i v] wf by auto
  have same: "pte_at ?m P j = pte_at m P j" if "j < 512" for j
    using that P out by (intro pte_at_page) auto
  have same2: "pte_at ?m P j = pte_at m P j" if "j < 512" "j \<noteq> ?i" for j using that same by simp
  have nw: "valid (pte_at ?m P ?i)" "pt_wf l ?m (PTE2PA (pte_at ?m P ?i))"
    "tabset l ?m (PTE2PA (pte_at ?m P ?i)) \<subseteq> tabset l m ?C"
    unfolding same [OF i] using v IH by auto
  have N: "tabset l m ?C = (if valid (pte_at m P ?i) then tabset l m ?C else {}) \<union> {}" using v by simp
  have out2: "?m a = m a" if "PGROUNDDOWN a \<notin> insert P (tabset l m ?C)" for a using that out by simp
  note upd = child_update [OF wf i same2 nw N _ out2, simplified]
  have "leaf (Suc l) ?m P w = (if \<forall>k\<le>Suc l. PX k w = PX k va then v else leaf (Suc l) m P w)" for w
  proof (cases "PX (Suc l) w = ?i")
    case True
    then have "leaf (Suc l) ?m P w = leaf l ?m ?C w" "leaf (Suc l) m P w = leaf l m ?C w"
      using v same [OF i] by simp_all
    then show ?thesis using IH True by (auto simp: le_Suc_eq)
  next
    case False
    then show ?thesis using upd(3) [of w] by auto
  qed
  moreover have "tabset (Suc l) ?m P = tabset (Suc l) m P"
  proof -
    have "tabset l ?m (PTE2PA (pte_at ?m P j)) = tabset l m (PTE2PA (pte_at m P j))"
      if j: "j < 512" "valid (pte_at m P j)" for j
    proof (cases "j = ?i")
      case True
      then show ?thesis using IH same [OF i] by simp
    next
      case False
      have "tabset l m (PTE2PA (pte_at m P j)) \<inter> tabset l m ?C = {}" using pt_wf_child(4) [OF wf i v j(1) False j(2)] by auto
      then show ?thesis using table_frame(1) [OF pt_wf_child(1) [OF wf j]] out same j by (metis disjoint_iff)
    qed
    then show ?thesis using same by auto
  qed
  ultimately show ?case using upd(1) by simp
qed

section \<open>Mapping pages\<close>

text \<open>
  A page table as a function on page addresses, and what \<^verbatim>\<open>mappages\<close> should do to it.
\<close>

definition ptmap :: "(addr \<Rightarrow> byte) \<Rightarrow> addr \<Rightarrow> uint64 \<Rightarrow> uint64" where
  "ptmap m pt va = (if aligned va \<and> va < MAXVA then leaf 2 m pt va else 0)"

fun add_maps :: "(uint64 \<Rightarrow> uint64) \<Rightarrow> uint64 \<Rightarrow> uint64 \<Rightarrow> uint64 \<Rightarrow> nat \<Rightarrow> uint64 \<Rightarrow> uint64" where
  "add_maps f a pa perm 0 = f"
| "add_maps f a pa perm (Suc n) =
     add_maps (f(a := PA2PTE pa OR perm OR PTE_V)) (a + PGSIZE) (pa + PGSIZE) perm n"

lemma aligned_low_bit: "aligned x \<Longrightarrow> n < 12 \<Longrightarrow> \<not> bit x n"
  by (metis PGROUNDDOWN_aligned PGROUNDDOWN_shift bit_push_bit_iff not_le)

lemma bit_PX: "bit (PX k va) j \<longleftrightarrow> j < 9 \<and> bit va (12 + 9 * k + j)"
proof -
  have "PX k va = drop_bit (PXSHIFT k) va AND mask 9" by (simp add: PX_def mask_eq_exp_minus_1)
  then show ?thesis by (auto simp: PXSHIFT_def bit_simps ac_simps dest: bit_imp_le_length simp del: mask_numeral)
qed

lemma PX_inj:
  assumes "aligned v" "aligned w" "v < MAXVA" "w < MAXVA"
  shows "(\<forall>k\<le>2. PX k v = PX k w) \<longleftrightarrow> v = w"
proof
  assume px: "\<forall>k\<le>2. PX k v = PX k w"
  show "v = w"
  proof (rule bit_word_eqI)
    fix n assume "n < LENGTH(64)"
    have hi: "\<not> bit x n" if "x < MAXVA" "39 \<le> n" for x :: uint64
    proof -
      have "take_bit 38 x = x"
        using that(1) by (intro word_unat_eqI) (simp add: take_bit_eq_mod unat_mod word_less_nat_alt)
      then show ?thesis using that(2) bit_take_bit_iff [of 38 x n] by simp
    qed
    consider "n < 12" | "39 \<le> n" | "12 \<le> n" "n < 39" by linarith
    then show "bit v n = bit w n"
    proof cases
      case 1
      then show ?thesis using assms aligned_low_bit by blast
    next
      case 2
      then show ?thesis using assms hi by blast
    next
      case 3
      define k where "k = (n - 12) div 9"
      define j where "j = (n - 12) mod 9"
      have "n = 12 + 9 * k + j" "j < 9" "k \<le> 2" using 3 by (simp_all add: k_def j_def)
      then show ?thesis using px bit_PX [of k v j] bit_PX [of k w j] by simp
    qed
  qed
qed simp

text \<open>Mapping one page.\<close>

lemma map_one:
  assumes inv: "tab_inv s pt 2 fs" and a: "aligned a" "a < MAXVA"
  obtains p s1 k where "walk pt a True s = Inr (p, s1)" "walk_post 2 pt a s fs p s1 k"
    "ptmap (mem s1) pt = ptmap (mem s) pt"
    "p \<noteq> 0 \<Longrightarrow> rd64 (mem s1) p = ptmap (mem s) pt a"
    "\<And>v. p \<noteq> 0 \<Longrightarrow> tab_inv (s1\<lparr>mem := wr64 (mem s1) p v\<rparr>) pt 2 (drop k fs)"
    "\<And>v. p \<noteq> 0 \<Longrightarrow> ptmap (wr64 (mem s1) p v) pt = (ptmap (mem s) pt)(a := v)"
    "\<And>v. p \<noteq> 0 \<Longrightarrow> tabset 2 (wr64 (mem s1) p v) pt = tabset 2 (mem s1) pt"
    "\<And>v x. p \<noteq> 0 \<Longrightarrow> PGROUNDDOWN x \<notin> tabset 2 (mem s1) pt \<Longrightarrow> wr64 (mem s1) p v x = mem s1 x"
proof -
  obtain p s1 k where w: "walk_loop 2 pt a True s = Inr (p, s1)" "walk_post 2 pt a s fs p s1 k"
    using walk_alloc [OF inv] by blast
  have wf: "pt_wf 2 (mem s1) pt" and km: "kmem_inv s1 (drop k fs)"
    and dis: "tabset 2 (mem s1) pt \<inter> set (drop k fs) = {}"
    using w(2) by (simp_all add: walk_post_def tab_inv_def)
  have lf: "leaf 2 (mem s1) pt v = leaf 2 (mem s) pt v" for v using w(2) by (simp add: walk_post_def)
  have pm: "ptmap (mem s1) pt = ptmap (mem s) pt" by (simp add: ptmap_def lf fun_eq_iff)
  { assume p: "p \<noteq> 0"
    then have ro: "walk_ro 2 (mem s1) pt a = p" using w(2) by (simp add: walk_post_def)
    obtain Q where Q: "Q \<in> tabset 2 (mem s1) pt" "p = Q + 8 * PX 0 a" "rd64 (mem s1) p = leaf 2 (mem s1) pt a"
      using walk_ro_page [OF wf ro p] by blast
    have al: "aligned Q" using tabset_page [OF wf Q(1)] by simp
    note set = leaf_set [OF wf ro p]
    have out: "wr64 (mem s1) p v x = mem s1 x" if "PGROUNDDOWN x \<notin> tabset 2 (mem s1) pt" for v x
    proof -
      have "PGROUNDDOWN x \<noteq> Q" using that Q(1) by metis
      then show ?thesis unfolding Q(2) using al by (intro entry_page) simp_all
    qed
    have "kmem_inv (s1\<lparr>mem := wr64 (mem s1) p v\<rparr>) (drop k fs)" for v
      using dis by (intro kmem_inv_frame [OF km] out) blast
    then have "tab_inv (s1\<lparr>mem := wr64 (mem s1) p v\<rparr>) pt 2 (drop k fs)" for v
      using set [of v] dis by (simp add: tab_inv_def)
    moreover have "ptmap (wr64 (mem s1) p v) pt = (ptmap (mem s) pt)(a := v)" for v
      using set [of v] lf PX_inj [OF _ a(1) _ a(2)] a by (auto simp: ptmap_def fun_eq_iff)
    moreover have "rd64 (mem s1) p = ptmap (mem s) pt a" using Q(3) lf a by (simp add: ptmap_def)
    ultimately have "rd64 (mem s1) p = ptmap (mem s) pt a"
      "\<And>v. tab_inv (s1\<lparr>mem := wr64 (mem s1) p v\<rparr>) pt 2 (drop k fs)"
      "\<And>v. ptmap (wr64 (mem s1) p v) pt = (ptmap (mem s) pt)(a := v)"
      "\<And>v. tabset 2 (wr64 (mem s1) p v) pt = tabset 2 (mem s1) pt"
      "\<And>v x. PGROUNDDOWN x \<notin> tabset 2 (mem s1) pt \<Longrightarrow> wr64 (mem s1) p v x = mem s1 x"
      using set out by blast+ }
  moreover have "walk pt a True s = Inr (p, s1)" using w(1) a by (simp add: walk_def not_le)
  ultimately show thesis using that w(2) pm by blast
qed

text \<open>
  The outcome of mapping \<open>n\<close> pages: the first \<open>j\<close> of them are mapped, all of them unless the
  allocator ran out of pages; \<open>k\<close> pages became page-table pages.
\<close>

definition map_post :: "'a kmemst_scheme \<Rightarrow> addr \<Rightarrow> addr list \<Rightarrow> uint64 \<Rightarrow> uint64 \<Rightarrow> uint64 \<Rightarrow> nat \<Rightarrow>
    int \<Rightarrow> 'a kmemst_scheme \<Rightarrow> nat \<Rightarrow> nat \<Rightarrow> bool" where
  "map_post s pt fs a pa perm n r s' j k \<longleftrightarrow>
     tab_inv s' pt 2 (drop k fs) \<and> only_mem s s' \<and> j \<le> n \<and> k \<le> length fs \<and>
     r = (if j = n then 0 else - 1) \<and> (j < n \<longrightarrow> k = length fs \<and> k < 2 * Suc j) \<and>
     ptmap (mem s') pt = add_maps (ptmap (mem s) pt) a pa perm j \<and>
     tabset 2 (mem s') pt \<subseteq> tabset 2 (mem s) pt \<union> set (take k fs) \<and>
     (\<forall>x. PGROUNDDOWN x \<notin> tabset 2 (mem s) pt \<union> set (take k fs) \<longrightarrow> mem s' x = mem s x)"

lemma map_post_step:
  assumes first: "tabset 2 (mem s2) pt \<subseteq> tabset 2 (mem s) pt \<union> set (take k fs)" "only_mem s s2" "k \<le> length fs" "k \<le> 2"
      "ptmap (mem s2) pt = (ptmap (mem s) pt)(a := PA2PTE pa OR perm OR PTE_V)"
      "\<And>x. PGROUNDDOWN x \<notin> tabset 2 (mem s) pt \<union> set (take k fs) \<Longrightarrow> mem s2 x = mem s x"
    and rest: "map_post s2 pt (drop k fs) (a + PGSIZE) (pa + PGSIZE) perm n r s' j i"
  shows "map_post s pt fs a pa perm (Suc n) r s' (Suc j) (k + i)"
proof -
  have t: "set (take (k + i) fs) = set (take k fs) \<union> set (take i (drop k fs))"
    by (simp add: take_add)
  have "only_mem s s'" using first(2) rest by (auto simp: map_post_def intro: only_mem_trans)
  moreover have "mem s' x = mem s x" if "PGROUNDDOWN x \<notin> tabset 2 (mem s) pt \<union> set (take (k + i) fs)" for x
  proof -
    have "PGROUNDDOWN x \<notin> tabset 2 (mem s2) pt \<union> set (take i (drop k fs))" using that first(1) t by blast
    then have "mem s' x = mem s2 x" using rest unfolding map_post_def by blast
    also have "\<dots> = mem s x" using that t by (intro first(6)) blast
    finally show ?thesis .
  qed
  moreover have "tabset 2 (mem s') pt \<subseteq> tabset 2 (mem s) pt \<union> set (take (k + i) fs)"
    using rest first(1) t unfolding map_post_def by blast
  moreover have "i \<le> length (drop k fs)" using rest unfolding map_post_def by blast
  then have "k + i \<le> length fs" using first(3) by simp
  moreover have "j < n \<Longrightarrow> k + i < 2 * Suc (Suc j)" using rest first(4) by (simp add: map_post_def)
  ultimately show ?thesis using rest first(3,5) by (simp add: map_post_def add.commute)
qed

lemma mappages_loop_ok:
  assumes "tab_inv s pt 2 fs" "aligned a" "0 < n" "unat a + 4096 * n \<le> 2 ^ 38"
    "\<And>i. i < n \<Longrightarrow> \<not> valid (ptmap (mem s) pt (a + 4096 * of_nat i))" "z = a + 4096 * of_nat (n - 1)"
  shows "\<exists>r s' j k. mappages_loop pt a z pa perm s = Inr (r, s') \<and> map_post s pt fs a pa perm n r s' j k"
  using assms
proof (induction n arbitrary: s fs a pa)
  case (Suc n)
  have a: "a < MAXVA" using Suc.prems(4) by (simp add: word_less_nat_alt)
  obtain p s1 k where w: "walk pt a True s = Inr (p, s1)" "walk_post 2 pt a s fs p s1 k"
    "ptmap (mem s1) pt = ptmap (mem s) pt"
    and e: "p \<noteq> 0 \<Longrightarrow> rd64 (mem s1) p = ptmap (mem s) pt a"
    and st: "\<And>v. p \<noteq> 0 \<Longrightarrow> tab_inv (s1\<lparr>mem := wr64 (mem s1) p v\<rparr>) pt 2 (drop k fs)"
      "\<And>v. p \<noteq> 0 \<Longrightarrow> ptmap (wr64 (mem s1) p v) pt = (ptmap (mem s) pt)(a := v)"
      "\<And>v. p \<noteq> 0 \<Longrightarrow> tabset 2 (wr64 (mem s1) p v) pt = tabset 2 (mem s1) pt"
      "\<And>v x. p \<noteq> 0 \<Longrightarrow> PGROUNDDOWN x \<notin> tabset 2 (mem s1) pt \<Longrightarrow> wr64 (mem s1) p v x = mem s1 x"
    using map_one [OF Suc.prems(1,2) a] by blast
  have wp: "tabset 2 (mem s1) pt \<subseteq> tabset 2 (mem s) pt \<union> set (take k fs)" "only_mem s s1" "k \<le> length fs"
      "tab_inv s1 pt 2 (drop k fs)" "p = 0 \<Longrightarrow> k = length fs \<and> k < 2" "k \<le> 2"
      "\<And>x. PGROUNDDOWN x \<notin> tabset 2 (mem s) pt \<union> set (take k fs) \<Longrightarrow> mem s1 x = mem s x"
    using w(2) by (simp_all add: walk_post_def)
  show ?case
  proof (cases "p = 0")
    case True
    then have "map_post s pt fs a pa perm (Suc n) (- 1) s1 0 k" using wp w(3) by (simp add: map_post_def)
    moreover have "mappages_loop pt a z pa perm s = Inr (- 1, s1)"
      using w(1) True by (simp add: mappages_loop.simps)
    ultimately show ?thesis by blast
  next
    case p: False
    let ?s2 = "s1\<lparr>mem := wr64 (mem s1) p (PA2PTE pa OR perm OR 1)\<rparr>"
    have nv: "\<not> valid (rd64 (mem s1) p)" using e [OF p] Suc.prems(5) [of 0] by simp
    have first: "tabset 2 (mem ?s2) pt \<subseteq> tabset 2 (mem s) pt \<union> set (take k fs)" "only_mem s ?s2"
        "ptmap (mem ?s2) pt = (ptmap (mem s) pt)(a := PA2PTE pa OR perm OR PTE_V)"
      using st(2,3) [OF p] wp(1,2) by (auto simp: only_mem_def)
    have "mem ?s2 x = mem s x" if "PGROUNDDOWN x \<notin> tabset 2 (mem s) pt \<union> set (take k fs)" for x
    proof -
      have "PGROUNDDOWN x \<notin> tabset 2 (mem s1) pt" using that wp(1) by blast
      then have "mem ?s2 x = mem s1 x" using st(4) [OF p] by simp
      then show ?thesis using wp(7) [OF that] by simp
    qed
    note first = first this
    note step = map_post_step [OF first(1,2) wp(3,6) first(3,4)]
    show ?thesis
    proof (cases "n = 0")
      case True
      then have "mappages_loop pt a z pa perm s = Inr (0, ?s2)"
        using w(1) p nv Suc.prems(6) by (simp add: mappages_loop.simps)
      moreover have "map_post ?s2 pt (drop k fs) (a + 4096) (pa + 4096) perm 0 0 ?s2 0 0"
        using st(1) [OF p] by (simp add: map_post_def)
      ultimately show ?thesis using step True by blast
    next
      case False
      have up: "unat (a + 4096 * of_nat i) = unat a + 4096 * i" if "i < Suc n" for i
        using that Suc.prems(4) by (simp add: unat_word_ariths unat_of_nat)
      have ne: "a + 4096 * of_nat i \<noteq> a" if "0 < i" "i < Suc n" for i
        using up [OF that(2)] that(1) by (metis add_cancel_right_right mult_is_0 neq0_conv zero_neq_numeral)
      have z: "z = a + 4096 * of_nat n" using Suc.prems(6) by simp
      have "mappages_loop pt a z pa perm s = mappages_loop pt (a + 4096) z (pa + 4096) perm ?s2"
        using w(1) p nv z ne [of n] False by (subst mappages_loop.simps) simp
      moreover have "\<exists>r s' j i. mappages_loop pt (a + 4096) z (pa + 4096) perm ?s2 = Inr (r, s') \<and>
          map_post ?s2 pt (drop k fs) (a + 4096) (pa + 4096) perm n r s' j i"
      proof (rule Suc.IH [OF st(1) [OF p]])
        show "aligned (a + 4096)" using Suc.prems(2) by (simp add: aligned_add)
        show "0 < n" using False by simp
        show "unat (a + 4096) + 4096 * n \<le> 2 ^ 38" using up [of 1] False Suc.prems(4) by simp
        show "z = a + 4096 + 4096 * of_nat (n - 1)" using z False by (cases n) (simp_all add: algebra_simps)
        fix i assume i: "i < n"
        have "a + 4096 + 4096 * of_nat i = a + 4096 * of_nat (Suc i)" by (simp add: algebra_simps)
        then show "\<not> valid (ptmap (mem ?s2) pt (a + 4096 + 4096 * of_nat i))"
          using first(3) ne [of "Suc i"] i Suc.prems(5) [of "Suc i"] by (simp add: add.assoc)
      qed
      ultimately show ?thesis using step by metis
    qed
  qed
qed simp

section \<open>Looking up addresses\<close>

lemma PX_page: "PX k (PGROUNDDOWN va) = PX k va"
  by (rule bit_word_eqI) (auto simp: bit_PX PGROUNDDOWN_shift bit_simps add.assoc dest: bit_imp_le_length)

lemma leaf_page: "leaf l m P (PGROUNDDOWN va) = leaf l m P va"
  by (induction l arbitrary: P) (simp_all add: PX_page)

lemma leaf_ptmap: "va < MAXVA \<Longrightarrow> leaf 2 m pt va = ptmap m pt (PGROUNDDOWN va)"
  using order_le_less_trans [OF PGROUNDDOWN_le] by (simp add: ptmap_def leaf_page)

lemma walk_ro_0: "pt_wf l m P \<Longrightarrow> walk_ro l m P va = 0 \<Longrightarrow> leaf l m P va = 0"
proof (induction l arbitrary: P)
  case 0
  then show ?case using entry_nz [of P 0 va] by simp
next
  case (Suc l)
  show ?case
  proof (cases "valid (pte_at m P (PX (Suc l) va))")
    case True
    with Suc.IH [OF pt_wf_child(1) [OF Suc.prems(1) PX_less True]] Suc.prems(2) show ?thesis by simp
  qed simp
qed

lemma rd64_walk_ro:
  "pt_wf l m P \<Longrightarrow> walk_ro l m P va \<noteq> 0 \<Longrightarrow> rd64 m (walk_ro l m P va) = leaf l m P va"
  using walk_ro_page by blast

lemma walk_no_alloc: "va < MAXVA \<Longrightarrow> walk pt va False s = Inr (walk_ro 2 (mem s) pt va, s)"
  by (simp add: walk_def walk_loop_ro)

definition user_pa :: "(uint64 \<Rightarrow> uint64) \<Rightarrow> uint64 \<Rightarrow> addr" where
  "user_pa f va = (let e = f (PGROUNDDOWN va)
     in if va < MAXVA \<and> e AND PTE_V \<noteq> 0 \<and> e AND PTE_U \<noteq> 0 then PTE2PA e else 0)"

lemma walkaddr_user_pa:
  assumes "pt_wf 2 (mem s) pt"
  shows "walkaddr pt va s = Inr (user_pa (ptmap (mem s) pt) va)"
proof (cases "va < MAXVA")
  case True
  note w = walk_no_alloc [OF True, of pt s] leaf_ptmap [OF True, of "mem s" pt]
  show ?thesis
  proof (cases "walk_ro 2 (mem s) pt va = 0")
    case 0: True
    then have "ptmap (mem s) pt (PGROUNDDOWN va) = 0" using walk_ro_0 [OF assms 0] w(2) by simp
    then show ?thesis using True w(1) 0 by (simp add: walkaddr_def user_pa_def)
  next
    case False
    then show ?thesis using True w rd64_walk_ro [OF assms False] by (auto simp: walkaddr_def user_pa_def Let_def)
  qed
next
  case False
  then show ?thesis by (auto simp: walkaddr_def user_pa_def Let_def)
qed

section \<open>Properties\<close>

lemma add_maps_other: "(\<And>i. i < n \<Longrightarrow> w \<noteq> a + 4096 * of_nat i) \<Longrightarrow> add_maps f a pa perm n w = f w"
proof (induction n arbitrary: f a pa)
  case (Suc n)
  have "w \<noteq> a + 4096 + 4096 * of_nat i" if "i < n" for i
    using Suc.prems [of "Suc i"] that by (simp add: algebra_simps)
  then have "add_maps (f(a := PA2PTE pa OR perm OR 1)) (a + 4096) (pa + 4096) perm n w =
      (f(a := PA2PTE pa OR perm OR 1)) w" by (rule Suc.IH)
  then show ?case using Suc.prems [of 0] by simp
qed simp

lemma add_maps_in:
  assumes "i < n" "unat a + 4096 * n \<le> 2 ^ 64"
  shows "add_maps f a pa perm n (a + 4096 * of_nat i) = PA2PTE (pa + 4096 * of_nat i) OR perm OR 1"
  using assms
proof (induction n arbitrary: f a pa i)
  case (Suc n)
  show ?case
  proof (cases i)
    case 0
    have "a \<noteq> a + 4096 + 4096 * of_nat k" if "k < n" for k
    proof
      assume "a = a + 4096 + 4096 * of_nat k"
      then have "unat (4096 + 4096 * of_nat k :: uint64) = 0" by (simp add: add.assoc)
      then show False using that Suc.prems(2) by (simp add: unat_word_ariths unat_of_nat)
    qed
    then show ?thesis using 0 add_maps_other [of n a "a + 4096"] by simp
  next
    case (Suc k)
    then have "unat (a + 4096) = unat a + 4096" using Suc.prems by (simp add: unat_word_ariths)
    then show ?thesis using Suc Suc.prems Suc.IH [of k "a + 4096"] by (simp add: algebra_simps)
  qed
qed simp

text \<open>The number of pages that \<open>sz\<close> bytes from \<open>va\<close> on touch.\<close>

definition npages_of :: "uint64 \<Rightarrow> uint64 \<Rightarrow> nat" where
  "npages_of va sz = (unat va + unat sz - 1) div 4096 - unat va div 4096 + 1"

lemma mappages_ok:
  assumes "tab_inv s pt 2 fs" "sz \<noteq> 0" "unat va + unat sz \<le> 2 ^ 38"
    "\<And>w. unat va div 4096 \<le> unat w div 4096 \<Longrightarrow> unat w < unat va + unat sz \<Longrightarrow> \<not> valid (ptmap (mem s) pt (PGROUNDDOWN w))"
  shows "\<exists>r s' j k. mappages pt va sz pa perm s = Inr (r, s') \<and>
    map_post s pt fs (PGROUNDDOWN va) pa perm (npages_of va sz) r s' j k"
proof -
  let ?a = "PGROUNDDOWN va" and ?n = "npages_of va sz"
  have sz: "0 < unat sz" using assms(2) by (simp add: unat_gt_0)
  have a: "unat ?a = unat va div 4096 * 4096" by (rule unat_PGROUNDDOWN)
  have e: "unat (va + sz - 1) = unat va + unat sz - 1"
  proof -
    have "unat (va + sz) = unat va + unat sz" using assms(3) by (simp add: unat_word_ariths)
    then show ?thesis using sz by (simp add: unat_sub_if')
  qed
  have le: "unat va div 4096 \<le> (unat va + unat sz - 1) div 4096" using sz by (intro div_le_mono) simp
  have n: "unat ?a + 4096 * (?n - 1) = unat (PGROUNDDOWN (va + sz - 1))"
  proof -
    obtain d where d: "(unat va + unat sz - 1) div 4096 = unat va div 4096 + d"
      using le le_iff_add by blast
    show ?thesis unfolding npages_of_def unat_PGROUNDDOWN e d by (simp add: add_mult_distrib)
  qed
  have top: "unat ?a + 4096 * (?n - 1) \<le> unat va + unat sz - 1"
    unfolding n by (simp add: unat_PGROUNDDOWN e div_times_less_eq_dividend)
  have npos: "0 < ?n" by (simp add: npages_of_def)
  have step: "unat (?a + 4096 * of_nat i) = unat ?a + 4096 * i" if "i < ?n" for i
  proof -
    have "unat ?a + 4096 * i < 2 ^ 38" using that top assms(3) sz by linarith
    then show ?thesis by (simp add: unat_word_ariths unat_of_nat)
  qed
  have "\<exists>r s' j k. mappages_loop pt ?a (PGROUNDDOWN (va + sz - 1)) pa perm s = Inr (r, s') \<and>
      map_post s pt fs ?a pa perm ?n r s' j k"
  proof (rule mappages_loop_ok [OF assms(1)])
    show "unat ?a + 4096 * ?n \<le> 2 ^ 38"
    proof -
      have "4096 dvd unat ?a + 4096 * ?n" unfolding a by simp
      then obtain q where q: "unat ?a + 4096 * ?n = 4096 * q" by blast
      then have "4096 * q < 2 ^ 38 + 4096" using top npos assms(3) sz by simp
      then show ?thesis using q by simp
    qed
    show "\<not> valid (ptmap (mem s) pt (?a + 4096 * of_nat i))" if i: "i < ?n" for i
    proof -
      let ?w = "?a + 4096 * of_nat i"
      have u: "unat ?w = unat va div 4096 * 4096 + 4096 * i" using step [OF i] a by simp
      then have "aligned ?w" by (simp add: aligned_unat)
      moreover have "unat ?w < unat va + unat sz" using u top a i sz by simp
      moreover have "unat va div 4096 \<le> unat ?w div 4096" using u by simp
      ultimately show ?thesis using assms(4) [of ?w] by (simp add: PGROUNDDOWN_aligned)
    qed
    show "PGROUNDDOWN (va + sz - 1) = ?a + 4096 * of_nat (?n - 1)"
      by (rule word_unat_eqI) (use step [of "?n - 1"] npos n in simp)
  qed (simp_all add: npos)
  then show ?thesis using assms(2) by (simp add: mappages_def)
qed

text \<open>
  C3: \<^verbatim>\<open>mappages\<close> refines insertion into the map from page addresses to entries. On a well-formed
  table, for a range below \<^verbatim>\<open>MAXVA\<close> none of whose pages is mapped, it does not panic. It returns 0
  when every page of the range has been mapped to the consecutive physical pages from \<open>pa\<close> on and no
  other translation has changed; it returns -1 only when the allocator is exhausted, with a prefix of
  the pages mapped, and never when there are at least two free pages for each page to map. The table stays well formed and separate from the free pages, and no byte outside
  the table's pages changes.
\<close>

theorem mappages_refines:
  assumes "tab_inv s pt 2 fs" "sz \<noteq> 0" "unat va + unat sz \<le> 2 ^ 38"
    "\<forall>w. unat va div 4096 \<le> unat w div 4096 \<and> unat w < unat va + unat sz \<longrightarrow>
       \<not> valid (ptmap (mem s) pt (PGROUNDDOWN w))"
  shows "\<exists>r s' j k. mappages pt va sz pa perm s = Inr (r, s') \<and>
    r = (if j = npages_of va sz then 0 else - 1) \<and> j \<le> npages_of va sz \<and>
    (j < npages_of va sz \<longrightarrow> k = length fs \<and> length fs < 2 * npages_of va sz) \<and>
    ptmap (mem s') pt = add_maps (ptmap (mem s) pt) (PGROUNDDOWN va) pa perm j \<and>
    tab_inv s' pt 2 (drop k fs) \<and> tabset 2 (mem s') pt \<subseteq> tabset 2 (mem s) pt \<union> set (take k fs) \<and>
    (\<forall>x. PGROUNDDOWN x \<notin> tabset 2 (mem s) pt \<union> set (take k fs) \<longrightarrow> mem s' x = mem s x)"
proof -
  obtain r s' j k where "mappages pt va sz pa perm s = Inr (r, s')"
      "map_post s pt fs (PGROUNDDOWN va) pa perm (npages_of va sz) r s' j k"
    using mappages_ok [OF assms(1-3), of pa perm] assms(4) by blast
  then show ?thesis unfolding map_post_def
    by (intro exI [of _ r] exI [of _ s'] exI [of _ j] exI [of _ k]) auto
qed

text \<open>A state with two free pages and a root page without entries.\<close>

definition vm0 :: kmemst where
  "vm0 = kmem0\<lparr>kend := 0x87FFD000, mem := wr64 (\<lambda>_. 0) 0x87FFF000 0x87FFE000, freelist := 0x87FFF000\<rparr>"

lemma vm0_table: "tab_inv vm0 0x87FFD000 2 [0x87FFF000, 0x87FFE000]" "ptmap (mem vm0) 0x87FFD000 w = 0"
  "tabset 2 (mem vm0) 0x87FFD000 = {0x87FFD000}"
proof -
  have al: "aligned 0x87FFD000" "(0x87FFD000 :: uint64) \<noteq> 0" "aligned 0x87FFE000" "aligned 0x87FFF000"
    by (simp_all add: aligned_def)
  have m: "mem vm0 a = 0" if "PGROUNDDOWN a \<noteq> 0x87FFF000" for a
    using that by (simp add: vm0_def kmem0_def page_head_other [OF al(4)])
  have z0: "pte_at (\<lambda>_. 0) P i = 0" for P i
    by (simp add: pte_at_def rd64_def mem_get_def upt_rec)
  have z: "pte_at (mem vm0) P i = 0" if "aligned P" "P \<noteq> 0x87FFF000" "i < 512" for P i
    using pte_at_page [OF that(1,3), of "mem vm0" "\<lambda>_. 0"] m that(2) z0 by simp
  have "rd64 (mem vm0) 0x87FFE000 = 0" using z [of "0x87FFE000" 0] al by (simp add: pte_at_def)
  moreover have "rd64 (mem vm0) 0x87FFF000 = 0x87FFE000" by (simp add: vm0_def rd64_wr64)
  ultimately have "kmem_inv vm0 [0x87FFF000, 0x87FFE000]"
    by (simp add: kmem_inv_def ram_page_def aligned_def vm0_def kmem0_def)
  moreover have ne: "(0x87FFD000 :: uint64) \<noteq> 0x87FFF000" by simp
  note t = zero_table [OF al(1,2), of "mem vm0" 2, OF z [OF al(1) ne]]
  ultimately show "tab_inv vm0 0x87FFD000 2 [0x87FFF000, 0x87FFE000]"
    by (simp add: tab_inv_def)
  show "ptmap (mem vm0) 0x87FFD000 w = 0" using t(3) by (simp add: ptmap_def)
  show "tabset 2 (mem vm0) 0x87FFD000 = {0x87FFD000}" by (rule t(2))
qed

theorem mappages_refines_witness:
  "\<exists>s'. mappages 0x87FFD000 0x1000 0x1000 0x80000000 PTE_R vm0 = Inr (0, s') \<and>
    ptmap (mem s') 0x87FFD000 0x1000 = PA2PTE 0x80000000 OR PTE_R OR PTE_V"
proof -
  have a: "PGROUNDDOWN 0x1000 = 0x1000" "npages_of 0x1000 0x1000 = 1"
    by (simp_all add: PGROUNDDOWN_def npages_of_def)
  show ?thesis
    using mappages_refines [OF vm0_table(1), of "0x1000" "0x1000" "0x80000000" PTE_R]
    unfolding vm0_table(2) a by (auto simp: le_Suc_eq)
qed

text \<open>
  A page that \<^verbatim>\<open>mappages\<close> has mapped for the user is found by \<^verbatim>\<open>walkaddr\<close> at every address inside
  it, with the physical page it was mapped to; before the mapping, and for every address of a page
  that is not mapped, \<^verbatim>\<open>walkaddr\<close> returns 0.
\<close>

lemma mappages_walkaddr:
  assumes "tab_inv s pt 2 fs" "aligned va" "va < MAXVA" "aligned pa" "perm < 1024" "perm AND PTE_U \<noteq> 0"
    "\<not> valid (ptmap (mem s) pt va)" "mappages pt va PGSIZE pa perm s = Inr (0, s')"
  shows "(PGROUNDDOWN w = va \<longrightarrow> walkaddr pt w s = Inr 0 \<and> walkaddr pt w s' = Inr pa) \<and>
    (PGROUNDDOWN w \<noteq> va \<longrightarrow> walkaddr pt w s' = walkaddr pt w s)"
proof -
  have va: "unat va mod 4096 = 0" "unat va < 2 ^ 38" using assms(2,3) by (simp_all add: aligned_unat word_less_nat_alt)
  then obtain q where q: "unat va = 4096 * q" by (auto simp: mod_eq_0_iff_dvd)
  then have top: "unat va + unat (0x1000 :: uint64) \<le> 2 ^ 38" using va(2) by simp
  have w1: "PGROUNDDOWN w = va" if "unat va div 4096 \<le> unat w div 4096" "unat w < unat va + unat (0x1000 :: uint64)" for w
    using that q by (intro word_unat_eqI) (simp add: unat_PGROUNDDOWN)
  have n: "npages_of va 0x1000 = 1" using q by (simp add: npages_of_def)
  obtain r s'' j k where m: "mappages pt va 0x1000 pa perm s = Inr (r, s'')"
      "map_post s pt fs (PGROUNDDOWN va) pa perm (npages_of va 0x1000) r s'' j k"
    using mappages_ok [OF assms(1) _ top, of pa perm] assms(7) w1 by auto
  have wf: "pt_wf 2 (mem s) pt" "pt_wf 2 (mem s') pt" and "j = 1"
    using m assms(1,8) n by (auto simp: map_post_def tab_inv_def split: if_splits)
  then have pm: "ptmap (mem s') pt = (ptmap (mem s) pt)(va := PA2PTE pa OR perm OR 1)"
    using m assms(8) n by (simp add: map_post_def PGROUNDDOWN_aligned assms(2))
  have p: "perm OR 1 < 1024"
  proof -
    have "take_bit 10 (perm OR 1) = perm OR 1" using flags10 [OF assms(5)] by (simp add: take_bit_or)
    moreover have "take_bit 10 x < 1024" for x :: uint64
      by (simp add: take_bit_eq_mod word_less_nat_alt unat_mod)
    ultimately show ?thesis by metis
  qed
  have u: "(PA2PTE pa OR perm OR 1) AND 16 \<noteq> 0"
  proof -
    have "(PA2PTE pa OR perm OR 1) AND 16 = (PA2PTE pa AND 16) OR (perm AND 16) OR (1 AND 16)"
      by (rule bit_word_eqI) (auto simp: bit_simps)
    then show ?thesis using assms(6) by (simp add: or_eq_0_iff)
  qed
  have "w < MAXVA" if "PGROUNDDOWN w = va"
  proof -
    have "unat w div 4096 = q" using that q unat_PGROUNDDOWN [of w] by simp
    then show ?thesis using q top by (simp add: word_less_nat_alt)
  qed
  then show ?thesis
    using assms(7) u PTE2PA_PA2PTE [OF assms(4) p]
    by (auto simp: walkaddr_user_pa wf pm user_pa_def Let_def or.assoc)
qed

lemma mappages_walkaddr_example:
  "\<exists>s'. mappages 0x87FFD000 0x1000 PGSIZE 0x80000000 PTE_U vm0 = Inr (0, s') \<and>
    walkaddr 0x87FFD000 0x1234 s' = Inr 0x80000000"
proof -
  have a: "PGROUNDDOWN 0x1000 = 0x1000" "npages_of 0x1000 0x1000 = 1" "PGROUNDDOWN 0x1234 = 0x1000"
    by (simp_all add: PGROUNDDOWN_def npages_of_def)
  have "\<exists>r s' j k. mappages 0x87FFD000 0x1000 PGSIZE 0x80000000 PTE_U vm0 = Inr (r, s') \<and>
      map_post vm0 0x87FFD000 [0x87FFF000, 0x87FFE000] (PGROUNDDOWN 0x1000) 0x80000000 PTE_U
        (npages_of 0x1000 PGSIZE) r s' j k"
    by (rule mappages_ok [OF vm0_table(1)]) (simp_all add: vm0_table(2))
  then obtain s' where s': "mappages 0x87FFD000 0x1000 PGSIZE 0x80000000 PTE_U vm0 = Inr (0, s')"
    by (auto simp: map_post_def a split: if_splits)
  then show ?thesis
    using mappages_walkaddr [OF vm0_table(1) _ _ _ _ _ _ s', of "0x1234"] a(3)
    by (simp add: aligned_def vm0_table(2))
qed

end
