(* ===== verification/Uvm.thy ===== *)
theory Uvm
  imports Pagetable
begin

unbundle bit_operations_syntax

text \<open>
  User address spaces (the second half of \<^verbatim>\<open>kernel/vm.c\<close>): unmapping, growing, shrinking, copying and
  freeing them, and copying between kernel and user memory. A kernel buffer that is the source or
  destination of a copy is a list of bytes: it is never one of the pages behind the user's page table.
\<close>

section \<open>The operations\<close>

function uvmunmap_loop ::
  "addr \<Rightarrow> uint64 \<Rightarrow> uint64 \<Rightarrow> bool \<Rightarrow> 'a kmemst_scheme \<Rightarrow> kerr + 'a kmemst_scheme" where
  "uvmunmap_loop pagetable a e do_free s =
     (if a < e then
        bindE (walk pagetable a False s) (\<lambda>(pte, s).
        if pte = 0 then Inl (Panic ''uvmunmap: walk'')
        else if rd64 (mem s) pte AND PTE_V = 0 then Inl (Panic ''uvmunmap: not mapped'')
        else if PTE_FLAGS (rd64 (mem s) pte) = PTE_V then Inl (Panic ''uvmunmap: not a leaf'')
        else bindE (if do_free then kfree (PTE2PA (rd64 (mem s) pte)) s else Inr s) (\<lambda>s.
          let s = s\<lparr>mem := wr64 (mem s) pte 0\<rparr>
          in uvmunmap_loop pagetable (a + PGSIZE) e do_free s))
      else Inr s)"
  by pat_completeness auto
termination
  by (relation "measure (\<lambda>(pt, a, rest). 0x4000001000 - unat a)")
    (auto dest!: walk_bound simp: unat_word_ariths)

declare uvmunmap_loop.simps [simp del]

definition uvmunmap ::
  "addr \<Rightarrow> uint64 \<Rightarrow> uint64 \<Rightarrow> bool \<Rightarrow> 'a kmemst_scheme \<Rightarrow> kerr + 'a kmemst_scheme" where
  "uvmunmap pagetable va npages do_free s =
     (if va mod PGSIZE \<noteq> 0 then Inl (Panic ''uvmunmap: not aligned'')
      else uvmunmap_loop pagetable va (va + npages * PGSIZE) do_free s)"

definition uvmcreate :: "'a kmemst_scheme \<Rightarrow> kerr + addr \<times> 'a kmemst_scheme" where
  "uvmcreate s =
     bindE (kalloc s) (\<lambda>(pagetable, s).
       if pagetable = 0 then Inr (0, s)
       else Inr (pagetable, s\<lparr>mem := memset pagetable 0 4096 (mem s)\<rparr>))"

definition uvminit :: "addr \<Rightarrow> byte list \<Rightarrow> 'a kmemst_scheme \<Rightarrow> kerr + 'a kmemst_scheme" where
  "uvminit pagetable src s =
     (if length src \<ge> 4096 then Inl (Panic ''inituvm: more than a page'')
      else bindE (kalloc s) (\<lambda>(pa, s).
        if pa = 0 then Inl (Fault ''uvminit'')
        else bindE (mappages pagetable 0 PGSIZE pa (PTE_W OR PTE_R OR PTE_X OR PTE_U)
                     (s\<lparr>mem := memset pa 0 4096 (mem s)\<rparr>)) (\<lambda>(r, s).
          Inr (s\<lparr>mem := mem_put (mem s) pa src\<rparr>))))"

text \<open>The page count passes through a C \<^verbatim>\<open>int\<close>.\<close>

definition uvmdealloc :: "addr \<Rightarrow> uint64 \<Rightarrow> uint64 \<Rightarrow> 'a kmemst_scheme \<Rightarrow> kerr + uint64 \<times> 'a kmemst_scheme" where
  "uvmdealloc pagetable oldsz newsz s =
     (if newsz \<ge> oldsz then Inr (oldsz, s)
      else if PGROUNDUP newsz < PGROUNDUP oldsz then
        let npages = (ucast ((PGROUNDUP oldsz - PGROUNDUP newsz) div PGSIZE) :: uint)
        in bindE (uvmunmap pagetable (PGROUNDUP newsz) (scast npages) True s) (\<lambda>s. Inr (newsz, s))
      else Inr (newsz, s))"

lemma mappages_bound:
  assumes "mappages pt a sz pa perm s = Inr r"
  shows "unat a < 0x4000000000"
proof -
  have "\<exists>r. walk pt (PGROUNDDOWN a) True s = Inr r"
    using assms unfolding mappages_def by (subst (asm) mappages_loop.simps) (auto split: if_splits)
  then have "unat (PGROUNDDOWN a) < 0x4000000000" using walk_bound by blast
  then show ?thesis by (simp add: unat_PGROUNDDOWN)
qed

function uvmalloc_loop ::
  "addr \<Rightarrow> uint64 \<Rightarrow> uint64 \<Rightarrow> uint64 \<Rightarrow> 'a kmemst_scheme \<Rightarrow> kerr + uint64 \<times> 'a kmemst_scheme" where
  "uvmalloc_loop pagetable a oldsz newsz s =
     (if a < newsz then
        bindE (kalloc s) (\<lambda>(pa, s).
        if pa = 0 then bindE (uvmdealloc pagetable a oldsz s) (\<lambda>(_, s). Inr (0, s))
        else bindE (mappages pagetable a PGSIZE pa (PTE_W OR PTE_X OR PTE_R OR PTE_U)
                     (s\<lparr>mem := memset pa 0 4096 (mem s)\<rparr>)) (\<lambda>(r, s).
          if r \<noteq> 0 then
            bindE (kfree pa s) (\<lambda>s.
            bindE (uvmdealloc pagetable a oldsz s) (\<lambda>(_, s). Inr (0, s)))
          else uvmalloc_loop pagetable (a + PGSIZE) oldsz newsz s))
      else Inr (newsz, s))"
  by pat_completeness auto
termination
  by (relation "measure (\<lambda>(pt, a, rest). 0x4000001000 - unat a)")
    (auto dest!: mappages_bound simp: unat_word_ariths)

declare uvmalloc_loop.simps [simp del]

definition uvmalloc :: "addr \<Rightarrow> uint64 \<Rightarrow> uint64 \<Rightarrow> 'a kmemst_scheme \<Rightarrow> kerr + uint64 \<times> 'a kmemst_scheme" where
  "uvmalloc pagetable oldsz newsz s =
     (if newsz < oldsz then Inr (oldsz, s)
      else uvmalloc_loop pagetable (PGROUNDUP oldsz) (PGROUNDUP oldsz) newsz s)"

text \<open>
  \<^verbatim>\<open>freewalk\<close> recurses once per level. A table deeper than \<open>d\<close> levels, which only a malformed table can
  be for \<open>d = 3\<close>, exhausts the recursion.
\<close>

primrec freewalk_rec :: "nat \<Rightarrow> addr \<Rightarrow> 'a kmemst_scheme \<Rightarrow> kerr + 'a kmemst_scheme" where
  "freewalk_rec 0 pagetable s = Inl (Hang ''freewalk'')"
| "freewalk_rec (Suc d) pagetable s =
     bindE (foldE (\<lambda>i s.
       let pte = rd64 (mem s) (pagetable + 8 * of_nat i)
       in if pte AND PTE_V \<noteq> 0 \<and> pte AND (PTE_R OR PTE_W OR PTE_X) = 0 then
            bindE (freewalk_rec d (PTE2PA pte) s) (\<lambda>s.
            Inr (s\<lparr>mem := wr64 (mem s) (pagetable + 8 * of_nat i) 0\<rparr>))
          else if pte AND PTE_V \<noteq> 0 then Inl (Panic ''freewalk: leaf'')
          else Inr s) [0..<512] s) (kfree pagetable)"

definition freewalk :: "addr \<Rightarrow> 'a kmemst_scheme \<Rightarrow> kerr + 'a kmemst_scheme" where
  "freewalk = freewalk_rec 3"

definition uvmfree :: "addr \<Rightarrow> uint64 \<Rightarrow> 'a kmemst_scheme \<Rightarrow> kerr + 'a kmemst_scheme" where
  "uvmfree pagetable sz s =
     bindE (if sz > 0 then uvmunmap pagetable 0 (PGROUNDUP sz div PGSIZE) True s else Inr s) (freewalk pagetable)"

function uvmcopy_loop :: "addr \<Rightarrow> addr \<Rightarrow> uint64 \<Rightarrow> uint64 \<Rightarrow> 'a kmemst_scheme \<Rightarrow> kerr + int \<times> 'a kmemst_scheme" where
  "uvmcopy_loop old new i sz s =
     (if i < sz then
        bindE (walk old i False s) (\<lambda>(pte, s).
        if pte = 0 then Inl (Panic ''uvmcopy: pte should exist'')
        else if rd64 (mem s) pte AND PTE_V = 0 then Inl (Panic ''uvmcopy: page not present'')
        else let pa = PTE2PA (rd64 (mem s) pte); flags = PTE_FLAGS (rd64 (mem s) pte)
        in bindE (kalloc s) (\<lambda>(ka, s).
           if ka = 0 then bindE (uvmunmap new 0 (i div PGSIZE) True s) (\<lambda>s. Inr (- 1, s))
           else bindE (mappages new i PGSIZE ka flags (s\<lparr>mem := memmove ka pa 4096 (mem s)\<rparr>)) (\<lambda>(r, s).
             if r \<noteq> 0 then
               bindE (kfree ka s) (\<lambda>s.
               bindE (uvmunmap new 0 (i div PGSIZE) True s) (\<lambda>s. Inr (- 1, s)))
             else uvmcopy_loop old new (i + PGSIZE) sz s)))
      else Inr (0, s))"
  by pat_completeness auto
termination
  by (relation "measure (\<lambda>(o1, n, i, rest). 0x4000001000 - unat i)")
    (auto dest!: mappages_bound simp: unat_word_ariths)

declare uvmcopy_loop.simps [simp del]

definition uvmcopy :: "addr \<Rightarrow> addr \<Rightarrow> uint64 \<Rightarrow> 'a kmemst_scheme \<Rightarrow> kerr + int \<times> 'a kmemst_scheme" where
  "uvmcopy old new sz s = uvmcopy_loop old new 0 sz s"

definition uvmclear :: "addr \<Rightarrow> uint64 \<Rightarrow> 'a kmemst_scheme \<Rightarrow> kerr + 'a kmemst_scheme" where
  "uvmclear pagetable va s =
     bindE (walk pagetable va False s) (\<lambda>(pte, s).
       if pte = 0 then Inl (Panic ''uvmclear'')
       else Inr (s\<lparr>mem := wr64 (mem s) pte (rd64 (mem s) pte AND NOT PTE_U)\<rparr>))"

text \<open>The bytes left in the page of \<open>va\<close> from \<open>va\<close> on: \<^verbatim>\<open>PGSIZE - (va - va0)\<close>.\<close>

definition page_rest :: "uint64 \<Rightarrow> nat" where
  "page_rest va = unat (PGSIZE - (va - PGROUNDDOWN va))"

lemma page_rest: "page_rest va = 4096 - unat va mod 4096"
proof -
  have "unat (va - PGROUNDDOWN va) = unat va - unat va div 4096 * 4096"
    using PGROUNDDOWN_le [of va] by (simp add: unat_sub unat_PGROUNDDOWN)
  then have "unat (va - PGROUNDDOWN va) = unat va mod 4096" by (simp add: minus_div_mult_eq_mod)
  then show ?thesis unfolding page_rest_def by (simp add: unat_sub_if')
qed

lemma page_rest_pos [simp]: "0 < page_rest va"
  by (simp add: page_rest)

function copyout :: "addr \<Rightarrow> uint64 \<Rightarrow> byte list \<Rightarrow> 'a kmemst_scheme \<Rightarrow> kerr + int \<times> 'a kmemst_scheme" where
  "copyout pagetable dstva src s =
     (if 0 < length src then
        let va0 = PGROUNDDOWN dstva
        in bindE (walkaddr pagetable va0 s) (\<lambda>pa0.
           if pa0 = 0 then Inr (- 1, s)
           else let n = min (page_rest dstva) (length src);
                    s = s\<lparr>mem := mem_put (mem s) (pa0 + (dstva - va0)) (take n src)\<rparr>
                in copyout pagetable (va0 + PGSIZE) (drop n src) s)
      else Inr (0, s))"
  by pat_completeness auto
termination
  by (relation "measure (\<lambda>(pt, va, src, s). length src)") auto

declare copyout.simps [simp del]

text \<open>The copies to the kernel also return the bytes written to the buffer, all or a part.\<close>

function copyin :: "addr \<Rightarrow> uint64 \<Rightarrow> nat \<Rightarrow> 'a kmemst_scheme \<Rightarrow> kerr + int \<times> byte list" where
  "copyin pagetable srcva len s =
     (if 0 < len then
        let va0 = PGROUNDDOWN srcva
        in bindE (walkaddr pagetable va0 s) (\<lambda>pa0.
           if pa0 = 0 then Inr (- 1, [])
           else let n = min (page_rest srcva) len;
                    bs = mem_get (mem s) (pa0 + (srcva - va0)) n
                in bindE (copyin pagetable (va0 + PGSIZE) (len - n) s) (\<lambda>(r, bs'). Inr (r, bs @ bs')))
      else Inr (0, []))"
  by pat_completeness auto
termination
  by (relation "measure (\<lambda>(pt, va, len, s). len)") (auto simp: min_def page_rest)

declare copyin.simps [simp del]

primrec copystr :: "(addr \<Rightarrow> byte) \<Rightarrow> addr \<Rightarrow> nat \<Rightarrow> bool \<times> byte list" where
  "copystr m p 0 = (False, [])"
| "copystr m p (Suc n) =
     (if m p = 0 then (True, [0]) else let (got_null, bs) = copystr m (p + 1) n in (got_null, m p # bs))"

function copyinstr :: "addr \<Rightarrow> uint64 \<Rightarrow> nat \<Rightarrow> 'a kmemst_scheme \<Rightarrow> kerr + int \<times> byte list" where
  "copyinstr pagetable srcva max_n s =
     (if 0 < max_n then
        let va0 = PGROUNDDOWN srcva
        in bindE (walkaddr pagetable va0 s) (\<lambda>pa0.
           if pa0 = 0 then Inr (- 1, [])
           else let n = min (page_rest srcva) max_n;
                    (got_null, bs) = copystr (mem s) (pa0 + (srcva - va0)) n
                in if got_null then Inr (0, bs)
                   else bindE (copyinstr pagetable (va0 + PGSIZE) (max_n - n) s) (\<lambda>(r, bs'). Inr (r, bs @ bs')))
      else Inr (- 1, []))"
  by pat_completeness auto
termination
  by (relation "measure (\<lambda>(pt, va, len, s). len)") (auto simp: min_def page_rest)

declare copyinstr.simps [simp del]

section \<open>Pages and offsets\<close>

lemma page_span:
  assumes "i < page_rest va"
  shows "PGROUNDDOWN (va + of_nat i) = PGROUNDDOWN va" "unat (va - PGROUNDDOWN va) + i < 4096"
proof -
  have d: "unat (va - PGROUNDDOWN va) = unat va mod 4096"
    using PGROUNDDOWN_le [of va] by (simp add: unat_sub unat_PGROUNDDOWN minus_div_mult_eq_mod)
  then show *: "unat (va - PGROUNDDOWN va) + i < 4096" using assms by (simp add: page_rest)
  have "unat ((va - PGROUNDDOWN va) + of_nat i) = unat (va - PGROUNDDOWN va) + i"
    using * by (simp add: unat_word_ariths unat_of_nat)
  then have "PGROUNDDOWN (PGROUNDDOWN va + ((va - PGROUNDDOWN va) + of_nat i)) = PGROUNDDOWN va"
    using * by (intro PGROUNDDOWN_page_off) simp_all
  then show "PGROUNDDOWN (va + of_nat i) = PGROUNDDOWN va" by simp
qed

lemma page_next: "va + of_nat (page_rest va) = PGROUNDDOWN va + 4096"
  by (simp add: page_rest_def)

lemma page_span_unat: "unat (v - va) < page_rest va \<Longrightarrow> PGROUNDDOWN v = PGROUNDDOWN va"
  using page_span(1) [of "unat (v - va)" va] by simp

lemma PGROUNDDOWN_idem [simp]: "PGROUNDDOWN (PGROUNDDOWN a) = PGROUNDDOWN a"
  by (simp add: PGROUNDDOWN_aligned)

lemma page_below_MAXVA: "PGROUNDDOWN va < MAXVA \<longleftrightarrow> va < MAXVA"
  by (simp add: word_less_nat_alt unat_PGROUNDDOWN div_less_iff_less_mult)

lemma user_pa_page [simp]: "user_pa f (PGROUNDDOWN va) = user_pa f va"
  by (simp add: user_pa_def page_below_MAXVA)

lemma aligned_PTE2PA [simp]: "aligned (PTE2PA e)"
proof -
  have "PTE2PA e = PGROUNDDOWN (PTE2PA e)"
    by (rule bit_word_eqI) (auto simp: PTE2PA_def PGROUNDDOWN_shift bit_simps)
  then show ?thesis by (metis aligned_PGROUNDDOWN)
qed

lemma aligned_user_pa [simp]: "aligned (user_pa f va)"
  by (simp add: user_pa_def Let_def)

section \<open>User memory\<close>

text \<open>
  What a user program sees at \<open>va\<close>, and the separation that makes its memory its own: different user
  pages are backed by different physical pages, none of which is a page of the page table.
\<close>

definition umem :: "(addr \<Rightarrow> byte) \<Rightarrow> addr \<Rightarrow> uint64 \<Rightarrow> byte option" where
  "umem m pt va =
     (let pa = user_pa (ptmap m pt) va
      in if pa = 0 then None else Some (m (pa + (va - PGROUNDDOWN va))))"

definition uspace :: "(addr \<Rightarrow> byte) \<Rightarrow> addr \<Rightarrow> bool" where
  "uspace m pt \<longleftrightarrow> pt_wf 2 m pt \<and>
     (\<forall>v w. user_pa (ptmap m pt) v \<noteq> 0 \<and> user_pa (ptmap m pt) v = user_pa (ptmap m pt) w \<longrightarrow>
        PGROUNDDOWN v = PGROUNDDOWN w) \<and>
     (\<forall>v. user_pa (ptmap m pt) v \<notin> tabset 2 m pt)"

lemma umem_None_iff: "umem m pt va = None \<longleftrightarrow> user_pa (ptmap m pt) va = 0"
  by (simp add: umem_def Let_def)

text \<open>Writing into one mapped page.\<close>

lemma page_write:
  assumes u: "uspace m pt" and pa: "user_pa (ptmap m pt) va \<noteq> 0" and n: "length bs \<le> page_rest va"
    and m': "m' = mem_put m (user_pa (ptmap m pt) va + (va - PGROUNDDOWN va)) bs"
  shows "ptmap m' pt = ptmap m pt" "uspace m' pt"
    "umem m' pt v = (if unat (v - va) < length bs then Some (bs ! unat (v - va)) else umem m pt v)"
proof -
  let ?f = "ptmap m pt" and ?pa = "user_pa (ptmap m pt) va" and ?d = "va - PGROUNDDOWN va"
  have d: "unat ?d + length bs \<le> 4096"
    using n page_span(2) [of "length bs - 1" va] PGROUNDDOWN_le [of va]
    by (cases bs) (auto simp: unat_sub unat_PGROUNDDOWN minus_div_mult_eq_mod less_imp_le)
  have out: "m' a = m a" if "PGROUNDDOWN a \<noteq> ?pa" for a
    unfolding m' using that d by (intro mem_put_other_page) simp_all
  have fr: "m' a = m a" if "PGROUNDDOWN a \<in> tabset 2 m pt" for a
    using that u by (intro out) (auto simp: uspace_def)
  have wf: "pt_wf 2 m pt" using u by (simp add: uspace_def)
  note frame = table_frame [OF wf fr]
  show pm: "ptmap m' pt = ?f" using frame(3) by (simp add: ptmap_def fun_eq_iff)
  show "uspace m' pt" using u frame(1,2) unfolding uspace_def pm by blast
  show "umem m' pt v = (if unat (v - va) < length bs then Some (bs ! unat (v - va)) else umem m pt v)"
  proof (cases "PGROUNDDOWN v = PGROUNDDOWN va")
    case True
    then have "user_pa ?f v = ?pa" by (metis user_pa_page)
    moreover have "?pa + (v - PGROUNDDOWN v) - (?pa + ?d) = v - va" using True by simp
    then have "m' (?pa + (v - PGROUNDDOWN v)) =
        (if unat (v - va) < length bs then bs ! unat (v - va) else m (?pa + (v - PGROUNDDOWN v)))"
      unfolding m' mem_put_def by simp
    ultimately show ?thesis using pa unfolding umem_def pm Let_def by simp
  next
    case False
    then have "\<not> unat (v - va) < length bs" using page_span_unat [of v va] n by auto
    moreover have "umem m' pt v = umem m pt v"
    proof (cases "user_pa ?f v = 0")
      case False2: False
      have "user_pa ?f v \<noteq> ?pa" using False False2 u unfolding uspace_def by blast
      moreover have "PGROUNDDOWN (user_pa ?f v + (v - PGROUNDDOWN v)) = user_pa ?f v"
        using page_span(2) [of 0 v] by (intro PGROUNDDOWN_page_off) simp_all
      ultimately show ?thesis by (simp add: umem_def pm out Let_def)
    qed (simp add: umem_def pm)
    ultimately show ?thesis by simp
  qed
qed

text \<open>The addresses of a range: those of its first page, then the rest.\<close>

lemma range_split:
  assumes "0 < len"
  shows "(\<forall>i<len. user_pa f (va + of_nat i) \<noteq> 0) \<longleftrightarrow> user_pa f va \<noteq> 0 \<and>
    (\<forall>i<len - page_rest va. user_pa f (PGROUNDDOWN va + 4096 + of_nat i) \<noteq> 0)"
proof -
  have first: "user_pa f (va + of_nat i) = user_pa f va" if "i < page_rest va" for i
    using page_span(1) [OF that] by (metis user_pa_page)
  have rest: "user_pa f (PGROUNDDOWN va + 4096 + of_nat i) = user_pa f (va + of_nat (page_rest va + i))" for i
    by (simp add: page_next [symmetric] add.assoc)
  show ?thesis
  proof
    assume all: "\<forall>i<len. user_pa f (va + of_nat i) \<noteq> 0"
    then have "user_pa f (va + of_nat 0) \<noteq> 0" using assms by blast
    then have "user_pa f va \<noteq> 0" by simp
    moreover have "\<forall>i<len - page_rest va. user_pa f (PGROUNDDOWN va + 4096 + of_nat i) \<noteq> 0"
      unfolding rest using all by (auto simp: less_diff_conv add.commute)
    ultimately show "user_pa f va \<noteq> 0 \<and>
      (\<forall>i<len - page_rest va. user_pa f (PGROUNDDOWN va + 4096 + of_nat i) \<noteq> 0)" by simp
  next
    assume R: "user_pa f va \<noteq> 0 \<and>
      (\<forall>i<len - page_rest va. user_pa f (PGROUNDDOWN va + 4096 + of_nat i) \<noteq> 0)"
    show "\<forall>i<len. user_pa f (va + of_nat i) \<noteq> 0"
    proof (intro allI impI)
      fix i assume i: "i < len"
      show "user_pa f (va + of_nat i) \<noteq> 0"
      proof (cases "i < page_rest va")
        case True
        then show ?thesis using R first by simp
      next
        case False
        then have "i - page_rest va < len - page_rest va" using i by simp
        then have "user_pa f (va + of_nat (page_rest va + (i - page_rest va))) \<noteq> 0"
          unfolding rest [symmetric] using R by blast
        then show ?thesis using False by simp
      qed
    qed
  qed
qed

lemma unat_sub_small:
  "n \<le> 4096 \<Longrightarrow> unat (x - of_nat n :: uint64) = (if n \<le> unat x then unat x - n else 2 ^ 64 + unat x - n)"
  by (simp add: unat_sub_if' unat_of_nat) (metis add.commute)

lemma copyout_ok:
  assumes "uspace (mem s) pt" "length src < 2 ^ 63"
  shows "\<exists>m'. copyout pt dstva src s =
      Inr (if \<forall>i<length src. user_pa (ptmap (mem s) pt) (dstva + of_nat i) \<noteq> 0 then 0 else - 1, s\<lparr>mem := m'\<rparr>) \<and>
    ptmap m' pt = ptmap (mem s) pt \<and> uspace m' pt \<and>
    ((\<forall>i<length src. user_pa (ptmap (mem s) pt) (dstva + of_nat i) \<noteq> 0) \<longrightarrow>
      (\<forall>v. umem m' pt v =
        (if unat (v - dstva) < length src then Some (src ! unat (v - dstva)) else umem (mem s) pt v)))"
  using assms
proof (induction pt dstva src s rule: copyout.induct)
  case (1 pt dstva src s)
  let ?f = "ptmap (mem s) pt" and ?va0 = "PGROUNDDOWN dstva"
  have wf: "pt_wf 2 (mem s) pt" using "1.prems"(1) by (simp add: uspace_def)
  have w: "walkaddr pt ?va0 s = Inr (user_pa ?f dstva)" by (simp add: walkaddr_user_pa [OF wf])
  consider (fin) "src = []" | (bad) "src \<noteq> []" "user_pa ?f dstva = 0" | (go) "src \<noteq> []" "user_pa ?f dstva \<noteq> 0"
    by blast
  then show ?case
  proof cases
    case fin
    then show ?thesis using "1.prems" by (auto simp: copyout.simps intro!: exI [of _ "mem s"])
  next
    case bad
    then have "\<not> (\<forall>i<length src. user_pa ?f (dstva + of_nat i) \<noteq> 0)" using range_split [of "length src"] by auto
    then show ?thesis using bad "1.prems" w
      by (auto simp: copyout.simps [of pt dstva src s] Let_def intro!: exI [of _ "mem s"])
  next
    case go
    define n where "n = min (page_rest dstva) (length src)"
    define m1 where "m1 = mem_put (mem s) (user_pa ?f dstva + (dstva - ?va0)) (take n src)"
    let ?s1 = "s\<lparr>mem := m1\<rparr>" and ?d1 = "?va0 + 4096" and ?src1 = "drop n src"
    have len: "length (take n src) = n" "length (take n src) \<le> page_rest dstva" by (simp_all add: n_def)
    note pw = page_write [OF "1.prems"(1) go(2) len(2) m1_def]
    have eq: "copyout pt dstva src s = copyout pt ?d1 ?src1 ?s1"
      using go w by (subst copyout.simps) (simp add: Let_def n_def m1_def)
    have IH: "\<exists>m'. copyout pt ?d1 ?src1 ?s1 =
        Inr (if \<forall>i<length ?src1. user_pa (ptmap (mem ?s1) pt) (?d1 + of_nat i) \<noteq> 0 then 0 else - 1, ?s1\<lparr>mem := m'\<rparr>) \<and>
      ptmap m' pt = ptmap (mem ?s1) pt \<and> uspace m' pt \<and>
      ((\<forall>i<length ?src1. user_pa (ptmap (mem ?s1) pt) (?d1 + of_nat i) \<noteq> 0) \<longrightarrow>
        (\<forall>v. umem m' pt v =
          (if unat (v - ?d1) < length ?src1 then Some (?src1 ! unat (v - ?d1)) else umem (mem ?s1) pt v)))"
    proof (rule "1.IH")
      show "0 < length src" using go by simp
      show "uspace (mem ?s1) pt" using pw(2) by simp
      show "length ?src1 < 2 ^ 63" using "1.prems"(2) by simp
    qed (use w go n_def m1_def in simp_all)
    then obtain m' where m': "copyout pt dstva src s =
        Inr (if \<forall>i<length ?src1. user_pa ?f (?d1 + of_nat i) \<noteq> 0 then 0 else - 1, s\<lparr>mem := m'\<rparr>)"
      "ptmap m' pt = ?f" "uspace m' pt"
      "(\<forall>i<length ?src1. user_pa ?f (?d1 + of_nat i) \<noteq> 0) \<longrightarrow> (\<forall>v. umem m' pt v =
          (if unat (v - ?d1) < length ?src1 then Some (?src1 ! unat (v - ?d1)) else umem m1 pt v))"
      using pw(1) eq by auto
    have ok: "(\<forall>i<length src. user_pa ?f (dstva + of_nat i) \<noteq> 0) \<longleftrightarrow>
        (\<forall>i<length ?src1. user_pa ?f (?d1 + of_nat i) \<noteq> 0)"
      using range_split [of "length src" ?f dstva] go by (auto simp: n_def min_def)
    have um: "umem m' pt v = (if unat (v - dstva) < length src then Some (src ! unat (v - dstva)) else umem (mem s) pt v)"
      if all: "\<forall>i<length ?src1. user_pa ?f (?d1 + of_nat i) \<noteq> 0" for v
    proof (cases "length src \<le> page_rest dstva")
      case True
      then have "n = length src" by (simp add: n_def)
      then show ?thesis using m'(4) all pw(3) [of v] by simp
    next
      case False
      then have n: "n = page_rest dstva" by (simp add: n_def)
      then have d1: "?d1 = dstva + of_nat n" using page_next [of dstva] by simp
      have nb: "n \<le> 4096" by (simp add: n page_rest)
      have vd: "v - ?d1 = (v - dstva) - of_nat n" unfolding d1 by (simp add: algebra_simps)
      have shift: "unat (v - ?d1) =
          (if n \<le> unat (v - dstva) then unat (v - dstva) - n else 2 ^ 64 + unat (v - dstva) - n)"
        unfolding vd by (rule unat_sub_small [OF nb])
      show ?thesis
      proof (cases "unat (v - dstva) < n")
        case True
        then have "unat (v - ?d1) = 2 ^ 64 + unat (v - dstva) - n" using shift by simp
        then have "\<not> unat (v - ?d1) < length ?src1" using nb "1.prems"(2) by simp
        then show ?thesis using m'(4) all pw(3) [of v] True len False by (auto simp: n_def)
      next
        case ge: False
        then have "unat (v - ?d1) = unat (v - dstva) - n" using shift by simp
        then show ?thesis using m'(4) all pw(3) [of v] ge len False by (auto simp: n)
      qed
    qed
    show ?thesis
      unfolding ok using m'(1-3) um by (intro exI [of _ m']) blast
  qed
qed

lemma umem_span:
  assumes "user_pa (ptmap m pt) va \<noteq> 0" "i < page_rest va"
  shows "umem m pt (va + of_nat i) = Some (m (user_pa (ptmap m pt) va + (va - PGROUNDDOWN va) + of_nat i))"
proof -
  have p: "PGROUNDDOWN (va + of_nat i) = PGROUNDDOWN va" by (rule page_span(1) [OF assms(2)])
  then have "user_pa (ptmap m pt) (va + of_nat i) = user_pa (ptmap m pt) va" by (metis user_pa_page)
  then show ?thesis using assms(1) by (simp add: umem_def Let_def p algebra_simps)
qed

lemma copyin_ok:
  assumes "pt_wf 2 (mem s) pt"
  shows "\<exists>bs. copyin pt va len s =
      Inr (if \<forall>i<len. user_pa (ptmap (mem s) pt) (va + of_nat i) \<noteq> 0 then 0 else - 1, bs) \<and>
    ((\<forall>i<len. user_pa (ptmap (mem s) pt) (va + of_nat i) \<noteq> 0) \<longrightarrow>
      length bs = len \<and> (\<forall>i<len. umem (mem s) pt (va + of_nat i) = Some (bs ! i)))"
  using assms
proof (induction pt va len s rule: copyin.induct)
  case (1 pt va len s)
  let ?f = "ptmap (mem s) pt" and ?va0 = "PGROUNDDOWN va"
  have w: "walkaddr pt ?va0 s = Inr (user_pa ?f va)" by (simp add: walkaddr_user_pa [OF "1.prems"])
  consider (fin) "len = 0" | (bad) "0 < len" "user_pa ?f va = 0" | (go) "0 < len" "user_pa ?f va \<noteq> 0"
    by blast
  then show ?case
  proof cases
    case fin
    then show ?thesis by (simp add: copyin.simps)
  next
    case bad
    then have "\<not> (\<forall>i<len. user_pa ?f (va + of_nat i) \<noteq> 0)" using range_split [of len] by auto
    then show ?thesis using bad w by (auto simp: copyin.simps [of pt va len s] Let_def)
  next
    case go
    define n where "n = min (page_rest va) len"
    let ?va1 = "?va0 + 4096" and ?bs = "mem_get (mem s) (user_pa ?f va + (va - ?va0)) n"
    let ?ok1 = "\<forall>i<len - n. user_pa ?f (?va1 + of_nat i) \<noteq> 0"
    have "\<exists>bs. copyin pt ?va1 (len - n) s = Inr (if ?ok1 then 0 else - 1, bs) \<and>
        (?ok1 \<longrightarrow> length bs = len - n \<and> (\<forall>i<len - n. umem (mem s) pt (?va1 + of_nat i) = Some (bs ! i)))"
      by (rule "1.IH" [OF go(1) refl w go(2) n_def refl "1.prems"])
    then obtain bs where bs: "copyin pt ?va1 (len - n) s = Inr (if ?ok1 then 0 else - 1, bs)"
      "?ok1 \<Longrightarrow> length bs = len - n" "\<And>i. ?ok1 \<Longrightarrow> i < len - n \<Longrightarrow> umem (mem s) pt (?va1 + of_nat i) = Some (bs ! i)"
      by blast
    have ok: "(\<forall>i<len. user_pa ?f (va + of_nat i) \<noteq> 0) \<longleftrightarrow> ?ok1"
      using range_split [OF go(1), of ?f va] go by (auto simp: n_def min_def)
    have eq: "copyin pt va len s = Inr (if ?ok1 then 0 else - 1, ?bs @ bs)"
      using go w bs(1) by (subst copyin.simps) (simp add: Let_def n_def)
    have "umem (mem s) pt (va + of_nat i) = Some ((?bs @ bs) ! i)" if o1: ?ok1 and i: "i < len" for i
    proof (cases "i < n")
      case True
      then have "i < page_rest va" by (simp add: n_def)
      then show ?thesis using True umem_span [OF go(2)] by (simp add: nth_append)
    next
      case False
      then have n: "n = page_rest va" "i - n < len - n" using i by (auto simp: n_def min_def split: if_splits)
      have sh: "va + of_nat i = ?va1 + of_nat (i - n)"
        using page_next [of va] n(1) False by (simp add: of_nat_diff algebra_simps)
      show ?thesis unfolding sh using False bs(3) [OF o1 n(2)] by (simp add: nth_append)
    qed
    moreover have "length (?bs @ bs) = len" if ?ok1 using bs(2) [OF that] by (simp add: n_def)
    ultimately show ?thesis unfolding ok eq by blast
  qed
qed

lemma copystr_eq:
  assumes "k < n" "m (p + of_nat k) = 0" "\<And>i. i < k \<Longrightarrow> m (p + of_nat i) \<noteq> 0"
  shows "copystr m p n = (True, mem_get m p (Suc k))"
  using assms
proof (induction n arbitrary: p k)
  case (Suc n)
  show ?case
  proof (cases k)
    case 0
    then show ?thesis using Suc.prems by (simp add: mem_get_Suc)
  next
    case (Suc j)
    have "copystr m (p + 1) n = (True, mem_get m (p + 1) (Suc j))"
    proof (rule Suc.IH)
      show "j < n" using Suc.prems(1) Suc by simp
      show "m (p + 1 + of_nat j) = 0" using Suc.prems(2) Suc by (simp add: algebra_simps)
      show "m (p + 1 + of_nat i) \<noteq> 0" if "i < j" for i
        using Suc.prems(3) [of "Suc i"] that Suc by (simp add: algebra_simps)
    qed
    moreover have "m p \<noteq> 0" using Suc.prems(3) [of 0] Suc by simp
    ultimately show ?thesis using Suc by (simp add: mem_get_Suc)
  qed
qed simp

lemma copystr_none:
  "(\<And>i. i < n \<Longrightarrow> m (p + of_nat i) \<noteq> 0) \<Longrightarrow> copystr m p n = (False, mem_get m p n)"
proof (induction n arbitrary: p)
  case (Suc n)
  have "copystr m (p + 1) n = (False, mem_get m (p + 1) n)"
  proof (rule Suc.IH)
    show "m (p + 1 + of_nat i) \<noteq> 0" if "i < n" for i
      using Suc.prems [of "Suc i"] that by (simp add: algebra_simps)
  qed
  moreover have "m p \<noteq> 0" using Suc.prems [of 0] by simp
  ultimately show ?case by (simp add: mem_get_Suc)
qed simp

lemma copyinstr_ok:
  assumes "pt_wf 2 (mem s) pt" "k < max_n" "umem (mem s) pt (va + of_nat k) = Some 0"
    "\<And>i. i < k \<Longrightarrow> \<exists>b. umem (mem s) pt (va + of_nat i) = Some b \<and> b \<noteq> 0"
  shows "\<exists>bs. copyinstr pt va max_n s = Inr (0, bs) \<and> length bs = Suc k \<and>
    (\<forall>i\<le>k. umem (mem s) pt (va + of_nat i) = Some (bs ! i))"
  using assms
proof (induction pt va max_n s arbitrary: k rule: copyinstr.induct)
  case (1 pt va max_n s)
  let ?f = "ptmap (mem s) pt" and ?va0 = "PGROUNDDOWN va"
  have w: "walkaddr pt ?va0 s = Inr (user_pa ?f va)" by (simp add: walkaddr_user_pa [OF "1.prems"(1)])
  have pa: "user_pa ?f va \<noteq> 0"
    using "1.prems"(3) "1.prems"(4) [of 0] by (cases k) (auto simp: umem_def Let_def split: if_splits)
  define n where "n = min (page_rest va) max_n"
  let ?p = "user_pa ?f va + (va - ?va0)"
  have at: "umem (mem s) pt (va + of_nat i) = Some (mem s (?p + of_nat i))" if "i < n" for i
    using that by (intro umem_span [OF pa]) (simp add: n_def)
  have nz: "mem s (?p + of_nat i) \<noteq> 0" if "i < n" "i < k" for i
    using at [OF that(1)] "1.prems"(4) [OF that(2)] by auto
  show ?case
  proof (cases "k < n")
    case True
    have "copystr (mem s) ?p n = (True, mem_get (mem s) ?p (Suc k))"
      using True at [of k] "1.prems"(3) nz by (intro copystr_eq) simp_all
    then have "copyinstr pt va max_n s = Inr (0, mem_get (mem s) ?p (Suc k))"
      using w pa "1.prems"(2) by (subst copyinstr.simps) (simp add: Let_def n_def)
    then show ?thesis using True at by (auto simp: less_Suc_eq_le)
  next
    case False
    then have n: "n = page_rest va" using "1.prems"(2) by (simp add: n_def)
    have none: "copystr (mem s) ?p n = (False, mem_get (mem s) ?p n)"
      using False nz by (intro copystr_none) simp
    let ?va1 = "?va0 + 4096"
    have sh: "va + of_nat i = ?va1 + of_nat (i - n)" if "n \<le> i" for i
      using page_next [of va] n that by (simp add: of_nat_diff algebra_simps)
    have "\<exists>bs. copyinstr pt ?va1 (max_n - n) s = Inr (0, bs) \<and> length bs = Suc (k - n) \<and>
        (\<forall>i\<le>k - n. umem (mem s) pt (?va1 + of_nat i) = Some (bs ! i))"
    proof (rule "1.IH" [OF _ refl w pa n_def none [symmetric] refl _ "1.prems"(1)])
      show "0 < max_n" "\<not> False" using "1.prems"(2) by simp_all
      show "k - n < max_n - n" using "1.prems"(2) False by simp
      show "umem (mem s) pt (?va1 + of_nat (k - n)) = Some 0" using "1.prems"(3) sh [of k] False by simp
      show "\<exists>b. umem (mem s) pt (?va1 + of_nat i) = Some b \<and> b \<noteq> 0" if "i < k - n" for i
      proof -
        have "?va1 + of_nat i = va + of_nat (i + n)" by (metis add_diff_cancel_right' le_add2 sh)
        then show ?thesis using "1.prems"(4) [of "i + n"] that by (simp only: less_diff_conv)
      qed
    qed
    then obtain bs where bs: "copyinstr pt ?va1 (max_n - n) s = Inr (0, bs)" "length bs = Suc (k - n)"
      "\<And>i. i \<le> k - n \<Longrightarrow> umem (mem s) pt (?va1 + of_nat i) = Some (bs ! i)" by blast
    have "copyinstr pt va max_n s = Inr (0, mem_get (mem s) ?p n @ bs)"
      using w pa "1.prems"(2) bs(1) none by (subst copyinstr.simps) (simp add: Let_def n_def)
    moreover have "umem (mem s) pt (va + of_nat i) = Some ((mem_get (mem s) ?p n @ bs) ! i)" if "i \<le> k" for i
    proof (cases "i < n")
      case True
      then show ?thesis using at by (simp add: nth_append)
    next
      case ge: False
      then have "i - n \<le> k - n" using that by simp
      with bs(3) [OF this] show ?thesis unfolding sh [OF leI [OF ge]] using ge by (simp add: nth_append)
    qed
    ultimately show ?thesis using bs(2) False by auto
  qed
qed

section \<open>Properties\<close>

text \<open>
  C5: \<^verbatim>\<open>copyout\<close> returns 0 exactly when every byte of the destination range is mapped for the user, and
  then the user's memory has the source bytes in that range and is unchanged everywhere else; if some
  byte is not mapped it returns -1. It changes neither the page table nor anything but memory, and it
  never panics, whatever the user address.
\<close>

theorem copyout_user_memory:
  assumes "uspace (mem s) pt" "length src < 2 ^ 63"
  shows "\<exists>m'. copyout pt dstva src s =
      Inr (if \<forall>i<length src. umem (mem s) pt (dstva + of_nat i) \<noteq> None then 0 else - 1, s\<lparr>mem := m'\<rparr>) \<and>
    ptmap m' pt = ptmap (mem s) pt \<and> uspace m' pt \<and>
    ((\<forall>i<length src. umem (mem s) pt (dstva + of_nat i) \<noteq> None) \<longrightarrow>
      (\<forall>v. umem m' pt v =
        (if unat (v - dstva) < length src then Some (src ! unat (v - dstva)) else umem (mem s) pt v)))"
  unfolding umem_None_iff by (rule copyout_ok [OF assms])

text \<open>A user address space with one page, mapped at 0x1000.\<close>

lemma vm0_user:
  "\<exists>s :: kmemst. uspace (mem s) 0x87FFD000 \<and> ptmap (mem s) 0x87FFD000 = (\<lambda>_. 0)(0x1000 := PA2PTE 0x80000000 OR 17)"
proof -
  let ?pt = "0x87FFD000" and ?fs = "[0x87FFF000, 0x87FFE000]"
  have a: "PGROUNDDOWN 0x1000 = 0x1000" "npages_of 0x1000 0x1000 = 1"
    by (simp_all add: PGROUNDDOWN_def npages_of_def)
  have "\<exists>r s' j k. mappages ?pt 0x1000 PGSIZE 0x80000000 PTE_U vm0 = Inr (r, s') \<and>
      map_post vm0 ?pt ?fs (PGROUNDDOWN 0x1000) 0x80000000 PTE_U (npages_of 0x1000 PGSIZE) r s' j k"
    by (rule mappages_ok [OF vm0_table(1)]) (simp_all add: vm0_table(2))
  then obtain r s' j k where
    mp: "map_post vm0 ?pt ?fs (PGROUNDDOWN 0x1000) 0x80000000 PTE_U (npages_of 0x1000 PGSIZE) r s' j k" by blast
  have j: "j = 1"
  proof (rule ccontr)
    assume "j \<noteq> 1"
    with mp a have "j = 0" "k = 2" "k < 2 * Suc j" by (auto simp: map_post_def)
    then show False by simp
  qed
  have f: "ptmap (mem vm0) ?pt = (\<lambda>_. 0)" using vm0_table(2) by (simp add: fun_eq_iff)
  have "ptmap (mem s') ?pt = add_maps (ptmap (mem vm0) ?pt) 0x1000 0x80000000 PTE_U 1"
    using mp j a(1) by (simp add: map_post_def del: add_maps.simps)
  then have pm: "ptmap (mem s') ?pt = (\<lambda>_. 0)(0x1000 := PA2PTE 0x80000000 OR 17)"
    unfolding f by (simp add: numeral_eq_Suc)
  have t: "tabset 2 (mem s') ?pt \<subseteq> {?pt, 0x87FFF000, 0x87FFE000}"
    using mp set_take_subset [of k ?fs] unfolding map_post_def vm0_table(3) by auto
  have pte: "PTE2PA (PA2PTE 0x80000000 OR 17) = 0x80000000"
    by (rule PTE2PA_PA2PTE) (simp_all add: aligned_def)
  have upa: "user_pa ((\<lambda>_. 0)(0x1000 := PA2PTE 0x80000000 OR 17)) v =
      (if v < MAXVA \<and> PGROUNDDOWN v = 0x1000 then 0x80000000 else 0)" for v
  proof -
    have "(PA2PTE 0x80000000 OR 17) AND 1 \<noteq> 0" "(PA2PTE 0x80000000 OR 17) AND 16 \<noteq> 0"
      by (simp_all add: PA2PTE_def)
    then show ?thesis using pte by (simp add: user_pa_def Let_def)
  qed
  have wf: "pt_wf 2 (mem s') ?pt" using mp by (simp add: map_post_def tab_inv_def)
  have "0x80000000 \<notin> tabset 2 (mem s') ?pt" "0 \<notin> tabset 2 (mem s') ?pt" using t by auto
  then have "uspace (mem s') ?pt" unfolding uspace_def pm upa using wf by simp
  then show ?thesis using pm by blast
qed

lemma vm0_umem:
  assumes "ptmap m pt = (\<lambda>_. 0)(0x1000 := PA2PTE 0x80000000 OR 17)" "PGROUNDDOWN v = 0x1000" "v < MAXVA"
  shows "umem m pt v = Some (m (0x80000000 + (v - 0x1000)))"
proof -
  have pte: "PTE2PA (PA2PTE 0x80000000 OR 17) = 0x80000000"
    by (rule PTE2PA_PA2PTE) (simp_all add: aligned_def)
  have "(PA2PTE 0x80000000 OR 17) AND 1 \<noteq> 0" "(PA2PTE 0x80000000 OR 17) AND 16 \<noteq> 0"
    by (simp_all add: PA2PTE_def)
  then show ?thesis using pte assms by (simp add: umem_def user_pa_def Let_def)
qed


theorem copyout_user_memory_witness:
  "\<exists>s s' :: kmemst. copyout 0x87FFD000 0x1FFE [1, 2] s = Inr (0, s') \<and> umem (mem s') 0x87FFD000 0x1FFF = Some 2"
proof -
  obtain s :: kmemst where s: "uspace (mem s) 0x87FFD000"
      "ptmap (mem s) 0x87FFD000 = (\<lambda>_. 0)(0x1000 := PA2PTE 0x80000000 OR 17)"
    using vm0_user by blast
  have "umem (mem s) 0x87FFD000 0x1FFE \<noteq> None" "umem (mem s) 0x87FFD000 0x1FFF \<noteq> None"
    by (simp_all add: vm0_umem [OF s(2)] PGROUNDDOWN_def)
  then have "\<forall>i<length [1, 2 :: byte]. umem (mem s) 0x87FFD000 (0x1FFE + of_nat i) \<noteq> None"
    by (auto simp: less_Suc_eq)
  then show ?thesis
    using copyout_user_memory [OF s(1), of "[1, 2]" "0x1FFE"] by force
qed

text \<open>
  What \<^verbatim>\<open>copyout\<close> stores at a user address, \<^verbatim>\<open>copyin\<close> reads back from it, across page boundaries.
\<close>

lemma copyout_copyin:
  assumes "uspace (mem s) pt" "length src < 2 ^ 63" "copyout pt va src s = Inr (0, s')"
  shows "copyin pt va (length src) s' = Inr (0, src)"
proof -
  let ?f = "ptmap (mem s) pt"
  let ?ok = "\<forall>i<length src. user_pa ?f (va + of_nat i) \<noteq> 0"
  obtain m' where m': "copyout pt va src s = Inr (if ?ok then 0 else - 1, s\<lparr>mem := m'\<rparr>)"
      "ptmap m' pt = ?f" "uspace m' pt"
      "?ok \<longrightarrow> (\<forall>v. umem m' pt v =
        (if unat (v - va) < length src then Some (src ! unat (v - va)) else umem (mem s) pt v))"
    using copyout_ok [OF assms(1,2), of va] by blast
  have ok: ?ok and s': "s' = s\<lparr>mem := m'\<rparr>" using m'(1) assms(3) by (auto split: if_splits)
  have wf: "pt_wf 2 (mem s') pt" using m'(3) s' by (simp add: uspace_def)
  obtain bs where bs: "copyin pt va (length src) s' = Inr (0, bs)" "length bs = length src"
      "\<And>i. i < length src \<Longrightarrow> umem m' pt (va + of_nat i) = Some (bs ! i)"
    using copyin_ok [OF wf, of va "length src"] ok m'(2) s' by auto
  have "bs = src"
  proof (rule nth_equalityI)
    fix i assume "i < length bs"
    then have i: "i < length src" using bs(2) by simp
    then have "unat (of_nat i :: uint64) = i" using assms(2) by (intro unat_of_nat_64) simp
    then show "bs ! i = src ! i" using bs(3) [OF i] m'(4) ok i by simp
  qed (rule bs(2))
  then show ?thesis using bs(1) by simp
qed

lemma copyout_copyin_example:
  "\<exists>s s' :: kmemst. copyout 0x87FFD000 0x1FFE [1, 2] s = Inr (0, s') \<and>
     copyin 0x87FFD000 0x1FFE 2 s' = Inr (0, [1, 2])"
proof -
  obtain s :: kmemst where s: "uspace (mem s) 0x87FFD000"
      "ptmap (mem s) 0x87FFD000 = (\<lambda>_. 0)(0x1000 := PA2PTE 0x80000000 OR 17)"
    using vm0_user by blast
  have "umem (mem s) 0x87FFD000 0x1FFE \<noteq> None" "umem (mem s) 0x87FFD000 0x1FFF \<noteq> None"
    by (simp_all add: vm0_umem [OF s(2)] PGROUNDDOWN_def)
  then have "\<forall>i<length [1, 2 :: byte]. user_pa (ptmap (mem s) 0x87FFD000) (0x1FFE + of_nat i) \<noteq> 0"
    unfolding umem_None_iff by (auto simp: less_Suc_eq)
  then obtain s' where s': "copyout 0x87FFD000 0x1FFE [1, 2] s = Inr (0, s')"
    using copyout_ok [OF s(1), of "[1, 2]" "0x1FFE"] by auto
  have "copyin 0x87FFD000 0x1FFE (length [1, 2 :: byte]) s' = Inr (0, [1, 2])"
    by (rule copyout_copyin [OF s(1) _ s']) simp
  moreover have "length [1, 2 :: byte] = 2" by simp
  ultimately show ?thesis using s' by metis
qed



end
