(* ===== verification/Proc.thy ===== *)
theory Proc
  imports Uvm
begin

unbundle bit_operations_syntax

text \<open>
  Processes (\<^verbatim>\<open>kernel/proc.c\<close>, \<^verbatim>\<open>kernel/proc.h\<close>): the table, allocation and release of its entries, the
  scheduler, sleep and wakeup, kill and wait. (\<^verbatim>\<open>fork\<close>, \<^verbatim>\<open>exit\<close>, \<^verbatim>\<open>clone\<close> and \<^verbatim>\<open>userinit\<close> use files
  and are in the theory of process creation.)

  A kernel thread that gives up the CPU is its saved context: where it will continue and the value of
  \<^verbatim>\<open>intena\<close> that \<^verbatim>\<open>sched\<close> keeps on its stack. \<open>sched\<close> therefore ends where the scheduler loop of that
  CPU looks for another process, and \<open>resume\<close> is the code after the call of \<^verbatim>\<open>swtch\<close>.
\<close>

section \<open>State\<close>

datatype procstate = UNUSED | USED | SLEEPING | RUNNABLE | RUNNING | ZOMBIE

datatype pcontext = CtxNone | CtxForkret | CtxYield bool | CtxSleep lockid bool | CtxExit bool

record proc =
  pstate :: procstate
  pchan :: "chan option"
  killed :: int
  xstate :: int
  pid :: int
  parent :: "nat option"
  kstack :: uint64
  psz :: uint64
  pagetable :: addr
  trapframe :: addr
  pctx :: pcontext
  ofile :: "nat \<Rightarrow> nat option"
  cwd :: "nat option"
  pname :: "byte list"
  youAThread :: int
  threadCount :: int

record procst = vmst +
  procs :: "nat \<Rightarrow> proc"
  initproc :: "nat option"
  nextpid :: int
  forkret_first :: bool
  ticks :: uint

definition upd_proc :: "nat \<Rightarrow> (proc \<Rightarrow> proc) \<Rightarrow> 'a procst_scheme \<Rightarrow> 'a procst_scheme" where
  "upd_proc p f s = s\<lparr>procs := (procs s)(p := f (procs s p))\<rparr>"

text \<open>The value of a 32-bit signed C expression.\<close>

definition int32 :: "int \<Rightarrow> int" where
  "int32 x = sint (word_of_int x :: uint)"

text \<open>Offsets of the saved registers in \<^verbatim>\<open>struct trapframe\<close>.\<close>

abbreviation (input) TF_kernel_satp :: uint64 where "TF_kernel_satp \<equiv> 0"
abbreviation (input) TF_kernel_sp :: uint64 where "TF_kernel_sp \<equiv> 8"
abbreviation (input) TF_kernel_trap :: uint64 where "TF_kernel_trap \<equiv> 16"
abbreviation (input) TF_epc :: uint64 where "TF_epc \<equiv> 24"
abbreviation (input) TF_kernel_hartid :: uint64 where "TF_kernel_hartid \<equiv> 32"
abbreviation (input) TF_sp :: uint64 where "TF_sp \<equiv> 48"
abbreviation (input) TF_a0 :: uint64 where "TF_a0 \<equiv> 112"
abbreviation (input) TF_a7 :: uint64 where "TF_a7 \<equiv> 168"

section \<open>The current process, the table\<close>

definition cpuid :: "lockst \<Rightarrow> nat" where
  "cpuid l = tp l"

definition myproc :: "'a machine_scheme \<Rightarrow> kerr + nat option \<times> 'a machine_scheme" where
  "myproc s =
     (let s = s\<lparr>lks := push_off (lks s)\<rparr>;
          p = cproc (mycpu (lks s))
      in bindE (on_lks pop_off s) (\<lambda>s. Inr (p, s)))"

text \<open>Most callers use the result without a check: a null pointer is then a fault.\<close>

definition curproc :: "'a machine_scheme \<Rightarrow> kerr + nat \<times> 'a machine_scheme" where
  "curproc s = bindE (myproc s) (\<lambda>(p, s). case p of None \<Rightarrow> Inl (Fault ''myproc'') | Some p \<Rightarrow> Inr (p, s))"

definition procinit :: "'a procst_scheme \<Rightarrow> 'a procst_scheme" where
  "procinit s =
     (let s = s\<lparr>lks := initlock PidLock ''nextpid'' (lks s)\<rparr>;
          s = s\<lparr>lks := initlock WaitLock ''wait_lock'' (lks s)\<rparr>
      in fold (\<lambda>p s. upd_proc p (\<lambda>q. q\<lparr>kstack := KSTACK p\<rparr>)
           (s\<lparr>lks := initlock (ProcLock p) ''proc'' (lks s)\<rparr>)) [0..<NPROC] s)"

definition allocpid :: "'a procst_scheme \<Rightarrow> kerr + int \<times> 'a procst_scheme" where
  "allocpid s =
     bindE (lock PidLock s) (\<lambda>s.
     let i = nextpid s; s = s\<lparr>nextpid := int32 (nextpid s + 1)\<rparr>
     in bindE (unlock PidLock s) (\<lambda>s. Inr (i, s)))"

definition proc_pagetable :: "addr \<Rightarrow> 'a kmemst_scheme \<Rightarrow> kerr + addr \<times> 'a kmemst_scheme" where
  "proc_pagetable tf s =
     bindE (uvmcreate s) (\<lambda>(pt, s).
     if pt = 0 then Inr (0, s)
     else bindE (mappages pt TRAMPOLINE PGSIZE (trampoline s) (PTE_R OR PTE_X) s) (\<lambda>(r, s).
     if r < 0 then bindE (uvmfree pt 0 s) (\<lambda>s. Inr (0, s))
     else bindE (mappages pt TRAPFRAME PGSIZE tf (PTE_R OR PTE_W) s) (\<lambda>(r, s).
     if r < 0 then
       bindE (uvmunmap pt TRAMPOLINE 1 False s) (\<lambda>s.
       bindE (uvmfree pt 0 s) (\<lambda>s. Inr (0, s)))
     else Inr (pt, s))))"

definition proc_freepagetable :: "addr \<Rightarrow> uint64 \<Rightarrow> 'a kmemst_scheme \<Rightarrow> kerr + 'a kmemst_scheme" where
  "proc_freepagetable pt sz s =
     bindE (uvmunmap pt TRAMPOLINE 1 False s) (\<lambda>s.
     bindE (uvmunmap pt TRAPFRAME 1 False s) (uvmfree pt sz))"

definition freeproc :: "nat \<Rightarrow> 'a procst_scheme \<Rightarrow> kerr + 'a procst_scheme" where
  "freeproc p s =
     bindE (if trapframe (procs s p) \<noteq> 0 then kfree (trapframe (procs s p)) s else Inr s) (\<lambda>s.
     let s = upd_proc p (\<lambda>q. q\<lparr>trapframe := 0\<rparr>) s in
     bindE (if pagetable (procs s p) \<noteq> 0
            then proc_freepagetable (pagetable (procs s p)) (psz (procs s p)) s else Inr s) (\<lambda>s.
     Inr (upd_proc p (\<lambda>q. q\<lparr>pagetable := 0, psz := 0, pid := 0, parent := None,
       pname := (pname q)[0 := 0], pchan := None, killed := 0, xstate := 0, pstate := UNUSED\<rparr>) s)))"

function find_unused :: "nat \<Rightarrow> 'a procst_scheme \<Rightarrow> kerr + nat option \<times> 'a procst_scheme" where
  "find_unused p s =
     (if p < NPROC then
        bindE (lock (ProcLock p) s) (\<lambda>s.
        if pstate (procs s p) = UNUSED then Inr (Some p, s)
        else bindE (unlock (ProcLock p) s) (find_unused (Suc p)))
      else Inr (None, s))"
  by pat_completeness auto
termination by (relation "measure (\<lambda>(p, s). NPROC - p)") auto

declare find_unused.simps [simp del]

definition allocproc :: "'a procst_scheme \<Rightarrow> kerr + nat option \<times> 'a procst_scheme" where
  "allocproc s =
     bindE (find_unused 0 s) (\<lambda>(found, s).
     case found of None \<Rightarrow> Inr (None, s)
     | Some p \<Rightarrow>
       bindE (allocpid s) (\<lambda>(i, s).
       let s = upd_proc p (\<lambda>q. q\<lparr>pid := i, pstate := USED\<rparr>) s in
       bindE (kalloc s) (\<lambda>(tf, s).
       let s = upd_proc p (\<lambda>q. q\<lparr>trapframe := tf\<rparr>) s in
       if tf = 0 then
         bindE (freeproc p s) (\<lambda>s. bindE (unlock (ProcLock p) s) (\<lambda>s. Inr (None, s)))
       else bindE (proc_pagetable tf s) (\<lambda>(pt, s).
         let s = upd_proc p (\<lambda>q. q\<lparr>pagetable := pt\<rparr>) s in
         if pt = 0 then
           bindE (freeproc p s) (\<lambda>s. bindE (unlock (ProcLock p) s) (\<lambda>s. Inr (None, s)))
         else Inr (Some p, upd_proc p (\<lambda>q. q\<lparr>pctx := CtxForkret\<rparr>) s)))))"

text \<open>\<^verbatim>\<open>growproc\<close> keeps the size in a 32-bit variable.\<close>

definition growproc :: "int \<Rightarrow> 'a procst_scheme \<Rightarrow> kerr + int \<times> 'a procst_scheme" where
  "growproc n s =
     bindE (curproc s) (\<lambda>(p, s).
     let sz = (ucast (psz (procs s p)) :: uint); pt = pagetable (procs s p) in
     if n > 0 then
       bindE (uvmalloc pt (ucast sz) (ucast (sz + of_int n)) s) (\<lambda>(r, s).
       let sz = (ucast r :: uint) in
       if sz = 0 then Inr (- 1, s) else Inr (0, upd_proc p (\<lambda>q. q\<lparr>psz := ucast sz\<rparr>) s))
     else if n < 0 then
       bindE (uvmdealloc pt (ucast sz) (ucast (sz + of_int n)) s) (\<lambda>(r, s).
       Inr (0, upd_proc p (\<lambda>q. q\<lparr>psz := ucast (ucast r :: uint)\<rparr>) s))
     else Inr (0, upd_proc p (\<lambda>q. q\<lparr>psz := ucast sz\<rparr>) s))"

section \<open>Scheduling\<close>

definition set_cproc :: "nat option \<Rightarrow> lockst \<Rightarrow> lockst" where
  "set_cproc p l = set_mycpu ((mycpu l)\<lparr>cproc := p\<rparr>) l"

definition set_intena :: "bool \<Rightarrow> lockst \<Rightarrow> lockst" where
  "set_intena i l = set_mycpu ((mycpu l)\<lparr>intena := i\<rparr>) l"

text \<open>
  One iteration of the scheduler's inner loop, in two halves: up to the \<^verbatim>\<open>swtch\<close> to a runnable process
  (\<open>True\<close>) or past a process that is not runnable (\<open>False\<close>); and what follows the \<^verbatim>\<open>swtch\<close>.
\<close>

definition scheduler_try :: "nat \<Rightarrow> 'a procst_scheme \<Rightarrow> kerr + bool \<times> 'a procst_scheme" where
  "scheduler_try p s =
     bindE (lock (ProcLock p) s) (\<lambda>s.
     if pstate (procs s p) = RUNNABLE then
       let s = upd_proc p (\<lambda>q. q\<lparr>pstate := RUNNING\<rparr>) s
       in Inr (True, s\<lparr>lks := set_cproc (Some p) (lks s)\<rparr>)
     else bindE (unlock (ProcLock p) s) (\<lambda>s. Inr (False, s)))"

definition scheduler_ret :: "nat \<Rightarrow> 'a procst_scheme \<Rightarrow> kerr + 'a procst_scheme" where
  "scheduler_ret p s = unlock (ProcLock p) (s\<lparr>lks := set_cproc None (lks s)\<rparr>)"

definition scheduler_start :: "'a procst_scheme \<Rightarrow> 'a procst_scheme" where
  "scheduler_start s = s\<lparr>lks := intr_on (set_cproc None (lks s))\<rparr>"

definition sched :: "(bool \<Rightarrow> pcontext) \<Rightarrow> 'a procst_scheme \<Rightarrow> kerr + 'a procst_scheme" where
  "sched k s =
     bindE (curproc s) (\<lambda>(p, s).
     if \<not> holding (ProcLock p) (lks s) then Inl (Panic ''sched p->lock'')
     else if noff (mycpu (lks s)) \<noteq> 1 then Inl (Panic ''sched locks'')
     else if pstate (procs s p) = RUNNING then Inl (Panic ''sched running'')
     else if intr_get (lks s) then Inl (Panic ''sched interruptible'')
     else scheduler_ret p (upd_proc p (\<lambda>q. q\<lparr>pctx := k (intena (mycpu (lks s)))\<rparr>) s))"

definition yield :: "'a procst_scheme \<Rightarrow> kerr + 'a procst_scheme" where
  "yield s =
     bindE (curproc s) (\<lambda>(p, s).
     bindE (lock (ProcLock p) s) (\<lambda>s.
     sched CtxYield (upd_proc p (\<lambda>q. q\<lparr>pstate := RUNNABLE\<rparr>) s)))"

definition sleep :: "chan \<Rightarrow> lockid \<Rightarrow> 'a procst_scheme \<Rightarrow> kerr + 'a procst_scheme" where
  "sleep ch lk s =
     bindE (curproc s) (\<lambda>(p, s).
     bindE (lock (ProcLock p) s) (\<lambda>s.
     bindE (unlock lk s) (\<lambda>s.
     sched (CtxSleep lk) (upd_proc p (\<lambda>q. q\<lparr>pchan := Some ch, pstate := SLEEPING\<rparr>) s))))"

text \<open>
  The code after \<^verbatim>\<open>swtch\<close>: the first run of a new process (\<^verbatim>\<open>forkret\<close>, up to the initialisation of the
  file system and the return to user space), and the rest of \<^verbatim>\<open>sched\<close> with that of its caller.
\<close>

definition resume :: "nat \<Rightarrow> 'a procst_scheme \<Rightarrow> kerr + 'a procst_scheme" where
  "resume p s =
     (case pctx (procs s p) of
        CtxNone \<Rightarrow> Inl (Fault ''swtch'')
      | CtxForkret \<Rightarrow> bindE (curproc s) (\<lambda>(p, s). unlock (ProcLock p) s)
      | CtxYield i \<Rightarrow> unlock (ProcLock p) (s\<lparr>lks := set_intena i (lks s)\<rparr>)
      | CtxSleep lk i \<Rightarrow>
          let s = s\<lparr>lks := set_intena i (lks s)\<rparr>;
              s = upd_proc p (\<lambda>q. q\<lparr>pchan := None\<rparr>) s
          in bindE (unlock (ProcLock p) s) (lock lk)
      | CtxExit i \<Rightarrow> Inl (Panic ''zombie exit''))"

text \<open>The body of the loop of \<^verbatim>\<open>wakeup\<close>, and the loop.\<close>

definition wakeup_one :: "chan \<Rightarrow> nat \<Rightarrow> 'a procst_scheme \<Rightarrow> kerr + 'a procst_scheme" where
  "wakeup_one ch p s =
     bindE (myproc s) (\<lambda>(q, s).
     if Some p \<noteq> q then
       bindE (lock (ProcLock p) s) (\<lambda>s.
       let s = (if pstate (procs s p) = SLEEPING \<and> pchan (procs s p) = Some ch
                then upd_proc p (\<lambda>q. q\<lparr>pstate := RUNNABLE\<rparr>) s else s)
       in unlock (ProcLock p) s)
     else Inr s)"

definition wakeup :: "chan \<Rightarrow> 'a procst_scheme \<Rightarrow> kerr + 'a procst_scheme" where
  "wakeup ch s = foldE (wakeup_one ch) [0..<NPROC] s"

function kill_loop :: "nat \<Rightarrow> int \<Rightarrow> 'a procst_scheme \<Rightarrow> kerr + int \<times> 'a procst_scheme" where
  "kill_loop p i s =
     (if p < NPROC then
        bindE (lock (ProcLock p) s) (\<lambda>s.
        if pid (procs s p) = i then
          let s = upd_proc p (\<lambda>q. q\<lparr>killed := 1\<rparr>) s;
              s = (if pstate (procs s p) = SLEEPING then upd_proc p (\<lambda>q. q\<lparr>pstate := RUNNABLE\<rparr>) s else s)
          in bindE (unlock (ProcLock p) s) (\<lambda>s. Inr (0, s))
        else bindE (unlock (ProcLock p) s) (kill_loop (Suc p) i))
      else Inr (- 1, s))"
  by pat_completeness auto
termination by (relation "measure (\<lambda>(p, i, s). NPROC - p)") auto

declare kill_loop.simps [simp del]

definition kill :: "int \<Rightarrow> 'a procst_scheme \<Rightarrow> kerr + int \<times> 'a procst_scheme" where
  "kill i s = kill_loop 0 i s"

definition reparent :: "nat \<Rightarrow> 'a procst_scheme \<Rightarrow> kerr + 'a procst_scheme" where
  "reparent p s =
     foldE (\<lambda>pp s.
       if parent (procs s pp) = Some p then
         let s = upd_proc pp (\<lambda>q. q\<lparr>parent := initproc s\<rparr>) s
         in case initproc s of None \<Rightarrow> Inl (Fault ''initproc'') | Some ip \<Rightarrow> wakeup (ChanProc ip) s
       else Inr s) [0..<NPROC] s"

text \<open>The end of \<^verbatim>\<open>exit\<close>, with \<^verbatim>\<open>wait_lock\<close> held.\<close>

definition exit_tail :: "nat \<Rightarrow> int \<Rightarrow> 'a procst_scheme \<Rightarrow> kerr + 'a procst_scheme" where
  "exit_tail p status s =
     bindE (lock (ProcLock p) s) (\<lambda>s.
     bindE (unlock WaitLock (upd_proc p (\<lambda>q. q\<lparr>xstate := status, pstate := ZOMBIE\<rparr>) s)) (sched CtxExit))"

section \<open>Waiting for children\<close>

text \<open>
  \<open>wait_scan\<close> is the search of the table; \<open>Some r\<close> is a return from \<^verbatim>\<open>wait\<close>. \<open>wait_pass\<close> is one
  iteration of the endless loop; \<open>None\<close> means that the process now sleeps, and that the next
  iteration follows when it is resumed.
\<close>

function wait_scan ::
  "nat \<Rightarrow> uint64 \<Rightarrow> nat \<Rightarrow> bool \<Rightarrow> 'a procst_scheme \<Rightarrow> kerr + (int option \<times> bool) \<times> 'a procst_scheme" where
  "wait_scan p a np havekids s =
     (if np < NPROC then
        if parent (procs s np) = Some p then
          bindE (lock (ProcLock np) s) (\<lambda>s.
          if pstate (procs s np) = ZOMBIE then
            let i = pid (procs s np) in
            bindE (if a \<noteq> 0 then copyout (pagetable (procs s p)) a (le_enc 4 (word_of_int (xstate (procs s np)) :: uint)) s
                   else Inr (0, s)) (\<lambda>(r, s).
            if r < 0 then
              bindE (unlock (ProcLock np) s) (\<lambda>s. bindE (unlock WaitLock s) (\<lambda>s. Inr ((Some (- 1), True), s)))
            else
              bindE (freeproc np s) (\<lambda>s.
              bindE (unlock (ProcLock np) s) (\<lambda>s. bindE (unlock WaitLock s) (\<lambda>s. Inr ((Some i, True), s)))))
          else bindE (unlock (ProcLock np) s) (wait_scan p a (Suc np) True))
        else wait_scan p a (Suc np) havekids s
      else Inr ((None, havekids), s))"
  by pat_completeness auto
termination by (relation "measure (\<lambda>(p, a, np, h, s). NPROC - np)") auto

declare wait_scan.simps [simp del]

definition wait_pass :: "nat \<Rightarrow> uint64 \<Rightarrow> 'a procst_scheme \<Rightarrow> kerr + int option \<times> 'a procst_scheme" where
  "wait_pass p a s =
     bindE (wait_scan p a 0 False s) (\<lambda>((r, havekids), s).
     case r of Some r \<Rightarrow> Inr (Some r, s)
     | None \<Rightarrow>
        if (\<not> havekids \<or> killed (procs s p) \<noteq> 0) \<and> youAThread (procs s p) = 0 then
          bindE (unlock WaitLock s) (\<lambda>s. Inr (Some (- 1), s))
        else bindE (sleep (ChanProc p) WaitLock s) (\<lambda>s. Inr (None, s)))"

definition wait :: "uint64 \<Rightarrow> 'a procst_scheme \<Rightarrow> kerr + int option \<times> 'a procst_scheme" where
  "wait a s = bindE (curproc s) (\<lambda>(p, s). bindE (lock WaitLock s) (wait_pass p a))"

section \<open>Copying to and from a user or a kernel address\<close>

text \<open>
  A kernel destination is an address in kernel memory or a local object (\<open>Kbuf\<close>), for which the
  caller keeps the bytes; a kernel source is the bytes at the address.
\<close>

datatype kdest = User uint64 | Kmem addr | Kbuf

datatype ksrc = SUser uint64 | SKern "byte list"

definition either_copyout :: "kdest \<Rightarrow> byte list \<Rightarrow> 'a procst_scheme \<Rightarrow> kerr + int \<times> 'a procst_scheme" where
  "either_copyout d src s =
     bindE (myproc s) (\<lambda>(p, s).
     case d of
       User dst \<Rightarrow> (case p of None \<Rightarrow> Inl (Fault ''myproc'') | Some p \<Rightarrow> copyout (pagetable (procs s p)) dst src s)
     | Kmem dst \<Rightarrow> Inr (0, s\<lparr>mem := mem_put (mem s) dst src\<rparr>)
     | Kbuf \<Rightarrow> Inr (0, s))"

definition either_copyin :: "ksrc \<Rightarrow> nat \<Rightarrow> 'a procst_scheme \<Rightarrow> kerr + (int \<times> byte list) \<times> 'a procst_scheme" where
  "either_copyin src len s =
     bindE (myproc s) (\<lambda>(p, s).
     case src of
       SUser a \<Rightarrow> (case p of None \<Rightarrow> Inl (Fault ''myproc'')
                  | Some p \<Rightarrow> bindE (copyin (pagetable (procs s p)) a len s) (\<lambda>r. Inr (r, s)))
     | SKern bs \<Rightarrow> Inr ((0, take len bs), s))"

section \<open>Listing\<close>

definition state_name :: "procstate \<Rightarrow> byte list" where
  "state_name st =
     (case st of UNUSED \<Rightarrow> str ''unused'' | SLEEPING \<Rightarrow> str ''sleep '' | RUNNABLE \<Rightarrow> str ''runble''
      | RUNNING \<Rightarrow> str ''run   '' | ZOMBIE \<Rightarrow> str ''zombie'' | USED \<Rightarrow> str ''???'')"

definition procdump :: "'a procst_scheme \<Rightarrow> kerr + 'a procst_scheme" where
  "procdump s =
     bindE (printf [10] [] s) (foldE (\<lambda>p s.
       if pstate (procs s p) = UNUSED then Inr s
       else bindE (printf (str ''%d %s %s'')
              [AInt (word_of_int (pid (procs s p))), AStr (Some (state_name (pstate (procs s p)))),
               AStr (Some (pname (procs s p)))] s) (printf [10] [])) [0..<NPROC])"

end
