(* ===== verification/Sched.thy ===== *)
theory Sched
  imports Proc
begin

text \<open>
  What the scheduler and \<^verbatim>\<open>sleep\<close>/\<^verbatim>\<open>wakeup\<close> guarantee: the exact effect of giving up the CPU and of getting
  it back, that a wakeup reaches every sleeper, and, over every interleaving of the CPUs, that a
  process is \<open>RUNNING\<close> exactly when one CPU runs it.
\<close>

section \<open>Lock states and the current process\<close>

definition curs :: "lockst \<Rightarrow> nat \<Rightarrow> nat option" where
  "curs l c = cproc (cpus l c)"

lemma cproc_mycpu: "cproc (mycpu l) = curs l (tp l)"
  by (simp add: curs_def mycpu_def)

lemma curs_push_off [simp]: "curs (push_off l) = curs l"
  by (simp add: curs_def push_off_def cpu_defs Let_def fun_eq_iff)

lemma curs_settle [simp]: "curs (settle l) = curs l"
  by (simp add: curs_def settle_def cpu_defs fun_eq_iff)

lemma curs_acq [simp]: "curs (acq L l) = curs l"
  by (simp add: curs_def acq_def push_off_def cpu_defs Let_def fun_eq_iff)

lemma curs_set_cproc [simp]: "curs (set_cproc p l) = (curs l)(tp l := p)"
  by (simp add: curs_def set_cproc_def cpu_defs fun_eq_iff)

lemma curs_set_intena [simp]: "curs (set_intena i l) = curs l"
  by (simp add: curs_def set_intena_def cpu_defs fun_eq_iff)

lemma tp_set [simp]: "tp (set_cproc p l) = tp l" "tp (set_intena i l) = tp l"
  by (simp_all add: set_cproc_def set_intena_def cpu_defs)

lemma curs_pop_off: "pop_off l = Inr l' \<Longrightarrow> curs l' = curs l \<and> tp l' = tp l"
  by (auto simp: pop_off_def curs_def cpu_defs Let_def fun_eq_iff split: if_splits)

lemma curs_acquire: "acquire L l = Inr l' \<Longrightarrow> curs l' = curs l \<and> tp l' = tp l"
proof -
  assume "acquire L l = Inr l'"
  then have "l' = acq L l" by (auto simp: acquire_def acq_def Let_def split: if_splits)
  then show ?thesis by simp
qed

lemma curs_release: "release L l = Inr l' \<Longrightarrow> curs l' = curs l \<and> tp l' = tp l"
  by (auto simp: release_def curs_def fun_eq_iff dest!: curs_pop_off split: if_splits)

lemma lock_frame:
  assumes "lock L s = Inr s'"
  shows "procs s' = procs s" "curs (lks s') = curs (lks s)" "tp (lks s') = tp (lks s)"
    "s' = s\<lparr>lks := lks s'\<rparr>"
  using assms by (auto simp: on_lks_def dest: curs_acquire)

lemma unlock_frame:
  assumes "unlock L s = Inr s'"
  shows "procs s' = procs s" "curs (lks s') = curs (lks s)" "tp (lks s') = tp (lks s)"
    "s' = s\<lparr>lks := lks s'\<rparr>"
  using assms by (auto simp: on_lks_def dest: curs_release)

lemma myproc_eq: "myproc s = Inr (cproc (mycpu (lks s)), s\<lparr>lks := settle (lks s)\<rparr>)"
  by (simp add: myproc_def on_lks_def pop_push_off Let_def)

lemma curproc_eq:
  "curproc s = (case cproc (mycpu (lks s)) of None \<Rightarrow> Inl (Fault ''myproc'')
     | Some p \<Rightarrow> Inr (p, s\<lparr>lks := settle (lks s)\<rparr>))"
  by (simp add: curproc_def myproc_eq)

lemma curproc_Some: "cproc (mycpu (lks s)) = Some p \<Longrightarrow> curproc s = Inr (p, s\<lparr>lks := settle (lks s)\<rparr>)"
  by (simp add: curproc_eq)

lemma set_cproc_acq: "set_cproc p (acq L l) = acq L (set_cproc p l)"
  by (auto simp: set_cproc_def acq_def push_off_def cpu_defs Let_def fun_eq_iff
      intro!: lockst.equality cpu.equality)

lemma set_cproc_settle: "set_cproc p (settle l) = settle (set_cproc p l)"
  by (auto simp: set_cproc_def settle_def cpu_defs fun_eq_iff intro!: lockst.equality cpu.equality)

lemma lock_free_set_cproc [simp]: "lock_free L (set_cproc p l) = lock_free L l"
  by (simp add: lock_free_def set_cproc_def cpu_defs)

lemma intena_acq [simp]: "noff (mycpu l) = 0 \<Longrightarrow> intena (mycpu (acq L l)) = sie l (tp l)"
  by (simp add: acq_def push_off_def cpu_defs Let_def)

lemma cproc_set_cproc [simp]: "cproc (mycpu (set_cproc p l)) = p"
  by (simp add: set_cproc_def cpu_defs)

lemma noff_set_cproc [simp]: "noff (mycpu (set_cproc p l)) = noff (mycpu l)"
  by (simp add: set_cproc_def cpu_defs)

lemma sie_settle [simp]: "noff (mycpu l) = 0 \<Longrightarrow> sie (settle l) = sie l"
  by (simp add: settle_def cpu_defs)

lemma upd_proc_lks [simp]: "lks (upd_proc p f s) = lks s" "procs (upd_proc p f s) = (procs s)(p := f (procs s p))"
  by (simp_all add: upd_proc_def)

lemma upd_proc_lks_upd: "upd_proc p f (s\<lparr>lks := l\<rparr>) = (upd_proc p f s)\<lparr>lks := l\<rparr>"
  by (simp add: upd_proc_def)

lemma upd_proc_upd_proc [simp]: "upd_proc p f (upd_proc p g s) = upd_proc p (\<lambda>q. f (g q)) s"
  by (simp add: upd_proc_def)

section \<open>Giving up the CPU\<close>

text \<open>\<open>sched\<close>, called as it should be: with only the lock of the process held.\<close>

lemma sched_eq:
  assumes "cproc (mycpu l) = Some p" "noff (mycpu l) = 0" "lock_free (ProcLock p) l"
    "lks s = acq (ProcLock p) l" "pstate (procs s p) \<noteq> RUNNING"
  shows "sched k s = Inr (upd_proc p (\<lambda>q. q\<lparr>pctx := k (sie l (tp l))\<rparr>) s\<lparr>lks := settle (set_cproc None l)\<rparr>)"
proof -
  have "sie (acq (ProcLock p) l) (tp l) = False" by simp
  then show ?thesis
    using assms
    by (simp add: sched_def curproc_Some intr_get_def scheduler_ret_def set_cproc_acq upd_proc_lks_upd lock_simps)
qed

lemma yield_eq:
  assumes "cproc (mycpu (lks s)) = Some p" "noff (mycpu (lks s)) = 0" "lock_free (ProcLock p) (lks s)"
  shows "yield s = Inr (upd_proc p (\<lambda>q. q\<lparr>pstate := RUNNABLE, pctx := CtxYield (sie (lks s) (tp (lks s)))\<rparr>) s
    \<lparr>lks := settle (set_cproc None (lks s))\<rparr>)"
proof -
  let ?s = "upd_proc p (\<lambda>q. q\<lparr>pstate := RUNNABLE\<rparr>) (s\<lparr>lks := acq (ProcLock p) (lks s)\<rparr>)"
  have "yield s = sched CtxYield ?s"
    using assms by (simp add: yield_def curproc_Some lock_simps)
  also have "\<dots> = Inr (upd_proc p (\<lambda>q. q\<lparr>pctx := CtxYield (sie (lks s) (tp (lks s)))\<rparr>) ?s
      \<lparr>lks := settle (set_cproc None (lks s))\<rparr>)"
    using assms by (intro sched_eq) simp_all
  finally show ?thesis by (simp add: upd_proc_lks_upd)
qed

text \<open>\<open>sleep\<close> releases the caller's lock only once it holds the process lock.\<close>

lemma sleep_eq:
  assumes "cproc (mycpu l) = Some p" "noff (mycpu l) = 0" "lock_free (ProcLock p) l" "lock_free lk l"
    "lk \<noteq> ProcLock p" "lks s = acq lk l"
  shows "sleep ch lk s = Inr (upd_proc p (\<lambda>q. q\<lparr>pchan := Some ch, pstate := SLEEPING,
    pctx := CtxSleep lk (sie l (tp l))\<rparr>) s\<lparr>lks := settle (set_cproc None l)\<rparr>)"
proof -
  let ?s = "upd_proc p (\<lambda>q. q\<lparr>pchan := Some ch, pstate := SLEEPING\<rparr>) (s\<lparr>lks := acq (ProcLock p) l\<rparr>)"
  have "sleep ch lk s = sched (CtxSleep lk) ?s"
    using assms by (simp add: sleep_def curproc_Some lock_simps)
  also have "\<dots> = Inr (upd_proc p (\<lambda>q. q\<lparr>pctx := CtxSleep lk (sie l (tp l))\<rparr>) ?s
      \<lparr>lks := settle (set_cproc None l)\<rparr>)"
    using assms by (intro sched_eq) simp_all
  finally show ?thesis by (simp add: upd_proc_lks_upd)
qed

section \<open>Wakeup\<close>

definition woken :: "chan \<Rightarrow> nat option \<Rightarrow> nat list \<Rightarrow> (nat \<Rightarrow> proc) \<Rightarrow> nat \<Rightarrow> proc" where
  "woken ch me ps f = (\<lambda>i. if i \<in> set ps \<and> Some i \<noteq> me \<and> pstate (f i) = SLEEPING \<and> pchan (f i) = Some ch
     then (f i)\<lparr>pstate := RUNNABLE\<rparr> else f i)"

lemma woken_Nil [simp]: "woken ch me [] f = f"
  by (simp add: woken_def)

lemma woken_Cons: "p \<notin> set ps \<Longrightarrow> woken ch me ps (woken ch me [p] f) = woken ch me (p # ps) f"
  by (auto simp: woken_def fun_eq_iff)

lemma wakeup_one_eq:
  assumes "Some p \<noteq> cproc (mycpu (lks s)) \<Longrightarrow> lock_free (ProcLock p) (lks s)"
  shows "wakeup_one ch p s = Inr (s\<lparr>procs := woken ch (cproc (mycpu (lks s))) [p] (procs s), lks := settle (lks s)\<rparr>)"
proof (cases "Some p = cproc (mycpu (lks s))")
  case True
  then have "woken ch (cproc (mycpu (lks s))) [p] (procs s) = procs s" by (auto simp: woken_def fun_eq_iff)
  then show ?thesis using True by (simp add: wakeup_one_def myproc_eq)
next
  case False
  have "woken ch (cproc (mycpu (lks s))) [p] (procs s) =
      (if pstate (procs s p) = SLEEPING \<and> pchan (procs s p) = Some ch
       then (procs s)(p := (procs s p)\<lparr>pstate := RUNNABLE\<rparr>) else procs s)"
    using False by (auto simp: woken_def fun_eq_iff)
  then show ?thesis
    using False assms by (simp add: wakeup_one_def myproc_eq lock_simps Let_def upd_proc_def)
qed

lemma wakeup_loop:
  assumes "\<And>p. p \<in> set ps \<Longrightarrow> Some p \<noteq> cproc (mycpu (lks s)) \<Longrightarrow> lock_free (ProcLock p) (lks s)" "distinct ps"
  shows "\<exists>l. foldE (wakeup_one ch) ps s = Inr (s\<lparr>procs := woken ch (cproc (mycpu (lks s))) ps (procs s), lks := l\<rparr>) \<and>
    settle l = settle (lks s)"
  using assms
proof (induction ps arbitrary: s)
  case Nil
  then show ?case by (auto intro!: exI [of _ "lks s"])
next
  case (Cons p ps)
  let ?me = "cproc (mycpu (lks s))"
  let ?s1 = "s\<lparr>procs := woken ch ?me [p] (procs s), lks := settle (lks s)\<rparr>"
  have one: "wakeup_one ch p s = Inr ?s1" using Cons.prems(1) [of p] by (intro wakeup_one_eq) simp
  have "\<exists>l. foldE (wakeup_one ch) ps ?s1 = Inr (?s1\<lparr>procs := woken ch (cproc (mycpu (lks ?s1))) ps (procs ?s1), lks := l\<rparr>) \<and>
      settle l = settle (lks ?s1)"
    using Cons.prems by (intro Cons.IH) simp_all
  then show ?case using one Cons.prems(2) by (simp add: woken_Cons)
qed

lemma wakeup_eq:
  assumes "\<And>p. p < NPROC \<Longrightarrow> Some p \<noteq> cproc (mycpu (lks s)) \<Longrightarrow> lock_free (ProcLock p) (lks s)"
  shows "\<exists>l. wakeup ch s = Inr (s\<lparr>procs := woken ch (cproc (mycpu (lks s))) [0..<NPROC] (procs s), lks := l\<rparr>) \<and>
    settle l = settle (lks s)"
  unfolding wakeup_def using assms by (intro wakeup_loop) auto

lemma wakeup_run:
  assumes "\<And>p. p < NPROC \<Longrightarrow> Some p \<noteq> cproc (mycpu (lks s)) \<Longrightarrow> lock_free (ProcLock p) (lks s)"
  shows "wakeup ch s =
    Inr (s\<lparr>procs := woken ch (cproc (mycpu (lks s))) [0..<NPROC] (procs s), lks := settle (lks s)\<rparr>)"
proof -
  let ?me = "cproc (mycpu (lks s))"
  obtain l where f: "foldE (wakeup_one ch) [0..<63] s = Inr (s\<lparr>procs := woken ch ?me [0..<63] (procs s), lks := l\<rparr>)"
    and l: "settle l = settle (lks s)"
    using wakeup_loop [of "[0..<63]" s ch] assms by force
  let ?s1 = "s\<lparr>procs := woken ch ?me [0..<63] (procs s), lks := l\<rparr>"
  have lf: "cproc (mycpu l) = ?me" "lock_free L l = lock_free L (lks s)" for L
    using l settle_fields(4) lock_free_settle by metis+
  have "wakeup_one ch 63 ?s1 =
      Inr (?s1\<lparr>procs := woken ch (cproc (mycpu (lks ?s1))) [63] (procs ?s1), lks := settle (lks ?s1)\<rparr>)"
    using assms [of 63] lf by (intro wakeup_one_eq) simp
  moreover have "woken ch ?me [63] (woken ch ?me [0..<63] (procs s)) = woken ch ?me [0..<NPROC] (procs s)"
  proof -
    have "x < NPROC \<longleftrightarrow> x < 63 \<or> x = 63" for x :: nat by auto
    then show ?thesis by (auto simp: woken_def fun_eq_iff)
  qed
  moreover have "[0..<NPROC] = [0..<63] @ [63]" by (simp add: upt_rec)
  ultimately show ?thesis by (simp add: wakeup_def foldE_append f lf l)
qed

section \<open>All CPUs together\<close>

text \<open>
  A step of the system: some CPU is chosen; a CPU in its scheduler loop tries a process and, if it is
  runnable, continues it; a process yields, sleeps, exits, wakes others or kills one. New processes
  are made runnable by the last lines of \<^verbatim>\<open>fork\<close>.
\<close>

definition make_runnable :: "nat \<Rightarrow> 'a procst_scheme \<Rightarrow> kerr + 'a procst_scheme" where
  "make_runnable np s =
     bindE (lock (ProcLock np) s) (\<lambda>s. unlock (ProcLock np) (upd_proc np (\<lambda>q. q\<lparr>pstate := RUNNABLE\<rparr>) s))"

inductive sched_step :: "procst \<Rightarrow> procst \<Rightarrow> bool" where
  cpu: "sched_step s (s\<lparr>lks := (lks s)\<lparr>tp := c\<rparr>\<rparr>)"
| skip: "curs (lks s) (tp (lks s)) = None \<Longrightarrow> scheduler_try p s = Inr (False, s') \<Longrightarrow> sched_step s s'"
| pick: "curs (lks s) (tp (lks s)) = None \<Longrightarrow> scheduler_try p s = Inr (True, s1) \<Longrightarrow> resume p s1 = Inr s' \<Longrightarrow> sched_step s s'"
| yield: "yield s = Inr s' \<Longrightarrow> sched_step s s'"
| sleep: "sleep ch lk s = Inr s' \<Longrightarrow> sched_step s s'"
| exit: "curs (lks s) (tp (lks s)) = Some p \<Longrightarrow> exit_tail p status s = Inr s' \<Longrightarrow> sched_step s s'"
| wakeup: "wakeup ch s = Inr s' \<Longrightarrow> sched_step s s'"
| kill: "kill i s = Inr (r, s') \<Longrightarrow> sched_step s s'"
| new: "pstate (procs s np) = USED \<Longrightarrow> make_runnable np s = Inr s' \<Longrightarrow> sched_step s s'"

inductive sched_reach :: "procst \<Rightarrow> bool" where
  start: "(\<And>c. curs (lks s) c = None) \<Longrightarrow> (\<And>p. pstate (procs s p) \<noteq> RUNNING) \<Longrightarrow> sched_reach s"
| step: "sched_reach s \<Longrightarrow> sched_step s s' \<Longrightarrow> sched_reach s'"

definition runs :: "(nat \<Rightarrow> proc) \<Rightarrow> nat \<Rightarrow> bool" where
  "runs f p \<longleftrightarrow> pstate (f p) = RUNNING"

definition sched_inv :: "procst \<Rightarrow> bool" where
  "sched_inv s \<longleftrightarrow>
     (\<forall>p. runs (procs s) p \<longleftrightarrow> (\<exists>c. curs (lks s) c = Some p)) \<and>
     (\<forall>c c' p. curs (lks s) c = Some p \<and> curs (lks s) c' = Some p \<longrightarrow> c = c')"

text \<open>The operations' effect on who runs, whatever else holds.\<close>

lemma sched_inv_same:
  "sched_inv s \<Longrightarrow> curs (lks s') = curs (lks s) \<Longrightarrow> runs (procs s') = runs (procs s) \<Longrightarrow> sched_inv s'"
  by (simp add: sched_inv_def)

lemma sched_invD:
  assumes "sched_inv s"
  shows "runs (procs s) p \<longleftrightarrow> (\<exists>c. curs (lks s) c = Some p)"
    "curs (lks s) c = Some p \<Longrightarrow> curs (lks s) c' = Some p \<Longrightarrow> c = c'"
  using assms unfolding sched_inv_def by blast+

lemma sched_invI:
  assumes "\<And>p c. runs (procs s) p \<Longrightarrow> \<exists>c. curs (lks s) c = Some p"
    "\<And>p c. curs (lks s) c = Some p \<Longrightarrow> runs (procs s) p"
    "\<And>p c c'. curs (lks s) c = Some p \<Longrightarrow> curs (lks s) c' = Some p \<Longrightarrow> c = c'"
  shows "sched_inv s"
  using assms unfolding sched_inv_def by blast

lemma sched_inv_off:
  assumes inv: "sched_inv s" and p: "curs (lks s) (tp (lks s)) = Some p"
    and c': "curs (lks s') = (curs (lks s))(tp (lks s) := None)"
    and r': "runs (procs s') = (runs (procs s))(p := False)"
  shows "sched_inv s'"
proof (rule sched_invI)
  have u: "curs (lks s) c = Some p \<longleftrightarrow> c = tp (lks s)" for c using sched_invD(2) [OF inv] p by blast
  have other: "curs (lks s') c = Some q \<longleftrightarrow> curs (lks s) c = Some q \<and> q \<noteq> p" for c q
    using u [of c] p by (cases "c = tp (lks s)") (auto simp: c')
  fix q c c'
  show "curs (lks s') c = Some q \<Longrightarrow> runs (procs s') q"
    using other sched_invD(1) [OF inv] by (auto simp: r')
  show "runs (procs s') q \<Longrightarrow> \<exists>c. curs (lks s') c = Some q"
    using other sched_invD(1) [OF inv] by (auto simp: r' split: if_splits)
  show "curs (lks s') c = Some q \<Longrightarrow> curs (lks s') c' = Some q \<Longrightarrow> c = c'"
    using other sched_invD(2) [OF inv] by blast
qed

lemma sched_inv_on:
  assumes inv: "sched_inv s" and free: "curs (lks s) (tp (lks s)) = None"
    and c': "curs (lks s') = (curs (lks s))(tp (lks s) := Some p)"
    and np: "\<not> runs (procs s) p" and r': "runs (procs s') = (runs (procs s))(p := True)"
  shows "sched_inv s'"
proof (rule sched_invI)
  have nobody: "curs (lks s) c \<noteq> Some p" for c using np sched_invD(1) [OF inv] by blast
  have other: "curs (lks s') c = Some q \<longleftrightarrow> (if c = tp (lks s) then q = p else curs (lks s) c = Some q)" for c q
    by (auto simp: c')
  fix q c c'
  show "curs (lks s') c = Some q \<Longrightarrow> runs (procs s') q"
    using other [of c q] sched_invD(1) [OF inv, of q] by (auto simp: r' split: if_splits)
  show "\<exists>c. curs (lks s') c = Some q" if "runs (procs s') q"
  proof (cases "q = p")
    case False
    then have "runs (procs s) q" using that by (simp add: r')
    then obtain c where "curs (lks s) c = Some q" using sched_invD(1) [OF inv] by blast
    then show ?thesis using free other [of c q] by (cases "c = tp (lks s)") auto
  qed (use other in auto)
  show "curs (lks s') c = Some q \<Longrightarrow> curs (lks s') c' = Some q \<Longrightarrow> c = c'"
    using other [of c q] other [of c' q] nobody sched_invD(2) [OF inv] by (metis)
qed

lemma curproc_frame:
  assumes "curproc s = Inr (p, s')"
  shows "s' = s\<lparr>lks := settle (lks s)\<rparr>" "curs (lks s) (tp (lks s)) = Some p"
  using assms by (auto simp: curproc_eq cproc_mycpu split: option.splits)

lemma sched_frame:
  assumes "sched k s = Inr s'"
  obtains p where "curs (lks s) (tp (lks s)) = Some p" "curs (lks s') = (curs (lks s))(tp (lks s) := None)"
    "runs (procs s') = runs (procs s)" "\<not> runs (procs s) p"
proof -
  obtain p s1 where s1: "curproc s = Inr (p, s1)" and
    r: "scheduler_ret p (upd_proc p (\<lambda>q. q\<lparr>pctx := k (intena (mycpu (lks s1)))\<rparr>) s1) = Inr s'"
    and nr: "pstate (procs s1 p) \<noteq> RUNNING"
    using assms by (auto simp: sched_def split: if_splits)
  note c = curproc_frame [OF s1]
  have "curs (lks s') = (curs (lks s))(tp (lks s) := None)" "procs s' = (procs s)(p := (procs s p)\<lparr>pctx := k (intena (mycpu (lks s1)))\<rparr>)"
    using unlock_frame(1,2) [OF r [unfolded scheduler_ret_def]] c by simp_all
  then show thesis using that c nr by (auto simp: runs_def fun_eq_iff)
qed

lemma yield_inv: "sched_inv s \<Longrightarrow> yield s = Inr s' \<Longrightarrow> sched_inv s'"
proof -
  assume inv: "sched_inv s" and y: "yield s = Inr s'"
  then obtain p s1 s2 where c: "curproc s = Inr (p, s1)" and l: "lock (ProcLock p) s1 = Inr s2"
    and sc: "sched CtxYield (upd_proc p (\<lambda>q. q\<lparr>pstate := RUNNABLE\<rparr>) s2) = Inr s'"
    by (auto simp: yield_def)
  note f = curproc_frame [OF c] lock_frame [OF l]
  from sc show ?thesis
  proof (rule sched_frame)
    fix q
    assume q: "curs (lks (upd_proc p (\<lambda>q. q\<lparr>pstate := RUNNABLE\<rparr>) s2)) (tp (lks (upd_proc p (\<lambda>q. q\<lparr>pstate := RUNNABLE\<rparr>) s2))) = Some q"
      "curs (lks s') = (curs (lks (upd_proc p (\<lambda>q. q\<lparr>pstate := RUNNABLE\<rparr>) s2)))(tp (lks (upd_proc p (\<lambda>q. q\<lparr>pstate := RUNNABLE\<rparr>) s2)) := None)"
      "runs (procs s') = runs (procs (upd_proc p (\<lambda>q. q\<lparr>pstate := RUNNABLE\<rparr>) s2))"
    show "sched_inv s'"
      by (rule sched_inv_off [OF inv f(2)]) (use q f in \<open>auto simp: runs_def fun_eq_iff\<close>)
  qed
qed

lemma sleep_inv: "sched_inv s \<Longrightarrow> sleep ch lk s = Inr s' \<Longrightarrow> sched_inv s'"
proof -
  assume inv: "sched_inv s" and y: "sleep ch lk s = Inr s'"
  then obtain p s1 s2 s3 where c: "curproc s = Inr (p, s1)" and l: "lock (ProcLock p) s1 = Inr s2"
    and u: "unlock lk s2 = Inr s3"
    and sc: "sched (CtxSleep lk) (upd_proc p (\<lambda>q. q\<lparr>pchan := Some ch, pstate := SLEEPING\<rparr>) s3) = Inr s'"
    by (auto simp: sleep_def)
  note f = curproc_frame [OF c] lock_frame [OF l] unlock_frame [OF u]
  obtain q where q: "curs (lks s') = (curs (lks s3))(tp (lks s3) := None)"
      "runs (procs s') = runs (procs (upd_proc p (\<lambda>q. q\<lparr>pchan := Some ch, pstate := SLEEPING\<rparr>) s3))"
    using sched_frame [OF sc] by auto
  show "sched_inv s'"
    by (rule sched_inv_off [OF inv f(2)]) (use q f in \<open>auto simp: runs_def fun_eq_iff\<close>)
qed

lemma exit_tail_inv:
  "sched_inv s \<Longrightarrow> curs (lks s) (tp (lks s)) = Some p \<Longrightarrow> exit_tail p status s = Inr s' \<Longrightarrow> sched_inv s'"
proof -
  assume inv: "sched_inv s" and p: "curs (lks s) (tp (lks s)) = Some p" and y: "exit_tail p status s = Inr s'"
  then obtain s2 s3 where l: "lock (ProcLock p) s = Inr s2"
    and u: "unlock WaitLock (upd_proc p (\<lambda>q. q\<lparr>xstate := status, pstate := ZOMBIE\<rparr>) s2) = Inr s3"
    and sc: "sched CtxExit s3 = Inr s'"
    by (auto simp: exit_tail_def)
  note f = lock_frame [OF l] unlock_frame [OF u]
  obtain q where q: "curs (lks s') = (curs (lks s3))(tp (lks s3) := None)" "runs (procs s') = runs (procs s3)"
    using sched_frame [OF sc] by auto
  show "sched_inv s'"
    by (rule sched_inv_off [OF inv p]) (use q f in \<open>auto simp: runs_def fun_eq_iff\<close>)
qed

lemma resume_frame:
  assumes "resume p s = Inr s'"
  shows "curs (lks s') = curs (lks s) \<and> runs (procs s') = runs (procs s)"
proof (cases "pctx (procs s p)")
  case CtxForkret
  then obtain q s1 where "curproc s = Inr (q, s1)" "unlock (ProcLock q) s1 = Inr s'"
    using assms by (auto simp: resume_def)
  then show ?thesis using curproc_frame unlock_frame by fastforce
next
  case (CtxYield i)
  then show ?thesis using assms unlock_frame(1,2) [of "ProcLock p" _ s'] by (auto simp: resume_def)
next
  case (CtxSleep lk i)
  then obtain s1 where "unlock (ProcLock p) (upd_proc p (\<lambda>q. q\<lparr>pchan := None\<rparr>) (s\<lparr>lks := set_intena i (lks s)\<rparr>)) = Inr s1"
      "lock lk s1 = Inr s'"
    using assms by (auto simp: resume_def Let_def)
  note f = unlock_frame [OF this(1)] lock_frame [OF this(2)]
  then show ?thesis by (auto simp: runs_def fun_eq_iff)
qed (use assms in \<open>simp_all add: resume_def\<close>)

lemma scheduler_try_frame:
  assumes "scheduler_try p s = Inr (b, s')"
  shows "b \<Longrightarrow> curs (lks s') = (curs (lks s))(tp (lks s) := Some p) \<and> runs (procs s') = (runs (procs s))(p := True) \<and>
      \<not> runs (procs s) p"
    and "\<not> b \<Longrightarrow> curs (lks s') = curs (lks s) \<and> runs (procs s') = runs (procs s)"
proof -
  obtain s1 where l: "lock (ProcLock p) s = Inr s1" using assms by (auto simp: scheduler_try_def)
  note f = lock_frame [OF l]
  show "b \<Longrightarrow> curs (lks s') = (curs (lks s))(tp (lks s) := Some p) \<and> runs (procs s') = (runs (procs s))(p := True) \<and>
      \<not> runs (procs s) p"
    using assms l f by (auto simp: scheduler_try_def runs_def fun_eq_iff Let_def split: if_splits)
  show "curs (lks s') = curs (lks s) \<and> runs (procs s') = runs (procs s)" if "\<not> b"
  proof -
    have "unlock (ProcLock p) s1 = Inr s'" using assms l that by (auto simp: scheduler_try_def Let_def split: if_splits)
    from unlock_frame [OF this] f show ?thesis by simp
  qed
qed

lemma wakeup_one_frame:
  assumes "wakeup_one ch p s = Inr s'"
  shows "curs (lks s') = curs (lks s) \<and> runs (procs s') = runs (procs s)"
proof (cases "Some p = cproc (mycpu (lks s))")
  case True
  then show ?thesis using assms by (auto simp: wakeup_one_def myproc_eq)
next
  case False
  then obtain s1 where l: "lock (ProcLock p) (s\<lparr>lks := settle (lks s)\<rparr>) = Inr s1"
    and u: "unlock (ProcLock p) (if pstate (procs s1 p) = SLEEPING \<and> pchan (procs s1 p) = Some ch
      then upd_proc p (\<lambda>q. q\<lparr>pstate := RUNNABLE\<rparr>) s1 else s1) = Inr s'"
    using assms by (auto simp: wakeup_one_def myproc_eq Let_def split del: if_split)
  note f = lock_frame [OF l] unlock_frame [OF u]
  then show ?thesis by (auto simp: runs_def fun_eq_iff split: if_splits)
qed

lemma wakeup_frame: "wakeup ch s = Inr s' \<Longrightarrow> curs (lks s') = curs (lks s) \<and> runs (procs s') = runs (procs s)"
proof -
  have "foldE (wakeup_one ch) ps s = Inr s' \<Longrightarrow> curs (lks s') = curs (lks s) \<and> runs (procs s') = runs (procs s)" for ps
    by (induction ps arbitrary: s) (auto dest!: wakeup_one_frame)
  then show "wakeup ch s = Inr s' \<Longrightarrow> ?thesis" by (simp add: wakeup_def)
qed

lemma kill_frame: "kill_loop p i s = Inr (r, s') \<Longrightarrow> curs (lks s') = curs (lks s) \<and> runs (procs s') = runs (procs s)"
proof (induction p i s rule: kill_loop.induct)
  case (1 p i s)
  show ?case
  proof (cases "p < 64")
    case True
    then obtain s1 where l: "lock (ProcLock p) s = Inr s1" using "1.prems" by (auto simp: kill_loop.simps [of p])
    note f = lock_frame [OF l]
    show ?thesis
    proof (cases "pid (procs s1 p) = i")
      case here: True
      obtain s2 where u: "unlock (ProcLock p) s2 = Inr s'" and
        s2: "curs (lks s2) = curs (lks s1)" "runs (procs s2) = runs (procs s1)"
        using "1.prems" True l here by (auto simp: kill_loop.simps [of p] Let_def runs_def fun_eq_iff split: if_splits)
      from unlock_frame [OF u] f s2 show ?thesis by simp
    next
      case False
      then obtain s2 where u: "unlock (ProcLock p) s1 = Inr s2" and k: "kill_loop (Suc p) i s2 = Inr (r, s')"
        using "1.prems" True l by (auto simp: kill_loop.simps [of p])
      from "1.IH" [OF True l False u k] unlock_frame [OF u] f show ?thesis by simp
    qed
  next
    case False
    then show ?thesis using "1.prems" by (simp add: kill_loop.simps)
  qed
qed

lemma make_runnable_frame:
  assumes "make_runnable np s = Inr s'" "pstate (procs s np) = USED"
  shows "curs (lks s') = curs (lks s) \<and> runs (procs s') = runs (procs s)"
proof -
  obtain s1 where l: "lock (ProcLock np) s = Inr s1"
    and u: "unlock (ProcLock np) (upd_proc np (\<lambda>q. q\<lparr>pstate := RUNNABLE\<rparr>) s1) = Inr s'"
    using assms by (auto simp: make_runnable_def)
  from lock_frame [OF l] unlock_frame [OF u] assms(2) show ?thesis by (auto simp: runs_def fun_eq_iff)
qed

lemma sched_step_inv: "sched_step s s' \<Longrightarrow> sched_inv s \<Longrightarrow> sched_inv s'"
proof (induction rule: sched_step.induct)
  case (cpu s c)
  have "curs ((lks s)\<lparr>tp := c\<rparr>) = curs (lks s)" by (simp add: curs_def fun_eq_iff)
  with cpu show ?case by (simp add: sched_inv_def)
next
  case (skip s p s')
  then show ?case using scheduler_try_frame(2) sched_inv_same by blast
next
  case (pick s p s1 s')
  have "sched_inv s1"
    using scheduler_try_frame(1) [OF pick(2)] by (intro sched_inv_on [OF pick(4,1)]) auto
  then show ?case using resume_frame [OF pick(3)] sched_inv_same by blast
next
  case (new s np s')
  then show ?case using make_runnable_frame sched_inv_same by blast
next
  case (wakeup ch s s')
  then show ?case using wakeup_frame sched_inv_same by blast
next
  case (kill i s r s')
  then show ?case using kill_frame sched_inv_same unfolding kill_def by blast
qed (auto intro: yield_inv sleep_inv exit_tail_inv)

lemma sched_reach_inv: "sched_reach s \<Longrightarrow> sched_inv s"
proof (induction rule: sched_reach.induct)
  case (start s)
  then show ?case by (simp add: sched_inv_def runs_def)
next
  case (step s s')
  then show ?case by (blast intro: sched_step_inv)
qed

section \<open>Properties\<close>

text \<open>
  C2: in every state that any interleaving of the CPUs' scheduler loops and of the processes' \<^verbatim>\<open>yield\<close>,
  \<^verbatim>\<open>sleep\<close>, \<^verbatim>\<open>wakeup\<close>, \<^verbatim>\<open>kill\<close> and \<^verbatim>\<open>exit\<close> can reach, a process is \<open>RUNNING\<close> exactly when some CPU has it as
  its current process, and no process runs on two CPUs.
\<close>

theorem running_on_one_cpu:
  assumes "sched_reach s"
  shows "(pstate (procs s p) = RUNNING \<longleftrightarrow> (\<exists>c. cproc (cpus (lks s) c) = Some p)) \<and>
    (cproc (cpus (lks s) c) = Some p \<and> cproc (cpus (lks s) c') = Some p \<longrightarrow> c = c')"
  using sched_reach_inv [OF assms] unfolding sched_inv_def runs_def curs_def by blast


text \<open>A machine with one process, on CPU 0.\<close>

definition proc0 :: proc where
  "proc0 = \<lparr>pstate = UNUSED, pchan = None, killed = 0, xstate = 0, pid = 0, parent = None, kstack = 0, psz = 0,
     pagetable = 0, trapframe = 0, pctx = CtxNone, ofile = (\<lambda>_. None), cwd = None, pname = replicate 16 0,
     youAThread = 0, threadCount = 0\<rparr>"

definition proc_st0 :: procst where
  "proc_st0 = \<lparr>lks = lks0, mem = (\<lambda>_. 0), kend = 0x87FFE000, etext = 0x80008000, trampoline = 0x80007000,
     lsr_in = [], rhr_in = [], thr_out = [], panicked = False, pr_locking = False, freelist = 0,
     kernel_pagetable = 0, satp = (\<lambda>_. 0),
     procs = (\<lambda>i. if i = 1 then proc0\<lparr>pstate := RUNNABLE, pctx := CtxYield True\<rparr> else proc0),
     initproc = Some 1, nextpid = 2, forkret_first = True, ticks = 0\<rparr>"

theorem running_on_one_cpu_witness:
  "\<exists>s. sched_reach s \<and> pstate (procs s 1) = RUNNING \<and> cproc (cpus (lks s) 0) = Some 1"
proof -
  have r0: "sched_reach proc_st0"
    by (rule sched_reach.start) (simp_all add: proc_st0_def curs_def lks0_def proc0_def)
  let ?s1 = "upd_proc 1 (\<lambda>q. q\<lparr>pstate := RUNNING\<rparr>) proc_st0\<lparr>lks := set_cproc (Some 1) (acq (ProcLock 1) lks0)\<rparr>"
  have t: "scheduler_try 1 proc_st0 = Inr (True, ?s1)"
    by (simp add: scheduler_try_def proc_st0_def lock_simps Let_def upd_proc_def)
  have "\<exists>s'. resume 1 ?s1 = Inr s'"
    by (simp add: resume_def proc_st0_def upd_proc_def on_lks_def release_def holding_def set_intena_def set_cproc_def
        pop_off_def cpu_defs acq_def push_off_def lks0_def Let_def)
  then obtain s' where s': "resume 1 ?s1 = Inr s'" by blast
  have "sched_step proc_st0 s'"
    by (rule sched_step.pick [OF _ t s']) (simp add: proc_st0_def curs_def lks0_def)
  then have r: "sched_reach s'" by (rule sched_reach.step [OF r0])
  have "cproc (cpus (lks s') 0) = Some 1"
    using resume_frame [OF s'] unfolding curs_def [symmetric] by (simp add: lks0_def)
  then show ?thesis using r running_on_one_cpu [OF r, of 1 0 0] by blast
qed


end
