(* ===== verification/Ring.thy ===== *)
theory Ring
  imports Prelude
begin

text \<open>
  Ring buffers whose read and write indices run freely and wrap around at the width of their
  integer type. The pipe buffer (\<^verbatim>\<open>kernel/pipe.c\<close>), the console input buffer
  (\<^verbatim>\<open>kernel/console.c\<close>) and the UART transmit buffer (\<^verbatim>\<open>kernel/uart.c\<close>) all have this shape:
  the slot of index \<open>i\<close> is \<open>i % SIZE\<close>, the buffer is empty when the indices are equal and full
  when they are \<open>SIZE\<close> apart. The locale states what the size must satisfy for this to be a FIFO
  queue across the wrap-around, and proves it once for the three clients.
\<close>

definition ring_contents :: "'b list \<Rightarrow> 'a::len word \<Rightarrow> 'a word \<Rightarrow> 'b list" where
  "ring_contents buf r w =
     map (\<lambda>k. buf ! (unat (r + of_nat k) mod length buf)) [0..<unat (w - r)]"

lemma length_ring_contents [simp]: "length (ring_contents buf r w) = unat (w - r)"
  by (simp add: ring_contents_def)

lemma ring_contents_empty [simp]: "ring_contents buf r r = []"
  by (simp add: ring_contents_def)

lemma ring_contents_Nil_iff [simp]: "ring_contents buf r w = [] \<longleftrightarrow> r = w"
  by (auto simp: ring_contents_def unat_eq_0)

locale ring =
  fixes N :: nat and idx :: "'a::len itself"
  assumes N_pos: "0 < N"
    and N_dvd: "N dvd 2 ^ LENGTH('a)"
    and N_less: "N < 2 ^ LENGTH('a)"
begin

lemma slot_add: "unat (r + of_nat k :: 'a word) mod N = (unat r + k) mod N"
proof -
  have "unat (r + of_nat k :: 'a word) = (unat r + k) mod 2 ^ LENGTH('a)"
    by (simp add: unat_word_ariths unat_of_nat mod_simps)
  then show ?thesis using N_dvd by (simp add: mod_mod_cancel)
qed

lemma slot_neq:
  assumes "k < unat (w - r :: 'a word)" and "unat (w - r) < N"
  shows "unat (r + of_nat k) mod N \<noteq> unat w mod N"
proof -
  have w: "w = r + of_nat (unat (w - r))" by simp
  have "unat w mod N = (unat r + unat (w - r)) mod N"
    by (subst w) (rule slot_add)
  moreover have "(unat r + k) mod N \<noteq> (unat r + unat (w - r)) mod N"
  proof
    assume "(unat r + k) mod N = (unat r + unat (w - r)) mod N"
    then have "N dvd (unat r + unat (w - r)) - (unat r + k)"
      using assms(1) by (subst mod_eq_dvd_iff_nat [symmetric]) simp_all
    then have "N dvd unat (w - r) - k" by simp
    with assms show False by (auto dest!: dvd_imp_le)
  qed
  ultimately show ?thesis by (simp add: slot_add)
qed

lemma count_Suc:
  assumes "unat (w - r :: 'a word) < N"
  shows "unat (w + 1 - r) = Suc (unat (w - r))"
proof -
  have "unat (w - r) + 1 < 2 ^ LENGTH('a)" using assms N_less by linarith
  then have "unat ((w - r) + 1) = Suc (unat (w - r))"
    by (subst unat_word_ariths) simp
  moreover have "(w - r) + 1 = w + 1 - r" by simp
  ultimately show ?thesis by simp
qed

lemma push:
  assumes "length buf = N" and "unat (w - r :: 'a word) < N"
  shows "ring_contents (buf[unat w mod N := c]) r (w + 1) = ring_contents buf r w @ [c]"
proof -
  have last: "unat (r + of_nat (unat (w - r))) mod N = unat w mod N" by simp
  have "unat w mod N < N" using N_pos by simp
  then show ?thesis
    using assms last
    by (auto simp: ring_contents_def count_Suc dest!: slot_neq intro!: nth_list_update_neq)
qed

lemma pop:
  assumes "length buf = N" and "r \<noteq> (w :: 'a word)"
  shows "ring_contents buf r w = buf ! (unat r mod N) # ring_contents buf (r + 1) w"
proof -
  have nz: "w - r \<noteq> 0" using assms(2) by simp
  then have pos: "0 < unat (w - r)" by (simp add: unat_gt_0)
  have "w - (r + 1) = (w - r) - 1" by simp
  then have n: "unat (w - r) = Suc (unat (w - (r + 1)))"
    using nz pos by (metis Suc_pred' unat_minus_one)
  show ?thesis
    unfolding ring_contents_def n
    by (simp add: upt_conv_Cons map_Suc_upt [symmetric] assms(1) add.assoc o_def del: upt_Suc)
qed

lemma unpush:
  assumes "length buf = N" and "r \<noteq> (w :: 'a word)"
  shows "ring_contents buf r (w - 1) = butlast (ring_contents buf r w)"
proof -
  have nz: "w - r \<noteq> 0" using assms(2) by simp
  have "w - 1 - r = (w - r) - 1" by simp
  then have "unat (w - r) = Suc (unat (w - 1 - r))"
    using nz by (metis Suc_pred' unat_gt_0 unat_minus_one)
  then show ?thesis by (simp add: ring_contents_def)
qed

end

end
