(* ===== verification/Console.thy ===== *)
theory Console
  imports Sched Ring
begin

unbundle bit_operations_syntax

text \<open>
  The interrupt-driven UART driver (\<^verbatim>\<open>kernel/uart.c\<close>) and the console (\<^verbatim>\<open>kernel/console.c\<close>). An operation
  that may sleep ends in \<open>Done\<close> with its result or in \<open>Asleep\<close> with the local variables with which it
  goes on once the process is resumed.
\<close>

datatype 'l progress = Done int | Asleep 'l

record consst = procst +
  uart_cfg :: "(nat \<times> byte) list"
  tx_buf :: "byte list"
  tx_w :: uint64
  tx_r :: uint64
  cons_buf :: "byte list"
  cons_r :: uint
  cons_w :: uint
  cons_e :: uint

section \<open>The UART\<close>

text \<open>The writes to the control registers, in order: IER is 1, FCR 2, LCR 3.\<close>

definition uartinit :: "'a consst_scheme \<Rightarrow> 'a consst_scheme" where
  "uartinit s =
     s\<lparr>uart_cfg := uart_cfg s @ [(1, 0x00), (3, 0x80), (0, 0x03), (1, 0x00), (3, 0x03), (2, 0x07), (1, 0x03)],
       lks := initlock UartTxLock ''uart'' (lks s)\<rparr>"

text \<open>
  The loop of \<^verbatim>\<open>uartstart\<close> reads the line status register once per iteration: it recurses over the
  readings that are still to come.
\<close>

fun uartstart_loop :: "byte list \<Rightarrow> 'a consst_scheme \<Rightarrow> kerr + 'a consst_scheme" where
  "uartstart_loop ls s =
     (if tx_w s = tx_r s then Inr (s\<lparr>lsr_in := ls\<rparr>)
      else case ls of
        [] \<Rightarrow> Inr (s\<lparr>lsr_in := []\<rparr>)
      | x # ls' \<Rightarrow>
          if \<not> tx_idle x then Inr (s\<lparr>lsr_in := ls'\<rparr>)
          else let c = tx_buf s ! (unat (tx_r s) mod 32); s = s\<lparr>tx_r := tx_r s + 1\<rparr>
               in bindE (wakeup ChanUartTx s) (\<lambda>s. uartstart_loop ls' (s\<lparr>thr_out := thr_out s @ [c]\<rparr>)))"

definition uartstart :: "'a consst_scheme \<Rightarrow> kerr + 'a consst_scheme" where
  "uartstart s = uartstart_loop (lsr_in s) s"

text \<open>One turn of the loop of \<^verbatim>\<open>uartputc\<close>, with the lock held.\<close>

definition uartputc_pass :: "byte \<Rightarrow> 'a consst_scheme \<Rightarrow> kerr + bool \<times> 'a consst_scheme" where
  "uartputc_pass c s =
     (if tx_w s = tx_r s + 32 then bindE (sleep ChanUartTx UartTxLock s) (\<lambda>s. Inr (False, s))
      else bindE (uartstart (s\<lparr>tx_buf := (tx_buf s)[unat (tx_w s) mod 32 := c], tx_w := tx_w s + 1\<rparr>)) (\<lambda>s.
           bindE (unlock UartTxLock s) (\<lambda>s. Inr (True, s))))"

definition uartputc :: "byte \<Rightarrow> 'a consst_scheme \<Rightarrow> kerr + bool \<times> 'a consst_scheme" where
  "uartputc c s =
     bindE (lock UartTxLock s) (\<lambda>s. if panicked s then Inl (Hang ''panicked'') else uartputc_pass c s)"

definition read_lsr :: "'a uartst_scheme \<Rightarrow> byte \<times> 'a uartst_scheme" where
  "read_lsr s = (case lsr_in s of [] \<Rightarrow> (0, s) | x # xs \<Rightarrow> (x, s\<lparr>lsr_in := xs\<rparr>))"

definition uartgetc :: "'a uartst_scheme \<Rightarrow> int \<times> 'a uartst_scheme" where
  "uartgetc s =
     (let (x, s) = read_lsr s
      in if x AND 1 \<noteq> 0 then case rhr_in s of [] \<Rightarrow> (0, s) | c # cs \<Rightarrow> (uint c, s\<lparr>rhr_in := cs\<rparr>)
         else (- 1, s))"

section \<open>The console\<close>

abbreviation (input) CtrlD :: byte where "CtrlD \<equiv> 4"
abbreviation (input) Newline :: byte where "Newline \<equiv> 10"

text \<open>The locals of a sleeping \<^verbatim>\<open>consolewrite\<close>: how many bytes are done, and the byte being sent.\<close>

function consolewrite_loop ::
  "ksrc \<Rightarrow> nat \<Rightarrow> nat \<Rightarrow> 'a consst_scheme \<Rightarrow> kerr + (nat \<times> byte) progress \<times> 'a consst_scheme" where
  "consolewrite_loop src i n s =
     (if i < n then
        bindE (either_copyin (case src of SUser a \<Rightarrow> SUser (a + of_nat i) | SKern bs \<Rightarrow> SKern (drop i bs)) 1 s)
          (\<lambda>((r, bs), s).
          if r = - 1 then Inr (Done (int i), s)
          else bindE (uartputc (hd bs) s) (\<lambda>(sent, s).
            if sent then consolewrite_loop src (Suc i) n s else Inr (Asleep (i, hd bs), s)))
      else Inr (Done (int i), s))"
  by pat_completeness auto
termination by (relation "measure (\<lambda>(src, i, n, s). n - i)") auto

declare consolewrite_loop.simps [simp del]

definition consolewrite ::
  "ksrc \<Rightarrow> int \<Rightarrow> 'a consst_scheme \<Rightarrow> kerr + (nat \<times> byte) progress \<times> 'a consst_scheme" where
  "consolewrite src n s = consolewrite_loop src 0 (nat n) s"

definition consolewrite_resume ::
  "ksrc \<Rightarrow> int \<Rightarrow> nat \<times> byte \<Rightarrow> 'a consst_scheme \<Rightarrow> kerr + (nat \<times> byte) progress \<times> 'a consst_scheme" where
  "consolewrite_resume src n loc s =
     bindE (uartputc_pass (snd loc) s) (\<lambda>(sent, s).
       if sent then consolewrite_loop src (Suc (fst loc)) (nat n) s else Inr (Asleep loc, s))"

text \<open>
  \<^verbatim>\<open>consoleread\<close> with the lock held: \<open>n\<close> bytes are still wanted of \<open>target\<close>. It also returns the bytes it
  has copied, for a destination inside the kernel.
\<close>

fun next_dst :: "kdest \<Rightarrow> kdest" where
  "next_dst (User a) = User (a + 1)"
| "next_dst (Kmem a) = Kmem (a + 1)"
| "next_dst Kbuf = Kbuf"

fun consoleread_loop ::
  "kdest \<Rightarrow> nat \<Rightarrow> nat \<Rightarrow> 'a consst_scheme \<Rightarrow> kerr + (kdest \<times> nat) progress \<times> 'a consst_scheme" where
  "consoleread_loop dst 0 target s =
     bindE (unlock ConsLock s) (\<lambda>s. Inr (Done (int target), s))"
| "consoleread_loop dst (Suc n) target s =
     (if cons_r s = cons_w s then
        bindE (curproc s) (\<lambda>(p, s).
        if killed (procs s p) \<noteq> 0 then bindE (unlock ConsLock s) (\<lambda>s. Inr (Done (- 1), s))
        else bindE (sleep ChanCons ConsLock s) (\<lambda>s. Inr (Asleep (dst, Suc n), s)))
      else
        let c = cons_buf s ! (unat (cons_r s) mod 128); s = s\<lparr>cons_r := cons_r s + 1\<rparr>
        in if c = CtrlD then
             let s = (if Suc n < target then s\<lparr>cons_r := cons_r s - 1\<rparr> else s)
             in bindE (unlock ConsLock s) (\<lambda>s. Inr (Done (int target - int (Suc n)), s))
           else bindE (either_copyout dst [c] s) (\<lambda>(r, s).
             if r = - 1 then bindE (unlock ConsLock s) (\<lambda>s. Inr (Done (int target - int (Suc n)), s))
             else if c = Newline then bindE (unlock ConsLock s) (\<lambda>s. Inr (Done (int target - int n), s))
             else consoleread_loop (next_dst dst) n target s))"

definition consoleread ::
  "kdest \<Rightarrow> int \<Rightarrow> 'a consst_scheme \<Rightarrow> kerr + (kdest \<times> nat) progress \<times> 'a consst_scheme" where
  "consoleread dst n s = bindE (lock ConsLock s) (consoleread_loop dst (nat n) (nat n))"

text \<open>
  The loop that erases a line: \<open>n\<close> is the number of characters between the write and the edit index,
  which every turn makes smaller by one.
\<close>

primrec kill_line :: "nat \<Rightarrow> 'a consst_scheme \<Rightarrow> kerr + 'a consst_scheme" where
  "kill_line 0 s = Inr s"
| "kill_line (Suc n) s =
     (if cons_e s \<noteq> cons_w s \<and> cons_buf s ! (unat (cons_e s - 1) mod 128) \<noteq> Newline then
        bindE (consputc BACKSPACE (s\<lparr>cons_e := cons_e s - 1\<rparr>)) (kill_line n)
      else Inr s)"

definition consoleintr :: "int \<Rightarrow> 'a consst_scheme \<Rightarrow> kerr + 'a consst_scheme" where
  "consoleintr c s =
     bindE (lock ConsLock s) (\<lambda>s.
     bindE (if c = 16 then procdump s
            else if c = 21 then kill_line (unat (cons_e s - cons_w s)) s
            else if c = 8 \<or> c = 127 then
              if cons_e s \<noteq> cons_w s then consputc BACKSPACE (s\<lparr>cons_e := cons_e s - 1\<rparr>) else Inr s
            else if c \<noteq> 0 \<and> cons_e s - cons_r s < 128 then
              let c = (if c = 13 then 10 else c)
              in bindE (consputc c s) (\<lambda>s.
                 let s = s\<lparr>cons_buf := (cons_buf s)[unat (cons_e s) mod 128 := word_of_int c],
                           cons_e := cons_e s + 1\<rparr>
                 in if c = 10 \<or> c = 4 \<or> cons_e s = cons_r s + 128
                    then wakeup ChanCons (s\<lparr>cons_w := cons_e s\<rparr>) else Inr s)
            else Inr s)
     (unlock ConsLock))"

definition consoleinit :: "'a consst_scheme \<Rightarrow> 'a consst_scheme" where
  "consoleinit s = uartinit (s\<lparr>lks := initlock ConsLock ''cons'' (lks s)\<rparr>)"

text \<open>Every turn of the first loop of \<^verbatim>\<open>uartintr\<close> uses up a status reading; with none left there is no input.\<close>

primrec uartintr_loop :: "nat \<Rightarrow> 'a consst_scheme \<Rightarrow> kerr + 'a consst_scheme" where
  "uartintr_loop 0 s = Inr s"
| "uartintr_loop (Suc n) s =
     (let (c, s) = uartgetc s in if c = - 1 then Inr s else bindE (consoleintr c s) (uartintr_loop n))"

definition uartintr :: "'a consst_scheme \<Rightarrow> kerr + 'a consst_scheme" where
  "uartintr s =
     bindE (uartintr_loop (length (lsr_in s)) s) (\<lambda>s.
     bindE (lock UartTxLock s) (\<lambda>s. bindE (uartstart s) (unlock UartTxLock)))"

section \<open>The line discipline on the buffer\<close>

text \<open>
  Characters between the read and the write index are complete lines for \<^verbatim>\<open>consoleread\<close>; those between
  the write and the edit index are the line being typed.
\<close>

interpretation cons_ring: ring 128 "TYPE(32)"
  by unfold_locales simp_all

interpretation tx_ring: ring 32 "TYPE(64)"
  by unfold_locales simp_all

definition cons_ready :: "'a consst_scheme \<Rightarrow> byte list" where
  "cons_ready s = ring_contents (cons_buf s) (cons_r s) (cons_w s)"

definition cons_line :: "'a consst_scheme \<Rightarrow> byte list" where
  "cons_line s = ring_contents (cons_buf s) (cons_w s) (cons_e s)"

definition cons_inv :: "'a consst_scheme \<Rightarrow> bool" where
  "cons_inv s \<longleftrightarrow> length (cons_buf s) = 128 \<and> unat (cons_e s - cons_r s) \<le> 128 \<and>
     unat (cons_w s - cons_r s) \<le> unat (cons_e s - cons_r s)"

definition tx_inv :: "'a consst_scheme \<Rightarrow> bool" where
  "tx_inv s \<longleftrightarrow> length (tx_buf s) = 32 \<and> unat (tx_w s - tx_r s) \<le> 32"

definition tx_pending :: "'a consst_scheme \<Rightarrow> byte list" where
  "tx_pending s = ring_contents (tx_buf s) (tx_r s) (tx_w s)"

section \<open>Frames\<close>

lemma lock_only: "lock L s = Inr s' \<Longrightarrow> \<exists>l. s' = s\<lparr>lks := l\<rparr>"
  by (auto simp: on_lks_def)

lemma unlock_only: "unlock L s = Inr s' \<Longrightarrow> \<exists>l. s' = s\<lparr>lks := l\<rparr>"
  by (auto simp: on_lks_def)

lemma wakeup_one_only: "wakeup_one ch p s = Inr s' \<Longrightarrow> \<exists>f l. s' = s\<lparr>procs := f, lks := l\<rparr>"
proof -
  assume w: "wakeup_one ch p s = Inr s'"
  show ?thesis
  proof (cases "Some p = cproc (mycpu (lks s))")
    case True
    then have "s' = s\<lparr>procs := procs s, lks := settle (lks s)\<rparr>" using w by (auto simp: wakeup_one_def myproc_eq)
    then show ?thesis by blast
  next
    case False
    then obtain s1 where l: "lock (ProcLock p) (s\<lparr>lks := settle (lks s)\<rparr>) = Inr s1"
      and u: "unlock (ProcLock p) (if pstate (procs s1 p) = SLEEPING \<and> pchan (procs s1 p) = Some ch
        then upd_proc p (\<lambda>q. q\<lparr>pstate := RUNNABLE\<rparr>) s1 else s1) = Inr s'"
      using w by (auto simp: wakeup_one_def myproc_eq Let_def split del: if_split)
    obtain l1 where s1: "s1 = s\<lparr>lks := l1\<rparr>" using lock_only [OF l] by auto
    obtain l2 where "s' = (if pstate (procs s1 p) = SLEEPING \<and> pchan (procs s1 p) = Some ch
        then upd_proc p (\<lambda>q. q\<lparr>pstate := RUNNABLE\<rparr>) s1 else s1)\<lparr>lks := l2\<rparr>" using unlock_only [OF u] by blast
    then have "s' = s\<lparr>procs := procs s', lks := l2\<rparr>" by (simp add: s1 upd_proc_def split: if_splits)
    then show ?thesis by blast
  qed
qed

lemma wakeup_only: "wakeup ch s = Inr s' \<Longrightarrow> \<exists>f l. s' = s\<lparr>procs := f, lks := l\<rparr>"
proof -
  have "foldE (wakeup_one ch) ps s = Inr s' \<Longrightarrow> \<exists>f l. s' = s\<lparr>procs := f, lks := l\<rparr>" for ps
  proof (induction ps arbitrary: s)
    case Nil
    then have "s' = s\<lparr>procs := procs s, lks := lks s\<rparr>" by simp
    then show ?case by blast
  next
    case (Cons p ps)
    then obtain s1 where "wakeup_one ch p s = Inr s1" "foldE (wakeup_one ch) ps s1 = Inr s'" by auto
    then obtain f l f' l' where "s1 = s\<lparr>procs := f, lks := l\<rparr>" "s' = s1\<lparr>procs := f', lks := l'\<rparr>"
      using wakeup_one_only Cons.IH by blast
    then have "s' = s\<lparr>procs := f', lks := l'\<rparr>" by simp
    then show ?case by blast
  qed
  then show "wakeup ch s = Inr s' \<Longrightarrow> ?thesis" by (simp add: wakeup_def)
qed

lemma uartputc_sync_only:
  "uartputc_sync c s = Inr s' \<Longrightarrow> \<exists>i out l. s' = s\<lparr>lsr_in := i, thr_out := out, lks := l\<rparr>"
  by (auto simp: uartputc_sync_def on_lks_def Let_def split: if_splits option.splits)

lemma consputc_only: "consputc c s = Inr s' \<Longrightarrow> \<exists>i out l. s' = s\<lparr>lsr_in := i, thr_out := out, lks := l\<rparr>"
  by (auto simp: consputc_def split: if_splits dest!: uartputc_sync_only) blast

section \<open>Output order\<close>

lemma uartstart_loop_fifo:
  assumes "uartstart_loop ls s = Inr s'" "tx_inv s"
  shows "tx_inv s' \<and> thr_out s' @ tx_pending s' = thr_out s @ tx_pending s"
  using assms
proof (induction ls arbitrary: s)
  case Nil
  then show ?case by (auto simp: tx_inv_def tx_pending_def split: if_splits)
next
  case (Cons x ls)
  show ?case
  proof (cases "tx_w s = tx_r s \<or> \<not> tx_idle x")
    case True
    then show ?thesis using Cons.prems by (auto simp: tx_inv_def tx_pending_def split: if_splits)
  next
    case False
    let ?c = "tx_buf s ! (unat (tx_r s) mod 32)" and ?s1 = "s\<lparr>tx_r := tx_r s + 1\<rparr>"
    obtain s2 where w: "wakeup ChanUartTx ?s1 = Inr s2"
      and r: "uartstart_loop ls (s2\<lparr>thr_out := thr_out s2 @ [?c]\<rparr>) = Inr s'"
      using Cons.prems(1) False by (auto simp del: uartstart_loop.simps simp: uartstart_loop.simps [of "x # ls"] Let_def)
    obtain f l where s2: "s2 = ?s1\<lparr>procs := f, lks := l\<rparr>" using wakeup_only [OF w] by blast
    have ne: "tx_r s \<noteq> tx_w s" using False by auto
    have len: "length (tx_buf s) = 32" using Cons.prems(2) by (simp add: tx_inv_def)
    have p: "tx_pending s = ?c # ring_contents (tx_buf s) (tx_r s + 1) (tx_w s)"
      unfolding tx_pending_def by (rule tx_ring.pop [OF len ne])
    then have "length (tx_pending s) = Suc (unat (tx_w s - (tx_r s + 1)))" by simp
    then have "unat (tx_w s - (tx_r s + 1)) \<le> 32" using Cons.prems(2) by (simp add: tx_inv_def tx_pending_def)
    then have "tx_inv (s2\<lparr>thr_out := thr_out s2 @ [?c]\<rparr>)" using len by (simp add: tx_inv_def s2)
    from Cons.IH [OF r this] p show ?thesis by (simp add: s2 tx_pending_def)
  qed
qed

text \<open>
  C21: the UART transmits in order. A byte that \<^verbatim>\<open>uartputc\<close> accepts goes to the end of the queue of
  bytes sent and still to be sent; neither \<^verbatim>\<open>uartputc\<close> nor the interrupt handler's \<^verbatim>\<open>uartstart\<close> loses,
  repeats or reorders any, and the ring buffer's indices stay within its size across their
  wrap-around.
\<close>

theorem uart_fifo:
  assumes "tx_inv s"
  shows "(uartputc c s = Inr (True, s') \<longrightarrow>
      tx_inv s' \<and> thr_out s' @ tx_pending s' = thr_out s @ tx_pending s @ [c]) \<and>
    (uartstart s = Inr s' \<longrightarrow> tx_inv s' \<and> thr_out s' @ tx_pending s' = thr_out s @ tx_pending s)"
proof (intro conjI impI)
  assume "uartputc c s = Inr (True, s')"
  then obtain s1 where l: "lock UartTxLock s = Inr s1" and p: "uartputc_pass c s1 = Inr (True, s')"
    by (auto simp: uartputc_def split: if_splits)
  obtain k where s1: "s1 = s\<lparr>lks := k\<rparr>" using lock_only [OF l] by blast
  let ?s2 = "s1\<lparr>tx_buf := (tx_buf s1)[unat (tx_w s1) mod 32 := c], tx_w := tx_w s1 + 1\<rparr>"
  have nf: "tx_w s \<noteq> tx_r s + 32" using p by (auto simp: uartputc_pass_def s1 split: if_splits)
  obtain s3 where u: "uartstart ?s2 = Inr s3" and e: "unlock UartTxLock s3 = Inr s'"
    using p by (auto simp: uartputc_pass_def split: if_splits)
  have lt: "unat (tx_w s - tx_r s) < 32"
  proof -
    have "unat (tx_w s - tx_r s) \<noteq> 32"
    proof
      assume "unat (tx_w s - tx_r s) = 32"
      then have "tx_w s - tx_r s = 32" by (intro word_unat_eqI) simp
      then show False using nf by (simp add: algebra_simps)
    qed
    then show ?thesis using assms by (simp add: tx_inv_def)
  qed
  have len: "length (tx_buf s) = 32" using assms by (simp add: tx_inv_def)
  have push: "tx_pending ?s2 = tx_pending s @ [c]"
    unfolding tx_pending_def by (simp add: s1 tx_ring.push [OF len lt])
  have "unat (tx_w s + 1 - tx_r s) = Suc (unat (tx_w s - tx_r s))" by (rule tx_ring.count_Suc [OF lt])
  then have "tx_inv ?s2" using len lt by (simp add: tx_inv_def s1)
  from uartstart_loop_fifo [OF u [unfolded uartstart_def] this] push
  have "tx_inv s3" "thr_out s3 @ tx_pending s3 = thr_out s @ tx_pending s @ [c]" by (simp_all add: s1)
  moreover obtain k' where "s' = s3\<lparr>lks := k'\<rparr>" using unlock_only [OF e] by blast
  ultimately show "tx_inv s'" "thr_out s' @ tx_pending s' = thr_out s @ tx_pending s @ [c]"
    by (simp_all add: tx_inv_def tx_pending_def)
next
  assume "uartstart s = Inr s'"
  then show "tx_inv s'" "thr_out s' @ tx_pending s' = thr_out s @ tx_pending s"
    using uartstart_loop_fifo [OF _ assms] by (auto simp: uartstart_def)
qed

text \<open>A console at rest.\<close>

definition cons_st0 :: consst where
  "cons_st0 = procst.extend proc_st0 (consst.fields [] (replicate 32 0) 0 0 (replicate 128 0) 0 0 0)"

theorem uart_fifo_witness:
  "\<exists>s'. uartputc 65 cons_st0 = Inr (True, s') \<and> thr_out s' @ tx_pending s' = [65]"
proof -
  have i: "tx_inv cons_st0" by (simp add: tx_inv_def cons_st0_def procst.defs consst.defs)
  have e: "\<exists>s'. uartputc 65 cons_st0 = Inr (True, s')"
    by (simp add: uartputc_def uartputc_pass_def cons_st0_def procst.defs consst.defs proc_st0_def lock_simps uartstart_def)
  have "thr_out cons_st0 = []" "tx_pending cons_st0 = []"
    by (simp_all add: cons_st0_def tx_pending_def procst.defs consst.defs proc_st0_def)
  with e uart_fifo [OF i, of 65] show ?thesis by auto
qed

section \<open>Editing\<close>

lemma cons_counts:
  assumes "cons_inv s"
  shows "unat (cons_e s - cons_w s) = unat (cons_e s - cons_r s) - unat (cons_w s - cons_r s)"
proof -
  have "unat ((cons_e s - cons_r s) - (cons_w s - cons_r s)) = unat (cons_e s - cons_r s) - unat (cons_w s - cons_r s)"
    using assms by (intro unat_sub) (simp add: cons_inv_def word_le_nat_alt)
  then show ?thesis by simp
qed

lemma ring_contents_split:
  assumes "unat (w - r) \<le> unat (e - r :: 'a::len word)"
  shows "ring_contents buf r e = ring_contents buf r w @ ring_contents buf w e"
proof -
  have "unat ((e - r) - (w - r)) = unat (e - r) - unat (w - r)"
    using assms by (intro unat_sub) (simp add: word_le_nat_alt)
  then have n: "unat (e - r) = unat (w - r) + unat (e - w)" using assms by simp
  have "w + of_nat k = r + of_nat (unat (w - r) + k)" for k by simp
  then show ?thesis
    unfolding ring_contents_def n upt_add_eq_append [of 0, simplified] map_append
    by (simp add: map_add_upt [symmetric] add.commute)
qed

text \<open>
  C22: line editing at the console. For an input byte other than the control characters and 0, with room in
  the buffer, \<^verbatim>\<open>consoleintr\<close> appends the byte (a carriage return as a newline) to the line being typed; a
  newline or end-of-file byte hands the whole line to the readers, in the order typed, and starts
  a new line. Bytes that readers can already see are never changed, and the invariant of the
  indices is kept.
\<close>

theorem console_typing:
  assumes "cons_inv s" "0 < c" "c < 256" "c \<notin> {8, 16, 21, 127}" "cons_e s - cons_r s < 127"
    "consoleintr c s = Inr s'" "c' = (if c = 13 then 10 else c)"
  shows "cons_inv s' \<and>
    (if c' = 10 \<or> c' = 4 then cons_ready s' = cons_ready s @ cons_line s @ [word_of_int c'] \<and> cons_line s' = []
     else cons_ready s' = cons_ready s \<and> cons_line s' = cons_line s @ [word_of_int c'])"
proof -
  let ?fin = "c' = 10 \<or> c' = 4"
  have room: "unat (cons_e s - cons_r s) < 127" using assms(5) by (simp add: word_less_nat_alt)
  have len: "length (cons_buf s) = 128" using assms(1) by (simp add: cons_inv_def)
  obtain s1 where l: "lock ConsLock s = Inr s1" using assms(6) by (auto simp: consoleintr_def)
  obtain k1 where s1: "s1 = s\<lparr>lks := k1\<rparr>" using lock_only [OF l] by blast
  have lt: "cons_e s1 - cons_r s1 < 128" using room by (simp add: s1 word_less_nat_alt)
  let ?upd = "\<lambda>s. s\<lparr>cons_buf := (cons_buf s)[unat (cons_e s) mod 128 := word_of_int c'], cons_e := cons_e s + 1\<rparr>"
  obtain s2 s3 where cp: "consputc c' s1 = Inr s2"
    and w: "(if ?fin \<or> cons_e (?upd s2) = cons_r (?upd s2) + 128
       then wakeup ChanCons ((?upd s2)\<lparr>cons_w := cons_e (?upd s2)\<rparr>) else Inr (?upd s2)) = Inr s3"
    and e: "unlock ConsLock s3 = Inr s'"
    using assms(2,4,6,7) l lt by (auto simp: consoleintr_def Let_def split: if_splits)
  obtain i out k2 where s2: "s2 = s1\<lparr>lsr_in := i, thr_out := out, lks := k2\<rparr>" using consputc_only [OF cp] by blast
  obtain k3 where s': "s' = s3\<lparr>lks := k3\<rparr>" using unlock_only [OF e] by blast
  have cnt: "unat (cons_e s + 1 - cons_r s) = Suc (unat (cons_e s - cons_r s))"
    using room by (intro cons_ring.count_Suc) simp
  have nf: "cons_e s + 1 \<noteq> cons_r s + 128"
  proof
    assume "cons_e s + 1 = cons_r s + 128"
    then have "cons_e s + 1 - cons_r s = 128" by (simp add: algebra_simps)
    then show False using cnt room by simp
  qed
  let ?buf = "(cons_buf s)[unat (cons_e s) mod 128 := word_of_int c']"
  have all: "ring_contents ?buf (cons_r s) (cons_e s + 1) = cons_ready s @ cons_line s @ [word_of_int c']"
    using cons_ring.push [OF len, of "cons_e s" "cons_r s"] room assms(1)
      ring_contents_split [of "cons_w s" "cons_r s" "cons_e s" "cons_buf s"]
    by (simp add: cons_inv_def cons_ready_def cons_line_def)
  have le: "unat (cons_w s - cons_r s) \<le> unat (cons_e s + 1 - cons_r s)"
    using cnt assms(1) by (simp add: cons_inv_def)
  note split = ring_contents_split [OF le, of ?buf]
  have len1: "length (ring_contents ?buf (cons_r s) (cons_w s)) = length (cons_ready s)"
    by (simp add: cons_ready_def)
  have same: "ring_contents ?buf (cons_r s) (cons_w s) = cons_ready s"
    "ring_contents ?buf (cons_w s) (cons_e s + 1) = cons_line s @ [word_of_int c']"
    using all split len1 by (simp_all add: append_eq_append_conv)
  show ?thesis
  proof (cases ?fin)
    case True
    then obtain f l where s3: "s3 = (?upd s2)\<lparr>cons_w := cons_e (?upd s2), procs := f, lks := l\<rparr>"
      using w wakeup_only by fastforce
    then have f: "cons_buf s' = ?buf" "cons_r s' = cons_r s" "cons_w s' = cons_e s + 1" "cons_e s' = cons_e s + 1"
      by (simp_all add: s' s2 s1)
    then have "cons_ready s' = cons_ready s @ cons_line s @ [word_of_int c']" "cons_line s' = []"
      unfolding cons_ready_def [of s'] cons_line_def [of s'] f using all by simp_all
    moreover have "cons_inv s'" using cnt room len by (simp add: cons_inv_def s' s3 s2 s1)
    ultimately show ?thesis using True by simp
  next
    case False
    then have s3: "s3 = ?upd s2" using w nf by (auto simp: s2 s1 split: if_splits)
    then have f: "cons_buf s' = ?buf" "cons_r s' = cons_r s" "cons_w s' = cons_w s" "cons_e s' = cons_e s + 1"
      by (simp_all add: s' s2 s1)
    then have "cons_ready s' = cons_ready s" "cons_line s' = cons_line s @ [word_of_int c']"
      unfolding cons_ready_def [of s'] cons_line_def [of s'] f using same by simp_all
    moreover have "cons_inv s'" using cnt room len le assms(1) by (simp add: cons_inv_def s' s3 s2 s1)
    ultimately show ?thesis using False by simp
  qed
qed

theorem console_typing_witness:
  "\<exists>s'. consoleintr 97 (cons_st0\<lparr>lsr_in := [0x20]\<rparr>) = Inr s' \<and> cons_line s' = [97]"
proof -
  let ?s = "cons_st0\<lparr>lsr_in := [0x20]\<rparr>"
  have d: "cons_inv ?s" "cons_ready ?s = []" "cons_line ?s = []" "cons_e ?s - cons_r ?s < 127"
    by (simp_all add: cons_inv_def cons_ready_def cons_line_def cons_st0_def procst.defs consst.defs)
  have "\<exists>s'. consoleintr 97 ?s = Inr s'"
    by (simp add: consoleintr_def consputc_def uartputc_sync_def tx_idle_def on_lks_def lock_simps Let_def
        cons_st0_def procst.defs consst.defs proc_st0_def)
  then obtain s' where s': "consoleintr 97 ?s = Inr s'" by blast
  then show ?thesis using console_typing [OF d(1) _ _ _ d(4) s' refl] d(2,3) by auto
qed

end
