(* ===== verification/Pipe.thy ===== *)
theory Pipe
  imports Console
begin

unbundle bit_operations_syntax

text \<open>
  Pipes (\<^verbatim>\<open>kernel/pipe.c\<close>): closing, writing and reading (\<^verbatim>\<open>pipealloc\<close> uses the file table and is in
  the theory of files). A pipe lives in a page of its own; \<open>pipes\<close> gives the structure at each such
  address.
\<close>

section \<open>State\<close>

record pipe =
  pdata :: "byte list"
  nread :: uint
  nwrite :: uint
  readopen :: int
  writeopen :: int

record pipest = consst +
  pipes :: "addr \<Rightarrow> pipe"

definition upd_pipe :: "addr \<Rightarrow> (pipe \<Rightarrow> pipe) \<Rightarrow> 'a pipest_scheme \<Rightarrow> 'a pipest_scheme" where
  "upd_pipe pi f s = s\<lparr>pipes := (pipes s)(pi := f (pipes s pi))\<rparr>"

section \<open>Operations\<close>

definition pipeclose :: "addr \<Rightarrow> bool \<Rightarrow> 'a pipest_scheme \<Rightarrow> kerr + 'a pipest_scheme" where
  "pipeclose pi writable s =
     bindE (lock (PipeLock pi) s) (\<lambda>s.
     bindE (if writable then wakeup (ChanPipeRead pi) (upd_pipe pi (\<lambda>q. q\<lparr>writeopen := 0\<rparr>) s)
            else wakeup (ChanPipeWrite pi) (upd_pipe pi (\<lambda>q. q\<lparr>readopen := 0\<rparr>) s)) (\<lambda>s.
     if readopen (pipes s pi) = 0 \<and> writeopen (pipes s pi) = 0
     then bindE (unlock (PipeLock pi) s) (kfree pi)
     else unlock (PipeLock pi) s))"

text \<open>
  The loop of \<^verbatim>\<open>pipewrite\<close>, with the lock held and \<open>i\<close> bytes written. A writer that finds the pipe full
  sleeps with \<open>i\<close> as its local state and re-enters the loop when it is resumed.
\<close>

function pipewrite_loop ::
  "addr \<Rightarrow> uint64 \<Rightarrow> nat \<Rightarrow> nat \<Rightarrow> nat \<Rightarrow> 'a pipest_scheme \<Rightarrow> kerr + nat progress \<times> 'a pipest_scheme" where
  "pipewrite_loop pi a p i n s =
     (if i < n then
        if readopen (pipes s pi) = 0 \<or> killed (procs s p) \<noteq> 0 then
          bindE (unlock (PipeLock pi) s) (\<lambda>s. Inr (Done (- 1), s))
        else if nwrite (pipes s pi) = nread (pipes s pi) + 512 then
          bindE (wakeup (ChanPipeRead pi) s) (\<lambda>s.
          bindE (sleep (ChanPipeWrite pi) (PipeLock pi) s) (\<lambda>s. Inr (Asleep i, s)))
        else
          bindE (copyin (pagetable (procs s p)) (a + of_nat i) 1 s) (\<lambda>(r, bs).
          if r = - 1 then
            bindE (wakeup (ChanPipeRead pi) s) (\<lambda>s.
            bindE (unlock (PipeLock pi) s) (\<lambda>s. Inr (Done (int i), s)))
          else
            pipewrite_loop pi a p (Suc i) n
              (upd_pipe pi (\<lambda>q. q\<lparr>pdata := (pdata q)[unat (nwrite q) mod 512 := hd bs], nwrite := nwrite q + 1\<rparr>) s))
      else
        bindE (wakeup (ChanPipeRead pi) s) (\<lambda>s.
        bindE (unlock (PipeLock pi) s) (\<lambda>s. Inr (Done (int i), s))))"
  by pat_completeness auto
termination by (relation "measure (\<lambda>(pi, a, p, i, n, s). n - i)") auto

declare pipewrite_loop.simps [simp del]

definition pipewrite ::
  "addr \<Rightarrow> uint64 \<Rightarrow> int \<Rightarrow> 'a pipest_scheme \<Rightarrow> kerr + nat progress \<times> 'a pipest_scheme" where
  "pipewrite pi a n s =
     bindE (curproc s) (\<lambda>(p, s). bindE (lock (PipeLock pi) s) (pipewrite_loop pi a p 0 (nat n)))"

text \<open>The copying loop of \<^verbatim>\<open>piperead\<close>; it returns how many bytes were copied.\<close>

function piperead_copy ::
  "addr \<Rightarrow> uint64 \<Rightarrow> nat \<Rightarrow> nat \<Rightarrow> nat \<Rightarrow> 'a pipest_scheme \<Rightarrow> kerr + nat \<times> 'a pipest_scheme" where
  "piperead_copy pi a p i n s =
     (if i < n \<and> nread (pipes s pi) \<noteq> nwrite (pipes s pi) then
        let ch = pdata (pipes s pi) ! (unat (nread (pipes s pi)) mod 512);
            s = upd_pipe pi (\<lambda>q. q\<lparr>nread := nread q + 1\<rparr>) s
        in bindE (copyout (pagetable (procs s p)) (a + of_nat i) [ch] s) (\<lambda>(r, s).
           if r = - 1 then Inr (i, s) else piperead_copy pi a p (Suc i) n s)
      else Inr (i, s))"
  by pat_completeness auto
termination by (relation "measure (\<lambda>(pi, a, p, i, n, s). n - i)") auto

declare piperead_copy.simps [simp del]

text \<open>\<^verbatim>\<open>piperead\<close> from the test of its waiting loop on, which is also where a sleeping reader goes on.\<close>

definition piperead_pass ::
  "addr \<Rightarrow> uint64 \<Rightarrow> nat \<Rightarrow> int \<Rightarrow> 'a pipest_scheme \<Rightarrow> kerr + unit progress \<times> 'a pipest_scheme" where
  "piperead_pass pi a p n s =
     (if nread (pipes s pi) = nwrite (pipes s pi) \<and> writeopen (pipes s pi) \<noteq> 0 then
        if killed (procs s p) \<noteq> 0 then bindE (unlock (PipeLock pi) s) (\<lambda>s. Inr (Done (- 1), s))
        else bindE (sleep (ChanPipeRead pi) (PipeLock pi) s) (\<lambda>s. Inr (Asleep (), s))
      else
        bindE (piperead_copy pi a p 0 (nat n) s) (\<lambda>(i, s).
        bindE (wakeup (ChanPipeWrite pi) s) (\<lambda>s.
        bindE (unlock (PipeLock pi) s) (\<lambda>s. Inr (Done (int i), s)))))"

definition piperead ::
  "addr \<Rightarrow> uint64 \<Rightarrow> int \<Rightarrow> 'a pipest_scheme \<Rightarrow> kerr + unit progress \<times> 'a pipest_scheme" where
  "piperead pi a n s =
     bindE (curproc s) (\<lambda>(p, s). bindE (lock (PipeLock pi) s) (piperead_pass pi a p n))"

section \<open>The bytes in a pipe\<close>

interpretation pipe_ring: ring 512 "TYPE(32)"
  by unfold_locales simp_all

definition pipe_bytes :: "addr \<Rightarrow> 'a pipest_scheme \<Rightarrow> byte list" where
  "pipe_bytes pi s = ring_contents (pdata (pipes s pi)) (nread (pipes s pi)) (nwrite (pipes s pi))"

definition pipe_inv :: "addr \<Rightarrow> 'a pipest_scheme \<Rightarrow> bool" where
  "pipe_inv pi s \<longleftrightarrow> length (pdata (pipes s pi)) = 512 \<and> unat (nwrite (pipes s pi) - nread (pipes s pi)) \<le> 512"

lemma length_pipe_bytes [simp]: "length (pipe_bytes pi s) = unat (nwrite (pipes s pi) - nread (pipes s pi))"
  by (simp add: pipe_bytes_def)

lemma pipe_frame [simp]:
  "pipe_bytes pi (s\<lparr>procs := f, lks := l\<rparr>) = pipe_bytes pi s" "pipe_inv pi (s\<lparr>procs := f, lks := l\<rparr>) = pipe_inv pi s"
  "pipe_bytes pi (s\<lparr>procs := f\<rparr>) = pipe_bytes pi s" "pipe_inv pi (s\<lparr>procs := f\<rparr>) = pipe_inv pi s"
  "pipe_bytes pi (s\<lparr>lks := l\<rparr>) = pipe_bytes pi s" "pipe_inv pi (s\<lparr>lks := l\<rparr>) = pipe_inv pi s"
  "pipe_bytes pi (s\<lparr>mem := m\<rparr>) = pipe_bytes pi s" "pipe_inv pi (s\<lparr>mem := m\<rparr>) = pipe_inv pi s"
  by (simp_all add: pipe_bytes_def pipe_inv_def)

lemma curproc_only: "curproc s = Inr (p, s') \<Longrightarrow> \<exists>l. s' = s\<lparr>lks := l\<rparr>"
  by (auto simp: curproc_eq split: option.splits)

lemma sleep_only: "sleep ch lk s = Inr s' \<Longrightarrow> \<exists>f l. s' = s\<lparr>procs := f, lks := l\<rparr>"
proof -
  assume "sleep ch lk s = Inr s'"
  then obtain p s1 s2 s3 where c: "curproc s = Inr (p, s1)" and l: "lock (ProcLock p) s1 = Inr s2"
    and u: "unlock lk s2 = Inr s3" and sc: "sched (CtxSleep lk) (upd_proc p (\<lambda>q. q\<lparr>pchan := Some ch, pstate := SLEEPING\<rparr>) s3) = Inr s'"
    by (auto simp: sleep_def)
  obtain k1 k2 k3 where k: "s1 = s\<lparr>lks := k1\<rparr>" "s2 = s1\<lparr>lks := k2\<rparr>" "s3 = s2\<lparr>lks := k3\<rparr>"
    using curproc_only [OF c] lock_only [OF l] unlock_only [OF u] by blast
  have s3: "s3 = s\<lparr>lks := k3\<rparr>" by (simp add: k)
  show ?thesis
    using sc by (auto simp: sched_def scheduler_ret_def on_lks_def s3 upd_proc_def Let_def split: if_splits dest!: curproc_only) blast+
qed

lemma upd_pipe_fields [simp]:
  "pipes (upd_pipe pi f s) = (pipes s)(pi := f (pipes s pi))" "mem (upd_pipe pi f s) = mem s"
  "procs (upd_pipe pi f s) = procs s" "lks (upd_pipe pi f s) = lks s"
  by (simp_all add: upd_pipe_def)

lemma pipe_push:
  assumes "pipe_inv pi s" "nwrite (pipes s pi) \<noteq> nread (pipes s pi) + 512"
    and "s' = upd_pipe pi (\<lambda>q. q\<lparr>pdata := (pdata q)[unat (nwrite q) mod 512 := c], nwrite := nwrite q + 1\<rparr>) s"
  shows "pipe_inv pi s' \<and> pipe_bytes pi s' = pipe_bytes pi s @ [c]"
proof -
  let ?w = "nwrite (pipes s pi)" and ?r = "nread (pipes s pi)"
  have "unat (?w - ?r) \<noteq> 512"
  proof
    assume "unat (?w - ?r) = 512"
    then have "?w - ?r = 512" by (intro word_unat_eqI) simp
    then show False using assms(2) by (simp add: algebra_simps)
  qed
  then have lt: "unat (?w - ?r) < 512" using assms(1) by (simp add: pipe_inv_def)
  have len: "length (pdata (pipes s pi)) = 512" using assms(1) by (simp add: pipe_inv_def)
  have "unat (?w + 1 - ?r) = Suc (unat (?w - ?r))" by (rule pipe_ring.count_Suc [OF lt])
  then show ?thesis
    using len lt pipe_ring.push [OF len lt, of c] by (simp add: assms(3) pipe_inv_def pipe_bytes_def)
qed

lemma pipe_pop:
  assumes "pipe_inv pi s" "nread (pipes s pi) \<noteq> nwrite (pipes s pi)"
    and "s' = upd_pipe pi (\<lambda>q. q\<lparr>nread := nread q + 1\<rparr>) s"
  shows "pipe_inv pi s' \<and> pipe_bytes pi s = pdata (pipes s pi) ! (unat (nread (pipes s pi)) mod 512) # pipe_bytes pi s'"
proof -
  let ?w = "nwrite (pipes s pi)" and ?r = "nread (pipes s pi)"
  have len: "length (pdata (pipes s pi)) = 512" using assms(1) by (simp add: pipe_inv_def)
  have p: "pipe_bytes pi s = pdata (pipes s pi) ! (unat ?r mod 512) # pipe_bytes pi s'"
    using pipe_ring.pop [OF len assms(2)] by (simp add: assms(3) pipe_bytes_def)
  then have "length (pipe_bytes pi s) = Suc (length (pipe_bytes pi s'))" by simp
  then have "unat (?w - ?r) = Suc (unat (?w - (?r + 1)))" by (simp add: assms(3))
  then show ?thesis using p assms(1) len by (simp add: assms(3) pipe_inv_def)
qed

section \<open>Writing\<close>

lemma copyin_byte:
  assumes "pt_wf 2 (mem s) pt" "copyin pt va 1 s = Inr (r, bs)"
  shows "r = - 1 \<and> umem (mem s) pt va = None \<or> r = 0 \<and> umem (mem s) pt va = Some (hd bs)"
proof -
  obtain bs' where "copyin pt va 1 s = Inr (if umem (mem s) pt va \<noteq> None then 0 else - 1, bs')"
    "umem (mem s) pt va \<noteq> None \<Longrightarrow> length bs' = 1 \<and> umem (mem s) pt va = Some (bs' ! 0)"
    using copyin_ok [OF assms(1), of va 1] unfolding umem_None_iff [symmetric] by auto
  then show ?thesis using assms(2) by (cases "umem (mem s) pt va") (auto simp: length_Suc_conv)
qed

text \<open>What a run of the loop of \<^verbatim>\<open>pipewrite\<close> appends: the user's bytes from position \<open>i\<close> on.\<close>

definition wrote :: "addr \<Rightarrow> uint64 \<Rightarrow> nat \<Rightarrow> nat \<Rightarrow> nat \<Rightarrow> 'a pipest_scheme \<Rightarrow> nat progress \<Rightarrow> 'a pipest_scheme \<Rightarrow> bool" where
  "wrote pi a p i n s r s' \<longleftrightarrow>
     (\<exists>bs. pipe_inv pi s' \<and> mem s' = mem s \<and> pipe_bytes pi s' = pipe_bytes pi s @ bs \<and> i + length bs \<le> max i n \<and>
       (\<forall>j<length bs. umem (mem s) (pagetable (procs s p)) (a + of_nat (i + j)) = Some (bs ! j)) \<and>
       (case r of
          Done x \<Rightarrow> x = - 1 \<or> x = int (i + length bs) \<and>
            (i + length bs < n \<longrightarrow> umem (mem s) (pagetable (procs s p)) (a + of_nat (i + length bs)) = None)
        | Asleep k \<Rightarrow> k = i + length bs \<and> k < n \<and> length (pipe_bytes pi s') = 512))"

lemma wrote_stop:
  assumes "pipe_inv pi s" "s' = s\<lparr>procs := f, lks := l\<rparr>"
    "r = Done (- 1) \<or> r = Done (int i) \<and> (i < n \<longrightarrow> umem (mem s) (pagetable (procs s p)) (a + of_nat i) = None) \<or>
     r = Asleep i \<and> i < n \<and> length (pipe_bytes pi s) = 512"
  shows "wrote pi a p i n s r s'"
  unfolding wrote_def using assms by (intro exI [of _ "[]"]) auto

lemma pipewrite_loop_wrote:
  assumes "pipewrite_loop pi a p i n s = Inr (r, s')" "pipe_inv pi s" "pt_wf 2 (mem s) (pagetable (procs s p))"
  shows "wrote pi a p i n s r s'"
  using assms
proof (induction pi a p i n s rule: pipewrite_loop.induct)
  case (1 pi a p i n s)
  let ?um = "umem (mem s) (pagetable (procs s p)) (a + of_nat i)"
  note eq = "1.prems"(1) [unfolded pipewrite_loop.simps [of pi a p i n s]]
  have stop: "wrote pi a p i n s r s'"
    if "bindE (wakeup (ChanPipeRead pi) s) (\<lambda>s. bindE (unlock (PipeLock pi) s) (\<lambda>s. Inr (Done (int i), s))) = Inr (r, s')"
      "i < n \<Longrightarrow> ?um = None"
  proof -
    from that(1) obtain s1 where w: "wakeup (ChanPipeRead pi) s = Inr s1" and u: "unlock (PipeLock pi) s1 = Inr s'"
      and r: "r = Done (int i)" by auto
    obtain f l l' where "s1 = s\<lparr>procs := f, lks := l\<rparr>" "s' = s1\<lparr>lks := l'\<rparr>"
      using wakeup_only [OF w] unlock_only [OF u] by blast
    then have "s' = s\<lparr>procs := f, lks := l'\<rparr>" by simp
    then show ?thesis using wrote_stop [OF "1.prems"(2)] r that(2) by blast
  qed
  consider (fin) "\<not> i < n" | (closed) "i < n" "readopen (pipes s pi) = 0 \<or> killed (procs s p) \<noteq> 0"
    | (full) "i < n" "\<not> (readopen (pipes s pi) = 0 \<or> killed (procs s p) \<noteq> 0)" "nwrite (pipes s pi) = nread (pipes s pi) + 512"
    | (go) "i < n" "\<not> (readopen (pipes s pi) = 0 \<or> killed (procs s p) \<noteq> 0)" "nwrite (pipes s pi) \<noteq> nread (pipes s pi) + 512"
    by blast
  then show ?case
  proof cases
    case fin
    then show ?thesis using eq by (intro stop) auto
  next
    case closed
    then obtain u: "unlock (PipeLock pi) s = Inr s'" and r: "r = Done (- 1)" using eq by auto
    obtain l where "s' = s\<lparr>lks := l\<rparr>" using unlock_only [OF u] by blast
    then have "s' = s\<lparr>procs := procs s, lks := l\<rparr>" by simp
    then show ?thesis using wrote_stop [OF "1.prems"(2)] r by blast
  next
    case full
    then obtain s1 where w: "wakeup (ChanPipeRead pi) s = Inr s1" and sl: "sleep (ChanPipeWrite pi) (PipeLock pi) s1 = Inr s'"
      and r: "r = Asleep i" using eq by auto
    obtain f l f' l' where "s1 = s\<lparr>procs := f, lks := l\<rparr>" "s' = s1\<lparr>procs := f', lks := l'\<rparr>"
      using wakeup_only [OF w] sleep_only [OF sl] by blast
    then have "s' = s\<lparr>procs := f', lks := l'\<rparr>" by simp
    moreover have "length (pipe_bytes pi s) = 512" using full(3) by simp
    ultimately show ?thesis using wrote_stop [OF "1.prems"(2)] r full(1) by blast
  next
    case go
    then obtain rr bs where c: "copyin (pagetable (procs s p)) (a + of_nat i) 1 s = Inr (rr, bs)" using eq by auto
    let ?s1 = "upd_pipe pi (\<lambda>q. q\<lparr>pdata := (pdata q)[unat (nwrite q) mod 512 := hd bs], nwrite := nwrite q + 1\<rparr>) s"
    show ?thesis
    proof (cases "rr = - 1")
      case True
      then have "?um = None" using copyin_byte [OF "1.prems"(3) c] by auto
      then show ?thesis using eq go c True by (intro stop) auto
    next
      case False
      have um: "?um = Some (hd bs)" using copyin_byte [OF "1.prems"(3) c] False by auto
      have step: "pipewrite_loop pi a p (Suc i) n ?s1 = Inr (r, s')" using eq go c False by simp
      have push: "pipe_inv pi ?s1 \<and> pipe_bytes pi ?s1 = pipe_bytes pi s @ [hd bs]"
        by (rule pipe_push [OF "1.prems"(2) go(3) refl])
      have "wrote pi a p (Suc i) n ?s1 r s'"
        using "1.IH" [OF go(1,2,3) c _ False step] push "1.prems"(3) by simp
      then obtain cs where cs: "pipe_inv pi s'" "mem s' = mem ?s1" "pipe_bytes pi s' = pipe_bytes pi ?s1 @ cs"
        "Suc i + length cs \<le> max (Suc i) n"
        "\<forall>j<length cs. umem (mem ?s1) (pagetable (procs ?s1 p)) (a + of_nat (Suc i + j)) = Some (cs ! j)"
        "case r of
          Done x \<Rightarrow> x = - 1 \<or> x = int (Suc i + length cs) \<and>
            (Suc i + length cs < n \<longrightarrow> umem (mem ?s1) (pagetable (procs ?s1 p)) (a + of_nat (Suc i + length cs)) = None)
        | Asleep k \<Rightarrow> k = Suc i + length cs \<and> k < n \<and> length (pipe_bytes pi s') = 512"
        unfolding wrote_def by blast
      have "\<forall>j<length (hd bs # cs). umem (mem s) (pagetable (procs s p)) (a + of_nat (i + j)) = Some ((hd bs # cs) ! j)"
        using cs(5) um by (auto simp: less_Suc_eq_0_disj ac_simps)
      then show ?thesis unfolding wrote_def using cs(1-4,6) go(1) push
        by (intro exI [of _ "hd bs # cs"]) (auto split: progress.splits)
    qed
  qed
qed


section \<open>Reading\<close>

lemma copyout_byte_bad:
  assumes "pt_wf 2 (mem s) pt" "umem (mem s) pt va = None"
  shows "copyout pt va [c] s = Inr (- 1, s)"
  using assms by (simp add: copyout.simps [of pt va] Let_def umem_None_iff walkaddr_user_pa)

lemma copyout_byte:
  assumes "uspace (mem s) pt" "umem (mem s) pt va \<noteq> None"
  shows "\<exists>m'. copyout pt va [c] s = Inr (0, s\<lparr>mem := m'\<rparr>) \<and> uspace m' pt \<and>
    umem m' pt = (umem (mem s) pt)(va := Some c)"
proof -
  obtain m' where m': "copyout pt va [c] s = Inr (0, s\<lparr>mem := m'\<rparr>)" "uspace m' pt"
    "\<forall>v. umem m' pt v = (if unat (v - va) < 1 then Some ([c] ! unat (v - va)) else umem (mem s) pt v)"
    using copyout_ok [OF assms(1), of "[c]" va] assms(2) unfolding umem_None_iff [symmetric] by auto
  then have "umem m' pt = (umem (mem s) pt)(va := Some c)"
    by (auto simp: fun_eq_iff unat_eq_0)
  then show ?thesis using m' by blast
qed

lemma run_Cons:
  assumes "length out < 2 ^ 63"
  shows "(if unat (v - b) < length (c # out) then Some ((c # out) ! unat (v - b)) else g v) =
    (if unat (v - (b + 1 :: uint64)) < length out then Some (out ! unat (v - (b + 1))) else (g(b := Some c)) v)"
proof (cases "v = b")
  case True
  have "unat (b - (b + 1)) = 2 ^ 64 - 1" by (simp add: unsigned_minus_1_eq_mask mask_eq_exp_minus_1)
  then show ?thesis using True assms by simp
next
  case False
  then have "v - b \<noteq> 0" by simp
  moreover have "v - (b + 1) = (v - b) - 1" by simp
  ultimately have "unat (v - b) = Suc (unat (v - (b + 1)))" by (metis Suc_pred' unat_gt_0 unat_minus_one)
  then show ?thesis using False by simp
qed

text \<open>
  What a run of the copying loop of \<^verbatim>\<open>piperead\<close> has done when \<open>k\<close> bytes have been copied: \<open>out\<close> is now at the
  user's address and gone from the front of the pipe; \<open>lost\<close> was taken from the pipe, but its place in the
  user's buffer is not mapped.
\<close>

definition delivered ::
  "addr \<Rightarrow> uint64 \<Rightarrow> nat \<Rightarrow> nat \<Rightarrow> nat \<Rightarrow> 'a pipest_scheme \<Rightarrow> nat \<Rightarrow> byte list \<Rightarrow> byte list \<Rightarrow> 'a pipest_scheme \<Rightarrow> bool" where
  "delivered pi a p i n s k out lost s' \<longleftrightarrow>
     (let pt = pagetable (procs s p) in
      pipe_inv pi s' \<and> uspace (mem s') pt \<and> pipe_bytes pi s = out @ lost @ pipe_bytes pi s' \<and>
      k = i + length out \<and> k \<le> max i n \<and>
      (lost = [] \<and> (k < n \<longrightarrow> pipe_bytes pi s' = []) \<or>
       length lost = 1 \<and> k < n \<and> umem (mem s) pt (a + of_nat k) = None) \<and>
      (\<forall>v. umem (mem s') pt v = (if unat (v - (a + of_nat i)) < length out then Some (out ! unat (v - (a + of_nat i)))
         else umem (mem s) pt v)))"

lemma piperead_copy_delivered:
  assumes "pipe_inv pi s" "uspace (mem s) (pagetable (procs s p))" "n < 2 ^ 63"
  shows "\<exists>k out lost s'. piperead_copy pi a p i n s = Inr (k, s') \<and> delivered pi a p i n s k out lost s' \<and>
    procs s' = procs s \<and> lks s' = lks s"
  using assms
proof (induction pi a p i n s rule: piperead_copy.induct)
  case (1 pi a p i n s)
  let ?pt = "pagetable (procs s p)" and ?s1 = "upd_pipe pi (\<lambda>q. q\<lparr>nread := nread q + 1\<rparr>) s"
  let ?c = "pdata (pipes s pi) ! (unat (nread (pipes s pi)) mod 512)"
  have wf: "pt_wf 2 (mem s) ?pt" using "1.prems"(2) by (simp add: uspace_def)
  consider (stop) "\<not> (i < n \<and> nread (pipes s pi) \<noteq> nwrite (pipes s pi))"
    | (bad) "i < n" "nread (pipes s pi) \<noteq> nwrite (pipes s pi)" "umem (mem s) ?pt (a + of_nat i) = None"
    | (go) "i < n" "nread (pipes s pi) \<noteq> nwrite (pipes s pi)" "umem (mem s) ?pt (a + of_nat i) \<noteq> None" by blast
  then show ?case
  proof cases
    case stop
    then have "piperead_copy pi a p i n s = Inr (i, s)" by (auto simp: piperead_copy.simps [of pi a p i])
    moreover have "delivered pi a p i n s i [] [] s"
      using "1.prems" stop by (auto simp: delivered_def Let_def pipe_bytes_def)
    ultimately show ?thesis by blast
  next
    case bad
    have "copyout ?pt (a + of_nat i) [?c] ?s1 = Inr (- 1, ?s1)" by (rule copyout_byte_bad) (simp_all add: wf bad)
    then have "piperead_copy pi a p i n s = Inr (i, ?s1)"
      using bad by (simp add: piperead_copy.simps [of pi a p i] Let_def)
    moreover have "delivered pi a p i n s i [] [?c] ?s1"
      using "1.prems" bad pipe_pop [OF "1.prems"(1) bad(2) refl] by (auto simp: delivered_def Let_def)
    moreover have "procs ?s1 = procs s" "lks ?s1 = lks s" by simp_all
    ultimately show ?thesis by blast
  next
    case go
    obtain m' where c: "copyout ?pt (a + of_nat i) [?c] ?s1 = Inr (0, ?s1\<lparr>mem := m'\<rparr>)" and u: "uspace m' ?pt"
      and um: "umem m' ?pt = (umem (mem s) ?pt)(a + of_nat i := Some ?c)"
      using copyout_byte [of ?s1 ?pt "a + of_nat i" ?c] "1.prems"(2) go(3) by auto
    let ?s2 = "?s1\<lparr>mem := m'\<rparr>"
    have pop: "pipe_inv pi ?s2" "pipe_bytes pi s = ?c # pipe_bytes pi ?s2"
      using pipe_pop [OF "1.prems"(1) go(2) refl] by simp_all
    have c': "copyout (pagetable (procs ?s1 p)) (a + of_nat i) [?c] ?s1 = Inr (0, ?s2)" using c by simp
    have step: "piperead_copy pi a p i n s = piperead_copy pi a p (Suc i) n ?s2"
      using go c by (simp add: piperead_copy.simps [of pi a p i] Let_def)
    have "\<exists>k out lost s'. piperead_copy pi a p (Suc i) n ?s2 = Inr (k, s') \<and> delivered pi a p (Suc i) n ?s2 k out lost s' \<and>
        procs s' = procs ?s2 \<and> lks s' = lks ?s2"
      using pop(1) u "1.prems"(3) by (intro "1.IH" [OF conjI [OF go(1,2)] refl refl c' refl]) simp_all
    then obtain k out lost s' where r: "piperead_copy pi a p (Suc i) n ?s2 = Inr (k, s')"
        "delivered pi a p (Suc i) n ?s2 k out lost s'" "procs s' = procs s" "lks s' = lks s" by auto
    note d = r(2) [unfolded delivered_def Let_def]
    have len: "length out < 2 ^ 63" using d go(1) "1.prems"(3) by auto
    have b: "a + of_nat (Suc i) = (a + of_nat i) + (1 :: uint64)" by simp
    have "delivered pi a p i n s k (?c # out) lost s'"
      unfolding delivered_def Let_def
    proof (intro conjI allI)
      fix v
      have dv: "umem (mem s') ?pt v = (if unat (v - (a + of_nat (Suc i))) < length out
          then Some (out ! unat (v - (a + of_nat (Suc i)))) else umem m' ?pt v)" using d by (simp del: of_nat_Suc)
      show "umem (mem s') ?pt v = (if unat (v - (a + of_nat i)) < length (?c # out)
          then Some ((?c # out) ! unat (v - (a + of_nat i))) else umem (mem s) ?pt v)"
        unfolding run_Cons [OF len] b [symmetric] um [symmetric] by (rule dv)
      show "lost = [] \<and> (k < n \<longrightarrow> pipe_bytes pi s' = []) \<or>
          length lost = 1 \<and> k < n \<and> umem (mem s) ?pt (a + of_nat k) = None"
        using d um go(3) by (auto split: if_splits)
    qed (use d pop(2) go(1) in auto)
    then show ?thesis unfolding step using r(1,3,4) by blast
  qed
qed


text \<open>An empty pipe, and a process that has one page mapped at 0x1000.\<close>

definition pipe_st0 :: "(addr \<Rightarrow> byte) \<Rightarrow> pipest" where
  "pipe_st0 m = consst.extend
     (cons_st0\<lparr>mem := m, lks := set_cproc (Some 1) lks0, procs := (\<lambda>_. proc0\<lparr>pagetable := 0x87FFD000\<rparr>)\<rparr>)
     (pipest.fields (\<lambda>_. \<lparr>pdata = replicate 512 5, nread = 0, nwrite = 0, readopen = 1, writeopen = 1\<rparr>))"

lemma pipe_st0_fields [simp]:
  "mem (pipe_st0 m) = m" "lks (pipe_st0 m) = set_cproc (Some 1) lks0" "pagetable (procs (pipe_st0 m) p) = 0x87FFD000"
  "killed (procs (pipe_st0 m) p) = 0" "readopen (pipes (pipe_st0 m) pi) = 1" "nread (pipes (pipe_st0 m) pi) = 0"
  "nwrite (pipes (pipe_st0 m) pi) = 0" "writeopen (pipes (pipe_st0 m) pi) = 1" "pipe_inv pi (pipe_st0 m)"
  by (simp_all add: pipe_st0_def consst.defs pipest.defs cons_st0_def procst.defs proc0_def pipe_inv_def)



end
