(* ===== verification/Sleeplock.thy ===== *)
theory Sleeplock
  imports Pipe
begin

unbundle bit_operations_syntax

text \<open>
  Sleep locks (\<^verbatim>\<open>kernel/sleeplock.c\<close>). They are embedded in the buffers and in the inodes, which names
  them; the spinlock inside each is named after it.
\<close>

datatype slid = BufLk nat | InodeLk nat

fun sl_lk :: "slid \<Rightarrow> lockid" where
  "sl_lk (BufLk i) = BufSleepLk i"
| "sl_lk (InodeLk i) = InodeSleepLk i"

fun sl_chan :: "slid \<Rightarrow> chan" where
  "sl_chan (BufLk i) = ChanBufLock i"
| "sl_chan (InodeLk i) = ChanInodeLock i"

record sleeplock =
  slocked :: bool
  slname :: string
  slpid :: int

record slockst = pipest +
  slocks :: "slid \<Rightarrow> sleeplock"

definition upd_slock :: "slid \<Rightarrow> (sleeplock \<Rightarrow> sleeplock) \<Rightarrow> 'a slockst_scheme \<Rightarrow> 'a slockst_scheme" where
  "upd_slock k f s = s\<lparr>slocks := (slocks s)(k := f (slocks s k))\<rparr>"

definition initsleeplock :: "slid \<Rightarrow> string \<Rightarrow> 'a slockst_scheme \<Rightarrow> 'a slockst_scheme" where
  "initsleeplock k name s =
     upd_slock k (\<lambda>l. l\<lparr>slname := name, slocked := False, slpid := 0\<rparr>)
       (s\<lparr>lks := initlock (sl_lk k) ''sleep lock'' (lks s)\<rparr>)"

text \<open>
  \<open>acquiresleep_pass\<close> is \<^verbatim>\<open>acquiresleep\<close> from the test of its loop on: \<open>False\<close> is a process that now
  sleeps and makes the same pass again when it is resumed. The file system runs with the outcome
  \<open>Wait\<close> for such a process.
\<close>

definition acquiresleep_pass :: "slid \<Rightarrow> 'a slockst_scheme \<Rightarrow> kerr + bool \<times> 'a slockst_scheme" where
  "acquiresleep_pass k s =
     (if slocked (slocks s k) then bindE (sleep (sl_chan k) (sl_lk k) s) (\<lambda>s. Inr (False, s))
      else
        let s = upd_slock k (\<lambda>l. l\<lparr>slocked := True\<rparr>) s in
        bindE (curproc s) (\<lambda>(p, s).
        bindE (unlock (sl_lk k) (upd_slock k (\<lambda>l. l\<lparr>slpid := pid (procs s p)\<rparr>) s)) (\<lambda>s. Inr (True, s))))"

definition acquiresleep_try :: "slid \<Rightarrow> 'a slockst_scheme \<Rightarrow> kerr + bool \<times> 'a slockst_scheme" where
  "acquiresleep_try k s = bindE (lock (sl_lk k) s) (acquiresleep_pass k)"

definition acquiresleep :: "slid \<Rightarrow> 'a slockst_scheme \<Rightarrow> kerr + 'a slockst_scheme" where
  "acquiresleep k s =
     bindE (acquiresleep_try k s) (\<lambda>(got, s). if got then Inr s else Inl (Wait (sl_chan k)))"

definition releasesleep :: "slid \<Rightarrow> 'a slockst_scheme \<Rightarrow> kerr + 'a slockst_scheme" where
  "releasesleep k s =
     bindE (lock (sl_lk k) s) (\<lambda>s.
     bindE (wakeup (sl_chan k) (upd_slock k (\<lambda>l. l\<lparr>slocked := False, slpid := 0\<rparr>) s)) (unlock (sl_lk k)))"

definition holdingsleep :: "slid \<Rightarrow> 'a slockst_scheme \<Rightarrow> kerr + bool \<times> 'a slockst_scheme" where
  "holdingsleep k s =
     bindE (lock (sl_lk k) s) (\<lambda>s.
     bindE (if slocked (slocks s k)
            then bindE (curproc s) (\<lambda>(p, s). Inr (slpid (slocks s k) = pid (procs s p), s))
            else Inr (False, s)) (\<lambda>(r, s).
     bindE (unlock (sl_lk k) s) (\<lambda>s. Inr (r, s))))"

section \<open>A run in which no spinlock is held\<close>

definition quiet :: "'a machine_scheme \<Rightarrow> bool" where
  "quiet s \<longleftrightarrow> (\<forall>L. lock_free L (lks s))"

text \<open>Processes that differ only in that some of those asleep have been made runnable.\<close>

definition procs_sim :: "(nat \<Rightarrow> proc) \<Rightarrow> (nat \<Rightarrow> proc) \<Rightarrow> bool" where
  "procs_sim f g \<longleftrightarrow> (\<forall>p. g p = f p \<or> pstate (f p) = SLEEPING \<and> g p = (f p)\<lparr>pstate := RUNNABLE\<rparr>)"

lemma procs_sim_refl [simp]: "procs_sim f f"
  by (simp add: procs_sim_def)

lemma procs_sim_trans: "procs_sim f g \<Longrightarrow> procs_sim g h \<Longrightarrow> procs_sim f h"
  unfolding procs_sim_def
proof
  fix p
  assume "\<forall>p. g p = f p \<or> pstate (f p) = SLEEPING \<and> g p = (f p)\<lparr>pstate := RUNNABLE\<rparr>"
    "\<forall>p. h p = g p \<or> pstate (g p) = SLEEPING \<and> h p = (g p)\<lparr>pstate := RUNNABLE\<rparr>"
  from this(1) [rule_format, of p] this(2) [rule_format, of p]
  show "h p = f p \<or> pstate (f p) = SLEEPING \<and> h p = (f p)\<lparr>pstate := RUNNABLE\<rparr>" by auto
qed

lemma procs_sim_woken [simp]: "procs_sim f (woken ch me ps f)"
  by (simp add: procs_sim_def woken_def)

lemma procs_sim_pid: "procs_sim f g \<Longrightarrow> pid (g p) = pid (f p)"
proof -
  assume "procs_sim f g"
  then have "g p = f p \<or> g p = (f p)\<lparr>pstate := RUNNABLE\<rparr>" by (auto simp: procs_sim_def)
  then show ?thesis by auto
qed

lemma wakeup_quiet:
  assumes "\<And>p. lock_free (ProcLock p) (lks s)"
  shows "\<exists>f. procs_sim (procs s) f \<and> wakeup ch s = Inr (s\<lparr>procs := f, lks := settle (lks s)\<rparr>)"
  by (rule exI, rule conjI [OF procs_sim_woken], rule wakeup_run) (rule assms)


lemma quiet_settle [simp]: "quiet (s\<lparr>lks := settle l\<rparr>) = (\<forall>L. lock_free L l)"
  by (simp add: quiet_def)

lemma quietD: "quiet s \<Longrightarrow> lock_free L (lks s)"
  by (simp add: quiet_def)

lemma sl_lk_neq [simp]: "sl_lk k \<noteq> ProcLock p" "ProcLock p \<noteq> sl_lk k"
  by (cases k; simp)+

lemma acquiresleep_try_free:
  assumes "quiet s" "cproc (mycpu (lks s)) = Some p" "\<not> slocked (slocks s k)"
  shows "acquiresleep_try k s = Inr (True, s\<lparr>slocks := (slocks s)(k := (slocks s k)\<lparr>slocked := True, slpid := pid (procs s p)\<rparr>),
    lks := settle (lks s)\<rparr>)"
proof -
  let ?s = "upd_slock k (\<lambda>l. l\<lparr>slocked := True\<rparr>) (s\<lparr>lks := acq (sl_lk k) (lks s)\<rparr>)"
  have c: "curproc ?s = Inr (p, ?s)" using assms(2) by (simp add: curproc_Some upd_slock_def)
  show ?thesis
    using assms(1,3) c quietD [OF assms(1)]
    by (simp add: acquiresleep_try_def acquiresleep_pass_def lock_ok Let_def) (simp add: upd_slock_def unlock_ok [of _ _ "lks s"])
qed

lemma acquiresleep_quiet:
  assumes "quiet s" "cproc (mycpu (lks s)) = Some p" "\<not> slocked (slocks s k)"
  shows "acquiresleep k s = Inr (s\<lparr>slocks := (slocks s)(k := (slocks s k)\<lparr>slocked := True, slpid := pid (procs s p)\<rparr>),
    lks := settle (lks s)\<rparr>)"
  by (simp add: acquiresleep_def acquiresleep_try_free [OF assms])

lemma holdingsleep_quiet:
  assumes "quiet s" "cproc (mycpu (lks s)) = Some p"
  shows "holdingsleep k s = Inr (slocked (slocks s k) \<and> slpid (slocks s k) = pid (procs s p), s\<lparr>lks := settle (lks s)\<rparr>)"
  using assms(2) quietD [OF assms(1)]
  by (simp add: holdingsleep_def lock_ok curproc_Some unlock_ok [of _ _ "lks s"])

lemma releasesleep_quiet:
  assumes "quiet s"
  shows "releasesleep k s = Inr (s\<lparr>slocks := (slocks s)(k := (slocks s k)\<lparr>slocked := False, slpid := 0\<rparr>),
    procs := woken (sl_chan k) (cproc (mycpu (lks s))) [0..<NPROC] (procs s), lks := settle (lks s)\<rparr>)"
  using quietD [OF assms]
  by (simp add: releasesleep_def lock_ok upd_slock_def wakeup_run unlock_ok [of _ _ "lks s"])

lemma acquiresleep_try_held:
  assumes "quiet s" "cproc (mycpu (lks s)) = Some p" "slocked (slocks s k)" "noff (mycpu (lks s)) = 0"
  shows "\<exists>f l. acquiresleep_try k s = Inr (False, s\<lparr>procs := f, lks := l\<rparr>) \<and>
    pstate (f p) = SLEEPING \<and> pchan (f p) = Some (sl_chan k) \<and> (\<forall>q. q \<noteq> p \<longrightarrow> f q = procs s q)"
proof -
  let ?s = "s\<lparr>lks := acq (sl_lk k) (lks s)\<rparr>"
  let ?f = "(procs s)(p := (procs s p)\<lparr>pchan := Some (sl_chan k), pstate := SLEEPING,
      pctx := CtxSleep (sl_lk k) (sie (lks s) (tp (lks s)))\<rparr>)"
  have "sleep (sl_chan k) (sl_lk k) ?s = Inr (s\<lparr>procs := ?f, lks := settle (set_cproc None (lks s))\<rparr>)"
    using sleep_eq [of "lks s" p "sl_lk k" ?s "sl_chan k"] assms(2,4) quietD [OF assms(1)] by (simp add: upd_proc_def)
  then have "acquiresleep_try k s = Inr (False, s\<lparr>procs := ?f, lks := settle (set_cproc None (lks s))\<rparr>)"
    using assms(3) quietD [OF assms(1)] by (simp add: acquiresleep_try_def acquiresleep_pass_def lock_ok)
  then show ?thesis by (intro exI [of _ ?f] exI [of _ "settle (set_cproc None (lks s))"]) simp
qed

text \<open>
  C24: sleep locks. A process that asks for a free sleep lock gets it, and only then does \<^verbatim>\<open>holdingsleep\<close> say so;
  one that asks for a held lock does not get it but sleeps on the lock's channel, and the lock stays with
  its holder. A release frees the lock and makes every process that sleeps on it runnable, so that it
  tries again.
\<close>

theorem sleeplock_exclusion:
  assumes "quiet s" "cproc (mycpu (lks s)) = Some p" "noff (mycpu (lks s)) = 0" "pid (procs s p) \<noteq> 0"
  shows "\<exists>s'. acquiresleep_try k s = Inr (\<not> slocked (slocks s k), s') \<and>
      (if slocked (slocks s k) then slocks s' = slocks s \<and> pstate (procs s' p) = SLEEPING \<and> pchan (procs s' p) = Some (sl_chan k)
       else slocked (slocks s' k) \<and> (\<exists>s''. holdingsleep k s' = Inr (True, s''))) \<and>
    (\<exists>s'. releasesleep k s = Inr s' \<and> \<not> slocked (slocks s' k) \<and> (\<exists>s''. holdingsleep k s' = Inr (False, s'')) \<and>
      (\<forall>q<NPROC. q \<noteq> p \<and> pstate (procs s q) = SLEEPING \<and> pchan (procs s q) = Some (sl_chan k) \<longrightarrow>
        pstate (procs s' q) = RUNNABLE))"
proof -
  let ?r = "s\<lparr>slocks := (slocks s)(k := (slocks s k)\<lparr>slocked := False, slpid := 0\<rparr>),
      procs := woken (sl_chan k) (Some p) [0..<NPROC] (procs s), lks := settle (lks s)\<rparr>"
  have rel: "releasesleep k s = Inr ?r" using releasesleep_quiet [OF assms(1)] assms(2) by simp
  have "quiet ?r" "cproc (mycpu (lks ?r)) = Some p" using assms(1,2) by (simp_all add: quiet_def)
  then have "\<exists>s''. holdingsleep k ?r = Inr (False, s'')" by (simp add: holdingsleep_quiet)
  moreover have "pstate (procs ?r q) = RUNNABLE"
    if "q < NPROC" "q \<noteq> p" "pstate (procs s q) = SLEEPING" "pchan (procs s q) = Some (sl_chan k)" for q
    using that by (simp add: woken_def)
  ultimately have R: "\<exists>s'. releasesleep k s = Inr s' \<and> \<not> slocked (slocks s' k) \<and> (\<exists>s''. holdingsleep k s' = Inr (False, s'')) \<and>
      (\<forall>q<NPROC. q \<noteq> p \<and> pstate (procs s q) = SLEEPING \<and> pchan (procs s q) = Some (sl_chan k) \<longrightarrow>
        pstate (procs s' q) = RUNNABLE)"
    using rel by (intro exI [of _ ?r]) simp
  show ?thesis
  proof (cases "slocked (slocks s k)")
    case True
    then show ?thesis using acquiresleep_try_held [OF assms(1,2) True assms(3)] R by auto
  next
    case False
    let ?a = "s\<lparr>slocks := (slocks s)(k := (slocks s k)\<lparr>slocked := True, slpid := pid (procs s p)\<rparr>), lks := settle (lks s)\<rparr>"
    have "quiet ?a" "cproc (mycpu (lks ?a)) = Some p" using assms(1,2) by (simp_all add: quiet_def)
    then have "\<exists>s''. holdingsleep k ?a = Inr (True, s'')" by (simp add: holdingsleep_quiet)
    then show ?thesis using acquiresleep_try_free [OF assms(1,2) False] False R by simp
  qed
qed

theorem sleeplock_exclusion_witness:
  "\<exists>s s' :: slockst. acquiresleep_try (BufLk 0) s = Inr (False, s') \<and> slocked (slocks s (BufLk 0)) \<and>
    pstate (procs s' 1) = SLEEPING"
proof -
  let ?s = "pipest.extend (pipe_st0 (\<lambda>_. 0)\<lparr>procs := (\<lambda>_. proc0\<lparr>pid := 7\<rparr>)\<rparr>)
      (slockst.fields (\<lambda>_. \<lparr>slocked = True, slname = [], slpid = 3\<rparr>))"
  have l: "lks ?s = set_cproc (Some 1) lks0" by (simp add: pipest.defs)
  have n0: "noff (mycpu lks0) = 0" by (simp add: mycpu_def lks0_def)
  have "quiet ?s" "cproc (mycpu (lks ?s)) = Some 1" "noff (mycpu (lks ?s)) = 0"
    unfolding quiet_def l by (simp_all add: n0)
  moreover have "pid (procs ?s 1) \<noteq> 0" "slocked (slocks ?s (BufLk 0))" by (simp_all add: pipest.defs slockst.defs)
  ultimately show ?thesis using sleeplock_exclusion [of ?s 1 "BufLk 0"] by auto
qed

end
