(* ===== verification/Virtio.thy ===== *)
theory Virtio
  imports Sleeplock
begin

unbundle bit_operations_syntax

text \<open>
  The disk driver (\<^verbatim>\<open>kernel/virtio_disk.c\<close>, \<^verbatim>\<open>kernel/virtio.h\<close>) and the buffers it moves (\<^verbatim>\<open>kernel/buf.h\<close>).
  The memory that driver and device share is the record \<open>vqueue\<close>: the descriptors, the two rings, the
  request headers, the status bytes and the data of the buffers. The device itself is not part of the
  sources: it is a function on that record, held in the field \<open>vdev\<close>, which no operation changes. What
  the device has stored is the list of the writes it has completed, oldest first, over the image it
  started from.
\<close>

section \<open>State\<close>

abbreviation (input) NUM :: nat where "NUM \<equiv> 8"
abbreviation (input) BSIZE :: nat where "BSIZE \<equiv> 1024"
abbreviation (input) NBUF :: nat where "NBUF \<equiv> 30"
abbreviation (input) VRING_DESC_F_NEXT :: ushort where "VRING_DESC_F_NEXT \<equiv> 1"
abbreviation (input) VRING_DESC_F_WRITE :: ushort where "VRING_DESC_F_WRITE \<equiv> 2"
abbreviation (input) VIRTIO_BLK_T_IN :: uint where "VIRTIO_BLK_T_IN \<equiv> 0"
abbreviation (input) VIRTIO_BLK_T_OUT :: uint where "VIRTIO_BLK_T_OUT \<equiv> 1"

text \<open>The objects whose addresses the driver puts into descriptors.\<close>

datatype dma = DNull | DOps nat | DData nat | DStatus nat

record virtq_desc =
  daddr :: dma
  dlen :: uint
  dflags :: ushort
  dnext :: ushort

record virtio_blk_req =
  rtype :: uint
  rreserved :: uint
  rsector :: uint64

record vqueue =
  vdesc :: "nat \<Rightarrow> virtq_desc"
  avail_ring :: "nat \<Rightarrow> ushort"
  avail_idx :: ushort
  used_ring :: "nat \<Rightarrow> uint"
  used_idx_dev :: ushort
  vops :: "nat \<Rightarrow> virtio_blk_req"
  vstatus :: "nat \<Rightarrow> byte"
  bdata :: "nat \<Rightarrow> byte list"
  dimage :: "uint64 \<Rightarrow> byte list"
  dwrites :: "(uint64 \<times> byte list) list"

record buf =
  bvalid :: bool
  bdisk :: bool
  bdev :: uint
  blockno :: uint
  refcnt :: uint

record vdiskst = slockst +
  bufs :: "nat \<Rightarrow> buf"
  lru :: "nat list"
  vq :: vqueue
  vdev :: "vqueue \<Rightarrow> vqueue"
  vfree :: "nat \<Rightarrow> bool"
  vused_idx :: ushort
  vinfo :: "nat \<Rightarrow> nat option"
  mmio_in :: "nat \<Rightarrow> uint"
  mmio_out :: "(nat \<times> uint) list"

definition upd_buf :: "nat \<Rightarrow> (buf \<Rightarrow> buf) \<Rightarrow> 'a vdiskst_scheme \<Rightarrow> 'a vdiskst_scheme" where
  "upd_buf b f s = s\<lparr>bufs := (bufs s)(b := f (bufs s b))\<rparr>"

definition upd_vq :: "(vqueue \<Rightarrow> vqueue) \<Rightarrow> 'a vdiskst_scheme \<Rightarrow> 'a vdiskst_scheme" where
  "upd_vq f s = s\<lparr>vq := f (vq s)\<rparr>"

definition mmio_write :: "nat \<Rightarrow> uint \<Rightarrow> 'a vdiskst_scheme \<Rightarrow> 'a vdiskst_scheme" where
  "mmio_write r v s = s\<lparr>mmio_out := mmio_out s @ [(r, v)]\<rparr>"

section \<open>Initialisation\<close>

text \<open>
  Register offsets: 0x000 magic, 0x004 version, 0x008 device, 0x00c vendor, 0x010 device features, 0x020
  driver features, 0x028 guest page size, 0x030 queue select, 0x034 largest queue, 0x038 queue size, 0x040
  queue page, 0x070 status. \<open>pages\<close> is the address of the two pages shared with the device.
\<close>

definition virtio_disk_init :: "addr \<Rightarrow> 'a vdiskst_scheme \<Rightarrow> kerr + 'a vdiskst_scheme" where
  "virtio_disk_init pages s =
     (let s = s\<lparr>lks := initlock VdiskLock ''virtio_disk'' (lks s)\<rparr>; r = mmio_in s in
      if r 0x000 \<noteq> 0x74726976 \<or> r 0x004 \<noteq> 1 \<or> r 0x008 \<noteq> 2 \<or> r 0x00c \<noteq> 0x554d4551
      then Inl (Panic ''could not find virtio disk'')
      else
        let s = mmio_write 0x070 1 s;
            s = mmio_write 0x070 3 s;
            features = r 0x010 AND NOT (push_bit 5 1) AND NOT (push_bit 7 1) AND NOT (push_bit 11 1)
              AND NOT (push_bit 12 1) AND NOT (push_bit 27 1) AND NOT (push_bit 29 1) AND NOT (push_bit 28 1);
            s = mmio_write 0x020 features s;
            s = mmio_write 0x070 11 s;
            s = mmio_write 0x070 15 s;
            s = mmio_write 0x028 4096 s;
            s = mmio_write 0x030 0 s
        in if r 0x034 = 0 then Inl (Panic ''virtio disk has no queue 0'')
           else if r 0x034 < 8 then Inl (Panic ''virtio disk max queue too short'')
           else
             let s = mmio_write 0x038 8 s;
                 s = upd_vq (\<lambda>q. q\<lparr>vdesc := (\<lambda>_. \<lparr>daddr = DNull, dlen = 0, dflags = 0, dnext = 0\<rparr>),
                       avail_ring := (\<lambda>_. 0), avail_idx := 0, used_ring := (\<lambda>_. 0), used_idx_dev := 0\<rparr>) s;
                 s = mmio_write 0x040 (ucast (drop_bit 12 pages)) s
             in Inr (s\<lparr>vfree := (\<lambda>i. i < NUM \<or> vfree s i)\<rparr>))"

section \<open>Descriptors\<close>

definition alloc_desc :: "'a vdiskst_scheme \<Rightarrow> nat option \<times> 'a vdiskst_scheme" where
  "alloc_desc s =
     (case scan (vfree s) 0 NUM of None \<Rightarrow> (None, s)
      | Some i \<Rightarrow> (Some i, s\<lparr>vfree := (vfree s)(i := False)\<rparr>))"

definition free_desc :: "nat \<Rightarrow> 'a vdiskst_scheme \<Rightarrow> kerr + 'a vdiskst_scheme" where
  "free_desc i s =
     (if i \<ge> NUM then Inl (Panic ''free_desc 1'')
      else if vfree s i then Inl (Panic ''free_desc 2'')
      else
        let s = upd_vq (\<lambda>q. q\<lparr>vdesc := (vdesc q)(i := \<lparr>daddr = DNull, dlen = 0, dflags = 0, dnext = 0\<rparr>)\<rparr>) s;
            s = s\<lparr>vfree := (vfree s)(i := True)\<rparr>
        in wakeup ChanDiskFree s)"

text \<open>
  \<^verbatim>\<open>free_chain\<close> follows the chain; a descriptor is freed once, so that a chain of more than \<^verbatim>\<open>NUM\<close> turns
  ends in a panic of \<^verbatim>\<open>free_desc\<close> and the bound \<open>NUM + 1\<close> is never used up.
\<close>

primrec free_chain_loop :: "nat \<Rightarrow> nat \<Rightarrow> 'a vdiskst_scheme \<Rightarrow> kerr + 'a vdiskst_scheme" where
  "free_chain_loop 0 i s = Inl (Hang ''free_chain'')"
| "free_chain_loop (Suc k) i s =
     (let flag = dflags (vdesc (vq s) i); nxt = dnext (vdesc (vq s) i)
      in bindE (free_desc i s) (\<lambda>s.
         if flag AND VRING_DESC_F_NEXT \<noteq> 0 then free_chain_loop k (unat nxt) s else Inr s))"

definition free_chain :: "nat \<Rightarrow> 'a vdiskst_scheme \<Rightarrow> kerr + 'a vdiskst_scheme" where
  "free_chain i s = free_chain_loop (Suc NUM) i s"

definition alloc3_desc :: "'a vdiskst_scheme \<Rightarrow> kerr + (nat \<times> nat \<times> nat) option \<times> 'a vdiskst_scheme" where
  "alloc3_desc s =
     (case alloc_desc s of (None, s) \<Rightarrow> Inr (None, s)
      | (Some i0, s) \<Rightarrow> (case alloc_desc s of
          (None, s) \<Rightarrow> bindE (free_desc i0 s) (\<lambda>s. Inr (None, s))
        | (Some i1, s) \<Rightarrow> (case alloc_desc s of
            (None, s) \<Rightarrow> bindE (free_desc i0 s) (\<lambda>s. bindE (free_desc i1 s) (\<lambda>s. Inr (None, s)))
          | (Some i2, s) \<Rightarrow> Inr (Some (i0, i1, i2), s))))"

section \<open>Requests\<close>

text \<open>The part of \<^verbatim>\<open>virtio_disk_rw\<close> that formats a request and hands it to the device.\<close>

definition virtio_submit :: "nat \<Rightarrow> bool \<Rightarrow> nat \<times> nat \<times> nat \<Rightarrow> 'a vdiskst_scheme \<Rightarrow> 'a vdiskst_scheme" where
  "virtio_submit b write idx s =
     (let (i0, i1, i2) = idx;
          sector = (ucast (blockno (bufs s b) * 2) :: uint64);
          s = upd_vq (\<lambda>q. q\<lparr>vops := (vops q)(i0 := \<lparr>rtype = (if write then VIRTIO_BLK_T_OUT else VIRTIO_BLK_T_IN),
                rreserved = 0, rsector = sector\<rparr>)\<rparr>) s;
          s = upd_vq (\<lambda>q. q\<lparr>vdesc := (vdesc q)(i0 := \<lparr>daddr = DOps i0, dlen = 16,
                dflags = VRING_DESC_F_NEXT, dnext = of_nat i1\<rparr>)\<rparr>) s;
          s = upd_vq (\<lambda>q. q\<lparr>vdesc := (vdesc q)(i1 := \<lparr>daddr = DData b, dlen = 1024,
                dflags = (if write then 0 else VRING_DESC_F_WRITE) OR VRING_DESC_F_NEXT, dnext = of_nat i2\<rparr>)\<rparr>) s;
          s = upd_vq (\<lambda>q. q\<lparr>vstatus := (vstatus q)(i0 := 0xff)\<rparr>) s;
          s = upd_vq (\<lambda>q. q\<lparr>vdesc := (vdesc q)(i2 := \<lparr>daddr = DStatus i0, dlen = 1,
                dflags = VRING_DESC_F_WRITE, dnext = 0\<rparr>)\<rparr>) s;
          s = upd_buf b (\<lambda>q. q\<lparr>bdisk := True\<rparr>) s;
          s = s\<lparr>vinfo := (vinfo s)(i0 := Some b)\<rparr>;
          s = upd_vq (\<lambda>q. q\<lparr>avail_ring := (avail_ring q)(unat (avail_idx q) mod NUM := of_nat i0)\<rparr>) s;
          s = upd_vq (\<lambda>q. q\<lparr>avail_idx := avail_idx q + 1\<rparr>) s
      in mmio_write 0x050 0 s)"

text \<open>
  The interrupt handler. Its loop runs once for each entry between the driver's index and the device's,
  which it does not change.
\<close>

primrec virtio_intr_loop :: "nat \<Rightarrow> 'a vdiskst_scheme \<Rightarrow> kerr + 'a vdiskst_scheme" where
  "virtio_intr_loop 0 s = Inr s"
| "virtio_intr_loop (Suc k) s =
     (let id = unat (used_ring (vq s) (unat (vused_idx s) mod NUM)) in
      if vstatus (vq s) id \<noteq> 0 then Inl (Panic ''virtio_disk_intr status'')
      else case vinfo s id of None \<Rightarrow> Inl (Fault ''virtio_disk_intr'')
      | Some b \<Rightarrow>
          bindE (wakeup (ChanBuf b) (upd_buf b (\<lambda>q. q\<lparr>bdisk := False\<rparr>) s)) (\<lambda>s.
          virtio_intr_loop k (s\<lparr>vused_idx := vused_idx s + 1\<rparr>)))"

definition virtio_disk_intr :: "'a vdiskst_scheme \<Rightarrow> kerr + 'a vdiskst_scheme" where
  "virtio_disk_intr s =
     bindE (lock VdiskLock s) (\<lambda>s.
     let s = mmio_write 0x064 (mmio_in s 0x060 AND 3) s in
     bindE (virtio_intr_loop (unat (used_idx_dev (vq s) - vused_idx s)) s) (unlock VdiskLock))"

text \<open>
  A process that waits for the disk sleeps with the driver's lock given up: the device serves what is
  queued, its interrupt is handled, and the process takes the lock again.
\<close>

definition virtio_wait :: "nat \<Rightarrow> 'a vdiskst_scheme \<Rightarrow> kerr + 'a vdiskst_scheme" where
  "virtio_wait b s =
     (if bdisk (bufs s b) then
        bindE (unlock VdiskLock s) (\<lambda>s.
        bindE (virtio_disk_intr (s\<lparr>vq := vdev s (vq s)\<rparr>)) (\<lambda>s.
        bindE (lock VdiskLock s) (\<lambda>s.
        if bdisk (bufs s b) then Inl (Wait (ChanBuf b)) else Inr s)))
      else Inr s)"

definition virtio_disk_rw :: "nat \<Rightarrow> bool \<Rightarrow> 'a vdiskst_scheme \<Rightarrow> kerr + 'a vdiskst_scheme" where
  "virtio_disk_rw b write s =
     bindE (lock VdiskLock s) (\<lambda>s.
     bindE (alloc3_desc s) (\<lambda>(idx, s).
     case idx of None \<Rightarrow> Inl (Wait ChanDiskFree)
     | Some (i0, i1, i2) \<Rightarrow>
         bindE (virtio_wait b (virtio_submit b write (i0, i1, i2) s)) (\<lambda>s.
         bindE (free_chain i0 (s\<lparr>vinfo := (vinfo s)(i0 := None)\<rparr>)) (unlock VdiskLock))))"

section \<open>The device\<close>

text \<open>What the device has stored at a sector: the latest write there, or what was in the image.\<close>

definition disk_block :: "vqueue \<Rightarrow> uint64 \<Rightarrow> byte list" where
  "disk_block q sec = (case find (\<lambda>w. fst w = sec) (rev (dwrites q)) of Some w \<Rightarrow> snd w | None \<Rightarrow> dimage q sec)"

text \<open>One request is waiting in the queue: its chain starts at \<open>h\<close> and moves the block at \<open>sec\<close> from or to buffer \<open>b\<close>.\<close>

definition pending_req :: "vqueue \<Rightarrow> nat \<Rightarrow> nat \<Rightarrow> bool \<Rightarrow> uint64 \<Rightarrow> bool" where
  "pending_req q h b w sec \<longleftrightarrow>
     h < NUM \<and> avail_idx q = used_idx_dev q + 1 \<and> avail_ring q (unat (used_idx_dev q) mod NUM) = of_nat h \<and>
     (let d0 = vdesc q h; d1 = vdesc q (unat (dnext d0)); d2 = vdesc q (unat (dnext d1)) in
      daddr d0 = DOps h \<and> dlen d0 = 16 \<and> dflags d0 = VRING_DESC_F_NEXT \<and>
      vops q h = \<lparr>rtype = (if w then VIRTIO_BLK_T_OUT else VIRTIO_BLK_T_IN), rreserved = 0, rsector = sec\<rparr> \<and>
      daddr d1 = DData b \<and> dlen d1 = 1024 \<and>
      dflags d1 = (if w then 0 else VRING_DESC_F_WRITE) OR VRING_DESC_F_NEXT \<and>
      daddr d2 = DStatus h \<and> dlen d2 = 1 \<and> dflags d2 = VRING_DESC_F_WRITE)"

text \<open>
  The documented behaviour of a virtio block device on such a queue: it moves the data, sets the status to 0,
  and puts the head of the chain into the used ring.
\<close>

definition serves :: "(vqueue \<Rightarrow> vqueue) \<Rightarrow> bool" where
  "serves dev \<longleftrightarrow> (\<forall>q h b w sec. pending_req q h b w sec \<longrightarrow>
     dev q = (if w then q\<lparr>dwrites := dwrites q @ [(sec, bdata q b)]\<rparr> else q\<lparr>bdata := (bdata q)(b := disk_block q sec)\<rparr>)
       \<lparr>vstatus := (vstatus q)(h := 0), used_ring := (used_ring q)(unat (used_idx_dev q) mod NUM := of_nat h),
        used_idx_dev := used_idx_dev q + 1\<rparr>)"

text \<open>A device that does this.\<close>

definition blk_device :: "vqueue \<Rightarrow> vqueue" where
  "blk_device q =
     (if avail_idx q = used_idx_dev q + 1 then
        let h = unat (avail_ring q (unat (used_idx_dev q) mod NUM)); sec = rsector (vops q h)
        in case daddr (vdesc q (unat (dnext (vdesc q h)))) of
             DData b \<Rightarrow>
               (if rtype (vops q h) = VIRTIO_BLK_T_OUT then q\<lparr>dwrites := dwrites q @ [(sec, bdata q b)]\<rparr>
                else q\<lparr>bdata := (bdata q)(b := disk_block q sec)\<rparr>)
               \<lparr>vstatus := (vstatus q)(h := 0), used_ring := (used_ring q)(unat (used_idx_dev q) mod NUM := of_nat h),
                used_idx_dev := used_idx_dev q + 1\<rparr>
           | _ \<Rightarrow> q
      else q)"

lemma serves_blk_device: "serves blk_device"
  unfolding serves_def
proof (intro allI impI)
  fix q h b w sec
  assume p: "pending_req q h b w sec"
  then have "unat (of_nat h :: ushort) = h" by (simp add: pending_req_def unat_of_nat)
  with p show "blk_device q =
      (if w then q\<lparr>dwrites := dwrites q @ [(sec, bdata q b)]\<rparr> else q\<lparr>bdata := (bdata q)(b := disk_block q sec)\<rparr>)
       \<lparr>vstatus := (vstatus q)(h := 0), used_ring := (used_ring q)(unat (used_idx_dev q) mod NUM := of_nat h),
        used_idx_dev := used_idx_dev q + 1\<rparr>"
    by (simp add: blk_device_def pending_req_def Let_def)
qed

section \<open>A whole request\<close>

text \<open>The state without the fields that the block layer works on.\<close>

definition derase :: "'a vdiskst_scheme \<Rightarrow> 'a vdiskst_scheme" where
  "derase s = s\<lparr>lks := lks0, procs := (\<lambda>_. undefined), slocks := (\<lambda>_. undefined), bufs := (\<lambda>_. undefined), lru := [],
     vq := undefined, vfree := (\<lambda>_. True), vused_idx := 0, vinfo := (\<lambda>_. None), mmio_out := []\<rparr>"

lemma derase_simps [simp]:
  "derase (s\<lparr>lks := l\<rparr>) = derase s" "derase (s\<lparr>procs := f\<rparr>) = derase s" "derase (s\<lparr>slocks := k\<rparr>) = derase s"
  "derase (s\<lparr>bufs := bf\<rparr>) = derase s" "derase (s\<lparr>lru := r\<rparr>) = derase s" "derase (s\<lparr>vq := q\<rparr>) = derase s"
  "derase (s\<lparr>vfree := vf\<rparr>) = derase s" "derase (s\<lparr>vused_idx := i\<rparr>) = derase s" "derase (s\<lparr>vinfo := vi\<rparr>) = derase s"
  "derase (s\<lparr>mmio_out := mo\<rparr>) = derase s"
  by (simp_all add: derase_def)

lemma derase_vdev: "derase s' = derase s \<Longrightarrow> vdev s' = vdev s"
  by (drule arg_cong [of _ _ vdev]) (simp add: derase_def)

definition disk_idle :: "'a vdiskst_scheme \<Rightarrow> bool" where
  "disk_idle s \<longleftrightarrow> quiet s \<and> (\<forall>i<NUM. vfree s i) \<and> avail_idx (vq s) = vused_idx s \<and> used_idx_dev (vq s) = vused_idx s \<and>
     serves (vdev s)"

text \<open>The parts of the shared memory that outlive a request.\<close>

definition stored :: "vqueue \<Rightarrow> (nat \<Rightarrow> byte list) \<times> (uint64 \<Rightarrow> byte list) \<times> (uint64 \<times> byte list) list" where
  "stored q = (bdata q, dimage q, dwrites q)"

lemma alloc3_idle:
  assumes "\<And>i. i < NUM \<Longrightarrow> vfree s i"
  shows "alloc3_desc s = Inr (Some (0, 1, 2), s\<lparr>vfree := (vfree s)(0 := False, 1 := False, 2 := False)\<rparr>)"
  using assms [of 0] assms [of 1] assms [of 2]
  by (simp add: alloc3_desc_def alloc_desc_def scan.simps numeral_2_eq_2)

lemma submit_idle:
  assumes "used_idx_dev (vq s) = avail_idx (vq s)" "s' = virtio_submit b w (0, 1, 2) s"
  shows "pending_req (vq s') 0 b w (ucast (blockno (bufs s b) * 2))" "stored (vq s') = stored (vq s)"
    "used_idx_dev (vq s') = used_idx_dev (vq s)" "avail_idx (vq s') = avail_idx (vq s) + 1"
    "dflags (vdesc (vq s') 0) = 1" "dnext (vdesc (vq s') 0) = 1" "dflags (vdesc (vq s') 1) AND 1 \<noteq> 0"
    "dnext (vdesc (vq s') 1) = 2" "dflags (vdesc (vq s') 2) = 2"
    "bufs s' = (bufs s)(b := (bufs s b)\<lparr>bdisk := True\<rparr>)" "vinfo s' = (vinfo s)(0 := Some b)"
    "lks s' = lks s" "procs s' = procs s" "slocks s' = slocks s" "lru s' = lru s" "vfree s' = vfree s"
    "vused_idx s' = vused_idx s" "derase s' = derase s"
  using assms
  by (simp_all add: virtio_submit_def upd_vq_def upd_buf_def mmio_write_def Let_def stored_def pending_req_def)

lemma free_desc_ok:
  assumes "i < NUM" "\<not> vfree s i" "\<And>p. lock_free (ProcLock p) (lks s)"
  shows "\<exists>f. procs_sim (procs s) f \<and> free_desc i s = Inr (s\<lparr>vq := (vq s)\<lparr>vdesc := (vdesc (vq s))(i := \<lparr>daddr = DNull, dlen = 0,
      dflags = 0, dnext = 0\<rparr>)\<rparr>, vfree := (vfree s)(i := True), procs := f, lks := settle (lks s)\<rparr>)"
proof -
  let ?s = "s\<lparr>vq := (vq s)\<lparr>vdesc := (vdesc (vq s))(i := \<lparr>daddr = DNull, dlen = 0, dflags = 0, dnext = 0\<rparr>)\<rparr>,
      vfree := (vfree s)(i := True)\<rparr>"
  have "\<exists>f. procs_sim (procs ?s) f \<and> wakeup ChanDiskFree ?s = Inr (?s\<lparr>procs := f, lks := settle (lks ?s)\<rparr>)"
    using assms(3) by (intro wakeup_quiet) simp
  then show ?thesis using assms(1,2) by (simp add: free_desc_def upd_vq_def)
qed

lemma free_chain3:
  assumes "dflags (vdesc (vq s) 0) = 1" "dnext (vdesc (vq s) 0) = 1" "dflags (vdesc (vq s) 1) AND 1 \<noteq> 0"
    "dnext (vdesc (vq s) 1) = 2" "dflags (vdesc (vq s) 2) = 2" "\<not> vfree s 0" "\<not> vfree s 1" "\<not> vfree s 2"
    "\<And>p. lock_free (ProcLock p) (lks s)"
  shows "\<exists>f q. procs_sim (procs s) f \<and> stored q = stored (vq s) \<and> used_idx_dev q = used_idx_dev (vq s) \<and>
    avail_idx q = avail_idx (vq s) \<and>
    free_chain 0 s = Inr (s\<lparr>vq := q, vfree := (vfree s)(0 := True, 1 := True, 2 := True), procs := f, lks := settle (lks s)\<rparr>)"
proof -
  obtain f1 where 1: "procs_sim (procs s) f1" "free_desc 0 s = Inr (s\<lparr>vq := (vq s)\<lparr>vdesc := (vdesc (vq s))(0 := \<lparr>daddr = DNull,
      dlen = 0, dflags = 0, dnext = 0\<rparr>)\<rparr>, vfree := (vfree s)(0 := True), procs := f1, lks := settle (lks s)\<rparr>)" (is "_ = Inr ?s1")
    using free_desc_ok [of 0 s] assms by auto
  obtain f2 where 2: "procs_sim f1 f2" "free_desc 1 ?s1 = Inr (?s1\<lparr>vq := (vq ?s1)\<lparr>vdesc := (vdesc (vq ?s1))(1 := \<lparr>daddr = DNull,
      dlen = 0, dflags = 0, dnext = 0\<rparr>)\<rparr>, vfree := (vfree ?s1)(1 := True), procs := f2, lks := settle (lks ?s1)\<rparr>)" (is "_ = Inr ?s2")
    using free_desc_ok [of 1 ?s1] assms by auto
  obtain f3 where 3: "procs_sim f2 f3" "free_desc 2 ?s2 = Inr (?s2\<lparr>vq := (vq ?s2)\<lparr>vdesc := (vdesc (vq ?s2))(2 := \<lparr>daddr = DNull,
      dlen = 0, dflags = 0, dnext = 0\<rparr>)\<rparr>, vfree := (vfree ?s2)(2 := True), procs := f3, lks := settle (lks ?s2)\<rparr>)" (is "_ = Inr ?s3")
    using free_desc_ok [of 2 ?s2] assms by auto
  have "free_chain 0 s = Inr ?s3"
  proof -
    have "free_chain_loop (Suc (Suc (Suc 6))) 0 s = Inr ?s3"
      unfolding free_chain_loop.simps(2) Let_def using assms 1(2) 2(2) 3(2) by (simp del: One_nat_def)
    then show ?thesis by (simp add: free_chain_def)
  qed
  moreover have "procs_sim (procs s) f3" using 1(1) 2(1) 3(1) procs_sim_trans by blast
  ultimately show ?thesis
    by (intro exI [of _ f3] exI [of _ "vq ?s3"]) (simp add: stored_def)
qed


lemma intr_one:
  assumes "lock_free VdiskLock (lks s)" "\<And>p. lock_free (ProcLock p) (lks s)" "used_idx_dev (vq s) = vused_idx s + 1"
    "used_ring (vq s) (unat (vused_idx s) mod NUM) = 0" "vstatus (vq s) 0 = 0" "vinfo s 0 = Some b"
  shows "\<exists>s'. virtio_disk_intr s = Inr s' \<and> derase s' = derase s \<and> lks s' = settle (lks s) \<and>
    procs_sim (procs s) (procs s') \<and> slocks s' = slocks s \<and> lru s' = lru s \<and> vq s' = vq s \<and> vfree s' = vfree s \<and>
    vinfo s' = vinfo s \<and> vused_idx s' = vused_idx s + 1 \<and> bufs s' = (bufs s)(b := (bufs s b)\<lparr>bdisk := False\<rparr>)"
proof -
  let ?s1 = "s\<lparr>lks := acq VdiskLock (lks s), mmio_out := mmio_out s @ [(0x064, mmio_in s 0x060 AND 3)]\<rparr>"
  let ?s2 = "upd_buf b (\<lambda>q. q\<lparr>bdisk := False\<rparr>) ?s1"
  obtain f where f: "procs_sim (procs s) f" "wakeup (ChanBuf b) ?s2 = Inr (?s2\<lparr>procs := f, lks := settle (lks ?s2)\<rparr>)"
    using wakeup_quiet [of ?s2 "ChanBuf b"] assms(2) by (auto simp: upd_buf_def)
  have "virtio_disk_intr s = unlock VdiskLock (?s2\<lparr>procs := f, lks := settle (lks ?s2), vused_idx := vused_idx s + 1\<rparr>)"
    using assms f(2) by (simp add: virtio_disk_intr_def lock_simps mmio_write_def Let_def upd_buf_def)
  also have "\<dots> = Inr (?s2\<lparr>procs := f, lks := settle (lks s), vused_idx := vused_idx s + 1\<rparr>)"
    using assms(1) by (simp add: upd_buf_def unlock_ok [of _ _ "lks s"])
  finally show ?thesis using f(1) by (simp add: upd_buf_def)
qed

lemma virtio_rw:
  fixes s :: "'a vdiskst_scheme"
  defines "sec \<equiv> \<lambda>b. ucast (blockno (bufs s b) * 2)"
  assumes "disk_idle s"
  shows "\<exists>s'. virtio_disk_rw b w s = Inr s' \<and> derase s' = derase s \<and> lks s' = settle (lks s) \<and>
    procs_sim (procs s) (procs s') \<and> slocks s' = slocks s \<and> lru s' = lru s \<and> disk_idle s' \<and>
    bufs s' = (bufs s)(b := (bufs s b)\<lparr>bdisk := False\<rparr>) \<and>
    stored (vq s') = (if w then (bdata (vq s), dimage (vq s), dwrites (vq s) @ [(sec b, bdata (vq s) b)])
      else ((bdata (vq s))(b := disk_block (vq s) (sec b)), dimage (vq s), dwrites (vq s)))"
proof -
  let ?V = VdiskLock
  have fr: "lock_free L (lks s)" for L using assms(2) by (simp add: disk_idle_def quiet_def)
  have ix: "avail_idx (vq s) = vused_idx s" "used_idx_dev (vq s) = vused_idx s" and vf: "\<And>i. i < NUM \<Longrightarrow> vfree s i"
    and dev: "serves (vdev s)" using assms(2) by (simp_all add: disk_idle_def)
  define s1 where "s1 = s\<lparr>lks := acq ?V (lks s), vfree := (vfree s)(0 := False, 1 := False, 2 := False)\<rparr>"
  define s2 where "s2 = virtio_submit b w (0, 1, 2) s1"
  have ix1: "used_idx_dev (vq s1) = avail_idx (vq s1)" by (simp add: s1_def ix)
  note sub = submit_idle [OF ix1 s2_def]
  have pend: "pending_req (vq s2) 0 b w (sec b)" using sub(1) by (simp add: s1_def sec_def)
  let ?q = "vdev s (vq s2)"
  have q: "?q = (if w then (vq s2)\<lparr>dwrites := dwrites (vq s2) @ [(sec b, bdata (vq s2) b)]\<rparr>
      else (vq s2)\<lparr>bdata := (bdata (vq s2))(b := disk_block (vq s2) (sec b))\<rparr>)
       \<lparr>vstatus := (vstatus (vq s2))(0 := 0), used_ring := (used_ring (vq s2))(unat (used_idx_dev (vq s2)) mod NUM := of_nat 0),
        used_idx_dev := used_idx_dev (vq s2) + 1\<rparr>"
    using dev pend unfolding serves_def by blast
  have qs: "stored ?q = (if w then (bdata (vq s), dimage (vq s), dwrites (vq s) @ [(sec b, bdata (vq s) b)])
      else ((bdata (vq s))(b := disk_block (vq s) (sec b)), dimage (vq s), dwrites (vq s)))"
  proof -
    have st: "bdata (vq s2) = bdata (vq s)" "dimage (vq s2) = dimage (vq s)" "dwrites (vq s2) = dwrites (vq s)"
      using sub(2) by (simp_all add: stored_def s1_def)
    have "disk_block (vq s2) = disk_block (vq s)" by (intro ext) (simp only: disk_block_def st)
    with st show ?thesis by (simp add: q stored_def)
  qed
  have qi: "used_idx_dev ?q = vused_idx s + 1" "avail_idx ?q = vused_idx s + 1" "vdesc ?q = vdesc (vq s2)"
      "vstatus ?q 0 = 0" "used_ring ?q (unat (vused_idx s) mod NUM) = 0"
    using sub(3,4) by (simp_all add: q s1_def ix)
  have vdev2: "vdev s2 = vdev s" using derase_vdev [OF sub(18)] by (simp add: s1_def)
  define s3 where "s3 = s2\<lparr>lks := settle (lks s), vq := ?q\<rparr>"
  have "\<exists>s4. virtio_disk_intr s3 = Inr s4 \<and> derase s4 = derase s3 \<and> lks s4 = settle (lks s3) \<and>
    procs_sim (procs s3) (procs s4) \<and> slocks s4 = slocks s3 \<and> lru s4 = lru s3 \<and> vq s4 = vq s3 \<and> vfree s4 = vfree s3 \<and>
    vinfo s4 = vinfo s3 \<and> vused_idx s4 = vused_idx s3 + 1 \<and> bufs s4 = (bufs s3)(b := (bufs s3 b)\<lparr>bdisk := False\<rparr>)"
    using qi sub(11,17) fr by (intro intr_one) (simp_all add: s3_def s1_def)
  then obtain s4 where s4: "virtio_disk_intr s3 = Inr s4" "derase s4 = derase s" "lks s4 = settle (lks s)"
    "procs_sim (procs s) (procs s4)" "slocks s4 = slocks s" "lru s4 = lru s" "vq s4 = ?q"
    "vfree s4 = (vfree s)(0 := False, 1 := False, 2 := False)"
    "vused_idx s4 = vused_idx s + 1" "bufs s4 = (bufs s)(b := (bufs s b)\<lparr>bdisk := False\<rparr>)"
    using sub by (auto simp: s3_def s1_def)
  have wait: "virtio_wait b s2 = Inr (s4\<lparr>lks := acq ?V (lks s)\<rparr>)"
  proof -
    have "lks s2 = acq ?V (lks s)" using sub(12) by (simp add: s1_def)
    then have "unlock ?V s2 = Inr (s2\<lparr>lks := settle (lks s)\<rparr>)" using fr by (intro unlock_ok)
    moreover have "lock ?V s4 = Inr (s4\<lparr>lks := acq ?V (lks s)\<rparr>)" using fr s4(3) by (simp add: lock_ok)
    ultimately show ?thesis using s4(1,10) sub(10) vdev2 by (simp add: virtio_wait_def s3_def)
  qed
  let ?s5 = "s4\<lparr>lks := acq ?V (lks s), vinfo := (vinfo s4)(0 := None)\<rparr>"
  obtain f q' where c: "procs_sim (procs s4) f" "stored q' = stored ?q" "used_idx_dev q' = vused_idx s + 1"
      "avail_idx q' = vused_idx s + 1"
      "free_chain 0 ?s5 = Inr (?s5\<lparr>vq := q', vfree := (vfree ?s5)(0 := True, 1 := True, 2 := True), procs := f, lks := settle (lks ?s5)\<rparr>)"
    using free_chain3 [of ?s5] sub(5-9) qi s4(7,8) fr by auto
  have vf': "(vfree ?s5)(0 := True, 1 := True, 2 := True) = vfree s"
    using vf [of 0] vf [of 1] vf [of 2] by (auto simp: s4(8) fun_eq_iff)
  let ?s6 = "?s5\<lparr>vq := q', vfree := vfree s, procs := f, lks := settle (lks s)\<rparr>"
  have a3: "alloc3_desc (s\<lparr>lks := acq ?V (lks s)\<rparr>) = Inr (Some (0, 1, 2), s1)"
    using vf by (simp add: alloc3_idle s1_def)
  have "unlock ?V (?s5\<lparr>vq := q', vfree := vfree s, procs := f, lks := settle (lks ?s5)\<rparr>) = Inr ?s6"
    using fr by (simp add: unlock_ok [of _ _ "lks s"])
  then have run: "virtio_disk_rw b w s = Inr ?s6"
    using wait c(5) vf' a3 fr by (simp add: virtio_disk_rw_def lock_ok s2_def)
  have "disk_idle ?s6"
    using c(3,4) s4(9) vf dev derase_vdev [OF s4(2)] fr by (simp add: disk_idle_def quiet_def)
  then show ?thesis
    using run s4 c(1,2) qs procs_sim_trans [OF s4(4) c(1)] by (intro exI [of _ ?s6]) simp
qed


definition vdisk_st0 :: vdiskst where
  "vdisk_st0 = slockst.extend
     (pipest.extend (pipe_st0 (\<lambda>_. 0)) (slockst.fields (\<lambda>_. \<lparr>slocked = False, slname = [], slpid = 0\<rparr>)))
     (vdiskst.fields (\<lambda>_. \<lparr>bvalid = False, bdisk = False, bdev = 0, blockno = 0, refcnt = 0\<rparr>) [0..<NBUF]
       \<lparr>vdesc = (\<lambda>_. \<lparr>daddr = DNull, dlen = 0, dflags = 0, dnext = 0\<rparr>), avail_ring = (\<lambda>_. 0), avail_idx = 0,
        used_ring = (\<lambda>_. 0), used_idx_dev = 0, vops = (\<lambda>_. \<lparr>rtype = 0, rreserved = 0, rsector = 0\<rparr>), vstatus = (\<lambda>_. 0),
        bdata = (\<lambda>_. replicate BSIZE 0), dimage = (\<lambda>_. replicate BSIZE 0), dwrites = []\<rparr>
       blk_device (\<lambda>_. True) 0 (\<lambda>_. None) (\<lambda>_. 0) [])"

lemma vdisk_st0_fields [simp]:
  "lks vdisk_st0 = set_cproc (Some 1) lks0" "slocks vdisk_st0 = (\<lambda>_. \<lparr>slocked = False, slname = [], slpid = 0\<rparr>)"
  "bufs vdisk_st0 = (\<lambda>_. \<lparr>bvalid = False, bdisk = False, bdev = 0, blockno = 0, refcnt = 0\<rparr>)" "lru vdisk_st0 = [0..<NBUF]"
  "bdata (vq vdisk_st0) = (\<lambda>_. replicate BSIZE 0)" "dimage (vq vdisk_st0) = (\<lambda>_. replicate BSIZE 0)"
  "dwrites (vq vdisk_st0) = []"
  by (simp_all add: vdisk_st0_def slockst.defs pipest.defs vdiskst.defs)

lemma vdisk_st0_idle: "disk_idle vdisk_st0"
  unfolding disk_idle_def quiet_def
  by (simp add: serves_blk_device vdisk_st0_def slockst.defs pipest.defs vdiskst.defs)


end
