(* ===== verification/Bio.thy ===== *)
theory Bio
  imports Virtio
begin

unbundle bit_operations_syntax

text \<open>
  The buffer cache (\<^verbatim>\<open>kernel/bio.c\<close>). The list through \<^verbatim>\<open>next\<close> and \<^verbatim>\<open>prev\<close> is the list \<open>lru\<close> of the buffers in the
  order of \<^verbatim>\<open>next\<close>, which \<^verbatim>\<open>prev\<close> runs through backwards.
\<close>

section \<open>Operations\<close>

definition binit :: "'a vdiskst_scheme \<Rightarrow> 'a vdiskst_scheme" where
  "binit s =
     fold (\<lambda>b s. let s = initsleeplock (BufLk b) ''buffer'' s in s\<lparr>lru := b # lru s\<rparr>) [0..<NBUF]
       (s\<lparr>lks := initlock BcacheLock ''bcache'' (lks s), lru := []\<rparr>)"

definition bget :: "uint \<Rightarrow> uint \<Rightarrow> 'a vdiskst_scheme \<Rightarrow> kerr + nat \<times> 'a vdiskst_scheme" where
  "bget dev n s =
     bindE (lock BcacheLock s) (\<lambda>s.
     case find (\<lambda>b. bdev (bufs s b) = dev \<and> blockno (bufs s b) = n) (lru s) of
       Some b \<Rightarrow>
         bindE (unlock BcacheLock (upd_buf b (\<lambda>q. q\<lparr>refcnt := refcnt q + 1\<rparr>) s)) (\<lambda>s.
         bindE (acquiresleep (BufLk b) s) (\<lambda>s. Inr (b, s)))
     | None \<Rightarrow>
         (case find (\<lambda>b. refcnt (bufs s b) = 0) (rev (lru s)) of
            Some b \<Rightarrow>
              bindE (unlock BcacheLock
                (upd_buf b (\<lambda>q. q\<lparr>bdev := dev, blockno := n, bvalid := False, refcnt := 1\<rparr>) s)) (\<lambda>s.
              bindE (acquiresleep (BufLk b) s) (\<lambda>s. Inr (b, s)))
          | None \<Rightarrow> Inl (Panic ''bget: no buffers'')))"

definition bread :: "uint \<Rightarrow> uint \<Rightarrow> 'a vdiskst_scheme \<Rightarrow> kerr + nat \<times> 'a vdiskst_scheme" where
  "bread dev n s =
     bindE (bget dev n s) (\<lambda>(b, s).
     if \<not> bvalid (bufs s b)
     then bindE (virtio_disk_rw b False s) (\<lambda>s. Inr (b, upd_buf b (\<lambda>q. q\<lparr>bvalid := True\<rparr>) s))
     else Inr (b, s))"

definition bwrite :: "nat \<Rightarrow> 'a vdiskst_scheme \<Rightarrow> kerr + 'a vdiskst_scheme" where
  "bwrite b s =
     bindE (holdingsleep (BufLk b) s) (\<lambda>(h, s).
     if \<not> h then Inl (Panic ''bwrite'') else virtio_disk_rw b True s)"

definition brelse :: "nat \<Rightarrow> 'a vdiskst_scheme \<Rightarrow> kerr + 'a vdiskst_scheme" where
  "brelse b s =
     bindE (holdingsleep (BufLk b) s) (\<lambda>(h, s).
     if \<not> h then Inl (Panic ''brelse'')
     else
       bindE (releasesleep (BufLk b) s) (\<lambda>s.
       bindE (lock BcacheLock s) (\<lambda>s.
       let s = upd_buf b (\<lambda>q. q\<lparr>refcnt := refcnt q - 1\<rparr>) s;
           s = (if refcnt (bufs s b) = 0 then s\<lparr>lru := b # remove1 b (lru s)\<rparr> else s)
       in unlock BcacheLock s)))"

definition bpin :: "nat \<Rightarrow> 'a vdiskst_scheme \<Rightarrow> kerr + 'a vdiskst_scheme" where
  "bpin b s =
     bindE (lock BcacheLock s) (\<lambda>s. unlock BcacheLock (upd_buf b (\<lambda>q. q\<lparr>refcnt := refcnt q + 1\<rparr>) s))"

definition bunpin :: "nat \<Rightarrow> 'a vdiskst_scheme \<Rightarrow> kerr + 'a vdiskst_scheme" where
  "bunpin b s =
     bindE (lock BcacheLock s) (\<lambda>s. unlock BcacheLock (upd_buf b (\<lambda>q. q\<lparr>refcnt := refcnt q - 1\<rparr>) s))"

section \<open>Data of a buffer\<close>

definition buf_data :: "nat \<Rightarrow> 'a vdiskst_scheme \<Rightarrow> byte list" where
  "buf_data b s = bdata (vq s) b"

definition set_data :: "nat \<Rightarrow> byte list \<Rightarrow> 'a vdiskst_scheme \<Rightarrow> 'a vdiskst_scheme" where
  "set_data b xs s = upd_vq (\<lambda>q. q\<lparr>bdata := (bdata q)(b := xs)\<rparr>) s"

text \<open>The bytes from an offset on, read and replaced; integers in them.\<close>

definition patch :: "nat \<Rightarrow> 'b list \<Rightarrow> 'b list \<Rightarrow> 'b list" where
  "patch i ys xs = take i xs @ ys @ drop (i + length ys) xs"

definition slice :: "nat \<Rightarrow> nat \<Rightarrow> 'b list \<Rightarrow> 'b list" where
  "slice i n xs = take n (drop i xs)"

definition get32 :: "byte list \<Rightarrow> nat \<Rightarrow> uint" where
  "get32 xs i = le_dec (slice i 4 xs)"

definition get16 :: "byte list \<Rightarrow> nat \<Rightarrow> ushort" where
  "get16 xs i = le_dec (slice i 2 xs)"

definition get64 :: "byte list \<Rightarrow> nat \<Rightarrow> uint64" where
  "get64 xs i = le_dec (slice i 8 xs)"

definition put32 :: "nat \<Rightarrow> uint \<Rightarrow> byte list \<Rightarrow> byte list" where
  "put32 i v xs = patch i (le_enc 4 v) xs"

lemma length_patch [simp]: "i + length ys \<le> length xs \<Longrightarrow> length (patch i ys xs) = length xs"
  by (simp add: patch_def)

lemma slice_patch_same [simp]: "i + length ys \<le> length xs \<Longrightarrow> n = length ys \<Longrightarrow> slice i n (patch i ys xs) = ys"
  by (simp add: patch_def slice_def)

lemma slice_patch_other:
  assumes "i + length ys \<le> length xs" "j + n \<le> i \<or> i + length ys \<le> j"
  shows "slice j n (patch i ys xs) = slice j n xs"
proof (rule nth_equalityI)
  show l: "length (slice j n (patch i ys xs)) = length (slice j n xs)"
    using assms(1) by (simp add: slice_def)
  fix k assume "k < length (slice j n (patch i ys xs))"
  then have "k < n" "j + k < length xs" using l by (auto simp: slice_def)
  with assms show "slice j n (patch i ys xs) ! k = slice j n xs ! k"
    by (auto simp: slice_def patch_def nth_append)
qed

lemma get32_put32_same [simp]: "i + 4 \<le> length xs \<Longrightarrow> get32 (put32 i v xs) i = v"
  by (simp add: get32_def put32_def)

lemma get32_put32_other: "i + 4 \<le> length xs \<Longrightarrow> j + 4 \<le> i \<or> i + 4 \<le> j \<Longrightarrow> get32 (put32 i v xs) j = get32 xs j"
  by (simp add: get32_def put32_def slice_patch_other)

lemma length_put32 [simp]: "i + 4 \<le> length xs \<Longrightarrow> length (put32 i v xs) = length xs"
  by (simp add: put32_def)

end
