(* ===== verification/Bcache.thy ===== *)
theory Bcache
  imports Bio
begin

unbundle bit_operations_syntax

text \<open>
  What the buffer cache of \<^verbatim>\<open>kernel/bio.c\<close> promises to the log and the file system: an abstract cache, the
  relation between it and the buffers, and one simulation lemma per operation. The interface is the locale
  \<open>block_cache\<close>; its laws are discharged for \<^verbatim>\<open>bread\<close>, \<^verbatim>\<open>bwrite\<close>, \<^verbatim>\<open>brelse\<close> and \<^verbatim>\<open>bunpin\<close>, and the copies between
  blocks that the log makes are proved from the laws.
\<close>

section \<open>What the cache promises\<close>

text \<open>
  The abstract cache: the contents of every block as the kernel sees it, how many references there are to
  the buffer of a block, which blocks the process holds, and the disk: its image and the writes to it. Block
  numbers are below \<open>2 ^ 31\<close>, so that the sector of a block fits its 32-bit product.
\<close>

record cache =
  cview :: "uint \<Rightarrow> byte list"
  cref :: "uint \<Rightarrow> nat"
  cheld :: "uint set"
  cimg :: "uint64 \<Rightarrow> byte list"
  cwr :: "(uint64 \<times> byte list) list"

definition sector :: "uint \<Rightarrow> uint64" where
  "sector n = ucast (n * 2)"

definition small :: "uint \<Rightarrow> bool" where
  "small n \<longleftrightarrow> unat n < 2 ^ 31"

definition last_write :: "(uint64 \<Rightarrow> byte list) \<Rightarrow> (uint64 \<times> byte list) list \<Rightarrow> uint64 \<Rightarrow> byte list" where
  "last_write im ws k = (case find (\<lambda>w. fst w = k) (rev ws) of Some w \<Rightarrow> snd w | None \<Rightarrow> im k)"

definition on_disk :: "cache \<Rightarrow> uint \<Rightarrow> byte list" where
  "on_disk a n = last_write (cimg a) (cwr a) (sector n)"

definition c_get :: "uint \<Rightarrow> cache \<Rightarrow> cache" where
  "c_get n a = a\<lparr>cref := (cref a)(n := Suc (cref a n)), cheld := insert n (cheld a)\<rparr>"

definition c_set :: "uint \<Rightarrow> byte list \<Rightarrow> cache \<Rightarrow> cache" where
  "c_set n d a = a\<lparr>cview := (cview a)(n := d)\<rparr>"

definition c_write :: "uint \<Rightarrow> cache \<Rightarrow> cache" where
  "c_write n a = a\<lparr>cwr := cwr a @ [(sector n, cview a n)]\<rparr>"

definition c_pin :: "uint \<Rightarrow> cache \<Rightarrow> cache" where
  "c_pin n a = a\<lparr>cref := (cref a)(n := Suc (cref a n))\<rparr>"

definition c_unpin :: "uint \<Rightarrow> cache \<Rightarrow> cache" where
  "c_unpin n a = a\<lparr>cref := (cref a)(n := cref a n - 1)\<rparr>"

definition c_rel :: "uint \<Rightarrow> cache \<Rightarrow> cache" where
  "c_rel n a = a\<lparr>cref := (cref a)(n := cref a n - 1), cheld := cheld a - {n}\<rparr>"

lemmas c_defs = c_get_def c_set_def c_write_def c_pin_def c_unpin_def c_rel_def

lemma unat_double: "small n \<Longrightarrow> unat (n * 2) = 2 * unat n"
  by (simp add: small_def unat_word_ariths)

lemma sector_inj: "small n \<Longrightarrow> small m \<Longrightarrow> sector n = sector m \<longleftrightarrow> n = m"
proof
  assume "small n" "small m" "sector n = sector m"
  have up: "unat (ucast x :: uint64) = unat x" for x :: uint
    using unsigned_less [of x, where 'a = nat] by (simp add: unsigned_ucast_eq take_bit_nat_eq_self)
  have "unat (n * 2) = unat (m * 2)"
    using arg_cong [OF \<open>sector n = sector m\<close>, of unat] by (simp add: sector_def up)
  then show "n = m" using \<open>small n\<close> \<open>small m\<close> by (simp add: unat_double word_unat_eq_iff)
qed simp

lemma last_write_append [simp]: "last_write im (ws @ [(k, d)]) j = (if j = k then d else last_write im ws j)"
  by (simp add: last_write_def)

lemma on_disk_write:
  "small n \<Longrightarrow> small m \<Longrightarrow> on_disk (c_write n a) m = (if m = n then cview a n else on_disk a m)"
  by (simp add: on_disk_def c_write_def sector_inj)

lemma on_disk_other [simp]:
  "on_disk (c_get n a) = on_disk a" "on_disk (c_set n d a) = on_disk a" "on_disk (c_pin n a) = on_disk a"
  "on_disk (c_unpin n a) = on_disk a" "on_disk (c_rel n a) = on_disk a"
  by (simp_all add: on_disk_def c_defs fun_eq_iff)

text \<open>Buffer \<open>b\<close> is that of block \<open>n\<close>.\<close>

definition holder :: "'a vdiskst_scheme \<Rightarrow> uint \<Rightarrow> nat \<Rightarrow> bool" where
  "holder s n b \<longleftrightarrow> b < NBUF \<and> bdev (bufs s b) = 1 \<and> blockno (bufs s b) = n"

text \<open>The state of one buffer \<open>b\<close>, that of block \<open>n\<close>.\<close>

definition buf_ok :: "nat \<Rightarrow> cache \<Rightarrow> 'a vdiskst_scheme \<Rightarrow> uint \<Rightarrow> nat \<Rightarrow> bool" where
  "buf_ok p a s n b \<longleftrightarrow>
     small n \<and> unat (refcnt (bufs s b)) = cref a n \<and> (slocked (slocks s (BufLk b)) \<longleftrightarrow> n \<in> cheld a) \<and>
     (n \<in> cheld a \<longrightarrow> slpid (slocks s (BufLk b)) = pid (procs s p) \<and> 0 < cref a n) \<and>
     (bvalid (bufs s b) \<longrightarrow> bdata (vq s) b = cview a n) \<and>
     (\<not> bvalid (bufs s b) \<or> cref a n = 0 \<longrightarrow> cview a n = on_disk a n)"

definition cached0 :: "nat \<Rightarrow> cache \<Rightarrow> 'a vdiskst_scheme \<Rightarrow> bool" where
  "cached0 p a s \<longleftrightarrow>
     disk_idle s \<and> cproc (mycpu (lks s)) = Some p \<and> set (lru s) = {..<NBUF} \<and>
     cwr a = dwrites (vq s) \<and> cimg a = dimage (vq s) \<and>
     (\<forall>b<NBUF. bdev (bufs s b) \<noteq> 1 \<longrightarrow> refcnt (bufs s b) = 0 \<and> \<not> slocked (slocks s (BufLk b))) \<and>
     (\<forall>n b c. holder s n b \<and> holder s n c \<longrightarrow> b = c) \<and>
     (\<forall>n b. holder s n b \<longrightarrow> buf_ok p a s n b) \<and>
     (\<forall>n. small n \<and> (\<forall>b. \<not> holder s n b) \<longrightarrow> cref a n = 0 \<and> n \<notin> cheld a \<and> cview a n = on_disk a n)"

text \<open>The cache in memory implements the abstract one; the buffers that are held have been read.\<close>

definition cached :: "nat \<Rightarrow> cache \<Rightarrow> 'a vdiskst_scheme \<Rightarrow> bool" where
  "cached p a s \<longleftrightarrow> cached0 p a s \<and> (\<forall>n b. holder s n b \<and> n \<in> cheld a \<longrightarrow> bvalid (bufs s b))"

section \<open>The operations implement it\<close>

lemma on_disk_block: "cwr a = dwrites q \<Longrightarrow> cimg a = dimage q \<Longrightarrow> on_disk a n = disk_block q (ucast (n * 2))"
  by (simp add: on_disk_def last_write_def disk_block_def sector_def)

lemma cached0D:
  assumes "cached0 p a s"
  shows "disk_idle s" "quiet s" "cproc (mycpu (lks s)) = Some p" "set (lru s) = {..<NBUF}"
    "cwr a = dwrites (vq s)" "cimg a = dimage (vq s)"
    "\<And>b. b < NBUF \<Longrightarrow> bdev (bufs s b) \<noteq> 1 \<Longrightarrow> refcnt (bufs s b) = 0 \<and> \<not> slocked (slocks s (BufLk b))"
    "\<And>n b c. holder s n b \<Longrightarrow> holder s n c \<Longrightarrow> b = c"
    "\<And>n b. holder s n b \<Longrightarrow> buf_ok p a s n b"
    "\<And>n. small n \<Longrightarrow> (\<And>b. \<not> holder s n b) \<Longrightarrow> cref a n = 0 \<and> n \<notin> cheld a \<and> cview a n = on_disk a n"
  using assms unfolding cached0_def disk_idle_def by blast+

lemma cached0I:
  assumes "disk_idle s" "cproc (mycpu (lks s)) = Some p" "set (lru s) = {..<NBUF}"
    "cwr a = dwrites (vq s)" "cimg a = dimage (vq s)"
    "\<And>b. b < NBUF \<Longrightarrow> bdev (bufs s b) \<noteq> 1 \<Longrightarrow> refcnt (bufs s b) = 0 \<and> \<not> slocked (slocks s (BufLk b))"
    "\<And>n b c. holder s n b \<Longrightarrow> holder s n c \<Longrightarrow> b = c"
    "\<And>n b. holder s n b \<Longrightarrow> buf_ok p a s n b"
    "\<And>n. small n \<Longrightarrow> (\<And>b. \<not> holder s n b) \<Longrightarrow> cref a n = 0 \<and> n \<notin> cheld a \<and> cview a n = on_disk a n"
  shows "cached0 p a s"
proof -
  have "\<forall>n b c. holder s n b \<and> holder s n c \<longrightarrow> b = c" using assms(7) by blast
  moreover have "\<forall>n. small n \<and> (\<forall>b. \<not> holder s n b) \<longrightarrow> cref a n = 0 \<and> n \<notin> cheld a \<and> cview a n = on_disk a n"
    using assms(9) by blast
  ultimately show ?thesis unfolding cached0_def using assms(1-6,8) by simp
qed

lemma disk_idle_cong:
  assumes "disk_idle s" "quiet s'" "vfree s' = vfree s" "avail_idx (vq s') = avail_idx (vq s)"
    "used_idx_dev (vq s') = used_idx_dev (vq s)" "vused_idx s' = vused_idx s" "vdev s' = vdev s"
  shows "disk_idle s'"
  using assms by (simp add: disk_idle_def)

text \<open>A free buffer exists as long as fewer blocks are referenced than there are buffers.\<close>

lemma free_buf:
  assumes "cached0 p a s" "card {m. cref a m \<noteq> 0} < NBUF"
  shows "\<exists>b<NBUF. refcnt (bufs s b) = 0"
proof (rule ccontr)
  assume *: "\<not> ?thesis"
  note D = cached0D [OF assms(1)]
  have h: "holder s (blockno (bufs s b)) b" if "b < NBUF" for b
    using * D(7) that by (auto simp: holder_def)
  have "inj_on (\<lambda>b. blockno (bufs s b)) {..<NBUF}"
  proof (rule inj_onI)
    fix b c assume "b \<in> {..<NBUF}" "c \<in> {..<NBUF}" "blockno (bufs s b) = blockno (bufs s c)"
    then show "b = c" using h [of b] h [of c] by (intro D(8) [of "blockno (bufs s b)"]) simp_all
  qed
  moreover have "(\<lambda>b. blockno (bufs s b)) ` {..<NBUF} \<subseteq> {m. cref a m \<noteq> 0}"
  proof (rule image_subsetI)
    fix b assume "b \<in> {..<NBUF}"
    then have "buf_ok p a s (blockno (bufs s b)) b" "refcnt (bufs s b) \<noteq> 0" using h D(9) * by auto
    then show "blockno (bufs s b) \<in> {m. cref a m \<noteq> 0}" unfolding buf_ok_def using unat_eq_zero by force
  qed
  ultimately have "card {..<NBUF} \<le> card {m. cref a m \<noteq> 0}" by (intro card_inj_on_le) auto
  then show False using assms(2) by simp
qed

lemma find_set: "(\<exists>x\<in>set xs. P x) \<Longrightarrow> \<exists>x. find P xs = Some x \<and> x \<in> set xs \<and> P x"
  by (cases "find P xs") (auto simp: find_None_iff find_Some_iff)

text \<open>The buffer that \<^verbatim>\<open>bget\<close> chooses, and what it makes of it.\<close>

lemma bget_run:
  assumes "quiet s" "cproc (mycpu (lks s)) = Some p" "\<not> slocked (slocks s (BufLk b))"
    "find (\<lambda>b. bdev (bufs s b) = dev \<and> blockno (bufs s b) = n) (lru s) = r"
    "r = Some b \<and> q = (bufs s b)\<lparr>refcnt := refcnt (bufs s b) + 1\<rparr> \<or>
     r = None \<and> find (\<lambda>b. refcnt (bufs s b) = 0) (rev (lru s)) = Some b \<and>
       q = (bufs s b)\<lparr>bdev := dev, blockno := n, bvalid := False, refcnt := 1\<rparr>"
  shows "bget dev n s = Inr (b, s\<lparr>bufs := (bufs s)(b := q),
      slocks := (slocks s)(BufLk b := (slocks s (BufLk b))\<lparr>slocked := True, slpid := pid (procs s p)\<rparr>), lks := settle (lks s)\<rparr>)"
proof -
  have fr: "lock_free L (lks s)" for L using quietD [OF assms(1)] .
  have u: "unlock BcacheLock (s\<lparr>lks := acq BcacheLock (lks s), bufs := (bufs s)(b := q)\<rparr>) =
      Inr (s\<lparr>bufs := (bufs s)(b := q), lks := settle (lks s)\<rparr>)"
    using fr by (simp add: unlock_ok [of _ _ "lks s"])
  have a: "acquiresleep (BufLk b) (s\<lparr>bufs := (bufs s)(b := q), lks := settle (lks s)\<rparr>) =
      Inr (s\<lparr>bufs := (bufs s)(b := q),
      slocks := (slocks s)(BufLk b := (slocks s (BufLk b))\<lparr>slocked := True, slpid := pid (procs s p)\<rparr>), lks := settle (lks s)\<rparr>)"
    using assms(1-3) by (subst acquiresleep_quiet [of _ p]) (simp_all add: quiet_def)
  have l: "lock BcacheLock s = Inr (s\<lparr>lks := acq BcacheLock (lks s)\<rparr>)" using fr by (simp add: lock_ok)
  from assms(5) show ?thesis
  proof (elim disjE conjE)
    assume "r = Some b" and q: "q = (bufs s b)\<lparr>refcnt := refcnt (bufs s b) + 1\<rparr>"
    then have "find (\<lambda>b. bdev (bufs s b) = dev \<and> blockno (bufs s b) = n) (lru s) = Some b" using assms(4) by simp
    then show ?thesis using u a by (simp add: bget_def l upd_buf_def q [symmetric])
  next
    assume "r = None" and f: "find (\<lambda>b. refcnt (bufs s b) = 0) (rev (lru s)) = Some b"
      and q: "q = (bufs s b)\<lparr>bdev := dev, blockno := n, bvalid := False, refcnt := 1\<rparr>"
    then have "find (\<lambda>b. bdev (bufs s b) = dev \<and> blockno (bufs s b) = n) (lru s) = None" using assms(4) by simp
    then show ?thesis using u a f by (simp add: bget_def l upd_buf_def q [symmetric])
  qed
qed

text \<open>A step that works on one buffer, that of block \<open>n\<close>, and changes the abstract cache at \<open>n\<close> only.\<close>

lemma cached0_step:
  assumes "cached0 p a s" "b < NBUF"
    and "disk_idle s'" "cproc (mycpu (lks s')) = Some p" "set (lru s') = {..<NBUF}"
      "cwr a' = dwrites (vq s')" "cimg a' = dimage (vq s')" "pid (procs s' p) = pid (procs s p)"
    and other: "\<And>c. c \<noteq> b \<Longrightarrow> bufs s' c = bufs s c \<and> slocks s' (BufLk c) = slocks s (BufLk c) \<and> bdata (vq s') c = bdata (vq s) c"
    and new: "bdev (bufs s' b) = 1" "blockno (bufs s' b) = n" "buf_ok p a' s' n b"
    and uniq: "\<And>c. c \<noteq> b \<Longrightarrow> \<not> holder s n c"
    and rest: "\<And>m. m \<noteq> n \<Longrightarrow> small m \<Longrightarrow> cref a' m = cref a m \<and> (m \<in> cheld a' \<longleftrightarrow> m \<in> cheld a) \<and>
      cview a' m = cview a m \<and> on_disk a' m = on_disk a m"
    and evict: "\<And>m. holder s m b \<Longrightarrow> m \<noteq> n \<Longrightarrow> cref a m = 0"
  shows "cached0 p a' s'"
proof -
  note D = cached0D [OF assms(1)]
  have hn: "holder s' n c \<longleftrightarrow> c = b" for c
    using new uniq [of c] other [of c] assms(2) by (cases "c = b") (simp_all add: holder_def)
  have hm: "holder s' m c \<longleftrightarrow> c \<noteq> b \<and> holder s m c" if "m \<noteq> n" for m c
    using new other [of c] that by (cases "c = b") (simp_all add: holder_def)
  have ok: "buf_ok p a' s' m c" if "holder s' m c" for m c
  proof (cases "m = n")
    case True
    then show ?thesis using that new(3) hn by simp
  next
    case False
    then have c: "c \<noteq> b" "buf_ok p a s m c" using that hm D(9) by auto
    then have "small m" by (simp add: buf_ok_def)
    then show ?thesis using c rest [OF False] other [OF c(1)] assms(8) by (simp add: buf_ok_def)
  qed
  have none: "cref a' m = 0 \<and> m \<notin> cheld a' \<and> cview a' m = on_disk a' m" if "small m" "\<And>c. \<not> holder s' m c" for m
  proof -
    have mn: "m \<noteq> n" using that(2) [of b] hn by auto
    have "cref a m = 0 \<and> m \<notin> cheld a \<and> cview a m = on_disk a m"
    proof (cases "holder s m b")
      case True
      then show ?thesis using evict [OF True mn] D(9) [OF True] by (simp add: buf_ok_def)
    next
      case False
      then have "\<not> holder s m c" for c using that(2) [of c] hm [OF mn, of c] by auto
      then show ?thesis using D(10) [OF that(1)] by blast
    qed
    then show ?thesis using rest [OF mn that(1)] by simp
  qed
  show ?thesis
  proof (rule cached0I [OF assms(3-7) _ _ ok none])
    show "refcnt (bufs s' c) = 0 \<and> \<not> slocked (slocks s' (BufLk c))" if "c < NBUF" "bdev (bufs s' c) \<noteq> 1" for c
      using that new(1) other [of c] D(7) [of c] by (cases "c = b") simp_all
    show "c = d" if "holder s' m c" "holder s' m d" for m c d
      using that hn [of c] hn [of d] hm [of m c] hm [of m d] D(8) [of m c d] by (cases "m = n") simp_all
  qed
qed

text \<open>The frame of the buffer layer: nothing above it changes, nor do the processes but for wake-ups.\<close>

definition bframe :: "'a vdiskst_scheme \<Rightarrow> 'a vdiskst_scheme \<Rightarrow> bool" where
  "bframe s s' \<longleftrightarrow> derase s' = derase s \<and> procs_sim (procs s) (procs s') \<and> settle (lks s') = settle (lks s) \<and>
     (\<forall>k. (\<forall>b. k \<noteq> BufLk b) \<longrightarrow> slocks s' k = slocks s k)"

lemma bframe_trans: "bframe s s' \<Longrightarrow> bframe s' s'' \<Longrightarrow> bframe s s''"
  unfolding bframe_def using procs_sim_trans by fastforce

text \<open>Buffers that are referred to stay with their block.\<close>

definition bkeep :: "cache \<Rightarrow> 'a vdiskst_scheme \<Rightarrow> 'a vdiskst_scheme \<Rightarrow> bool" where
  "bkeep a s s' \<longleftrightarrow> bframe s s' \<and> (\<forall>n b. holder s n b \<and> 0 < cref a n \<longrightarrow> holder s' n b)"

lemma bget_cached:
  assumes "cached p a s" "small n" "n \<notin> cheld a" "cref a n < 2 ^ 31" "cref a n \<noteq> 0 \<or> card {m. cref a m \<noteq> 0} < NBUF"
  shows "\<exists>b s'. bget 1 n s = Inr (b, s') \<and> cached0 p (c_get n a) s' \<and> holder s' n b \<and> bkeep a s s' \<and>
    (\<forall>m c. holder s' m c \<and> m \<in> cheld a \<longrightarrow> bvalid (bufs s' c))"
proof -
  have c0: "cached0 p a s" and val: "\<And>m c. holder s m c \<Longrightarrow> m \<in> cheld a \<Longrightarrow> bvalid (bufs s c)"
    using assms(1) by (auto simp: cached_def)
  note D = cached0D [OF c0]
  let ?P = "\<lambda>b. bdev (bufs s b) = 1 \<and> blockno (bufs s b) = n"
  define r where "r = find ?P (lru s)"
  have "\<exists>b q. b < NBUF \<and> (r = Some b \<and> q = (bufs s b)\<lparr>refcnt := refcnt (bufs s b) + 1\<rparr> \<or>
     r = None \<and> find (\<lambda>b. refcnt (bufs s b) = 0) (rev (lru s)) = Some b \<and>
       q = (bufs s b)\<lparr>bdev := 1, blockno := n, bvalid := False, refcnt := 1\<rparr>)"
  proof (cases r)
    case None
    then have nh: "\<not> holder s n b" for b using D(4) by (auto simp: r_def find_None_iff holder_def)
    then have "cref a n = 0" using D(10) [OF assms(2)] by blast
    then obtain b where "b < NBUF" "refcnt (bufs s b) = 0" using free_buf [OF c0] assms(5) by blast
    then have "\<exists>b\<in>set (rev (lru s)). refcnt (bufs s b) = 0" using D(4) by auto
    from find_set [OF this] None show ?thesis using D(4) by auto
  next
    case (Some b)
    then have "b \<in> set (lru s)" by (auto simp: r_def find_Some_iff)
    then show ?thesis using Some D(4) by auto
  qed
  then obtain b q where b: "b < NBUF" and q: "r = Some b \<and> q = (bufs s b)\<lparr>refcnt := refcnt (bufs s b) + 1\<rparr> \<or>
     r = None \<and> find (\<lambda>b. refcnt (bufs s b) = 0) (rev (lru s)) = Some b \<and>
       q = (bufs s b)\<lparr>bdev := 1, blockno := n, bvalid := False, refcnt := 1\<rparr>" by blast
  have sl: "\<not> slocked (slocks s (BufLk b))"
    using q
  proof (elim disjE conjE)
    assume "r = Some b"
    then have "holder s n b" using b by (auto simp: r_def find_Some_iff holder_def)
    then show ?thesis using D(9) assms(3) by (auto simp: buf_ok_def)
  next
    assume "find (\<lambda>b. refcnt (bufs s b) = 0) (rev (lru s)) = Some b"
    then have "refcnt (bufs s b) = 0" by (auto simp: find_Some_iff)
    then show ?thesis using D(7) [OF b] D(9) [of "blockno (bufs s b)" b] b
      by (cases "bdev (bufs s b) = 1") (auto simp: buf_ok_def holder_def)
  qed
  let ?s = "s\<lparr>bufs := (bufs s)(b := q),
      slocks := (slocks s)(BufLk b := (slocks s (BufLk b))\<lparr>slocked := True, slpid := pid (procs s p)\<rparr>), lks := settle (lks s)\<rparr>"
  have run: "bget 1 n s = Inr (b, ?s)" using bget_run [OF D(2,3) sl r_def [symmetric] q] .
  have rc: "unat (refcnt q) = Suc (cref a n) \<and> bdev q = 1 \<and> blockno q = n \<and> (bvalid q \<longrightarrow> holder s n b \<and> bvalid (bufs s b)) \<and>
      (\<forall>c. c \<noteq> b \<longrightarrow> \<not> holder s n c) \<and> (\<forall>m. holder s m b \<and> m \<noteq> n \<longrightarrow> cref a m = 0)"
    using q
  proof (elim disjE conjE)
    assume r: "r = Some b" and q: "q = (bufs s b)\<lparr>refcnt := refcnt (bufs s b) + 1\<rparr>"
    then have h: "holder s n b" using b by (auto simp: r_def find_Some_iff holder_def)
    then have "unat (refcnt (bufs s b)) = cref a n" using D(9) by (simp add: buf_ok_def)
    moreover from this have "unat (refcnt (bufs s b) + 1) = Suc (cref a n)" using assms(4) by (simp add: unat_word_ariths)
    moreover have "\<forall>c. c \<noteq> b \<longrightarrow> \<not> holder s n c" using D(8) [OF h] by blast
    moreover have "\<forall>m. holder s m b \<and> m \<noteq> n \<longrightarrow> cref a m = 0" using h by (simp add: holder_def)
    ultimately show ?thesis using h by (simp add: q) (simp add: holder_def)
  next
    assume r: "r = None" and q: "q = (bufs s b)\<lparr>bdev := 1, blockno := n, bvalid := False, refcnt := 1\<rparr>"
      and f: "find (\<lambda>b. refcnt (bufs s b) = 0) (rev (lru s)) = Some b"
    have nh: "\<not> holder s n c" for c using r D(4) by (auto simp: r_def find_None_iff holder_def)
    have "refcnt (bufs s b) = 0" using f by (auto simp: find_Some_iff)
    then have "cref a m = 0" if "holder s m b" for m using D(9) [OF that] by (simp add: buf_ok_def)
    then show ?thesis using nh D(10) [OF assms(2) nh] by (simp add: q)
  qed
  have idle: "disk_idle ?s" using D(1,2) by (intro disk_idle_cong [OF D(1)]) (simp_all add: quiet_def)
  have vw: "bvalid q \<longrightarrow> bdata (vq s) b = cview a n"
    using rc D(9) [of n b] by (auto simp: buf_ok_def)
  have od: "\<not> bvalid q \<longrightarrow> cview a n = on_disk a n"
  proof (cases "holder s n b")
    case True
    then have "r \<noteq> None" using D(4) by (auto simp: r_def find_None_iff holder_def)
    then have "q = (bufs s b)\<lparr>refcnt := refcnt (bufs s b) + 1\<rparr>" using q by auto
    then show ?thesis using D(9) [OF True] by (simp add: buf_ok_def)
  next
    case False
    then have "\<not> holder s n c" for c using rc by auto
    then show ?thesis using D(10) [OF assms(2)] by blast
  qed
  have "cached0 p (c_get n a) ?s"
    by (rule cached0_step [OF c0 b idle, where n = n])
      (use D(3-6) rc vw od assms(2) in \<open>simp_all add: c_get_def buf_ok_def on_disk_def\<close>)
  moreover have "holder ?s n b" using b rc by (simp add: holder_def)
  moreover have "bkeep a s ?s" using rc by (auto simp: bkeep_def bframe_def holder_def)
  moreover have "bvalid (bufs ?s c)" if "holder ?s m c" "m \<in> cheld a" for m c
  proof -
    have "c \<noteq> b" using that assms(3) rc by (auto simp: holder_def)
    then show ?thesis using that val [of m c] by (simp add: holder_def)
  qed
  ultimately show ?thesis using run by blast
qed

lemma bread_cached:
  assumes "cached p a s" "small n" "n \<notin> cheld a" "cref a n < 2 ^ 31" "cref a n \<noteq> 0 \<or> card {m. cref a m \<noteq> 0} < NBUF"
  shows "\<exists>b s'. bread 1 n s = Inr (b, s') \<and> cached p (c_get n a) s' \<and> holder s' n b \<and> bkeep a s s'"
proof -
  obtain b s1 where 1: "bget 1 n s = Inr (b, s1)" "cached0 p (c_get n a) s1" "holder s1 n b" "bkeep a s s1"
    "\<And>m c. holder s1 m c \<Longrightarrow> m \<in> cheld a \<Longrightarrow> bvalid (bufs s1 c)" using bget_cached [OF assms] by blast
  note D = cached0D [OF 1(2)]
  have ch: "cheld (c_get n a) = insert n (cheld a)" by (simp add: c_get_def)
  have uq: "c = b" if "holder s1 n c" for c using D(8) [OF that 1(3)] .
  show ?thesis
  proof (cases "bvalid (bufs s1 b)")
    case True
    have "cached p (c_get n a) s1" unfolding cached_def ch using 1(2,5) True uq by auto
    then show ?thesis using 1 True by (simp add: bread_def)
  next
    case False
    obtain s2 where 2: "virtio_disk_rw b False s1 = Inr s2" "derase s2 = derase s1" "lks s2 = settle (lks s1)"
      "procs_sim (procs s1) (procs s2)" "slocks s2 = slocks s1" "lru s2 = lru s1" "disk_idle s2"
      "bufs s2 = (bufs s1)(b := (bufs s1 b)\<lparr>bdisk := False\<rparr>)"
      "stored (vq s2) = ((bdata (vq s1))(b := disk_block (vq s1) (ucast (blockno (bufs s1 b) * 2))), dimage (vq s1), dwrites (vq s1))"
      using virtio_rw [OF D(1), of b False] by auto
    let ?s = "upd_buf b (\<lambda>q. q\<lparr>bvalid := True\<rparr>) s2"
    have bn: "b < NBUF" "blockno (bufs s1 b) = n" "bdev (bufs s1 b) = 1" using 1(3) by (simp_all add: holder_def)
    have ok: "buf_ok p (c_get n a) s1 n b" using D(9) 1(3) .
    have db: "disk_block (vq s1) (ucast (n * 2)) = cview (c_get n a) n"
      using ok False on_disk_block [OF D(5,6), of n] by (simp add: buf_ok_def)
    have st: "bdata (vq s2) = (bdata (vq s1))(b := cview (c_get n a) n)" "dimage (vq s2) = dimage (vq s1)" "dwrites (vq s2) = dwrites (vq s1)"
      using 2(9) db by (simp_all add: stored_def bn)
    have hold: "holder ?s m c = holder s1 m c" for m c by (simp add: holder_def upd_buf_def 2(8))
    have idle: "disk_idle ?s" using 2(7) by (simp add: disk_idle_def quiet_def upd_buf_def)
    have "cached0 p (c_get n a) ?s"
    proof (rule cached0_step [OF 1(2) bn(1) idle, where n = n])
      show "buf_ok p (c_get n a) ?s n b"
        using ok by (simp add: buf_ok_def upd_buf_def 2(5,8) st procs_sim_pid [OF 2(4)] c_get_def)
      show "\<not> holder s1 n c" if "c \<noteq> b" for c using uq that by blast
      show "cref (c_get n a) m = 0" if "holder s1 m b" "m \<noteq> n" for m using that bn by (simp add: holder_def)
    qed (use D bn in \<open>simp_all add: upd_buf_def 2(3,5,6,8) st procs_sim_pid [OF 2(4)]\<close>)
    moreover have "bvalid (bufs ?s c)" if "holder ?s m c" "m \<in> cheld (c_get n a)" for m c
      using that 1(5) [of m c] uq unfolding hold ch by (cases "c = b") (auto simp: upd_buf_def 2(8))
    ultimately have "cached p (c_get n a) ?s" unfolding cached_def by blast
    moreover have "bkeep a s ?s"
      using 1(4) hold 2(2-5) procs_sim_trans [OF _ 2(4)] by (auto simp: bkeep_def bframe_def upd_buf_def)
    moreover have "bread 1 n s = Inr (b, ?s)" using 1(1) 2(1) False by (simp add: bread_def)
    ultimately show ?thesis using 1(3) hold by blast
  qed
qed

lemma buf_data_cached: "cached p a s \<Longrightarrow> holder s n b \<Longrightarrow> n \<in> cheld a \<Longrightarrow> buf_data b s = cview a n"
  unfolding cached_def buf_data_def using cached0D(9) [of p a s n b] by (auto simp: buf_ok_def)

text \<open>A held buffer is that of exactly one block.\<close>

lemma heldD:
  assumes "cached p a s" "holder s n b" "n \<in> cheld a"
  shows "b < NBUF" "blockno (bufs s b) = n" "bdev (bufs s b) = 1" "buf_ok p a s n b" "bvalid (bufs s b)" "small n"
    "slocked (slocks s (BufLk b))" "slpid (slocks s (BufLk b)) = pid (procs s p)"
    "\<And>c. c \<noteq> b \<Longrightarrow> \<not> holder s n c" "\<And>m. holder s m b \<Longrightarrow> m \<noteq> n \<Longrightarrow> cref a m = 0" "0 < cref a n"
proof -
  have c0: "cached0 p a s" using assms(1) by (simp add: cached_def)
  show ok: "buf_ok p a s n b" using cached0D(9) [OF c0 assms(2)] .
  show "b < NBUF" "blockno (bufs s b) = n" "bdev (bufs s b) = 1" using assms(2) by (simp_all add: holder_def)
  then show "\<And>m. holder s m b \<Longrightarrow> m \<noteq> n \<Longrightarrow> cref a m = 0" by (simp add: holder_def)
  show "bvalid (bufs s b)" using assms by (auto simp: cached_def)
  show "small n" "slocked (slocks s (BufLk b))" "slpid (slocks s (BufLk b)) = pid (procs s p)" "0 < cref a n"
    using ok assms(3) by (simp_all add: buf_ok_def)
  show "\<not> holder s n c" if "c \<noteq> b" for c using cached0D(8) [OF c0 assms(2)] that by blast
qed

lemma set_data_cached:
  assumes "cached p a s" "holder s n b" "n \<in> cheld a"
  shows "cached p (c_set n d a) (set_data b d s)" "holder (set_data b d s) = holder s" "bkeep a s (set_data b d s)"
proof -
  have c0: "cached0 p a s" using assms(1) by (simp add: cached_def)
  note D = cached0D [OF c0] and H = heldD [OF assms]
  let ?s = "set_data b d s"
  have idle: "disk_idle ?s" using D(1) by (simp add: disk_idle_def quiet_def set_data_def upd_vq_def)
  have "cached0 p (c_set n d a) ?s"
    by (rule cached0_step [OF c0 H(1) idle, where n = n])
      (use D H assms(3) in \<open>simp_all add: set_data_def upd_vq_def c_set_def buf_ok_def on_disk_def\<close>)
  moreover show h: "holder ?s = holder s" by (simp add: holder_def fun_eq_iff set_data_def upd_vq_def)
  ultimately show "cached p (c_set n d a) ?s"
    using assms(1) by (simp add: cached_def set_data_def upd_vq_def c_set_def)
  show "bkeep a s ?s" using h by (simp add: bkeep_def bframe_def) (simp add: set_data_def upd_vq_def)
qed

lemma bwrite_cached:
  assumes "cached p a s" "holder s n b" "n \<in> cheld a"
  shows "\<exists>s'. bwrite b s = Inr s' \<and> cached p (c_write n a) s' \<and> holder s' = holder s \<and> bkeep a s s'"
proof -
  have c0: "cached0 p a s" using assms(1) by (simp add: cached_def)
  note D = cached0D [OF c0] and H = heldD [OF assms]
  let ?s1 = "s\<lparr>lks := settle (lks s)\<rparr>"
  have idle1: "disk_idle ?s1" using D(1,2) by (simp add: disk_idle_def quiet_def)
  obtain s2 where 2: "virtio_disk_rw b True ?s1 = Inr s2" "derase s2 = derase s" "lks s2 = settle (lks s)"
      "procs_sim (procs s) (procs s2)" "slocks s2 = slocks s" "lru s2 = lru s" "disk_idle s2"
      "bufs s2 = (bufs s)(b := (bufs s b)\<lparr>bdisk := False\<rparr>)"
      "stored (vq s2) = (bdata (vq s), dimage (vq s), dwrites (vq s) @ [(ucast (blockno (bufs s b) * 2), bdata (vq s) b)])"
    using virtio_rw [OF idle1, of b True] by auto
  have run: "bwrite b s = Inr s2" using 2(1) H(7,8) by (simp add: bwrite_def holdingsleep_quiet [OF D(2,3)])
  have v: "bdata (vq s) b = cview a n" using H(4,5) by (simp add: buf_ok_def)
  have st: "bdata (vq s2) = bdata (vq s)" "dimage (vq s2) = dimage (vq s)" "dwrites (vq s2) = dwrites (vq s) @ [(sector n, cview a n)]"
    using 2(9) v by (simp_all add: stored_def H(2) sector_def)
  have "cached0 p (c_write n a) s2"
  proof (rule cached0_step [OF c0 H(1) 2(7), where n = n])
    show "buf_ok p (c_write n a) s2 n b"
      using H(4,5,11) assms(3) by (simp add: buf_ok_def 2(5,8) st procs_sim_pid [OF 2(4)] c_write_def)
    show "cref (c_write n a) m = cref a m \<and> (m \<in> cheld (c_write n a) \<longleftrightarrow> m \<in> cheld a) \<and>
      cview (c_write n a) m = cview a m \<and> on_disk (c_write n a) m = on_disk a m" if "m \<noteq> n" "small m" for m
      using on_disk_write [OF H(6) that(2), of a] that by (simp add: c_write_def)
  qed (use D H(1-3,9,10) in \<open>simp_all add: 2(3,5,6,8) st procs_sim_pid [OF 2(4)] c_write_def\<close>)
  moreover have h: "holder s2 = holder s" by (simp add: holder_def fun_eq_iff 2(8))
  moreover have "bvalid (bufs s2 c) = bvalid (bufs s c)" for c by (simp add: 2(8))
  ultimately have "cached p (c_write n a) s2" using assms(1) by (simp add: cached_def c_write_def)
  then show ?thesis using run h 2(2-5) by (simp add: bkeep_def bframe_def)
qed

text \<open>A reference is given up only when another one is left, or what the kernel sees is on the disk.\<close>

definition settled :: "cache \<Rightarrow> uint \<Rightarrow> bool" where
  "settled a n \<longleftrightarrow> cref a n \<noteq> 1 \<or> cview a n = on_disk a n"

lemma unat_minus_one_ref: "0 < unat (w :: uint) \<Longrightarrow> unat (w - 1) = unat w - 1"
  by (metis One_nat_def Suc_leI less_not_refl unat_0 unat_minus_one)

lemma ref_step:
  assumes "cached p a s" "holder s n b" "unat (refcnt q) = k" "q = (bufs s b)\<lparr>refcnt := refcnt q\<rparr>"
    "n \<in> cheld a \<longrightarrow> 0 < k" "k = 0 \<longrightarrow> cview a n = on_disk a n"
  shows "cached p (a\<lparr>cref := (cref a)(n := k)\<rparr>) (s\<lparr>bufs := (bufs s)(b := q), lks := settle (lks s)\<rparr>)"
    "holder (s\<lparr>bufs := (bufs s)(b := q), lks := settle (lks s)\<rparr>) = holder s"
    "bkeep a s (s\<lparr>bufs := (bufs s)(b := q), lks := settle (lks s)\<rparr>)"
proof -
  have c0: "cached0 p a s" using assms(1) by (simp add: cached_def)
  note D = cached0D [OF c0]
  let ?s = "s\<lparr>bufs := (bufs s)(b := q), lks := settle (lks s)\<rparr>"
  let ?a = "a\<lparr>cref := (cref a)(n := k)\<rparr>"
  have qf: "bdev q = bdev (bufs s b)" "blockno q = blockno (bufs s b)" "bvalid q = bvalid (bufs s b)"
    using arg_cong [OF assms(4), of bdev] arg_cong [OF assms(4), of blockno] arg_cong [OF assms(4), of bvalid] by simp_all
  have ok: "buf_ok p a s n b" using D(9) assms(2) .
  have idle: "disk_idle ?s" using D(1,2) by (simp add: disk_idle_def quiet_def)
  have b: "b < NBUF" "bdev (bufs s b) = 1" "blockno (bufs s b) = n" using assms(2) by (simp_all add: holder_def)
  have ok': "buf_ok p ?a ?s n b"
    using ok assms(5,6) by (auto simp: buf_ok_def assms(3) qf on_disk_def)
  have "cached0 p ?a ?s"
  proof (rule cached0_step [OF c0 b(1) idle, where n = n])
    show "buf_ok p ?a ?s n b" by (rule ok')
    show "\<not> holder s n c" if "c \<noteq> b" for c using D(8) [OF assms(2)] that by blast
    show "cref a m = 0" if "holder s m b" "m \<noteq> n" for m using that b by (simp add: holder_def)
  qed (use D b in \<open>simp_all add: qf on_disk_def\<close>)
  moreover show h: "holder ?s = holder s" by (auto simp: holder_def fun_eq_iff qf)
  moreover have "bvalid (bufs ?s c) = bvalid (bufs s c)" for c by (simp add: qf)
  ultimately show "cached p ?a ?s" using assms(1) by (simp add: cached_def)
  show "bkeep a s ?s" using h by (simp add: bkeep_def bframe_def)
qed

lemma bpin_cached:
  assumes "cached p a s" "holder s n b" "cref a n < 2 ^ 31"
  shows "\<exists>s'. bpin b s = Inr s' \<and> cached p (c_pin n a) s' \<and> holder s' = holder s \<and> bkeep a s s'"
proof -
  have c0: "cached0 p a s" using assms(1) by (simp add: cached_def)
  note D = cached0D [OF c0]
  let ?q = "(bufs s b)\<lparr>refcnt := refcnt (bufs s b) + 1\<rparr>"
  have "unat (refcnt (bufs s b)) = cref a n" using D(9) [OF assms(2)] by (simp add: buf_ok_def)
  then have "unat (refcnt ?q) = Suc (cref a n)" using assms(3) by (simp add: unat_word_ariths)
  then have r: "cached p (c_pin n a) (s\<lparr>bufs := (bufs s)(b := ?q), lks := settle (lks s)\<rparr>)"
    "holder (s\<lparr>bufs := (bufs s)(b := ?q), lks := settle (lks s)\<rparr>) = holder s"
    "bkeep a s (s\<lparr>bufs := (bufs s)(b := ?q), lks := settle (lks s)\<rparr>)"
    using ref_step [OF assms(1,2), of ?q "Suc (cref a n)"] by (simp_all add: c_pin_def)
  have fr: "lock_free L (lks s)" for L using quietD [OF D(2)] .
  have "bpin b s = Inr (s\<lparr>bufs := (bufs s)(b := ?q), lks := settle (lks s)\<rparr>)"
    using fr by (simp add: bpin_def lock_ok upd_buf_def unlock_ok [of _ _ "lks s"])
  with r show ?thesis by blast
qed

lemma bunpin_cached:
  assumes "cached p a s" "holder s n b" "n \<in> cheld a \<longrightarrow> 1 < cref a n" "0 < cref a n" "settled a n"
  shows "\<exists>s'. bunpin b s = Inr s' \<and> cached p (c_unpin n a) s' \<and> holder s' = holder s \<and> bkeep a s s'"
proof -
  have c0: "cached0 p a s" using assms(1) by (simp add: cached_def)
  note D = cached0D [OF c0]
  let ?q = "(bufs s b)\<lparr>refcnt := refcnt (bufs s b) - 1\<rparr>"
  have u: "unat (refcnt (bufs s b)) = cref a n" using D(9) [OF assms(2)] by (simp add: buf_ok_def)
  then have "unat (refcnt ?q) = cref a n - 1" using unat_minus_one_ref [of "refcnt (bufs s b)"] assms(4) by simp
  then have r: "cached p (c_unpin n a) (s\<lparr>bufs := (bufs s)(b := ?q), lks := settle (lks s)\<rparr>)"
    "holder (s\<lparr>bufs := (bufs s)(b := ?q), lks := settle (lks s)\<rparr>) = holder s"
    "bkeep a s (s\<lparr>bufs := (bufs s)(b := ?q), lks := settle (lks s)\<rparr>)"
    using ref_step [OF assms(1,2), of ?q "cref a n - 1"] assms(3-5) by (auto simp: c_unpin_def settled_def)
  have fr: "lock_free L (lks s)" for L using quietD [OF D(2)] .
  have "bunpin b s = Inr (s\<lparr>bufs := (bufs s)(b := ?q), lks := settle (lks s)\<rparr>)"
    using fr by (simp add: bunpin_def lock_ok upd_buf_def unlock_ok [of _ _ "lks s"])
  with r show ?thesis by blast
qed

lemma brelse_cached:
  assumes "cached p a s" "holder s n b" "n \<in> cheld a" "settled a n"
  shows "\<exists>s'. brelse b s = Inr s' \<and> cached p (c_rel n a) s' \<and> holder s' = holder s \<and> bkeep a s s'"
proof -
  have c0: "cached0 p a s" using assms(1) by (simp add: cached_def)
  note D = cached0D [OF c0] and H = heldD [OF assms(1-3)]
  have fr: "lock_free L (lks s)" for L using quietD [OF D(2)] .
  let ?f = "woken (sl_chan (BufLk b)) (Some p) [0..<NPROC] (procs s)"
  let ?s1 = "s\<lparr>lks := settle (lks s)\<rparr>"
  let ?q = "(bufs s b)\<lparr>refcnt := refcnt (bufs s b) - 1\<rparr>"
  let ?sl = "(slocks s)(BufLk b := (slocks s (BufLk b))\<lparr>slocked := False, slpid := 0\<rparr>)"
  define r where "r = (if refcnt ?q = 0 then b # remove1 b (lru s) else lru s)"
  let ?s = "s\<lparr>slocks := ?sl, procs := ?f, bufs := (bufs s)(b := ?q), lru := r, lks := settle (lks s)\<rparr>"
  have "quiet ?s1" using fr by simp
  then have rel: "releasesleep (BufLk b) ?s1 = Inr (s\<lparr>slocks := ?sl, procs := ?f, lks := settle (lks s)\<rparr>)"
    using D(3) by (simp add: releasesleep_quiet)
  have run: "brelse b s = Inr ?s"
    using rel fr H(7,8)
    by (cases "refcnt (bufs s b) = 1")
      (simp_all add: brelse_def holdingsleep_quiet [OF D(2,3)] lock_ok upd_buf_def Let_def r_def unlock_ok [of _ _ "lks s"])
  have "unat (refcnt (bufs s b)) = cref a n" using H(4) by (simp add: buf_ok_def)
  then have u: "unat (refcnt ?q) = cref a n - 1" using unat_minus_one_ref [of "refcnt (bufs s b)"] H(11) by simp
  have lr: "set r = {..<NBUF}" using D(4) H(1) by (auto simp: r_def notin_set_remove1 dest: in_set_remove1 [THEN iffD2, rotated])
  have idle: "disk_idle ?s" using D(1,2) by (simp add: disk_idle_def quiet_def)
  have pd: "pid (woken ch m ps (procs s) p) = pid (procs s p)" for ch m ps using procs_sim_pid [OF procs_sim_woken] .
  have "cached0 p (c_rel n a) ?s"
  proof (rule cached0_step [OF c0 H(1) idle, where n = n])
    show "buf_ok p (c_rel n a) ?s n b"
      using H(4,5,11) u assms(4) by (auto simp: buf_ok_def c_rel_def on_disk_def settled_def)
  qed (use D H(1-3,9,10) lr in \<open>simp_all add: pd c_rel_def on_disk_def\<close>)
  moreover have h: "holder ?s = holder s" by (auto simp: holder_def fun_eq_iff)
  moreover have "bvalid (bufs ?s c) = bvalid (bufs s c)" for c by simp
  ultimately have "cached p (c_rel n a) ?s" using assms(1) by (simp add: cached_def c_rel_def) blast
  then show ?thesis using run h by (simp add: bkeep_def bframe_def)
qed

section \<open>The interface\<close>

lemma cached_view: "cached p a s \<Longrightarrow> small n \<Longrightarrow> cref a n = 0 \<Longrightarrow> cview a n = on_disk a n"
  unfolding cached_def using cached0D(9,10) [of p a s] by (cases "\<exists>b. holder s n b") (auto simp: buf_ok_def)

lemma cached_ref: "cached p a s \<Longrightarrow> small n \<Longrightarrow> n \<in> cheld a \<Longrightarrow> 0 < cref a n"
  unfolding cached_def using cached0D(9,10) [of p a s] by (cases "\<exists>b. holder s n b") (auto simp: buf_ok_def)

lemma bkeep_trans:
  "bkeep a s s' \<Longrightarrow> bkeep a' s' s'' \<Longrightarrow> (\<And>n. 0 < cref a n \<Longrightarrow> 0 < cref a' n) \<Longrightarrow> bkeep a s s''"
  unfolding bkeep_def using bframe_trans by blast

text \<open>What a client must know to get a block.\<close>

definition free_for :: "cache \<Rightarrow> uint \<Rightarrow> bool" where
  "free_for a n \<longleftrightarrow> small n \<and> n \<notin> cheld a \<and> cref a n < 2 ^ 31 \<and> (cref a n \<noteq> 0 \<or> card {m. cref a m \<noteq> 0} < NBUF)"

locale block_cache =
  fixes R :: "nat \<Rightarrow> cache \<Rightarrow> 's \<Rightarrow> bool"
    and H :: "'s \<Rightarrow> uint \<Rightarrow> nat \<Rightarrow> bool"
    and K :: "cache \<Rightarrow> 's \<Rightarrow> 's \<Rightarrow> bool"
    and get :: "uint \<Rightarrow> 's \<Rightarrow> kerr + nat \<times> 's"
    and dat :: "nat \<Rightarrow> 's \<Rightarrow> byte list"
    and upd :: "nat \<Rightarrow> byte list \<Rightarrow> 's \<Rightarrow> 's"
    and wr :: "nat \<Rightarrow> 's \<Rightarrow> kerr + 's"
    and put :: "nat \<Rightarrow> 's \<Rightarrow> kerr + 's"
    and unpin :: "nat \<Rightarrow> 's \<Rightarrow> kerr + 's"
  assumes get_law: "R p a s \<Longrightarrow> small n \<Longrightarrow> n \<notin> cheld a \<Longrightarrow> cref a n < 2 ^ 31 \<Longrightarrow>
      cref a n \<noteq> 0 \<or> card {m. cref a m \<noteq> 0} < NBUF \<Longrightarrow>
      \<exists>b s'. get n s = Inr (b, s') \<and> R p (c_get n a) s' \<and> H s' n b \<and> K a s s'"
    and dat_law: "R p a s \<Longrightarrow> H s n b \<Longrightarrow> n \<in> cheld a \<Longrightarrow> dat b s = cview a n"
    and upd_law: "R p a s \<Longrightarrow> H s n b \<Longrightarrow> n \<in> cheld a \<Longrightarrow>
      R p (c_set n d a) (upd b d s) \<and> H (upd b d s) = H s \<and> K a s (upd b d s)"
    and wr_law: "R p a s \<Longrightarrow> H s n b \<Longrightarrow> n \<in> cheld a \<Longrightarrow>
      \<exists>s'. wr b s = Inr s' \<and> R p (c_write n a) s' \<and> H s' = H s \<and> K a s s'"
    and put_law: "R p a s \<Longrightarrow> H s n b \<Longrightarrow> n \<in> cheld a \<Longrightarrow> settled a n \<Longrightarrow>
      \<exists>s'. put b s = Inr s' \<and> R p (c_rel n a) s' \<and> H s' = H s \<and> K a s s'"
    and unpin_law: "R p a s \<Longrightarrow> H s n b \<Longrightarrow> n \<in> cheld a \<longrightarrow> 1 < cref a n \<Longrightarrow> 0 < cref a n \<Longrightarrow> settled a n \<Longrightarrow>
      \<exists>s'. unpin b s = Inr s' \<and> R p (c_unpin n a) s' \<and> H s' = H s \<and> K a s s'"
    and view_law: "R p a s \<Longrightarrow> small n \<Longrightarrow> cref a n = 0 \<Longrightarrow> cview a n = on_disk a n"
    and keep_trans: "K a s s' \<Longrightarrow> K a' s' s'' \<Longrightarrow> (\<And>n. 0 < cref a n \<Longrightarrow> 0 < cref a' n) \<Longrightarrow> K a s s''"
    and keep_H: "K a s s' \<Longrightarrow> H s n b \<Longrightarrow> 0 < cref a n \<Longrightarrow> H s' n b"
begin

text \<open>Changing one block: get it, store new contents that depend on the old, write it and put it back.\<close>

lemma rewrite_block:
  assumes "R p a s" "free_for a n"
  shows "\<exists>b s1 s2 s3. get n s = Inr (b, s1) \<and> dat b s1 = cview a n \<and> K a s s1 \<and>
    wr b (upd b d s1) = Inr s2 \<and> put b s2 = Inr s3 \<and> K a s s2 \<and> K a s s3 \<and>
    R p (a\<lparr>cview := (cview a)(n := d), cwr := cwr a @ [(sector n, d)]\<rparr>) s3"
proof -
  obtain b s1 where 1: "get n s = Inr (b, s1)" "R p (c_get n a) s1" "H s1 n b" "K a s s1"
    using get_law [OF assms(1), of n] assms(2) by (auto simp: free_for_def)
  have h: "n \<in> cheld (c_get n a)" "n \<in> cheld (c_set n d (c_get n a))" "n \<in> cheld (c_write n (c_set n d (c_get n a)))"
    by (simp_all add: c_defs)
  have u: "R p (c_set n d (c_get n a)) (upd b d s1)" "H (upd b d s1) n b" "K (c_get n a) s1 (upd b d s1)"
    using upd_law [OF 1(2,3) h(1)] 1(3) by auto
  obtain s2 where 2: "wr b (upd b d s1) = Inr s2" "R p (c_write n (c_set n d (c_get n a))) s2" "H s2 n b"
      "K (c_set n d (c_get n a)) (upd b d s1) s2"
    using wr_law [OF u(1,2) h(2)] u(2) by auto
  have "settled (c_write n (c_set n d (c_get n a))) n"
    using assms(2) by (simp add: settled_def on_disk_write free_for_def) (simp add: c_defs)
  then obtain s3 where 3: "put b s2 = Inr s3" "R p (c_rel n (c_write n (c_set n d (c_get n a)))) s3"
      "K (c_write n (c_set n d (c_get n a))) s2 s3"
    using put_law [OF 2(2,3) h(3)] by auto
  have "K a s s2" using keep_trans [OF keep_trans [OF 1(4) u(3)] 2(4)] by (simp add: c_defs)
  moreover from this have "K a s s3" using keep_trans [OF _ 3(3)] by (simp add: c_defs)
  moreover have "c_rel n (c_write n (c_set n d (c_get n a))) = a\<lparr>cview := (cview a)(n := d), cwr := cwr a @ [(sector n, d)]\<rparr>"
    using assms(2) by (simp add: c_defs free_for_def)
  moreover have "dat b s1 = cview a n" using dat_law [OF 1(2,3) h(1)] by (simp add: c_get_def)
  ultimately show ?thesis using 1(1,4) 2(1) 3(1,2) by auto
qed

text \<open>Getting two blocks.\<close>

lemma get_two:
  assumes "R p a s" "free_for a x" "free_for (c_get x a) y"
  shows "\<exists>b s1 c s2. get x s = Inr (b, s1) \<and> K a s s1 \<and> get y s1 = Inr (c, s2) \<and> K a s s2 \<and> x \<noteq> y \<and>
    R p (c_get y (c_get x a)) s2 \<and> H s2 x b \<and> H s2 y c \<and> dat b s2 = cview a x \<and> dat c s2 = cview a y"
proof -
  obtain b s1 where 1: "get x s = Inr (b, s1)" "R p (c_get x a) s1" "H s1 x b" "K a s s1"
    using get_law [OF assms(1), of x] assms(2) by (auto simp: free_for_def)
  obtain c s2 where 2: "get y s1 = Inr (c, s2)" "R p (c_get y (c_get x a)) s2" "H s2 y c" "K (c_get x a) s1 s2"
    using get_law [OF 1(2), of y] assms(3) by (auto simp: free_for_def)
  have hx: "H s2 x b" using keep_H [OF 2(4) 1(3)] by (simp add: c_get_def)
  have ch: "x \<in> cheld (c_get y (c_get x a))" "y \<in> cheld (c_get y (c_get x a))" by (simp_all add: c_get_def)
  have "dat b s2 = cview a x" "dat c s2 = cview a y"
    using dat_law [OF 2(2) hx ch(1)] dat_law [OF 2(2,3) ch(2)] by (simp_all add: c_get_def)
  moreover have "K a s s2" using keep_trans [OF 1(4) 2(4)] by (simp add: c_get_def)
  moreover have "x \<noteq> y" using assms(3) by (auto simp: free_for_def c_get_def)
  ultimately show ?thesis using 1 2 hx by blast
qed

text \<open>Putting a held buffer back after its block or another one was written.\<close>

lemma put_settled:
  assumes "R p a s" "H s n b" "n \<in> cheld a" "settled a n" "K a0 s0 s" "\<And>m. 0 < cref a0 m \<Longrightarrow> 0 < cref a m"
  shows "\<exists>s'. put b s = Inr s' \<and> R p (c_rel n a) s' \<and> H s' = H s \<and> K a0 s0 s'"
  using put_law [OF assms(1-4)] keep_trans [OF assms(5) _ assms(6)] by blast

lemma upd_wr:
  assumes "R p a s" "H s n b" "n \<in> cheld a" "K a0 s0 s" "\<And>m. 0 < cref a0 m \<Longrightarrow> 0 < cref a m"
  shows "\<exists>s'. wr b (upd b d s) = Inr s' \<and> R p (c_write n (c_set n d a)) s' \<and> H s' = H s \<and> K a0 s0 s'"
proof -
  have u: "R p (c_set n d a) (upd b d s)" "H (upd b d s) = H s" "K a0 s0 (upd b d s)"
    using upd_law [OF assms(1-3)] keep_trans [OF assms(4) _ assms(5)] by auto
  have "n \<in> cheld (c_set n d a)" "\<And>m. 0 < cref a0 m \<Longrightarrow> 0 < cref (c_set n d a) m" using assms(3,5) by (simp_all add: c_set_def)
  then show ?thesis using wr_law [OF u(1), of n b] assms(2) u(2) keep_trans [OF u(3)] by auto
qed

lemma copy_to_first:
  assumes "R p a s" "free_for a x" "free_for (c_get x a) y"
  shows "\<exists>b s1 c s2 s3 s4 s5. get x s = Inr (b, s1) \<and> K a s s1 \<and> get y s1 = Inr (c, s2) \<and>
    wr b (upd b (dat c s2) s2) = Inr s3 \<and> put c s3 = Inr s4 \<and> put b s4 = Inr s5 \<and> K a s s5 \<and>
    R p (a\<lparr>cview := (cview a)(x := cview a y), cwr := cwr a @ [(sector x, cview a y)]\<rparr>) s5"
proof -
  obtain b s1 c s2 where 2: "get x s = Inr (b, s1)" "K a s s1" "get y s1 = Inr (c, s2)" "K a s s2" "x \<noteq> y"
    "R p (c_get y (c_get x a)) s2" "H s2 x b" "H s2 y c" "dat c s2 = cview a y" using get_two [OF assms] by blast
  let ?d = "cview a y"
  let ?a2 = "c_get y (c_get x a)"
  let ?a3 = "c_write x (c_set x ?d ?a2)"
  have sm: "small x" "small y" and nh: "x \<notin> cheld a" "y \<notin> cheld a" using assms(2,3) by (simp_all add: free_for_def c_get_def)
  have "\<exists>s3. wr b (upd b ?d s2) = Inr s3 \<and> R p ?a3 s3 \<and> H s3 = H s2 \<and> K a s s3"
    by (rule upd_wr [OF 2(6,7) _ 2(4)]) (simp_all add: c_defs)
  then obtain s3 where 3: "wr b (upd b ?d s2) = Inr s3" "R p ?a3 s3" "H s3 = H s2" "K a s s3" by blast
  have "cref a y = 0 \<longrightarrow> ?d = on_disk a y" using view_law [OF assms(1) sm(2)] by blast
  then have st: "settled ?a3 y" using 2(5) sm by (simp add: settled_def on_disk_write) (simp add: c_defs)
  have "\<exists>s4. put c s3 = Inr s4 \<and> R p (c_rel y ?a3) s4 \<and> H s4 = H s3 \<and> K a s s4"
    by (rule put_settled [OF 3(2) _ _ st 3(4)]) (simp_all add: 3(3) 2(8) c_defs)
  then obtain s4 where 4: "put c s3 = Inr s4" "R p (c_rel y ?a3) s4" "H s4 = H s3" "K a s s4" by blast
  have st': "settled (c_rel y ?a3) x" using 2(5) sm by (simp add: settled_def on_disk_write) (simp add: c_defs)
  have "\<exists>s5. put b s4 = Inr s5 \<and> R p (c_rel x (c_rel y ?a3)) s5 \<and> H s5 = H s4 \<and> K a s s5"
    by (rule put_settled [OF 4(2) _ _ st' 4(4)]) (use 2(5) in \<open>auto simp: 4(3) 3(3) 2(7) c_defs\<close>)
  moreover have "c_rel x (c_rel y ?a3) = a\<lparr>cview := (cview a)(x := ?d), cwr := cwr a @ [(sector x, ?d)]\<rparr>"
    using nh 2(5) by (auto simp: c_defs fun_eq_iff intro!: cache.equality)
  ultimately show ?thesis using 2 3(1) 4(1) by auto
qed

lemma copy_to_second:
  assumes "R p a s" "free_for a x" "free_for (c_get x a) y" "u \<longrightarrow> 0 < cref a y"
  shows "\<exists>b s1 c s2 s3 s4 s5 s6. get x s = Inr (b, s1) \<and> K a s s1 \<and> get y s1 = Inr (c, s2) \<and>
    wr c (upd c (dat b s2) s2) = Inr s3 \<and> (if u then unpin c s3 else Inr s3) = Inr s4 \<and> put b s4 = Inr s5 \<and> put c s5 = Inr s6 \<and>
    K a s s6 \<and>
    R p (a\<lparr>cview := (cview a)(y := cview a x), cref := (cref a)(y := cref a y - (if u then 1 else 0)),
      cwr := cwr a @ [(sector y, cview a x)]\<rparr>) s6"
proof -
  obtain b s1 c s2 where 2: "get x s = Inr (b, s1)" "K a s s1" "get y s1 = Inr (c, s2)" "K a s s2" "x \<noteq> y"
    "R p (c_get y (c_get x a)) s2" "H s2 x b" "H s2 y c" "dat b s2 = cview a x" using get_two [OF assms(1-3)] by blast
  let ?d = "cview a x"
  let ?a2 = "c_get y (c_get x a)"
  let ?a3 = "c_write y (c_set y ?d ?a2)"
  have sm: "small x" "small y" and nh: "x \<notin> cheld a" "y \<notin> cheld a" using assms(2,3) by (simp_all add: free_for_def c_get_def)
  have "\<exists>s3. wr c (upd c ?d s2) = Inr s3 \<and> R p ?a3 s3 \<and> H s3 = H s2 \<and> K a s s3"
    by (rule upd_wr [OF 2(6,8) _ 2(4)]) (simp_all add: c_defs)
  then obtain s3 where 3: "wr c (upd c ?d s2) = Inr s3" "R p ?a3 s3" "H s3 = H s2" "K a s s3" by blast
  let ?a4 = "if u then c_unpin y ?a3 else ?a3"
  have sy: "settled ?a3 y" using sm by (simp add: settled_def on_disk_write) (simp add: c_defs)
  have "\<exists>s4. (if u then unpin c s3 else Inr s3) = Inr s4 \<and> R p ?a4 s4 \<and> H s4 = H s2 \<and> K a s s4"
  proof (cases u)
    case True
    then have "y \<in> cheld ?a3 \<longrightarrow> 1 < cref ?a3 y" "0 < cref ?a3 y" using assms(4) 2(5) by (simp_all add: c_defs)
    from unpin_law [OF 3(2) _ this sy, of c] show ?thesis
      using True 3(3) 2(8) keep_trans [OF 3(4)] by (auto simp: c_defs)
  qed (use 3 in simp)
  then obtain s4 where 4: "(if u then unpin c s3 else Inr s3) = Inr s4" "R p ?a4 s4" "H s4 = H s2" "K a s s4" by blast
  have "cref a x = 0 \<longrightarrow> ?d = on_disk a x" using view_law [OF assms(1) sm(1)] by blast
  moreover have "on_disk ?a4 x = on_disk a x" using 2(5) sm by (simp add: on_disk_write)
  ultimately have sx: "settled ?a4 x" using 2(5) by (auto simp: settled_def c_defs)
  have "\<exists>s5. put b s4 = Inr s5 \<and> R p (c_rel x ?a4) s5 \<and> H s5 = H s4 \<and> K a s s5"
    by (rule put_settled [OF 4(2) _ _ sx 4(4)]) (use assms(4) 2(5) in \<open>auto simp: 4(3) 2(7) c_defs\<close>)
  then obtain s5 where 5: "put b s4 = Inr s5" "R p (c_rel x ?a4) s5" "H s5 = H s4" "K a s s5" by blast
  have sy': "settled (c_rel x ?a4) y" using 2(5) sm by (simp add: settled_def on_disk_write) (simp add: c_defs)
  have "\<exists>s6. put c s5 = Inr s6 \<and> R p (c_rel y (c_rel x ?a4)) s6 \<and> H s6 = H s5 \<and> K a s s6"
    by (rule put_settled [OF 5(2) _ _ sy' 5(4)]) (use assms(4) 2(5) in \<open>auto simp: 5(3) 4(3) 2(8) c_defs\<close>)
  moreover have "c_rel y (c_rel x ?a4) = a\<lparr>cview := (cview a)(y := ?d), cref := (cref a)(y := cref a y - (if u then 1 else 0)),
      cwr := cwr a @ [(sector y, ?d)]\<rparr>"
    using nh 2(5) by (auto simp: c_defs fun_eq_iff intro!: cache.equality)
  ultimately show ?thesis using 2 3(1) 4(1) 5(1) by auto
qed

end

interpretation bc: block_cache cached holder bkeep "bread 1" buf_data set_data bwrite brelse bunpin
proof (unfold_locales, goal_cases)
  case (1 p a s n) then show ?case by (rule bread_cached)
next
  case (2 p a s n b) then show ?case by (rule buf_data_cached)
next
  case (3 p a s n b d) then show ?case using set_data_cached by blast
next
  case (4 p a s n b) then show ?case by (rule bwrite_cached)
next
  case (5 p a s n b) then show ?case by (rule brelse_cached)
next
  case (6 p a s n b) then show ?case by (rule bunpin_cached)
next
  case (7 p a s n) then show ?case by (rule cached_view)
next
  case (8 a s s' a' s'') then show ?case by (rule bkeep_trans)
next
  case (9 a s s' n b) then show ?case by (simp add: bkeep_def)
qed

text \<open>
  C4: the buffer cache implements the abstract cache. \<^verbatim>\<open>bread\<close> of a block that the process does not hold
  returns a locked buffer with the block's contents as long as a buffer is free, whether the block was
  cached, had to be read from the disk, or took the place of another block. The contents of a held buffer are
  those of its block; changing them, \<^verbatim>\<open>bwrite\<close>, \<^verbatim>\<open>brelse\<close>, \<^verbatim>\<open>bpin\<close> and \<^verbatim>\<open>bunpin\<close> do to the cache
  what the abstract operations say, without a panic; in particular no unwritten change is lost by recycling.
\<close>

theorem bcache_refines:
  assumes "cached p a s"
  shows "(free_for a n \<longrightarrow>
      (\<exists>b s'. bread 1 n s = Inr (b, s') \<and> cached p (c_get n a) s' \<and> holder s' n b \<and> buf_data b s' = cview a n)) \<and>
    (\<forall>b. holder s n b \<and> n \<in> cheld a \<longrightarrow>
      buf_data b s = cview a n \<and> cached p (c_set n d a) (set_data b d s) \<and>
      (\<exists>s'. bwrite b s = Inr s' \<and> cached p (c_write n a) s') \<and>
      (settled a n \<longrightarrow> (\<exists>s'. brelse b s = Inr s' \<and> cached p (c_rel n a) s')) \<and>
      (cref a n < 2 ^ 31 \<longrightarrow> (\<exists>s'. bpin b s = Inr s' \<and> cached p (c_pin n a) s')) \<and>
      (1 < cref a n \<longrightarrow> (\<exists>s'. bunpin b s = Inr s' \<and> cached p (c_unpin n a) s')))"
proof (intro conjI impI allI)
  assume f: "free_for a n"
  then obtain b s' where "bread 1 n s = Inr (b, s')" "cached p (c_get n a) s'" "holder s' n b"
    using bread_cached [OF assms, of n] by (auto simp: free_for_def)
  moreover from this have "buf_data b s' = cview a n" using buf_data_cached [of p "c_get n a" s' n b] by (simp add: c_get_def)
  ultimately show "\<exists>b s'. bread 1 n s = Inr (b, s') \<and> cached p (c_get n a) s' \<and> holder s' n b \<and> buf_data b s' = cview a n"
    by blast
next
  fix b assume h: "holder s n b \<and> n \<in> cheld a"
  show "buf_data b s = cview a n" "cached p (c_set n d a) (set_data b d s)" "\<exists>s'. bwrite b s = Inr s' \<and> cached p (c_write n a) s'"
    using buf_data_cached [OF assms] set_data_cached(1) [OF assms] bwrite_cached [OF assms] h by blast+
  show "\<exists>s'. brelse b s = Inr s' \<and> cached p (c_rel n a) s'" if "settled a n"
    using brelse_cached [OF assms _ _ that] h by blast
  show "\<exists>s'. bpin b s = Inr s' \<and> cached p (c_pin n a) s'" if "cref a n < 2 ^ 31"
    using bpin_cached [OF assms _ that] h by blast
  show "\<exists>s'. bunpin b s = Inr s' \<and> cached p (c_unpin n a) s'" if "1 < cref a n"
    using bunpin_cached [OF assms, of n b] h that by (auto simp: settled_def)
qed

definition cache0 :: cache where
  "cache0 = \<lparr>cview = (\<lambda>_. replicate BSIZE 0), cref = (\<lambda>_. 0), cheld = {}, cimg = (\<lambda>_. replicate BSIZE 0), cwr = []\<rparr>"

lemma cached_st0: "cached 1 cache0 vdisk_st0"
proof -
  have "\<not> holder vdisk_st0 n b" for n b by (simp add: holder_def)
  then show ?thesis unfolding cached_def cached0_def
    by (simp add: vdisk_st0_idle cache0_def on_disk_def last_write_def atLeast_upt)
qed

theorem bcache_refines_witness:
  "\<exists>b s'. bread 1 5 vdisk_st0 = Inr (b, s') \<and> buf_data b s' = replicate 1024 0"
proof -
  have "free_for cache0 5" by (simp add: free_for_def cache0_def small_def)
  then show ?thesis using bcache_refines [OF cached_st0, of 5] by (auto simp: cache0_def)
qed

end
