(* ===== verification/Log.thy ===== *)
theory Log
  imports Bcache
begin

unbundle bit_operations_syntax

text \<open>
  The file system log (\<^verbatim>\<open>kernel/log.c\<close>): transactions, commit and recovery. The header in memory is the
  number of logged blocks and the array of their numbers.
\<close>

section \<open>State\<close>

abbreviation (input) LOGSIZE :: nat where "LOGSIZE \<equiv> 30"
abbreviation (input) MAXOPBLOCKS :: int where "MAXOPBLOCKS \<equiv> 10"

record superblock =
  sb_magic :: uint
  sb_size :: uint
  sb_nblocks :: uint
  sb_ninodes :: uint
  sb_nlog :: uint
  sb_logstart :: uint
  sb_inodestart :: uint
  sb_bmapstart :: uint

record logst = vdiskst +
  log_start :: int
  log_size :: int
  outstanding :: int
  committing :: bool
  log_dev :: int
  lh_n :: int
  lh_block :: "int list"

section \<open>Reading and writing the log\<close>

definition install_step :: "bool \<Rightarrow> nat \<Rightarrow> 'a logst_scheme \<Rightarrow> kerr + 'a logst_scheme" where
  "install_step recovering tail s =
     bindE (bread (of_int (log_dev s)) (of_int (log_start s + int tail + 1)) s) (\<lambda>(lbuf, s).
     bindE (bread (of_int (log_dev s)) (of_int (lh_block s ! tail)) s) (\<lambda>(dbuf, s).
     bindE (bwrite dbuf (set_data dbuf (buf_data lbuf s) s)) (\<lambda>s.
     bindE (if \<not> recovering then bunpin dbuf s else Inr s) (\<lambda>s.
     bindE (brelse lbuf s) (brelse dbuf)))))"

definition install_trans :: "bool \<Rightarrow> 'a logst_scheme \<Rightarrow> kerr + 'a logst_scheme" where
  "install_trans recovering s = foldE (install_step recovering) [0..<nat (lh_n s)] s"

text \<open>A header on the disk that counts more blocks than the array holds makes the loop write past it.\<close>

definition read_head :: "'a logst_scheme \<Rightarrow> kerr + 'a logst_scheme" where
  "read_head s =
     bindE (bread (of_int (log_dev s)) (of_int (log_start s)) s) (\<lambda>(b, s).
     let d = buf_data b s; n = sint (get32 d 0) in
     if n > int LOGSIZE then Inl (Fault ''log.lh.block'')
     else
       let s = s\<lparr>lh_n := n,
         lh_block := fold (\<lambda>i bl. bl[i := sint (get32 d (4 + 4 * i))]) [0..<nat n] (lh_block s)\<rparr>
       in brelse b s)"

definition write_head :: "'a logst_scheme \<Rightarrow> kerr + 'a logst_scheme" where
  "write_head s =
     bindE (bread (of_int (log_dev s)) (of_int (log_start s)) s) (\<lambda>(b, s).
     let d = put32 0 (of_int (lh_n s)) (buf_data b s);
         d = fold (\<lambda>i. put32 (4 + 4 * i) (of_int (lh_block s ! i))) [0..<nat (lh_n s)] d
     in bindE (bwrite b (set_data b d s)) (brelse b))"

definition recover_from_log :: "'a logst_scheme \<Rightarrow> kerr + 'a logst_scheme" where
  "recover_from_log s =
     bindE (read_head s) (\<lambda>s. bindE (install_trans True s) (\<lambda>s. write_head (s\<lparr>lh_n := 0\<rparr>)))"

text \<open>The header is 124 bytes, so that the test of its size in \<^verbatim>\<open>initlog\<close> never fails.\<close>

definition initlog :: "int \<Rightarrow> superblock \<Rightarrow> 'a logst_scheme \<Rightarrow> kerr + 'a logst_scheme" where
  "initlog dev sb s =
     recover_from_log (s\<lparr>lks := initlock LogLock ''log'' (lks s), log_start := sint (sb_logstart sb),
       log_size := sint (sb_nlog sb), log_dev := dev\<rparr>)"

section \<open>Transactions\<close>

text \<open>One turn of the loop of \<^verbatim>\<open>begin_op\<close>, with the lock held; \<open>False\<close> is a process that now sleeps.\<close>

definition begin_op_pass :: "'a logst_scheme \<Rightarrow> kerr + bool \<times> 'a logst_scheme" where
  "begin_op_pass s =
     (if committing s then bindE (sleep ChanLog LogLock s) (\<lambda>s. Inr (False, s))
      else if lh_n s + (outstanding s + 1) * MAXOPBLOCKS > int LOGSIZE
      then bindE (sleep ChanLog LogLock s) (\<lambda>s. Inr (False, s))
      else bindE (unlock LogLock (s\<lparr>outstanding := outstanding s + 1\<rparr>)) (\<lambda>s. Inr (True, s)))"

definition begin_op_try :: "'a logst_scheme \<Rightarrow> kerr + bool \<times> 'a logst_scheme" where
  "begin_op_try s = bindE (lock LogLock s) begin_op_pass"

definition begin_op :: "'a logst_scheme \<Rightarrow> kerr + 'a logst_scheme" where
  "begin_op s = bindE (begin_op_try s) (\<lambda>(ok, s). if ok then Inr s else Inl (Wait ChanLog))"

definition write_log_step :: "nat \<Rightarrow> 'a logst_scheme \<Rightarrow> kerr + 'a logst_scheme" where
  "write_log_step tail s =
     bindE (bread (of_int (log_dev s)) (of_int (log_start s + int tail + 1)) s) (\<lambda>(to, s).
     bindE (bread (of_int (log_dev s)) (of_int (lh_block s ! tail)) s) (\<lambda>(from, s).
     bindE (bwrite to (set_data to (buf_data from s) s)) (\<lambda>s.
     bindE (brelse from s) (brelse to))))"

definition write_log :: "'a logst_scheme \<Rightarrow> kerr + 'a logst_scheme" where
  "write_log s = foldE write_log_step [0..<nat (lh_n s)] s"

definition commit :: "'a logst_scheme \<Rightarrow> kerr + 'a logst_scheme" where
  "commit s =
     (if lh_n s > 0 then
        bindE (write_log s) (\<lambda>s.
        bindE (write_head s) (\<lambda>s.
        bindE (install_trans False s) (\<lambda>s.
        write_head (s\<lparr>lh_n := 0\<rparr>))))
      else Inr s)"

definition end_op :: "'a logst_scheme \<Rightarrow> kerr + 'a logst_scheme" where
  "end_op s =
     bindE (lock LogLock s) (\<lambda>s.
     let s = s\<lparr>outstanding := outstanding s - 1\<rparr> in
     if committing s then Inl (Panic ''log.committing'')
     else if outstanding s = 0 then
       bindE (unlock LogLock (s\<lparr>committing := True\<rparr>)) (\<lambda>s.
       bindE (commit s) (\<lambda>s.
       bindE (lock LogLock s) (\<lambda>s.
       bindE (wakeup ChanLog (s\<lparr>committing := False\<rparr>)) (unlock LogLock))))
     else bindE (wakeup ChanLog s) (unlock LogLock))"

definition log_write :: "nat \<Rightarrow> 'a logst_scheme \<Rightarrow> kerr + 'a logst_scheme" where
  "log_write b s =
     bindE (lock LogLock s) (\<lambda>s.
     if lh_n s \<ge> int LOGSIZE \<or> lh_n s \<ge> log_size s - 1 then Inl (Panic ''too big a transaction'')
     else if outstanding s < 1 then Inl (Panic ''log_write outside of trans'')
     else
       let n = nat (lh_n s);
           i = (case scan (\<lambda>i. (of_int (lh_block s ! i) :: uint) = blockno (bufs s b)) 0 n of Some i \<Rightarrow> i | None \<Rightarrow> n);
           s = s\<lparr>lh_block := (lh_block s)[i := sint (blockno (bufs s b))]\<rparr>
       in bindE (if int i = lh_n s then bindE (bpin b s) (\<lambda>s. Inr (s\<lparr>lh_n := lh_n s + 1\<rparr>)) else Inr s) (unlock LogLock))"

end
