(* ===== verification/Fs.thy ===== *)
theory Fs
  imports Log
begin

unbundle bit_operations_syntax

text \<open>
  The file system (\<^verbatim>\<open>kernel/fs.c\<close>, \<^verbatim>\<open>kernel/fs.h\<close>): block allocation, inodes, their contents, directories and
  path names. Pointers to in-memory inodes are indices of the inode table.
\<close>

section \<open>State\<close>

abbreviation (input) NINODE :: nat where "NINODE \<equiv> 50"
abbreviation (input) NDIRECT :: nat where "NDIRECT \<equiv> 12"
abbreviation (input) NINDIRECT :: nat where "NINDIRECT \<equiv> 256"
abbreviation (input) BPB :: nat where "BPB \<equiv> 8192"
abbreviation (input) DIRSIZ :: nat where "DIRSIZ \<equiv> 14"
abbreviation (input) ROOTDEV :: uint where "ROOTDEV \<equiv> 1"
abbreviation (input) ROOTINO :: uint where "ROOTINO \<equiv> 1"
abbreviation (input) T_DIR :: ushort where "T_DIR \<equiv> 1"
abbreviation (input) T_FILE :: ushort where "T_FILE \<equiv> 2"
abbreviation (input) T_DEVICE :: ushort where "T_DEVICE \<equiv> 3"

record dinode =
  di_type :: ushort
  di_major :: ushort
  di_minor :: ushort
  di_nlink :: ushort
  di_size :: uint
  di_addrs :: "uint list"

record inode =
  idev :: uint
  inum :: uint
  iref :: int
  ivalid :: bool
  idi :: dinode

record fsst = logst +
  sb :: superblock
  inodes :: "nat \<Rightarrow> inode"

definition upd_inode :: "nat \<Rightarrow> (inode \<Rightarrow> inode) \<Rightarrow> 'a fsst_scheme \<Rightarrow> 'a fsst_scheme" where
  "upd_inode i f s = s\<lparr>inodes := (inodes s)(i := f (inodes s i))\<rparr>"

definition upd_idi :: "nat \<Rightarrow> (dinode \<Rightarrow> dinode) \<Rightarrow> 'a fsst_scheme \<Rightarrow> 'a fsst_scheme" where
  "upd_idi i f s = upd_inode i (\<lambda>n. n\<lparr>idi := f (idi n)\<rparr>) s"

abbreviation itype :: "nat \<Rightarrow> 'a fsst_scheme \<Rightarrow> ushort" where "itype i s \<equiv> di_type (idi (inodes s i))"
abbreviation isize :: "nat \<Rightarrow> 'a fsst_scheme \<Rightarrow> uint" where "isize i s \<equiv> di_size (idi (inodes s i))"
abbreviation iaddrs :: "nat \<Rightarrow> 'a fsst_scheme \<Rightarrow> uint list" where "iaddrs i s \<equiv> di_addrs (idi (inodes s i))"
abbreviation inlink :: "nat \<Rightarrow> 'a fsst_scheme \<Rightarrow> ushort" where "inlink i s \<equiv> di_nlink (idi (inodes s i))"
abbreviation imajor :: "nat \<Rightarrow> 'a fsst_scheme \<Rightarrow> ushort" where "imajor i s \<equiv> di_major (idi (inodes s i))"

text \<open>The layout of \<^verbatim>\<open>struct dinode\<close> (64 bytes) and of \<^verbatim>\<open>struct superblock\<close> (32 bytes).\<close>

definition dinode_enc :: "dinode \<Rightarrow> byte list" where
  "dinode_enc d =
     le_enc 2 (di_type d) @ le_enc 2 (di_major d) @ le_enc 2 (di_minor d) @ le_enc 2 (di_nlink d) @
     le_enc 4 (di_size d) @ concat (map (le_enc 4) (di_addrs d))"

definition dinode_dec :: "byte list \<Rightarrow> dinode" where
  "dinode_dec xs =
     \<lparr>di_type = get16 xs 0, di_major = get16 xs 2, di_minor = get16 xs 4, di_nlink = get16 xs 6,
      di_size = get32 xs 8, di_addrs = map (\<lambda>i. get32 xs (12 + 4 * i)) [0..<NDIRECT + 1]\<rparr>"

definition sb_dec :: "byte list \<Rightarrow> superblock" where
  "sb_dec xs =
     \<lparr>sb_magic = get32 xs 0, sb_size = get32 xs 4, sb_nblocks = get32 xs 8, sb_ninodes = get32 xs 12,
      sb_nlog = get32 xs 16, sb_logstart = get32 xs 20, sb_inodestart = get32 xs 24, sb_bmapstart = get32 xs 28\<rparr>"

definition IBLOCK :: "uint \<Rightarrow> superblock \<Rightarrow> uint" where
  "IBLOCK i b = i div 16 + sb_inodestart b"

definition BBLOCK :: "uint \<Rightarrow> superblock \<Rightarrow> uint" where
  "BBLOCK i b = i div 8192 + sb_bmapstart b"

section \<open>Blocks\<close>

definition readsb :: "uint \<Rightarrow> 'a fsst_scheme \<Rightarrow> kerr + 'a fsst_scheme" where
  "readsb dev s = bindE (bread dev 1 s) (\<lambda>(b, s). brelse b (s\<lparr>sb := sb_dec (buf_data b s)\<rparr>))"

definition fsinit :: "int \<Rightarrow> 'a fsst_scheme \<Rightarrow> kerr + 'a fsst_scheme" where
  "fsinit dev s =
     bindE (readsb (of_int dev) s) (\<lambda>s.
     if sb_magic (sb s) \<noteq> 0x10203040 then Inl (Panic ''invalid file system'') else initlog dev (sb s) s)"

definition bzero :: "uint \<Rightarrow> uint \<Rightarrow> 'a fsst_scheme \<Rightarrow> kerr + 'a fsst_scheme" where
  "bzero dev bno s =
     bindE (bread dev bno s) (\<lambda>(b, s). bindE (log_write b (set_data b (replicate BSIZE 0) s)) (brelse b))"

text \<open>Bit \<open>i\<close> of a bitmap block.\<close>

definition bm_get :: "byte list \<Rightarrow> nat \<Rightarrow> bool" where
  "bm_get xs i = bit (xs ! (i div 8)) (i mod 8)"

definition bm_set :: "bool \<Rightarrow> nat \<Rightarrow> byte list \<Rightarrow> byte list" where
  "bm_set v i xs = xs[i div 8 := (if v then (xs ! (i div 8)) OR push_bit (i mod 8) 1
     else (xs ! (i div 8)) AND NOT (push_bit (i mod 8) 1))]"

function balloc_loop :: "uint \<Rightarrow> nat \<Rightarrow> nat \<Rightarrow> 'a fsst_scheme \<Rightarrow> kerr + uint \<times> 'a fsst_scheme" where
  "balloc_loop dev b sz s =
     (if b < sz then
        bindE (bread dev (BBLOCK (of_nat b) (sb s)) s) (\<lambda>(bp, s).
        case scan (\<lambda>bi. \<not> bm_get (buf_data bp s) bi) 0 (min BPB (sz - b)) of
          Some bi \<Rightarrow>
            bindE (log_write bp (set_data bp (bm_set True bi (buf_data bp s)) s)) (\<lambda>s.
            bindE (brelse bp s) (\<lambda>s.
            bindE (bzero dev (of_nat (b + bi)) s) (\<lambda>s. Inr (of_nat (b + bi), s))))
        | None \<Rightarrow> bindE (brelse bp s) (balloc_loop dev (b + BPB) sz))
      else Inl (Panic ''balloc: out of blocks''))"
  by pat_completeness auto
termination by (relation "measure (\<lambda>(dev, b, sz, s). sz - b)") auto

declare balloc_loop.simps [simp del]

definition balloc :: "uint \<Rightarrow> 'a fsst_scheme \<Rightarrow> kerr + uint \<times> 'a fsst_scheme" where
  "balloc dev s = balloc_loop dev 0 (unat (sb_size (sb s))) s"

definition bfree :: "uint \<Rightarrow> uint \<Rightarrow> 'a fsst_scheme \<Rightarrow> kerr + 'a fsst_scheme" where
  "bfree dev b s =
     bindE (bread dev (BBLOCK b (sb s)) s) (\<lambda>(bp, s).
     let bi = unat b mod BPB in
     if \<not> bm_get (buf_data bp s) bi then Inl (Panic ''freeing free block'')
     else bindE (log_write bp (set_data bp (bm_set False bi (buf_data bp s)) s)) (brelse bp))"

section \<open>Inodes\<close>

definition iinit :: "'a fsst_scheme \<Rightarrow> 'a fsst_scheme" where
  "iinit s = fold (\<lambda>i. initsleeplock (InodeLk i) ''inode'') [0..<NINODE] (s\<lparr>lks := initlock ItableLock ''itable'' (lks s)\<rparr>)"

definition iget :: "uint \<Rightarrow> uint \<Rightarrow> 'a fsst_scheme \<Rightarrow> kerr + nat \<times> 'a fsst_scheme" where
  "iget dev n s =
     bindE (lock ItableLock s) (\<lambda>s.
     case scan (\<lambda>i. iref (inodes s i) > 0 \<and> idev (inodes s i) = dev \<and> inum (inodes s i) = n) 0 NINODE of
       Some i \<Rightarrow>
         bindE (unlock ItableLock (upd_inode i (\<lambda>q. q\<lparr>iref := iref q + 1\<rparr>) s)) (\<lambda>s. Inr (i, s))
     | None \<Rightarrow>
         (case scan (\<lambda>i. iref (inodes s i) = 0) 0 NINODE of
            None \<Rightarrow> Inl (Panic ''iget: no inodes'')
          | Some i \<Rightarrow>
              bindE (unlock ItableLock (upd_inode i (\<lambda>q. q\<lparr>idev := dev, inum := n, iref := 1, ivalid := False\<rparr>) s))
                (\<lambda>s. Inr (i, s))))"

text \<open>The place of an inode in its block.\<close>

definition dioff :: "uint \<Rightarrow> nat" where
  "dioff n = unat n mod 16 * 64"

function ialloc_loop :: "uint \<Rightarrow> ushort \<Rightarrow> nat \<Rightarrow> nat \<Rightarrow> 'a fsst_scheme \<Rightarrow> kerr + nat \<times> 'a fsst_scheme" where
  "ialloc_loop dev type n ninodes s =
     (if n < ninodes then
        bindE (bread dev (IBLOCK (of_nat n) (sb s)) s) (\<lambda>(bp, s).
        let off = dioff (of_nat n) in
        if get16 (buf_data bp s) off = 0 then
          bindE (log_write bp (set_data bp (patch off (le_enc 2 type @ replicate 62 0) (buf_data bp s)) s)) (\<lambda>s.
          bindE (brelse bp s) (iget dev (of_nat n)))
        else bindE (brelse bp s) (ialloc_loop dev type (Suc n) ninodes))
      else Inl (Panic ''ialloc: no inodes''))"
  by pat_completeness auto
termination by (relation "measure (\<lambda>(dev, type, n, m, s). m - n)") auto

declare ialloc_loop.simps [simp del]

definition ialloc :: "uint \<Rightarrow> ushort \<Rightarrow> 'a fsst_scheme \<Rightarrow> kerr + nat \<times> 'a fsst_scheme" where
  "ialloc dev type s = ialloc_loop dev type 1 (unat (sb_ninodes (sb s))) s"

definition iupdate :: "nat \<Rightarrow> 'a fsst_scheme \<Rightarrow> kerr + 'a fsst_scheme" where
  "iupdate ip s =
     bindE (bread (idev (inodes s ip)) (IBLOCK (inum (inodes s ip)) (sb s)) s) (\<lambda>(bp, s).
     bindE (log_write bp (set_data bp (patch (dioff (inum (inodes s ip))) (dinode_enc (idi (inodes s ip))) (buf_data bp s)) s))
       (brelse bp))"

definition idup :: "nat \<Rightarrow> 'a fsst_scheme \<Rightarrow> kerr + nat \<times> 'a fsst_scheme" where
  "idup ip s =
     bindE (lock ItableLock s) (\<lambda>s.
     bindE (unlock ItableLock (upd_inode ip (\<lambda>q. q\<lparr>iref := iref q + 1\<rparr>) s)) (\<lambda>s. Inr (ip, s)))"

definition ilock :: "nat option \<Rightarrow> 'a fsst_scheme \<Rightarrow> kerr + 'a fsst_scheme" where
  "ilock p s =
     (case p of None \<Rightarrow> Inl (Panic ''ilock'')
      | Some ip \<Rightarrow>
         if iref (inodes s ip) < 1 then Inl (Panic ''ilock'')
         else bindE (acquiresleep (InodeLk ip) s) (\<lambda>s.
           if \<not> ivalid (inodes s ip) then
             bindE (bread (idev (inodes s ip)) (IBLOCK (inum (inodes s ip)) (sb s)) s) (\<lambda>(bp, s).
             let s = upd_idi ip (\<lambda>_. dinode_dec (slice (dioff (inum (inodes s ip))) 64 (buf_data bp s))) s in
             bindE (brelse bp s) (\<lambda>s.
             let s = upd_inode ip (\<lambda>q. q\<lparr>ivalid := True\<rparr>) s in
             if itype ip s = 0 then Inl (Panic ''ilock: no type'') else Inr s))
           else Inr s))"

definition iunlock :: "nat option \<Rightarrow> 'a fsst_scheme \<Rightarrow> kerr + 'a fsst_scheme" where
  "iunlock p s =
     (case p of None \<Rightarrow> Inl (Panic ''iunlock'')
      | Some ip \<Rightarrow>
         bindE (holdingsleep (InodeLk ip) s) (\<lambda>(h, s).
         if \<not> h \<or> iref (inodes s ip) < 1 then Inl (Panic ''iunlock'') else releasesleep (InodeLk ip) s))"

section \<open>Contents of inodes\<close>

definition bmap :: "nat \<Rightarrow> uint \<Rightarrow> 'a fsst_scheme \<Rightarrow> kerr + uint \<times> 'a fsst_scheme" where
  "bmap ip bn s =
     (if bn < 12 then
        let a = iaddrs ip s ! unat bn in
        if a = 0 then
          bindE (balloc (idev (inodes s ip)) s) (\<lambda>(a, s).
          Inr (a, upd_idi ip (\<lambda>d. d\<lparr>di_addrs := (di_addrs d)[unat bn := a]\<rparr>) s))
        else Inr (a, s)
      else
        let bn = bn - 12 in
        if bn < 256 then
          bindE (let a = iaddrs ip s ! NDIRECT in
                 if a = 0 then
                   bindE (balloc (idev (inodes s ip)) s) (\<lambda>(a, s).
                   Inr (a, upd_idi ip (\<lambda>d. d\<lparr>di_addrs := (di_addrs d)[NDIRECT := a]\<rparr>) s))
                 else Inr (a, s)) (\<lambda>(a, s).
          bindE (bread (idev (inodes s ip)) a s) (\<lambda>(bp, s).
          bindE (let a = get32 (buf_data bp s) (4 * unat bn) in
                 if a = 0 then
                   bindE (balloc (idev (inodes s ip)) s) (\<lambda>(a, s).
                   bindE (log_write bp (set_data bp (put32 (4 * unat bn) a (buf_data bp s)) s)) (\<lambda>s. Inr (a, s)))
                 else Inr (a, s)) (\<lambda>(a, s).
          bindE (brelse bp s) (\<lambda>s. Inr (a, s)))))
        else Inl (Panic ''bmap: out of range''))"

definition itrunc :: "nat \<Rightarrow> 'a fsst_scheme \<Rightarrow> kerr + 'a fsst_scheme" where
  "itrunc ip s =
     bindE (foldE (\<lambda>i s.
        if iaddrs ip s ! i \<noteq> 0 then
          bindE (bfree (idev (inodes s ip)) (iaddrs ip s ! i) s) (\<lambda>s.
          Inr (upd_idi ip (\<lambda>d. d\<lparr>di_addrs := (di_addrs d)[i := 0]\<rparr>) s))
        else Inr s) [0..<NDIRECT] s) (\<lambda>s.
     bindE (if iaddrs ip s ! NDIRECT \<noteq> 0 then
          bindE (bread (idev (inodes s ip)) (iaddrs ip s ! NDIRECT) s) (\<lambda>(bp, s).
          bindE (foldE (\<lambda>j s.
             let a = get32 (buf_data bp s) (4 * j) in
             if a \<noteq> 0 then bfree (idev (inodes s ip)) a s else Inr s) [0..<NINDIRECT] s) (\<lambda>s.
          bindE (brelse bp s) (\<lambda>s.
          bindE (bfree (idev (inodes s ip)) (iaddrs ip s ! NDIRECT) s) (\<lambda>s.
          Inr (upd_idi ip (\<lambda>d. d\<lparr>di_addrs := (di_addrs d)[NDIRECT := 0]\<rparr>) s)))))
        else Inr s) (\<lambda>s.
     iupdate ip (upd_idi ip (\<lambda>d. d\<lparr>di_size := 0\<rparr>) s)))"

definition iput :: "nat \<Rightarrow> 'a fsst_scheme \<Rightarrow> kerr + 'a fsst_scheme" where
  "iput ip s =
     bindE (lock ItableLock s) (\<lambda>s.
     bindE (if iref (inodes s ip) = 1 \<and> ivalid (inodes s ip) \<and> inlink ip s = 0 then
          bindE (acquiresleep (InodeLk ip) s) (\<lambda>s.
          bindE (unlock ItableLock s) (\<lambda>s.
          bindE (itrunc ip s) (\<lambda>s.
          bindE (iupdate ip (upd_idi ip (\<lambda>d. d\<lparr>di_type := 0\<rparr>) s)) (\<lambda>s.
          bindE (releasesleep (InodeLk ip) (upd_inode ip (\<lambda>q. q\<lparr>ivalid := False\<rparr>) s)) (lock ItableLock)))))
        else Inr s) (\<lambda>s.
     unlock ItableLock (upd_inode ip (\<lambda>q. q\<lparr>iref := iref q - 1\<rparr>) s)))"

definition iunlockput :: "nat \<Rightarrow> 'a fsst_scheme \<Rightarrow> kerr + 'a fsst_scheme" where
  "iunlockput ip s = bindE (iunlock (Some ip) s) (iput ip)"

text \<open>\<^verbatim>\<open>struct stat\<close>: two words, two half words, four bytes of padding (here zero), and the size.\<close>

definition stati :: "nat \<Rightarrow> 'a fsst_scheme \<Rightarrow> byte list" where
  "stati ip s =
     le_enc 4 (idev (inodes s ip)) @ le_enc 4 (inum (inodes s ip)) @ le_enc 2 (itype ip s) @ le_enc 2 (inlink ip s) @
     replicate 4 0 @ le_enc 8 (ucast (isize ip s) :: uint64)"

definition dst_add :: "kdest \<Rightarrow> nat \<Rightarrow> kdest" where
  "dst_add d n = (case d of User a \<Rightarrow> User (a + of_nat n) | Kmem a \<Rightarrow> Kmem (a + of_nat n) | Kbuf \<Rightarrow> Kbuf)"

definition src_add :: "ksrc \<Rightarrow> nat \<Rightarrow> ksrc" where
  "src_add d n = (case d of SUser a \<Rightarrow> SUser (a + of_nat n) | SKern bs \<Rightarrow> SKern (drop n bs))"

text \<open>The size of the piece of a transfer that lies in one block.\<close>

definition chunk :: "nat \<Rightarrow> uint \<Rightarrow> nat" where
  "chunk rest off = min rest (BSIZE - unat off mod BSIZE)"

lemma chunk_pos: "0 < rest \<Longrightarrow> 0 < chunk rest off"
  by (simp add: chunk_def)

text \<open>
  \<open>tot\<close> bytes of \<open>n\<close> have been read. The result is the count, or -1, and the bytes read, which a caller
  inside the kernel keeps.
\<close>

function readi_loop ::
  "nat \<Rightarrow> kdest \<Rightarrow> uint \<Rightarrow> nat \<Rightarrow> nat \<Rightarrow> byte list \<Rightarrow> 'a fsst_scheme \<Rightarrow> kerr + (int \<times> byte list) \<times> 'a fsst_scheme" where
  "readi_loop ip dst off tot n acc s =
     (if tot < n then
        bindE (bmap ip (off div 1024) s) (\<lambda>(a, s).
        bindE (bread (idev (inodes s ip)) a s) (\<lambda>(bp, s).
        let m = chunk (n - tot) off; bs = slice (unat off mod BSIZE) m (buf_data bp s) in
        bindE (either_copyout (dst_add dst tot) bs s) (\<lambda>(r, s).
        bindE (brelse bp s) (\<lambda>s.
        if r = - 1 then Inr ((- 1, acc), s)
        else readi_loop ip dst (off + of_nat m) (tot + m) n (acc @ bs) s))))
      else Inr ((int tot, acc), s))"
  by pat_completeness auto
termination
  by (relation "measure (\<lambda>(ip, dst, off, tot, n, acc, s). n - tot)") (auto simp: chunk_pos diff_less_mono2)

declare readi_loop.simps [simp del]

definition readi ::
  "nat \<Rightarrow> kdest \<Rightarrow> uint \<Rightarrow> uint \<Rightarrow> 'a fsst_scheme \<Rightarrow> kerr + (int \<times> byte list) \<times> 'a fsst_scheme" where
  "readi ip dst off n s =
     (if off > isize ip s \<or> off + n < off then Inr ((0, []), s)
      else readi_loop ip dst off 0 (unat (if off + n > isize ip s then isize ip s - off else n)) [] s)"

text \<open>The loop of \<^verbatim>\<open>writei\<close> returns the final offset and the count.\<close>

function writei_loop ::
  "nat \<Rightarrow> ksrc \<Rightarrow> uint \<Rightarrow> nat \<Rightarrow> nat \<Rightarrow> 'a fsst_scheme \<Rightarrow> kerr + (uint \<times> nat) \<times> 'a fsst_scheme" where
  "writei_loop ip src off tot n s =
     (if tot < n then
        bindE (bmap ip (off div 1024) s) (\<lambda>(a, s).
        bindE (bread (idev (inodes s ip)) a s) (\<lambda>(bp, s).
        let m = chunk (n - tot) off in
        bindE (either_copyin (src_add src tot) m s) (\<lambda>((r, bs), s).
        let s = set_data bp (patch (unat off mod BSIZE) bs (buf_data bp s)) s in
        if r = - 1 then bindE (brelse bp s) (\<lambda>s. Inr ((off, tot), s))
        else
          bindE (log_write bp s) (\<lambda>s.
          bindE (brelse bp s) (\<lambda>s. writei_loop ip src (off + of_nat m) (tot + m) n s)))))
      else Inr ((off, tot), s))"
  by pat_completeness auto
termination
  by (relation "measure (\<lambda>(ip, src, off, tot, n, s). n - tot)") (auto simp: chunk_pos diff_less_mono2)

declare writei_loop.simps [simp del]

definition writei :: "nat \<Rightarrow> ksrc \<Rightarrow> uint \<Rightarrow> uint \<Rightarrow> 'a fsst_scheme \<Rightarrow> kerr + int \<times> 'a fsst_scheme" where
  "writei ip src off n s =
     (if off > isize ip s \<or> off + n < off then Inr (- 1, s)
      else if off + n > 274432 then Inr (- 1, s)
      else
        bindE (writei_loop ip src off 0 (unat n) s) (\<lambda>((off, tot), s).
        let s = (if off > isize ip s then upd_idi ip (\<lambda>d. d\<lparr>di_size := off\<rparr>) s else s) in
        bindE (iupdate ip s) (\<lambda>s. Inr (int tot, s))))"

section \<open>Directories\<close>

definition namecmp :: "byte list \<Rightarrow> byte list \<Rightarrow> int" where
  "namecmp s t = strncmp (arr s) (arr t) DIRSIZ"

text \<open>
  The loops over a directory turn at most once for each of its entries; the size does not change while
  they run, and the bound \<open>entries\<close> is one more than they need.
\<close>

definition entries :: "nat \<Rightarrow> 'a fsst_scheme \<Rightarrow> nat" where
  "entries dp s = Suc (unat (isize dp s) div 16 + 1)"

primrec dirlookup_loop ::
  "nat \<Rightarrow> nat \<Rightarrow> byte list \<Rightarrow> uint \<Rightarrow> 'a fsst_scheme \<Rightarrow> kerr + (nat \<times> uint) option \<times> 'a fsst_scheme" where
  "dirlookup_loop 0 dp name off s = Inr (None, s)"
| "dirlookup_loop (Suc k) dp name off s =
     (if off < isize dp s then
        bindE (readi dp Kbuf off 16 s) (\<lambda>((r, de), s).
        if r \<noteq> 16 then Inl (Panic ''dirlookup read'')
        else if get16 de 0 = 0 then dirlookup_loop k dp name (off + 16) s
        else if namecmp name (drop 2 de) = 0 then
          bindE (iget (idev (inodes s dp)) (ucast (get16 de 0)) s) (\<lambda>(ip, s). Inr (Some (ip, off), s))
        else dirlookup_loop k dp name (off + 16) s)
      else Inr (None, s))"

definition dirlookup ::
  "nat \<Rightarrow> byte list \<Rightarrow> 'a fsst_scheme \<Rightarrow> kerr + (nat \<times> uint) option \<times> 'a fsst_scheme" where
  "dirlookup dp name s =
     (if itype dp s \<noteq> T_DIR then Inl (Panic ''dirlookup not DIR'')
      else dirlookup_loop (entries dp s) dp name 0 s)"

primrec free_entry :: "nat \<Rightarrow> nat \<Rightarrow> uint \<Rightarrow> 'a fsst_scheme \<Rightarrow> kerr + uint \<times> 'a fsst_scheme" where
  "free_entry 0 dp off s = Inr (off, s)"
| "free_entry (Suc k) dp off s =
     (if off < isize dp s then
        bindE (readi dp Kbuf off 16 s) (\<lambda>((r, de), s).
        if r \<noteq> 16 then Inl (Panic ''dirlink read'')
        else if get16 de 0 = 0 then Inr (off, s)
        else free_entry k dp (off + 16) s)
      else Inr (off, s))"

definition dirlink :: "nat \<Rightarrow> byte list \<Rightarrow> uint \<Rightarrow> 'a fsst_scheme \<Rightarrow> kerr + int \<times> 'a fsst_scheme" where
  "dirlink dp name n s =
     bindE (dirlookup dp name s) (\<lambda>(found, s).
     case found of Some (ip, off) \<Rightarrow> bindE (iput ip s) (\<lambda>s. Inr (- 1, s))
     | None \<Rightarrow>
        bindE (free_entry (entries dp s) dp 0 s) (\<lambda>(off, s).
        let de = le_enc 2 (ucast n :: ushort) @ strncpy (replicate DIRSIZ 0) (arr name) DIRSIZ in
        bindE (writei dp (SKern de) off 16 s) (\<lambda>(r, s).
        if r \<noteq> 16 then Inl (Panic ''dirlink'') else Inr (0, s))))"

section \<open>Path names\<close>

text \<open>A path is its bytes before the terminating 0; \<open>name\<close> is the array into which an element is copied.\<close>

definition skipelem :: "byte list \<Rightarrow> byte list \<Rightarrow> (byte list \<times> byte list) option" where
  "skipelem path name =
     (let path = dropWhile (\<lambda>c. c = 47) path in
      if path = [] then None
      else
        let s = takeWhile (\<lambda>c. c \<noteq> 47) path;
            path = dropWhile (\<lambda>c. c \<noteq> 47) path;
            name = (if length s \<ge> DIRSIZ then patch 0 (take DIRSIZ s) name else patch 0 (s @ [0]) name)
        in Some (dropWhile (\<lambda>c. c = 47) path, name))"

lemma skipelem_shorter: "skipelem path name = Some (path', name') \<Longrightarrow> length path' < length path"
proof -
  assume a: "skipelem path name = Some (path', name')"
  let ?p = "dropWhile (\<lambda>c. c = 47) path"
  have ne: "?p \<noteq> []" and p': "path' = dropWhile (\<lambda>c. c = 47) (dropWhile (\<lambda>c. c \<noteq> 47) ?p)"
    using a by (auto simp: skipelem_def Let_def split: if_splits)
  have "hd ?p \<noteq> 47" using hd_dropWhile [OF ne] .
  then have "length (dropWhile (\<lambda>c. c \<noteq> 47) ?p) < length ?p"
    using ne by (cases ?p) (auto simp: le_imp_less_Suc length_dropWhile_le)
  then show ?thesis unfolding p'
    by (meson le_less_trans length_dropWhile_le less_le_trans)
qed

definition nonnull :: "string \<Rightarrow> 'b option \<Rightarrow> kerr + 'b" where
  "nonnull m p = (case p of None \<Rightarrow> Inl (Fault m) | Some x \<Rightarrow> Inr x)"

function namex_loop ::
  "bool \<Rightarrow> nat \<Rightarrow> byte list \<Rightarrow> byte list \<Rightarrow> 'a fsst_scheme \<Rightarrow> kerr + (nat option \<times> byte list) \<times> 'a fsst_scheme" where
  "namex_loop par ip path name s =
     (case skipelem path name of
        None \<Rightarrow>
          if par then bindE (iput ip s) (\<lambda>s. Inr ((None, name), s)) else Inr ((Some ip, name), s)
      | Some (path', name) \<Rightarrow>
          bindE (ilock (Some ip) s) (\<lambda>s.
          if itype ip s \<noteq> T_DIR then bindE (iunlockput ip s) (\<lambda>s. Inr ((None, name), s))
          else if par \<and> path' = [] then bindE (iunlock (Some ip) s) (\<lambda>s. Inr ((Some ip, name), s))
          else bindE (dirlookup ip name s) (\<lambda>(found, s).
            case found of
              None \<Rightarrow> bindE (iunlockput ip s) (\<lambda>s. Inr ((None, name), s))
            | Some (ip', off) \<Rightarrow> bindE (iunlockput ip s) (namex_loop par ip' path' name))))"
  by pat_completeness auto
termination
  by (relation "measure (\<lambda>(par, ip, path, name, s). length path)") (auto dest: skipelem_shorter)

declare namex_loop.simps [simp del]

definition namex ::
  "byte list \<Rightarrow> bool \<Rightarrow> byte list \<Rightarrow> 'a fsst_scheme \<Rightarrow> kerr + (nat option \<times> byte list) \<times> 'a fsst_scheme" where
  "namex path par name s =
     bindE (if path \<noteq> [] \<and> hd path = 47 then iget ROOTDEV ROOTINO s
            else bindE (curproc s) (\<lambda>(p, s). bindE (nonnull ''cwd'' (cwd (procs s p))) (\<lambda>c. idup c s))) (\<lambda>(ip, s).
     namex_loop par ip path name s)"

definition namei :: "byte list \<Rightarrow> 'a fsst_scheme \<Rightarrow> kerr + nat option \<times> 'a fsst_scheme" where
  "namei path s = bindE (namex path False (replicate DIRSIZ 0) s) (\<lambda>((ip, name), s). Inr (ip, s))"

definition nameiparent ::
  "byte list \<Rightarrow> 'a fsst_scheme \<Rightarrow> kerr + (nat option \<times> byte list) \<times> 'a fsst_scheme" where
  "nameiparent path s = namex path True (replicate DIRSIZ 0) s"

section \<open>Formats on the disk\<close>

lemma length_concat_le_enc [simp]: "length (concat (map (le_enc n) ws)) = n * length ws"
  by (induction ws) simp_all

lemma slice_append_right: "length xs \<le> i \<Longrightarrow> slice i n (xs @ ys) = slice (i - length xs) n ys"
  by (simp add: slice_def)

lemma slice_append_left: "n = length xs \<Longrightarrow> slice 0 n (xs @ ys) = xs"
  by (simp add: slice_def)

lemma get32_concat: "i < length ws \<Longrightarrow> get32 (concat (map (le_enc 4) ws)) (4 * i) = ws ! i"
proof (induction ws arbitrary: i)
  case (Cons w ws)
  then show ?case by (cases i) (simp_all add: get32_def slice_append_left slice_append_right)
qed simp

lemma dinode_dec_enc:
  assumes "length (di_addrs d) = 13"
  shows "dinode_dec (dinode_enc d @ rest) = d" "length (dinode_enc d) = 64"
proof -
  have a: "get32 (dinode_enc d @ rest) (12 + 4 * i) = di_addrs d ! i" if "i < 13" for i
  proof -
    have "get32 (concat (map (le_enc 4) (di_addrs d)) @ rest) (4 * i) = get32 (concat (map (le_enc 4) (di_addrs d))) (4 * i)"
      using that assms by (simp add: get32_def slice_def)
    then show ?thesis using that assms get32_concat [of i "di_addrs d"]
      by (simp add: dinode_enc_def get32_def slice_append_right)
  qed
  have "map (\<lambda>i. get32 (dinode_enc d @ rest) (12 + 4 * i)) [0..<13] = di_addrs d"
    using assms by (intro nth_equalityI) (simp_all add: a del: upt_Suc)
  then show "dinode_dec (dinode_enc d @ rest) = d"
    by (simp add: dinode_dec_def) (simp add: dinode_enc_def get16_def get32_def slice_append_left slice_append_right)
  show "length (dinode_enc d) = 64" using assms by (simp add: dinode_enc_def)
qed

text \<open>
  Inodes survive the disk. The 64 bytes that \<^verbatim>\<open>iupdate\<close> stores for an inode in its block are read back by
  \<^verbatim>\<open>ilock\<close> as the same inode, and the other inodes of the block keep their bytes.
\<close>

lemma dinode_roundtrip:
  assumes "length data = BSIZE" "length (di_addrs d) = NDIRECT + 1"
  shows "dinode_dec (slice (dioff n) 64 (patch (dioff n) (dinode_enc d) data)) = d \<and>
    length (patch (dioff n) (dinode_enc d) data) = BSIZE \<and>
    (unat m mod 16 \<noteq> unat n mod 16 \<longrightarrow>
      slice (dioff m) 64 (patch (dioff n) (dinode_enc d) data) = slice (dioff m) 64 data)"
proof -
  have len: "length (dinode_enc d) = 64" using dinode_dec_enc(2) assms(2) by simp
  have off: "dioff n + length (dinode_enc d) \<le> length data" using assms(1) len by (simp add: dioff_def)
  have "slice (dioff m) 64 (patch (dioff n) (dinode_enc d) data) = slice (dioff m) 64 data"
    if "unat m mod 16 \<noteq> unat n mod 16"
  proof (rule slice_patch_other [OF off])
    show "dioff m + 64 \<le> dioff n \<or> dioff n + length (dinode_enc d) \<le> dioff m"
      using that len by (simp add: dioff_def) linarith
  qed
  moreover have "dinode_dec (dinode_enc d) = d" using dinode_dec_enc(1) [of d "[]"] assms(2) by simp
  ultimately show ?thesis using off len assms(1) by simp
qed

lemma dinode_roundtrip_example:
  "dinode_dec (slice 64 64 (patch 64 (dinode_enc \<lparr>di_type = 2, di_major = 0, di_minor = 0, di_nlink = 1, di_size = 5,
      di_addrs = replicate 13 0\<rparr>) (replicate 1024 0))) =
    \<lparr>di_type = 2, di_major = 0, di_minor = 0, di_nlink = 1, di_size = 5, di_addrs = replicate 13 0\<rparr>"
  using dinode_roundtrip [of "replicate 1024 0" "\<lparr>di_type = 2, di_major = 0, di_minor = 0, di_nlink = 1, di_size = 5,
      di_addrs = replicate 13 0\<rparr>" 1 0] by (simp add: dioff_def)

section \<open>Elements of a path\<close>

fun split_path :: "byte list \<Rightarrow> byte list list" where
  "split_path [] = [[]]"
| "split_path (c # cs) = (if c = 47 then [] # split_path cs else (c # hd (split_path cs)) # tl (split_path cs))"

text \<open>The elements of a path: what lies between slashes, without the empty pieces.\<close>

definition path_parts :: "byte list \<Rightarrow> byte list list" where
  "path_parts path = filter (\<lambda>x. x \<noteq> []) (split_path path)"

text \<open>The names that the loop of \<^verbatim>\<open>namex\<close> sees, when it runs to the end of the path.\<close>

function path_names :: "byte list \<Rightarrow> byte list \<Rightarrow> byte list list" where
  "path_names path name =
     (case skipelem path name of None \<Rightarrow> [] | Some (path', name') \<Rightarrow> name' # path_names path' name')"
  by pat_completeness auto
termination by (relation "measure (\<lambda>(path, name). length path)") (auto dest: skipelem_shorter)

declare path_names.simps [simp del]

lemma split_path_ne [simp]: "split_path p \<noteq> []"
  by (cases p) simp_all

lemma path_parts_slash [simp]: "path_parts (47 # p) = path_parts p"
  by (simp add: path_parts_def)

lemma path_parts_dropWhile: "path_parts (dropWhile (\<lambda>c. c = 47) p) = path_parts p"
  by (induction p) auto

lemma split_path_elem:
  assumes "47 \<notin> set x" "r = [] \<or> hd r = 47"
  shows "split_path (x @ r) = x # (if r = [] then [] else split_path (tl r))"
  using assms
proof (induction x)
  case Nil
  then show ?case by (cases r) auto
qed auto

lemma path_parts_elem:
  assumes "47 \<notin> set x" "x \<noteq> []" "r = [] \<or> hd r = 47"
  shows "path_parts (x @ r) = x # path_parts r"
proof -
  have "path_parts r = filter (\<lambda>x. x \<noteq> []) (if r = [] then [] else split_path (tl r))"
    using assms(3) by (cases r) (auto simp: path_parts_def)
  then show ?thesis using assms(2) by (simp add: path_parts_def split_path_elem [OF assms(1,3)])
qed

lemma takeWhile_full: "0 \<notin> set xs \<Longrightarrow> takeWhile (\<lambda>c. c \<noteq> 0) (xs @ 0 # ys) = (xs :: byte list)"
  by (induction xs) auto

lemma skipelem_parts:
  assumes "0 \<notin> set path" "length name = 14"
  shows "case skipelem path name of
      None \<Rightarrow> path_parts path = []
    | Some (path', name') \<Rightarrow> \<exists>x. path_parts path = x # path_parts path' \<and> takeWhile (\<lambda>c. c \<noteq> 0) name' = take 14 x \<and>
        set path' \<subseteq> set path \<and> length name' = 14"
proof -
  let ?p = "dropWhile (\<lambda>c. c = 47) path"
  have parts: "path_parts path = path_parts ?p" by (simp add: path_parts_dropWhile)
  show ?thesis
  proof (cases "?p = []")
    case True
    have "skipelem path name = None" unfolding skipelem_def Let_def True by simp
    moreover have "path_parts path = []" unfolding parts True by (simp add: path_parts_def)
    ultimately show ?thesis by simp
  next
    case False
    let ?x = "takeWhile (\<lambda>c. c \<noteq> 47) ?p" and ?r = "dropWhile (\<lambda>c. c \<noteq> 47) ?p"
    have hd: "hd ?p \<noteq> 47" using hd_dropWhile [OF False] .
    have ne: "?x \<noteq> []" using hd False by (cases ?p) auto
    have n47: "47 \<notin> set ?x" using set_takeWhileD by fastforce
    have r: "?r = [] \<or> hd ?r = 47" using hd_dropWhile [of "\<lambda>c. c \<noteq> 47" ?p] by auto
    have sub: "set ?x \<subseteq> set path" "set (dropWhile (\<lambda>c. c = 47) ?r) \<subseteq> set path"
      by (auto dest!: set_dropWhileD set_takeWhileD)
    then have z: "0 \<notin> set ?x" using assms(1) by blast
    have "path_parts ?p = ?x # path_parts ?r"
      using path_parts_elem [OF n47 ne r] by simp
    then have p: "path_parts path = ?x # path_parts (dropWhile (\<lambda>c. c = 47) ?r)"
      by (simp add: path_parts_dropWhile)
    let ?n = "if 14 \<le> length ?x then patch 0 (take 14 ?x) name else patch 0 (?x @ [0]) name"
    have sk: "skipelem path name = Some (dropWhile (\<lambda>c. c = 47) ?r, ?n)"
      using False by (simp add: skipelem_def Let_def)
    have n: "length ?n = 14" using assms(2) by (simp add: patch_def)
    have "takeWhile (\<lambda>c. c \<noteq> 0) ?n = take 14 ?x"
    proof (cases "14 \<le> length ?x")
      case True
      have "takeWhile (\<lambda>c. c \<noteq> 0) (take 14 ?x) = take 14 ?x"
        using z by (auto simp: takeWhile_eq_all_conv dest: in_set_takeD)
      then show ?thesis using True assms(2) by (simp add: patch_def)
    next
      case False
      then show ?thesis using takeWhile_full [OF z] by (simp add: patch_def)
    qed
    then show ?thesis unfolding sk using p sub(2) n by simp
  qed
qed

lemma path_names_parts:
  assumes "0 \<notin> set path" "length name = 14"
  shows "map (takeWhile (\<lambda>c. c \<noteq> 0)) (path_names path name) = map (take 14) (path_parts path)"
  using assms
proof (induction path name rule: path_names.induct)
  case (1 path name)
  show ?case
  proof (cases "skipelem path name")
    case None
    then show ?thesis using skipelem_parts [OF "1.prems"] by (simp add: path_names.simps [of path])
  next
    case (Some pn)
    obtain path' name' where pn: "pn = (path', name')" by force
    then obtain x where x: "path_parts path = x # path_parts path'" "takeWhile (\<lambda>c. c \<noteq> 0) name' = take 14 x"
        "0 \<notin> set path'" "length name' = 14"
      using skipelem_parts [OF "1.prems"] Some "1.prems"(1) by auto
    show ?thesis using "1.IH" [OF Some pn [symmetric] x(3,4)] x(1,2) Some pn by (simp add: path_names.simps [of path])
  qed
qed

text \<open>
  C25: path names. The names that the lookup loop gets from \<^verbatim>\<open>skipelem\<close>, one after the other, are the pieces of
  the path between slashes without the empty ones, each cut to the 14 bytes of a directory entry's name:
  the loop ends, and slashes at the start, at the end and in a row make no difference.
\<close>

theorem skipelem_path_parts:
  assumes "0 \<notin> set path" "length name = DIRSIZ"
  shows "map (takeWhile (\<lambda>c. c \<noteq> 0)) (path_names path name) = map (take DIRSIZ) (path_parts path)"
  by (rule path_names_parts [OF assms])

theorem skipelem_path_parts_witness:
  "map (takeWhile (\<lambda>c. c \<noteq> 0)) (path_names [47, 47, 97, 47, 47, 98, 98] (replicate 14 0)) = [[97], [98, 98]]"
  using skipelem_path_parts [of "[47, 47, 97, 47, 47, 98, 98]" "replicate 14 0"] by (simp add: path_parts_def)

end
