(* ===== verification/File.thy ===== *)
theory File
  imports Fs
begin

unbundle bit_operations_syntax

text \<open>
  Open files (\<^verbatim>\<open>kernel/file.c\<close>, \<^verbatim>\<open>kernel/file.h\<close>) and \<^verbatim>\<open>pipealloc\<close> of \<^verbatim>\<open>kernel/pipe.c\<close>. The only device is the
  console: an entry of \<open>devsw\<close> says whether the console's routines are installed there.
\<close>

section \<open>State\<close>

abbreviation (input) NFILE :: nat where "NFILE \<equiv> 100"
abbreviation (input) NDEV :: int where "NDEV \<equiv> 10"

datatype fdtype = FD_NONE | FD_PIPE | FD_INODE | FD_DEVICE

record kfile =
  ftype :: fdtype
  fref :: int
  readable :: bool
  writable :: bool
  fpipe :: addr
  fip :: "nat option"
  foff :: uint
  fmajor :: ushort

record filest = fsst +
  ftable :: "nat \<Rightarrow> kfile"
  devsw :: "nat \<Rightarrow> bool"

definition upd_file :: "nat \<Rightarrow> (kfile \<Rightarrow> kfile) \<Rightarrow> 'a filest_scheme \<Rightarrow> 'a filest_scheme" where
  "upd_file f g s = s\<lparr>ftable := (ftable s)(f := g (ftable s f))\<rparr>"

text \<open>Where a system call that sleeps will go on.\<close>

datatype pending =
    PipeReads | PipeWrites nat | ConsReads "kdest \<times> nat" | ConsWrites "nat \<times> byte" | WaitsChild | WaitsTicks uint | Exited

fun as_pending :: "('l \<Rightarrow> pending) \<Rightarrow> 'l progress \<Rightarrow> pending progress" where
  "as_pending f (Done r) = Done r"
| "as_pending f (Asleep l) = Asleep (f l)"

section \<open>The file table\<close>

definition fileinit :: "'a filest_scheme \<Rightarrow> 'a filest_scheme" where
  "fileinit s = s\<lparr>lks := initlock FtableLock ''ftable'' (lks s)\<rparr>"

definition filealloc :: "'a filest_scheme \<Rightarrow> kerr + nat option \<times> 'a filest_scheme" where
  "filealloc s =
     bindE (lock FtableLock s) (\<lambda>s.
     case scan (\<lambda>f. fref (ftable s f) = 0) 0 NFILE of
       Some f \<Rightarrow> bindE (unlock FtableLock (upd_file f (\<lambda>q. q\<lparr>fref := 1\<rparr>) s)) (\<lambda>s. Inr (Some f, s))
     | None \<Rightarrow> bindE (unlock FtableLock s) (\<lambda>s. Inr (None, s)))"

definition filedup :: "nat \<Rightarrow> 'a filest_scheme \<Rightarrow> kerr + nat \<times> 'a filest_scheme" where
  "filedup f s =
     bindE (lock FtableLock s) (\<lambda>s.
     if fref (ftable s f) < 1 then Inl (Panic ''filedup'')
     else bindE (unlock FtableLock (upd_file f (\<lambda>q. q\<lparr>fref := fref q + 1\<rparr>) s)) (\<lambda>s. Inr (f, s)))"

definition fileclose :: "nat \<Rightarrow> 'a filest_scheme \<Rightarrow> kerr + 'a filest_scheme" where
  "fileclose f s =
     bindE (lock FtableLock s) (\<lambda>s.
     if fref (ftable s f) < 1 then Inl (Panic ''fileclose'')
     else
       let s = upd_file f (\<lambda>q. q\<lparr>fref := fref q - 1\<rparr>) s in
       if fref (ftable s f) > 0 then unlock FtableLock s
       else
         let ff = ftable s f; s = upd_file f (\<lambda>q. q\<lparr>fref := 0, ftype := FD_NONE\<rparr>) s in
         bindE (unlock FtableLock s) (\<lambda>s.
         if ftype ff = FD_PIPE then pipeclose (fpipe ff) (writable ff) s
         else if ftype ff = FD_INODE \<or> ftype ff = FD_DEVICE then
           bindE (begin_op s) (\<lambda>s.
           bindE (nonnull ''iput'' (fip ff)) (\<lambda>ip. bindE (iput ip s) end_op))
         else Inr s))"

definition filestat :: "nat \<Rightarrow> uint64 \<Rightarrow> 'a filest_scheme \<Rightarrow> kerr + int \<times> 'a filest_scheme" where
  "filestat f a s =
     bindE (curproc s) (\<lambda>(p, s).
     if ftype (ftable s f) = FD_INODE \<or> ftype (ftable s f) = FD_DEVICE then
       bindE (ilock (fip (ftable s f)) s) (\<lambda>s.
       bindE (nonnull ''stati'' (fip (ftable s f))) (\<lambda>ip.
       let st = stati ip s in
       bindE (iunlock (Some ip) s) (\<lambda>s.
       bindE (copyout (pagetable (procs s p)) a st s) (\<lambda>(r, s).
       if r < 0 then Inr (- 1, s) else Inr (0, s)))))
     else Inr (- 1, s))"

definition fileread :: "nat \<Rightarrow> uint64 \<Rightarrow> int \<Rightarrow> 'a filest_scheme \<Rightarrow> kerr + pending progress \<times> 'a filest_scheme" where
  "fileread f a n s =
     (if \<not> readable (ftable s f) then Inr (Done (- 1), s)
      else case ftype (ftable s f) of
        FD_PIPE \<Rightarrow>
          bindE (piperead (fpipe (ftable s f)) a n s) (\<lambda>(r, s). Inr (as_pending (\<lambda>_. PipeReads) r, s))
      | FD_DEVICE \<Rightarrow>
          let m = sint (fmajor (ftable s f)) in
          if m < 0 \<or> m \<ge> NDEV \<or> \<not> devsw s (nat m) then Inr (Done (- 1), s)
          else bindE (consoleread (User a) n s) (\<lambda>(r, s). Inr (as_pending ConsReads r, s))
      | FD_INODE \<Rightarrow>
          bindE (ilock (fip (ftable s f)) s) (\<lambda>s.
          bindE (nonnull ''readi'' (fip (ftable s f))) (\<lambda>ip.
          bindE (readi ip (User a) (foff (ftable s f)) (of_int n) s) (\<lambda>((r, _), s).
          let s = (if r > 0 then upd_file f (\<lambda>q. q\<lparr>foff := foff q + of_int r\<rparr>) s else s) in
          bindE (iunlock (Some ip) s) (\<lambda>s. Inr (Done r, s)))))
      | FD_NONE \<Rightarrow> Inl (Panic ''fileread''))"

text \<open>The loop of \<^verbatim>\<open>filewrite\<close>: at most 3 blocks in each transaction. It returns how much was written.\<close>

function filewrite_loop :: "nat \<Rightarrow> uint64 \<Rightarrow> nat \<Rightarrow> nat \<Rightarrow> 'a filest_scheme \<Rightarrow> kerr + nat \<times> 'a filest_scheme" where
  "filewrite_loop f a i n s =
     (if i < n then
        let n1 = min (n - i) 3072 in
        bindE (begin_op s) (\<lambda>s.
        bindE (ilock (fip (ftable s f)) s) (\<lambda>s.
        bindE (nonnull ''writei'' (fip (ftable s f))) (\<lambda>ip.
        bindE (writei ip (SUser (a + of_nat i)) (foff (ftable s f)) (of_nat n1) s) (\<lambda>(r, s).
        let s = (if r > 0 then upd_file f (\<lambda>q. q\<lparr>foff := foff q + of_int r\<rparr>) s else s) in
        bindE (iunlock (Some ip) s) (\<lambda>s.
        bindE (end_op s) (\<lambda>s.
        if r \<noteq> int n1 then Inr (i, s) else filewrite_loop f a (i + n1) n s))))))
      else Inr (i, s))"
  by pat_completeness auto
termination by (relation "measure (\<lambda>(f, a, i, n, s). n - i)") auto

declare filewrite_loop.simps [simp del]

definition filewrite :: "nat \<Rightarrow> uint64 \<Rightarrow> int \<Rightarrow> 'a filest_scheme \<Rightarrow> kerr + pending progress \<times> 'a filest_scheme" where
  "filewrite f a n s =
     (if \<not> writable (ftable s f) then Inr (Done (- 1), s)
      else case ftype (ftable s f) of
        FD_PIPE \<Rightarrow>
          bindE (pipewrite (fpipe (ftable s f)) a n s) (\<lambda>(r, s). Inr (as_pending PipeWrites r, s))
      | FD_DEVICE \<Rightarrow>
          let m = sint (fmajor (ftable s f)) in
          if m < 0 \<or> m \<ge> NDEV \<or> \<not> devsw s (nat m) then Inr (Done (- 1), s)
          else bindE (consolewrite (SUser a) n s) (\<lambda>(r, s). Inr (as_pending ConsWrites r, s))
      | FD_INODE \<Rightarrow>
          bindE (filewrite_loop f a 0 (nat n) s) (\<lambda>(i, s).
          Inr (Done (if int i = n then n else - 1), s))
      | FD_NONE \<Rightarrow> Inl (Panic ''filewrite''))"

section \<open>Allocation of pipes\<close>

text \<open>The error path of \<^verbatim>\<open>pipealloc\<close>, which no path reaches with a page allocated.\<close>

definition pipe_bad :: "nat option \<Rightarrow> nat option \<Rightarrow> 'a filest_scheme \<Rightarrow> kerr + (nat \<times> nat) option \<times> 'a filest_scheme" where
  "pipe_bad f0 f1 s =
     bindE (case f0 of None \<Rightarrow> Inr s | Some f \<Rightarrow> fileclose f s) (\<lambda>s.
     bindE (case f1 of None \<Rightarrow> Inr s | Some f \<Rightarrow> fileclose f s) (\<lambda>s. Inr (None, s)))"

definition pipealloc :: "'a filest_scheme \<Rightarrow> kerr + (nat \<times> nat) option \<times> 'a filest_scheme" where
  "pipealloc s =
     bindE (filealloc s) (\<lambda>(f0, s).
     case f0 of None \<Rightarrow> pipe_bad None None s
     | Some r \<Rightarrow>
       bindE (filealloc s) (\<lambda>(f1, s).
       case f1 of None \<Rightarrow> pipe_bad f0 None s
       | Some w \<Rightarrow>
         bindE (kalloc s) (\<lambda>(pi, s).
         if pi = 0 then pipe_bad f0 f1 s
         else
           let s = upd_pipe pi (\<lambda>_. \<lparr>pdata = replicate 512 5, nread = 0, nwrite = 0, readopen = 1, writeopen = 1\<rparr>) s;
               s = s\<lparr>lks := initlock (PipeLock pi) ''pipe'' (lks s)\<rparr>;
               s = upd_file r (\<lambda>q. q\<lparr>ftype := FD_PIPE, readable := True, writable := False, fpipe := pi\<rparr>) s;
               s = upd_file w (\<lambda>q. q\<lparr>ftype := FD_PIPE, readable := False, writable := True, fpipe := pi\<rparr>) s
           in Inr (Some (r, w), s))))"

text \<open>The lines of \<^verbatim>\<open>consoleinit\<close> that install the console's routines, at major number 1.\<close>

definition consoleinit_devsw :: "'a filest_scheme \<Rightarrow> 'a filest_scheme" where
  "consoleinit_devsw s = s\<lparr>devsw := (devsw s)(1 := True)\<rparr>"

end
