(* ===== verification/Fork.thy ===== *)
theory Fork
  imports File
begin

unbundle bit_operations_syntax

text \<open>
  Creation and end of processes (\<^verbatim>\<open>kernel/proc.c\<close>): \<^verbatim>\<open>userinit\<close>, \<^verbatim>\<open>fork\<close>, \<^verbatim>\<open>clone\<close>, \<^verbatim>\<open>exit\<close>, and the part of
  \<^verbatim>\<open>forkret\<close> that initialises the file system.
\<close>

section \<open>The first process\<close>

definition initcode :: "byte list" where
  "initcode =
     [0x17, 0x05, 0x00, 0x00, 0x13, 0x05, 0x45, 0x02,
      0x97, 0x05, 0x00, 0x00, 0x93, 0x85, 0x35, 0x02,
      0x93, 0x08, 0x70, 0x00, 0x73, 0x00, 0x00, 0x00,
      0x93, 0x08, 0x20, 0x00, 0x73, 0x00, 0x00, 0x00,
      0xef, 0xf0, 0x9f, 0xff, 0x2f, 0x69, 0x6e, 0x69,
      0x74, 0x00, 0x00, 0x24, 0x00, 0x00, 0x00, 0x00,
      0x00, 0x00, 0x00, 0x00]"

definition userinit :: "'a filest_scheme \<Rightarrow> kerr + 'a filest_scheme" where
  "userinit s =
     bindE (allocproc s) (\<lambda>(found, s).
     let s = s\<lparr>initproc := found\<rparr> in
     bindE (nonnull ''userinit'' found) (\<lambda>p.
     bindE (uvminit (pagetable (procs s p)) initcode s) (\<lambda>s.
     let s = upd_proc p (\<lambda>q. q\<lparr>psz := PGSIZE\<rparr>) s;
         tf = trapframe (procs s p);
         s = s\<lparr>mem := wr64 (mem s) (tf + TF_epc) 0\<rparr>;
         s = s\<lparr>mem := wr64 (mem s) (tf + TF_sp) PGSIZE\<rparr>;
         s = upd_proc p (\<lambda>q. q\<lparr>pname := safestrcpy (pname q) (arr (str ''initcode'')) 16\<rparr>) s
     in bindE (namei [47] s) (\<lambda>(c, s).
        unlock (ProcLock p) (upd_proc p (\<lambda>q. q\<lparr>cwd := c, pstate := RUNNABLE\<rparr>) s)))))"

text \<open>The part of \<^verbatim>\<open>forkret\<close> between the release of the lock and the return to user space.\<close>

definition forkret_fs :: "'a filest_scheme \<Rightarrow> kerr + 'a filest_scheme" where
  "forkret_fs s = (if forkret_first s then fsinit 1 (s\<lparr>forkret_first := False\<rparr>) else Inr s)"

section \<open>Fork\<close>

text \<open>The copy of the saved registers: a trap frame is 288 bytes.\<close>

definition copy_trapframe :: "nat \<Rightarrow> nat \<Rightarrow> 'a procst_scheme \<Rightarrow> 'a procst_scheme" where
  "copy_trapframe np p s =
     s\<lparr>mem := mem_put (mem s) (trapframe (procs s np)) (mem_get (mem s) (trapframe (procs s p)) 288)\<rparr>"

definition dup_files :: "nat \<Rightarrow> nat \<Rightarrow> 'a filest_scheme \<Rightarrow> kerr + 'a filest_scheme" where
  "dup_files np p s =
     foldE (\<lambda>i s.
       case ofile (procs s p) i of None \<Rightarrow> Inr s
       | Some f \<Rightarrow> bindE (filedup f s) (\<lambda>(f, s). Inr (upd_proc np (\<lambda>q. q\<lparr>ofile := (ofile q)(i := Some f)\<rparr>) s)))
       [0..<NOFILE] s"

text \<open>What \<^verbatim>\<open>fork\<close> and \<^verbatim>\<open>clone\<close> share: the reference counts, the working directory, the name.\<close>

definition dup_rest :: "nat \<Rightarrow> nat \<Rightarrow> 'a filest_scheme \<Rightarrow> kerr + 'a filest_scheme" where
  "dup_rest np p s =
     bindE (dup_files np p s) (\<lambda>s.
     bindE (nonnull ''cwd'' (cwd (procs s p))) (\<lambda>c.
     bindE (idup c s) (\<lambda>(c, s).
     Inr (upd_proc np (\<lambda>q. q\<lparr>cwd := Some c, pname := safestrcpy (pname q) (arr (pname (procs s p))) 16\<rparr>) s))))"

definition fork :: "'a filest_scheme \<Rightarrow> kerr + int \<times> 'a filest_scheme" where
  "fork s =
     bindE (curproc s) (\<lambda>(p, s).
     bindE (allocproc s) (\<lambda>(found, s).
     case found of None \<Rightarrow> Inr (- 1, s)
     | Some np \<Rightarrow>
       bindE (uvmcopy (pagetable (procs s p)) (pagetable (procs s np)) (psz (procs s p)) s) (\<lambda>(r, s).
       if r < 0 then
         bindE (freeproc np s) (\<lambda>s. bindE (unlock (ProcLock np) s) (\<lambda>s. Inr (- 1, s)))
       else
         let s = upd_proc np (\<lambda>q. q\<lparr>psz := psz (procs s p), youAThread := 0, threadCount := 0\<rparr>) s;
             s = copy_trapframe np p s;
             s = s\<lparr>mem := wr64 (mem s) (trapframe (procs s np) + TF_a0) 0\<rparr>
         in bindE (dup_rest np p s) (\<lambda>s.
            let i = pid (procs s np) in
            bindE (unlock (ProcLock np) s) (\<lambda>s.
            bindE (lock WaitLock s) (\<lambda>s.
            bindE (unlock WaitLock (upd_proc np (\<lambda>q. q\<lparr>parent := Some p\<rparr>) s)) (\<lambda>s.
            bindE (lock (ProcLock np) s) (\<lambda>s.
            bindE (unlock (ProcLock np) (upd_proc np (\<lambda>q. q\<lparr>pstate := RUNNABLE\<rparr>) s)) (\<lambda>s.
            Inr (i, s))))))))))"

text \<open>
  \<^verbatim>\<open>clone\<close>. The name \<^verbatim>\<open>proc\<close> in \<^verbatim>\<open>proc->pagetable\<close> is the array of all processes, so the page table that the new
  thread gets is that of the entry 0. The lock of the new entry is still held at the end.
\<close>

definition clone :: "uint64 \<Rightarrow> int \<Rightarrow> 'a filest_scheme \<Rightarrow> kerr + int \<times> 'a filest_scheme" where
  "clone stack sz s =
     bindE (printf (str ''made it to clone'' @ [10]) [] s) (\<lambda>s.
     bindE (curproc s) (\<lambda>(p, s).
     bindE (allocproc s) (\<lambda>(found, s).
     case found of None \<Rightarrow> Inr (- 1, s)
     | Some np \<Rightarrow>
       let s = (if youAThread (procs s p) = 0
                then upd_proc p (\<lambda>q. q\<lparr>threadCount := int32 (threadCount q + 1)\<rparr>) s else s);
           s = upd_proc np (\<lambda>q. q\<lparr>pagetable := pagetable (procs s 0), psz := psz (procs s p), parent := Some p,
                 youAThread := 1\<rparr>) s;
           s = copy_trapframe np p s;
           s = s\<lparr>mem := wr64 (mem s) (trapframe (procs s np) + TF_sp)
                 (stack - of_int (int32 (threadCount (procs s p) * sz)))\<rparr>;
           s = s\<lparr>mem := wr64 (mem s) (trapframe (procs s np) + TF_a0) 0\<rparr>
       in bindE (dup_rest np p s) (\<lambda>s.
          let i = pid (procs s np); s = upd_proc np (\<lambda>q. q\<lparr>pstate := RUNNABLE\<rparr>) s in
          bindE (printf (str ''made it to end of clone'' @ [10]) [] s) (\<lambda>s. Inr (i, s))))))"

section \<open>Exit\<close>

text \<open>A process with no parent wakes the null channel, on which no process sleeps.\<close>

definition close_files :: "nat \<Rightarrow> 'a filest_scheme \<Rightarrow> kerr + 'a filest_scheme" where
  "close_files p s =
     foldE (\<lambda>fd s.
       case ofile (procs s p) fd of None \<Rightarrow> Inr s
       | Some f \<Rightarrow> bindE (fileclose f s) (\<lambda>s. Inr (upd_proc p (\<lambda>q. q\<lparr>ofile := (ofile q)(fd := None)\<rparr>) s)))
       [0..<NOFILE] s"

definition exit :: "int \<Rightarrow> 'a filest_scheme \<Rightarrow> kerr + 'a filest_scheme" where
  "exit status s =
     bindE (curproc s) (\<lambda>(p, s).
     if Some p = initproc s then Inl (Panic ''init exiting'')
     else
       bindE (close_files p s) (\<lambda>s.
       bindE (begin_op s) (\<lambda>s.
       bindE (nonnull ''iput'' (cwd (procs s p))) (\<lambda>c.
       bindE (iput c s) (\<lambda>s.
       bindE (end_op s) (\<lambda>s.
       let s = upd_proc p (\<lambda>q. q\<lparr>cwd := None\<rparr>) s in
       bindE (lock WaitLock s) (\<lambda>s.
       bindE (reparent p s) (\<lambda>s.
       bindE (case parent (procs s p) of None \<Rightarrow> Inr s | Some q \<Rightarrow> wakeup (ChanProc q) s) (exit_tail p status)))))))))"

end
