(* ===== verification/Exec.thy ===== *)
theory Exec
  imports Fork
begin

unbundle bit_operations_syntax

text \<open>
  \<^verbatim>\<open>exec\<close> (\<^verbatim>\<open>kernel/exec.c\<close>, \<^verbatim>\<open>kernel/elf.h\<close>): loading an ELF image, building the argument stack, and switching
  the process to the new image. The functions that can jump to the label \<^verbatim>\<open>bad\<close> return \<open>None\<close> there, with
  the state and the size of the image so far.
\<close>

section \<open>ELF headers\<close>

record elfhdr =
  elf_magic :: uint
  elf_entry :: uint64
  elf_phoff :: uint64
  elf_phnum :: ushort

record proghdr =
  ph_type :: uint
  ph_off :: uint64
  ph_vaddr :: uint64
  ph_filesz :: uint64
  ph_memsz :: uint64

definition elf_dec :: "byte list \<Rightarrow> elfhdr" where
  "elf_dec xs = \<lparr>elf_magic = get32 xs 0, elf_entry = get64 xs 24, elf_phoff = get64 xs 32, elf_phnum = get16 xs 56\<rparr>"

definition ph_dec :: "byte list \<Rightarrow> proghdr" where
  "ph_dec xs = \<lparr>ph_type = get32 xs 0, ph_off = get64 xs 8, ph_vaddr = get64 xs 16, ph_filesz = get64 xs 32,
     ph_memsz = get64 xs 40\<rparr>"

section \<open>Segments\<close>

function loadseg_loop ::
  "addr \<Rightarrow> uint64 \<Rightarrow> nat \<Rightarrow> uint \<Rightarrow> nat \<Rightarrow> nat \<Rightarrow> 'a filest_scheme \<Rightarrow> kerr + int \<times> 'a filest_scheme" where
  "loadseg_loop pt va ip offset i sz s =
     (if i < sz then
        bindE (walkaddr pt (va + of_nat i) s) (\<lambda>pa.
        if pa = 0 then Inl (Panic ''loadseg: address should exist'')
        else
          let n = min (sz - i) 4096 in
          bindE (readi ip (Kmem pa) (offset + of_nat i) (of_nat n) s) (\<lambda>((r, _), s).
          if r \<noteq> int n then Inr (- 1, s) else loadseg_loop pt va ip offset (i + 4096) sz s))
      else Inr (0, s))"
  by pat_completeness auto
termination by (relation "measure (\<lambda>(pt, va, ip, offset, i, sz, s). sz - i)") auto

declare loadseg_loop.simps [simp del]

definition loadseg :: "addr \<Rightarrow> uint64 \<Rightarrow> nat \<Rightarrow> uint \<Rightarrow> uint \<Rightarrow> 'a filest_scheme \<Rightarrow> kerr + int \<times> 'a filest_scheme" where
  "loadseg pt va ip offset sz s = loadseg_loop pt va ip offset 0 (unat sz) s"

primrec load_segments ::
  "nat \<Rightarrow> addr \<Rightarrow> nat \<Rightarrow> int \<Rightarrow> uint64 \<Rightarrow> 'a filest_scheme \<Rightarrow> kerr + (bool \<times> uint64) \<times> 'a filest_scheme" where
  "load_segments 0 pt ip off sz s = Inr ((True, sz), s)"
| "load_segments (Suc k) pt ip off sz s =
     bindE (readi ip Kbuf (of_int off) 56 s) (\<lambda>((r, bs), s).
     if r \<noteq> 56 then Inr ((False, sz), s)
     else
       let ph = ph_dec bs in
       if ph_type ph \<noteq> 1 then load_segments k pt ip (int32 (off + 56)) sz s
       else if ph_memsz ph < ph_filesz ph then Inr ((False, sz), s)
       else if ph_vaddr ph + ph_memsz ph < ph_vaddr ph then Inr ((False, sz), s)
       else
         bindE (uvmalloc pt sz (ph_vaddr ph + ph_memsz ph) s) (\<lambda>(sz1, s).
         if sz1 = 0 then Inr ((False, sz), s)
         else if ph_vaddr ph mod PGSIZE \<noteq> 0 then Inr ((False, sz1), s)
         else
           bindE (loadseg pt (ph_vaddr ph) ip (ucast (ph_off ph)) (ucast (ph_filesz ph)) s) (\<lambda>(r, s).
           if r < 0 then Inr ((False, sz1), s)
           else load_segments k pt ip (int32 (off + 56)) sz1 s)))"

section \<open>Arguments\<close>

text \<open>
  The strings are pushed one below the other, each aligned to 16 bytes; \<open>ustack\<close> is what has been stored in
  the array of that name. An argument is given by its bytes before the terminating 0.
\<close>

fun push_args ::
  "addr \<Rightarrow> uint64 \<Rightarrow> byte list list \<Rightarrow> uint64 \<Rightarrow> uint64 list \<Rightarrow> 'a filest_scheme
     \<Rightarrow> kerr + (uint64 \<times> uint64 list) option \<times> 'a filest_scheme" where
  "push_args pt stackbase [] sp ustack s = Inr (Some (sp, ustack), s)"
| "push_args pt stackbase (a # as) sp ustack s =
     (if length ustack \<ge> 32 then Inr (None, s)
      else
        let sp = sp - (of_nat (length a) + 1); sp = sp - sp mod 16 in
        if sp < stackbase then Inr (None, s)
        else
          bindE (copyout pt sp (a @ [0]) s) (\<lambda>(r, s).
          if r < 0 then Inr (None, s) else push_args pt stackbase as sp (ustack @ [sp]) s))"

fun last_elem :: "byte list \<Rightarrow> byte list \<Rightarrow> byte list" where
  "last_elem las [] = las"
| "last_elem las (c # cs) = last_elem (if c = 47 then cs else las) cs"

section \<open>The system call\<close>

definition exec_bad ::
  "addr \<Rightarrow> uint64 \<Rightarrow> nat option \<Rightarrow> 'a filest_scheme \<Rightarrow> kerr + int \<times> 'a filest_scheme" where
  "exec_bad pt sz ip s =
     bindE (if pt \<noteq> 0 then proc_freepagetable pt sz s else Inr s) (\<lambda>s.
     bindE (case ip of None \<Rightarrow> Inr s | Some ip \<Rightarrow> bindE (iunlockput ip s) end_op) (\<lambda>s. Inr (- 1, s)))"

text \<open>The second half of \<^verbatim>\<open>exec\<close>, with the image in place: the stack and the commit.\<close>

definition exec_stack ::
  "byte list \<Rightarrow> byte list list \<Rightarrow> elfhdr \<Rightarrow> addr \<Rightarrow> uint64 \<Rightarrow> 'a filest_scheme \<Rightarrow> kerr + int \<times> 'a filest_scheme" where
  "exec_stack path argv elf pt sz s =
     bindE (curproc s) (\<lambda>(p, s).
     let oldsz = psz (procs s p); sz = PGROUNDUP sz in
     bindE (uvmalloc pt sz (sz + 2 * PGSIZE) s) (\<lambda>(sz1, s).
     if sz1 = 0 then exec_bad pt sz None s
     else
       let sz = sz1; stackbase = sz - PGSIZE in
       bindE (uvmclear pt (sz - 2 * PGSIZE) s) (\<lambda>s.
       bindE (push_args pt stackbase argv sz [] s) (\<lambda>(pushed, s).
       case pushed of None \<Rightarrow> exec_bad pt sz None s
       | Some (sp, ustack) \<Rightarrow>
         let argc = length ustack; sp = sp - (of_nat argc + 1) * 8; sp = sp - sp mod 16 in
         if sp < stackbase then exec_bad pt sz None s
         else
           bindE (copyout pt sp (concat (map (le_enc 8) (ustack @ [0]))) s) (\<lambda>(r, s).
           if r < 0 then exec_bad pt sz None s
           else
             let tf = trapframe (procs s p);
                 s = s\<lparr>mem := wr64 (mem s) (tf + 120) sp\<rparr>;
                 s = upd_proc p (\<lambda>q. q\<lparr>pname := safestrcpy (pname q) (arr (last_elem path path)) 16\<rparr>) s;
                 oldpt = pagetable (procs s p);
                 s = upd_proc p (\<lambda>q. q\<lparr>pagetable := pt, psz := sz\<rparr>) s;
                 s = s\<lparr>mem := wr64 (mem s) (tf + TF_epc) (elf_entry elf)\<rparr>;
                 s = s\<lparr>mem := wr64 (mem s) (tf + TF_sp) sp\<rparr>
             in bindE (proc_freepagetable oldpt oldsz s) (\<lambda>s. Inr (int argc, s)))))))"

definition exec :: "byte list \<Rightarrow> byte list list \<Rightarrow> 'a filest_scheme \<Rightarrow> kerr + int \<times> 'a filest_scheme" where
  "exec path argv s =
     bindE (curproc s) (\<lambda>(p, s).
     bindE (begin_op s) (\<lambda>s.
     bindE (namei path s) (\<lambda>(found, s).
     case found of None \<Rightarrow> bindE (end_op s) (\<lambda>s. Inr (- 1, s))
     | Some ip \<Rightarrow>
       bindE (ilock (Some ip) s) (\<lambda>s.
       bindE (readi ip Kbuf 0 64 s) (\<lambda>((r, bs), s).
       let elf = elf_dec bs in
       if r \<noteq> 64 then exec_bad 0 0 (Some ip) s
       else if elf_magic elf \<noteq> 0x464C457F then exec_bad 0 0 (Some ip) s
       else
         bindE (proc_pagetable (trapframe (procs s p)) s) (\<lambda>(pt, s).
         if pt = 0 then exec_bad 0 0 (Some ip) s
         else
           bindE (load_segments (unat (elf_phnum elf)) pt ip (sint (ucast (elf_phoff elf) :: uint)) 0 s) (\<lambda>((ok, sz), s).
           if \<not> ok then exec_bad pt sz (Some ip) s
           else bindE (iunlockput ip s) (\<lambda>s. bindE (end_op s) (exec_stack path argv elf pt sz))))))))) "

end
