(* ===== verification/Syscall.thy ===== *)
theory Syscall
  imports Exec
begin

unbundle bit_operations_syntax

text \<open>
  System calls (\<^verbatim>\<open>kernel/syscall.c\<close>, \<^verbatim>\<open>kernel/sysproc.c\<close>, \<^verbatim>\<open>kernel/sysfile.c\<close>): fetching arguments, one function for
  each call, and the dispatcher. A call ends in \<open>Done\<close> with its result or in \<open>Asleep\<close> with the point where
  it goes on.
\<close>

section \<open>Arguments\<close>

definition fetchaddr :: "uint64 \<Rightarrow> 'a filest_scheme \<Rightarrow> kerr + (int \<times> uint64) \<times> 'a filest_scheme" where
  "fetchaddr a s =
     bindE (curproc s) (\<lambda>(p, s).
     if a \<ge> psz (procs s p) \<or> a + 8 > psz (procs s p) then Inr ((- 1, 0), s)
     else bindE (copyin (pagetable (procs s p)) a 8 s) (\<lambda>(r, bs).
       if r \<noteq> 0 then Inr ((- 1, 0), s) else Inr ((0, le_dec bs), s)))"

text \<open>The result is the length, or -1, and the string without its terminator.\<close>

definition fetchstr :: "uint64 \<Rightarrow> nat \<Rightarrow> 'a filest_scheme \<Rightarrow> kerr + (int \<times> byte list) \<times> 'a filest_scheme" where
  "fetchstr a max_n s =
     bindE (curproc s) (\<lambda>(p, s).
     bindE (copyinstr (pagetable (procs s p)) a max_n s) (\<lambda>(r, bs).
     if r < 0 then Inr ((r, []), s)
     else case strlen (arr bs) of None \<Rightarrow> Inl (Hang ''strlen'') | Some n \<Rightarrow> Inr ((int n, take n bs), s)))"

definition argraw :: "nat \<Rightarrow> 'a filest_scheme \<Rightarrow> kerr + uint64 \<times> 'a filest_scheme" where
  "argraw n s =
     bindE (curproc s) (\<lambda>(p, s).
     if n < 6 then Inr (rd64 (mem s) (trapframe (procs s p) + (TF_a0 + 8 * of_nat n)), s)
     else Inl (Panic ''argraw''))"

definition argint :: "nat \<Rightarrow> 'a filest_scheme \<Rightarrow> kerr + int \<times> 'a filest_scheme" where
  "argint n s = bindE (argraw n s) (\<lambda>(v, s). Inr (sint (ucast v :: uint), s))"

definition argaddr :: "nat \<Rightarrow> 'a filest_scheme \<Rightarrow> kerr + uint64 \<times> 'a filest_scheme" where
  "argaddr n s = argraw n s"

text \<open>\<^verbatim>\<open>argptr\<close> assigns the argument to its own parameter: the caller's variable keeps its value.\<close>

definition argptr :: "nat \<Rightarrow> uint64 \<Rightarrow> 'a filest_scheme \<Rightarrow> kerr + uint64 \<times> 'a filest_scheme" where
  "argptr n help s = bindE (argraw n s) (\<lambda>(v, s). Inr (help, s))"

definition argstr :: "nat \<Rightarrow> nat \<Rightarrow> 'a filest_scheme \<Rightarrow> kerr + (int \<times> byte list) \<times> 'a filest_scheme" where
  "argstr n max_n s = bindE (argaddr n s) (\<lambda>(a, s). fetchstr a max_n s)"

abbreviation (input) MAXPATH :: nat where "MAXPATH \<equiv> 128"

section \<open>Calls on processes\<close>

definition sys_exit :: "'a filest_scheme \<Rightarrow> kerr + pending progress \<times> 'a filest_scheme" where
  "sys_exit s = bindE (argint 0 s) (\<lambda>(n, s). bindE (exit n s) (\<lambda>s. Inr (Asleep Exited, s)))"

definition sys_getpid :: "'a filest_scheme \<Rightarrow> kerr + pending progress \<times> 'a filest_scheme" where
  "sys_getpid s = bindE (curproc s) (\<lambda>(p, s). Inr (Done (pid (procs s p)), s))"

definition sys_fork :: "'a filest_scheme \<Rightarrow> kerr + pending progress \<times> 'a filest_scheme" where
  "sys_fork s = bindE (fork s) (\<lambda>(r, s). Inr (Done r, s))"

definition sys_wait :: "'a filest_scheme \<Rightarrow> kerr + pending progress \<times> 'a filest_scheme" where
  "sys_wait s =
     bindE (argaddr 0 s) (\<lambda>(p, s).
     bindE (wait p s) (\<lambda>(r, s). Inr (case r of Some r \<Rightarrow> Done r | None \<Rightarrow> Asleep WaitsChild, s)))"

definition sys_sbrk :: "'a filest_scheme \<Rightarrow> kerr + pending progress \<times> 'a filest_scheme" where
  "sys_sbrk s =
     bindE (argint 0 s) (\<lambda>(n, s).
     bindE (curproc s) (\<lambda>(p, s).
     let a = sint (ucast (psz (procs s p)) :: uint) in
     bindE (growproc n s) (\<lambda>(r, s). if r < 0 then Inr (Done (- 1), s) else Inr (Done a, s))))"

text \<open>The loop of \<^verbatim>\<open>sys_sleep\<close>, with the lock held; the comparison is one of unsigned numbers.\<close>

definition sys_sleep_pass :: "uint \<Rightarrow> int \<Rightarrow> 'a filest_scheme \<Rightarrow> kerr + pending progress \<times> 'a filest_scheme" where
  "sys_sleep_pass ticks0 n s =
     (if ticks s - ticks0 < of_int n then
        bindE (curproc s) (\<lambda>(p, s).
        if killed (procs s p) \<noteq> 0 then bindE (unlock TicksLock s) (\<lambda>s. Inr (Done (- 1), s))
        else bindE (sleep ChanTicks TicksLock s) (\<lambda>s. Inr (Asleep (WaitsTicks ticks0), s)))
      else bindE (unlock TicksLock s) (\<lambda>s. Inr (Done 0, s)))"

definition sys_sleep :: "'a filest_scheme \<Rightarrow> kerr + pending progress \<times> 'a filest_scheme" where
  "sys_sleep s =
     bindE (argint 0 s) (\<lambda>(n, s). bindE (lock TicksLock s) (\<lambda>s. sys_sleep_pass (ticks s) n s))"

definition sys_kill :: "'a filest_scheme \<Rightarrow> kerr + pending progress \<times> 'a filest_scheme" where
  "sys_kill s = bindE (argint 0 s) (\<lambda>(i, s). bindE (kill i s) (\<lambda>(r, s). Inr (Done r, s)))"

definition sys_uptime :: "'a filest_scheme \<Rightarrow> kerr + pending progress \<times> 'a filest_scheme" where
  "sys_uptime s =
     bindE (lock TicksLock s) (\<lambda>s.
     let x = ticks s in bindE (unlock TicksLock s) (\<lambda>s. Inr (Done (uint x), s)))"

text \<open>\<open>junk\<close> is the value of the uninitialised local variable \<^verbatim>\<open>stack\<close>.\<close>

definition sys_clone :: "uint64 \<Rightarrow> 'a filest_scheme \<Rightarrow> kerr + pending progress \<times> 'a filest_scheme" where
  "sys_clone junk s =
     bindE (argint 1 s) (\<lambda>(sz, s).
     bindE (argptr 0 junk s) (\<lambda>(stack, s).
     bindE (clone stack sz s) (\<lambda>(r, s). Inr (Done r, s))))"

section \<open>Calls on files\<close>

definition argfd :: "nat \<Rightarrow> 'a filest_scheme \<Rightarrow> kerr + (nat \<times> nat) option \<times> 'a filest_scheme" where
  "argfd n s =
     bindE (argint n s) (\<lambda>(fd, s).
     if fd < 0 \<or> fd \<ge> int NOFILE then Inr (None, s)
     else
       bindE (curproc s) (\<lambda>(p, s).
       Inr (case ofile (procs s p) (nat fd) of None \<Rightarrow> None | Some f \<Rightarrow> Some (nat fd, f), s)))"

definition fdalloc :: "nat \<Rightarrow> 'a filest_scheme \<Rightarrow> kerr + int \<times> 'a filest_scheme" where
  "fdalloc f s =
     bindE (curproc s) (\<lambda>(p, s).
     case scan (\<lambda>fd. ofile (procs s p) fd = None) 0 NOFILE of
       Some fd \<Rightarrow> Inr (int fd, upd_proc p (\<lambda>q. q\<lparr>ofile := (ofile q)(fd := Some f)\<rparr>) s)
     | None \<Rightarrow> Inr (- 1, s))"

definition sys_dup :: "'a filest_scheme \<Rightarrow> kerr + pending progress \<times> 'a filest_scheme" where
  "sys_dup s =
     bindE (argfd 0 s) (\<lambda>(r, s).
     case r of None \<Rightarrow> Inr (Done (- 1), s)
     | Some (_, f) \<Rightarrow>
       bindE (fdalloc f s) (\<lambda>(fd, s).
       if fd < 0 then Inr (Done (- 1), s) else bindE (filedup f s) (\<lambda>(_, s). Inr (Done fd, s))))"

definition sys_read :: "'a filest_scheme \<Rightarrow> kerr + pending progress \<times> 'a filest_scheme" where
  "sys_read s =
     bindE (argfd 0 s) (\<lambda>(r, s).
     case r of None \<Rightarrow> Inr (Done (- 1), s)
     | Some (_, f) \<Rightarrow> bindE (argint 2 s) (\<lambda>(n, s). bindE (argaddr 1 s) (\<lambda>(p, s). fileread f p n s)))"

definition sys_write :: "'a filest_scheme \<Rightarrow> kerr + pending progress \<times> 'a filest_scheme" where
  "sys_write s =
     bindE (argfd 0 s) (\<lambda>(r, s).
     case r of None \<Rightarrow> Inr (Done (- 1), s)
     | Some (_, f) \<Rightarrow> bindE (argint 2 s) (\<lambda>(n, s). bindE (argaddr 1 s) (\<lambda>(p, s). filewrite f p n s)))"

definition sys_close :: "'a filest_scheme \<Rightarrow> kerr + pending progress \<times> 'a filest_scheme" where
  "sys_close s =
     bindE (argfd 0 s) (\<lambda>(r, s).
     case r of None \<Rightarrow> Inr (Done (- 1), s)
     | Some (fd, f) \<Rightarrow>
       bindE (curproc s) (\<lambda>(p, s).
       bindE (fileclose f (upd_proc p (\<lambda>q. q\<lparr>ofile := (ofile q)(fd := None)\<rparr>) s)) (\<lambda>s. Inr (Done 0, s))))"

definition sys_fstat :: "'a filest_scheme \<Rightarrow> kerr + pending progress \<times> 'a filest_scheme" where
  "sys_fstat s =
     bindE (argfd 0 s) (\<lambda>(r, s).
     case r of None \<Rightarrow> Inr (Done (- 1), s)
     | Some (_, f) \<Rightarrow> bindE (argaddr 1 s) (\<lambda>(st, s). bindE (filestat f st s) (\<lambda>(r, s). Inr (Done r, s))))"

text \<open>The end of the calls that give up inside a transaction.\<close>

definition end_fail :: "'a filest_scheme \<Rightarrow> kerr + pending progress \<times> 'a filest_scheme" where
  "end_fail s = bindE (end_op s) (\<lambda>s. Inr (Done (- 1), s))"

definition drop_fail :: "nat \<Rightarrow> 'a filest_scheme \<Rightarrow> kerr + pending progress \<times> 'a filest_scheme" where
  "drop_fail ip s = bindE (iunlockput ip s) end_fail"

text \<open>The code at the label \<^verbatim>\<open>bad\<close> of \<^verbatim>\<open>sys_link\<close>.\<close>

definition link_bad :: "nat \<Rightarrow> 'a filest_scheme \<Rightarrow> kerr + pending progress \<times> 'a filest_scheme" where
  "link_bad ip s =
     bindE (ilock (Some ip) s) (\<lambda>s.
     bindE (iupdate ip (upd_idi ip (\<lambda>d. d\<lparr>di_nlink := di_nlink d - 1\<rparr>) s)) (drop_fail ip))"

definition sys_link :: "'a filest_scheme \<Rightarrow> kerr + pending progress \<times> 'a filest_scheme" where
  "sys_link s =
     bindE (argstr 0 MAXPATH s) (\<lambda>((r, old), s).
     if r < 0 then Inr (Done (- 1), s)
     else
       bindE (argstr 1 MAXPATH s) (\<lambda>((r, new), s).
       if r < 0 then Inr (Done (- 1), s)
       else
         bindE (begin_op s) (\<lambda>s.
         bindE (namei old s) (\<lambda>(found, s).
         case found of None \<Rightarrow> end_fail s
         | Some ip \<Rightarrow>
           bindE (ilock (Some ip) s) (\<lambda>s.
           if itype ip s = T_DIR then drop_fail ip s
           else
             bindE (iupdate ip (upd_idi ip (\<lambda>d. d\<lparr>di_nlink := di_nlink d + 1\<rparr>) s)) (\<lambda>s.
             bindE (iunlock (Some ip) s) (\<lambda>s.
             bindE (nameiparent new s) (\<lambda>((pd, name), s).
             case pd of None \<Rightarrow> link_bad ip s
             | Some dp \<Rightarrow>
               bindE (ilock (Some dp) s) (\<lambda>s.
               bindE (if idev (inodes s dp) \<noteq> idev (inodes s ip) then Inr (- 1, s)
                      else dirlink dp name (inum (inodes s ip)) s) (\<lambda>(r, s).
               if r < 0 then bindE (iunlockput dp s) (link_bad ip)
               else
                 bindE (iunlockput dp s) (\<lambda>s.
                 bindE (iput ip s) (\<lambda>s.
                 bindE (end_op s) (\<lambda>s. Inr (Done 0, s))))))))))))))"

primrec isdirempty_loop :: "nat \<Rightarrow> nat \<Rightarrow> uint \<Rightarrow> 'a filest_scheme \<Rightarrow> kerr + bool \<times> 'a filest_scheme" where
  "isdirempty_loop 0 dp off s = Inr (True, s)"
| "isdirempty_loop (Suc k) dp off s =
     (if off < isize dp s then
        bindE (readi dp Kbuf off 16 s) (\<lambda>((r, de), s).
        if r \<noteq> 16 then Inl (Panic ''isdirempty: readi'')
        else if get16 de 0 \<noteq> 0 then Inr (False, s)
        else isdirempty_loop k dp (off + 16) s)
      else Inr (True, s))"

definition isdirempty :: "nat \<Rightarrow> 'a filest_scheme \<Rightarrow> kerr + bool \<times> 'a filest_scheme" where
  "isdirempty dp s = isdirempty_loop (entries dp s) dp 32 s"

definition sys_unlink :: "'a filest_scheme \<Rightarrow> kerr + pending progress \<times> 'a filest_scheme" where
  "sys_unlink s =
     bindE (argstr 0 MAXPATH s) (\<lambda>((r, path), s).
     if r < 0 then Inr (Done (- 1), s)
     else
       bindE (begin_op s) (\<lambda>s.
       bindE (nameiparent path s) (\<lambda>((pd, name), s).
       case pd of None \<Rightarrow> end_fail s
       | Some dp \<Rightarrow>
         bindE (ilock (Some dp) s) (\<lambda>s.
         if namecmp name (str ''.'') = 0 \<or> namecmp name (str ''..'') = 0 then drop_fail dp s
         else
           bindE (dirlookup dp name s) (\<lambda>(found, s).
           case found of None \<Rightarrow> drop_fail dp s
           | Some (ip, off) \<Rightarrow>
             bindE (ilock (Some ip) s) (\<lambda>s.
             if sint (inlink ip s) < 1 then Inl (Panic ''unlink: nlink < 1'')
             else
               bindE (if itype ip s = T_DIR then isdirempty ip s else Inr (True, s)) (\<lambda>(emp, s).
               if \<not> emp then bindE (iunlockput ip s) (drop_fail dp)
               else
                 bindE (writei dp (SKern (replicate 16 0)) off 16 s) (\<lambda>(r, s).
                 if r \<noteq> 16 then Inl (Panic ''unlink: writei'')
                 else
                   bindE (if itype ip s = T_DIR
                          then iupdate dp (upd_idi dp (\<lambda>d. d\<lparr>di_nlink := di_nlink d - 1\<rparr>) s) else Inr s) (\<lambda>s.
                   bindE (iunlockput dp s) (\<lambda>s.
                   bindE (iupdate ip (upd_idi ip (\<lambda>d. d\<lparr>di_nlink := di_nlink d - 1\<rparr>) s)) (\<lambda>s.
                   bindE (iunlockput ip s) (\<lambda>s.
                   bindE (end_op s) (\<lambda>s. Inr (Done 0, s))))))))))))))"

text \<open>\<^verbatim>\<open>create\<close> returns a locked inode.\<close>

definition create ::
  "byte list \<Rightarrow> ushort \<Rightarrow> ushort \<Rightarrow> ushort \<Rightarrow> 'a filest_scheme \<Rightarrow> kerr + nat option \<times> 'a filest_scheme" where
  "create path type major minor s =
     bindE (nameiparent path s) (\<lambda>((pd, name), s).
     case pd of None \<Rightarrow> Inr (None, s)
     | Some dp \<Rightarrow>
       bindE (ilock (Some dp) s) (\<lambda>s.
       bindE (dirlookup dp name s) (\<lambda>(found, s).
       case found of
         Some (ip, _) \<Rightarrow>
           bindE (iunlockput dp s) (\<lambda>s.
           bindE (ilock (Some ip) s) (\<lambda>s.
           if type = T_FILE \<and> (itype ip s = T_FILE \<or> itype ip s = T_DEVICE) then Inr (Some ip, s)
           else bindE (iunlockput ip s) (\<lambda>s. Inr (None, s))))
       | None \<Rightarrow>
           bindE (ialloc (idev (inodes s dp)) type s) (\<lambda>(ip, s).
           bindE (ilock (Some ip) s) (\<lambda>s.
           bindE (iupdate ip (upd_idi ip (\<lambda>d. d\<lparr>di_major := major, di_minor := minor, di_nlink := 1\<rparr>) s)) (\<lambda>s.
           bindE (if type = T_DIR then
                    bindE (iupdate dp (upd_idi dp (\<lambda>d. d\<lparr>di_nlink := di_nlink d + 1\<rparr>) s)) (\<lambda>s.
                    bindE (dirlink ip (str ''.'') (inum (inodes s ip)) s) (\<lambda>(r, s).
                    if r < 0 then Inl (Panic ''create dots'')
                    else bindE (dirlink ip (str ''..'') (inum (inodes s dp)) s) (\<lambda>(r, s).
                      if r < 0 then Inl (Panic ''create dots'') else Inr s)))
                  else Inr s) (\<lambda>s.
           bindE (dirlink dp name (inum (inodes s ip)) s) (\<lambda>(r, s).
           if r < 0 then Inl (Panic ''create: dirlink'')
           else bindE (iunlockput dp s) (\<lambda>s. Inr (Some ip, s))))))))))"

text \<open>\<^verbatim>\<open>sys_open\<close> from the point where it holds the locked inode.\<close>

definition open_inode :: "nat \<Rightarrow> int \<Rightarrow> 'a filest_scheme \<Rightarrow> kerr + pending progress \<times> 'a filest_scheme" where
  "open_inode ip omode s =
     (let m = (word_of_int omode :: uint) in
      if itype ip s = T_DEVICE \<and> (sint (imajor ip s) < 0 \<or> sint (imajor ip s) \<ge> NDEV) then drop_fail ip s
      else
        bindE (filealloc s) (\<lambda>(got, s).
        case got of None \<Rightarrow> drop_fail ip s
        | Some f \<Rightarrow>
          bindE (fdalloc f s) (\<lambda>(fd, s).
          if fd < 0 then bindE (fileclose f s) (drop_fail ip)
          else
            let s = (if itype ip s = T_DEVICE then upd_file f (\<lambda>q. q\<lparr>ftype := FD_DEVICE, fmajor := imajor ip s\<rparr>) s
                     else upd_file f (\<lambda>q. q\<lparr>ftype := FD_INODE, foff := 0\<rparr>) s);
                s = upd_file f (\<lambda>q. q\<lparr>fip := Some ip, readable := (m AND 1 = 0),
                      writable := (m AND 1 \<noteq> 0 \<or> m AND 2 \<noteq> 0)\<rparr>) s
            in bindE (if m AND 0x400 \<noteq> 0 \<and> itype ip s = T_FILE then itrunc ip s else Inr s) (\<lambda>s.
               bindE (iunlock (Some ip) s) (\<lambda>s.
               bindE (end_op s) (\<lambda>s. Inr (Done fd, s)))))))"

definition sys_open :: "'a filest_scheme \<Rightarrow> kerr + pending progress \<times> 'a filest_scheme" where
  "sys_open s =
     bindE (argstr 0 MAXPATH s) (\<lambda>((r, path), s).
     if r < 0 then Inr (Done (- 1), s)
     else
       bindE (argint 1 s) (\<lambda>(omode, s).
       bindE (begin_op s) (\<lambda>s.
       if (word_of_int omode :: uint) AND 0x200 \<noteq> 0 then
         bindE (create path T_FILE 0 0 s) (\<lambda>(got, s).
         case got of None \<Rightarrow> end_fail s | Some ip \<Rightarrow> open_inode ip omode s)
       else
         bindE (namei path s) (\<lambda>(got, s).
         case got of None \<Rightarrow> end_fail s
         | Some ip \<Rightarrow>
           bindE (ilock (Some ip) s) (\<lambda>s.
           if itype ip s = T_DIR \<and> omode \<noteq> 0 then drop_fail ip s else open_inode ip omode s)))))"

definition sys_mkdir :: "'a filest_scheme \<Rightarrow> kerr + pending progress \<times> 'a filest_scheme" where
  "sys_mkdir s =
     bindE (begin_op s) (\<lambda>s.
     bindE (argstr 0 MAXPATH s) (\<lambda>((r, path), s).
     if r < 0 then end_fail s
     else
       bindE (create path T_DIR 0 0 s) (\<lambda>(got, s).
       case got of None \<Rightarrow> end_fail s
       | Some ip \<Rightarrow> bindE (iunlockput ip s) (\<lambda>s. bindE (end_op s) (\<lambda>s. Inr (Done 0, s))))))"

definition sys_mknod :: "'a filest_scheme \<Rightarrow> kerr + pending progress \<times> 'a filest_scheme" where
  "sys_mknod s =
     bindE (begin_op s) (\<lambda>s.
     bindE (argstr 0 MAXPATH s) (\<lambda>((r, path), s).
     if r < 0 then end_fail s
     else
       bindE (argint 1 s) (\<lambda>(major, s).
       bindE (argint 2 s) (\<lambda>(minor, s).
       bindE (create path T_DEVICE (of_int major) (of_int minor) s) (\<lambda>(got, s).
       case got of None \<Rightarrow> end_fail s
       | Some ip \<Rightarrow> bindE (iunlockput ip s) (\<lambda>s. bindE (end_op s) (\<lambda>s. Inr (Done 0, s))))))))"

definition sys_chdir :: "'a filest_scheme \<Rightarrow> kerr + pending progress \<times> 'a filest_scheme" where
  "sys_chdir s =
     bindE (curproc s) (\<lambda>(p, s).
     bindE (begin_op s) (\<lambda>s.
     bindE (argstr 0 MAXPATH s) (\<lambda>((r, path), s).
     if r < 0 then end_fail s
     else
       bindE (namei path s) (\<lambda>(got, s).
       case got of None \<Rightarrow> end_fail s
       | Some ip \<Rightarrow>
         bindE (ilock (Some ip) s) (\<lambda>s.
         if itype ip s \<noteq> T_DIR then drop_fail ip s
         else
           bindE (iunlock (Some ip) s) (\<lambda>s.
           bindE (nonnull ''iput'' (cwd (procs s p))) (\<lambda>c.
           bindE (iput c s) (\<lambda>s.
           bindE (end_op s) (\<lambda>s. Inr (Done 0, upd_proc p (\<lambda>q. q\<lparr>cwd := Some ip\<rparr>) s)))))))))) "

text \<open>
  \<^verbatim>\<open>sys_exec\<close> reads the argument vector into pages of its own: \<open>pages\<close> are the pages allocated so far and
  \<open>args\<close> the strings in them. \<open>None\<close> is the label \<^verbatim>\<open>bad\<close>.
\<close>

function exec_args ::
  "nat \<Rightarrow> uint64 \<Rightarrow> addr list \<Rightarrow> byte list list \<Rightarrow> 'a filest_scheme
     \<Rightarrow> kerr + (byte list list option \<times> addr list) \<times> 'a filest_scheme" where
  "exec_args i uargv pages args s =
     (if i \<ge> 32 then Inr ((None, pages), s)
      else
        bindE (fetchaddr (uargv + 8 * of_nat i) s) (\<lambda>((r, uarg), s).
        if r < 0 then Inr ((None, pages), s)
        else if uarg = 0 then Inr ((Some args, pages), s)
        else
          bindE (kalloc s) (\<lambda>(pg, s).
          if pg = 0 then Inr ((None, pages), s)
          else
            bindE (fetchstr uarg 4096 s) (\<lambda>((r, a), s).
            if r < 0 then Inr ((None, pages @ [pg]), s)
            else exec_args (Suc i) uargv (pages @ [pg]) (args @ [a]) (s\<lparr>mem := mem_put (mem s) pg (a @ [0])\<rparr>)))))"
  by pat_completeness auto
termination by (relation "measure (\<lambda>(i, u, p, a, s). 32 - i)") auto

declare exec_args.simps [simp del]

definition sys_exec :: "'a filest_scheme \<Rightarrow> kerr + pending progress \<times> 'a filest_scheme" where
  "sys_exec s =
     bindE (argstr 0 MAXPATH s) (\<lambda>((r, path), s).
     if r < 0 then Inr (Done (- 1), s)
     else
       bindE (argaddr 1 s) (\<lambda>(uargv, s).
       bindE (exec_args 0 uargv [] [] s) (\<lambda>((args, pages), s).
       case args of None \<Rightarrow> bindE (foldE kfree pages s) (\<lambda>s. Inr (Done (- 1), s))
       | Some argv \<Rightarrow>
           bindE (exec path argv s) (\<lambda>(r, s).
           bindE (foldE kfree pages s) (\<lambda>s. Inr (Done r, s))))))"

definition sys_pipe :: "'a filest_scheme \<Rightarrow> kerr + pending progress \<times> 'a filest_scheme" where
  "sys_pipe s =
     bindE (curproc s) (\<lambda>(p, s).
     bindE (argaddr 0 s) (\<lambda>(fdarray, s).
     bindE (pipealloc s) (\<lambda>(got, s).
     case got of None \<Rightarrow> Inr (Done (- 1), s)
     | Some (rf, wfl) \<Rightarrow>
       let give_up = (\<lambda>fds s.
             let s = upd_proc p (\<lambda>q. q\<lparr>ofile := fold (\<lambda>fd m. m(nat fd := None)) fds (ofile q)\<rparr>) s in
             bindE (fileclose rf s) (\<lambda>s. bindE (fileclose wfl s) (\<lambda>s. Inr (Done (- 1), s)))) in
       bindE (fdalloc rf s) (\<lambda>(fd0, s).
       if fd0 < 0 then give_up [] s
       else
         bindE (fdalloc wfl s) (\<lambda>(fd1, s).
         if fd1 < 0 then give_up [fd0] s
         else
           bindE (copyout (pagetable (procs s p)) fdarray (le_enc 4 (word_of_int fd0 :: uint)) s) (\<lambda>(r, s).
           if r < 0 then give_up [fd0, fd1] s
           else
             bindE (copyout (pagetable (procs s p)) (fdarray + 4) (le_enc 4 (word_of_int fd1 :: uint)) s) (\<lambda>(r, s).
             if r < 0 then give_up [fd0, fd1] s else Inr (Done 0, s))))))))"

section \<open>Dispatch\<close>

definition syscalls :: "uint64 \<Rightarrow> int \<Rightarrow> ('a filest_scheme \<Rightarrow> kerr + pending progress \<times> 'a filest_scheme) option" where
  "syscalls junk num =
     (if num = 1 then Some sys_fork
      else if num = 2 then Some sys_exit
      else if num = 3 then Some sys_wait
      else if num = 4 then Some sys_pipe
      else if num = 5 then Some sys_read
      else if num = 6 then Some sys_kill
      else if num = 7 then Some sys_exec
      else if num = 8 then Some sys_fstat
      else if num = 9 then Some sys_chdir
      else if num = 10 then Some sys_dup
      else if num = 11 then Some sys_getpid
      else if num = 12 then Some sys_sbrk
      else if num = 13 then Some sys_sleep
      else if num = 14 then Some sys_uptime
      else if num = 15 then Some sys_open
      else if num = 16 then Some sys_write
      else if num = 17 then Some sys_mknod
      else if num = 18 then Some sys_unlink
      else if num = 19 then Some sys_link
      else if num = 20 then Some sys_mkdir
      else if num = 21 then Some sys_close
      else if num = 22 then Some (sys_clone junk)
      else None)"

definition set_a0 :: "nat \<Rightarrow> int \<Rightarrow> 'a procst_scheme \<Rightarrow> 'a procst_scheme" where
  "set_a0 p r s = s\<lparr>mem := wr64 (mem s) (trapframe (procs s p) + TF_a0) (of_int r)\<rparr>"

definition syscall :: "uint64 \<Rightarrow> 'a filest_scheme \<Rightarrow> kerr + pending option \<times> 'a filest_scheme" where
  "syscall junk s =
     bindE (curproc s) (\<lambda>(p, s).
     let num = sint (ucast (rd64 (mem s) (trapframe (procs s p) + TF_a7)) :: uint) in
     case syscalls junk num of
       Some f \<Rightarrow>
         bindE (f s) (\<lambda>(r, s). case r of Done r \<Rightarrow> Inr (None, set_a0 p r s) | Asleep l \<Rightarrow> Inr (Some l, s))
     | None \<Rightarrow>
         bindE (printf (str ''%d %s: unknown sys call %d'' @ [10])
           [AInt (word_of_int (pid (procs s p))), AStr (Some (pname (procs s p))), AInt (word_of_int num)] s) (\<lambda>s.
         Inr (None, set_a0 p (- 1) s)))"

end
