(* ===== verification/Trap.thy ===== *)
theory Trap
  imports Syscall
begin

unbundle bit_operations_syntax

text \<open>
  Traps and interrupts (\<^verbatim>\<open>kernel/trap.c\<close>), the interrupt controller (\<^verbatim>\<open>kernel/plic.c\<close>), and the start of the
  kernel (\<^verbatim>\<open>kernel/start.c\<close>, \<^verbatim>\<open>kernel/main.c\<close>). The supervisor registers of each hart are a record; the
  interrupt-enable bit of \<^verbatim>\<open>sstatus\<close> is kept with the locks, so \<open>sstatus\<close> here stands for its other bits.
\<close>

section \<open>State\<close>

record scsr =
  stvec :: uint64
  sepc :: uint64
  scause :: uint64
  stval :: uint64
  sstatus :: uint64
  sip :: uint64

record mcsr =
  mstatus :: uint64
  mepc :: uint64
  medeleg :: uint64
  mideleg :: uint64
  sie_reg :: uint64
  pmpaddr0 :: uint64
  pmpcfg0 :: uint64
  mscratch :: uint64
  mtvec :: uint64
  mie :: uint64

text \<open>
  \<open>plic_in\<close> are the interrupt numbers that claims will return and \<open>plic_out\<close> the writes to the controller.
  The addresses \<open>kernelvec\<close> to \<open>disk_pages\<close> are symbols of the linker.
\<close>

record trapst = filest +
  scsrs :: "nat \<Rightarrow> scsr"
  mcsrs :: "nat \<Rightarrow> mcsr"
  plic_in :: "nat list"
  plic_out :: "(uint64 \<times> uint) list"
  mtime :: uint64
  mtimecmp :: "nat \<Rightarrow> uint64"
  timer_scratch :: "nat \<Rightarrow> uint64 list"
  started :: bool
  kernelvec :: addr
  uservec :: addr
  userret :: addr
  usertrap_a :: addr
  main_a :: addr
  timervec :: addr
  timer_scratch_a :: "nat \<Rightarrow> addr"
  disk_pages :: addr

definition csr :: "'a trapst_scheme \<Rightarrow> scsr" where
  "csr s = scsrs s (tp (lks s))"

definition upd_csr :: "(scsr \<Rightarrow> scsr) \<Rightarrow> 'a trapst_scheme \<Rightarrow> 'a trapst_scheme" where
  "upd_csr f s = s\<lparr>scsrs := (scsrs s)(tp (lks s) := f (csr s))\<rparr>"

definition upd_mcsr :: "(mcsr \<Rightarrow> mcsr) \<Rightarrow> 'a trapst_scheme \<Rightarrow> 'a trapst_scheme" where
  "upd_mcsr f s = s\<lparr>mcsrs := (mcsrs s)(tp (lks s) := f (mcsrs s (tp (lks s))))\<rparr>"

section \<open>The interrupt controller\<close>

abbreviation (input) UART0_IRQ :: nat where "UART0_IRQ \<equiv> 10"
abbreviation (input) VIRTIO0_IRQ :: nat where "VIRTIO0_IRQ \<equiv> 1"

definition PLIC_SENABLE :: "nat \<Rightarrow> uint64" where
  "PLIC_SENABLE hart = PLIC + 0x2080 + of_nat hart * 0x100"

definition PLIC_SPRIORITY :: "nat \<Rightarrow> uint64" where
  "PLIC_SPRIORITY hart = PLIC + 0x201000 + of_nat hart * 0x2000"

definition PLIC_SCLAIM :: "nat \<Rightarrow> uint64" where
  "PLIC_SCLAIM hart = PLIC + 0x201004 + of_nat hart * 0x2000"

definition plic_write :: "uint64 \<Rightarrow> uint \<Rightarrow> 'a trapst_scheme \<Rightarrow> 'a trapst_scheme" where
  "plic_write a v s = s\<lparr>plic_out := plic_out s @ [(a, v)]\<rparr>"

definition plicinit :: "'a trapst_scheme \<Rightarrow> 'a trapst_scheme" where
  "plicinit s = plic_write (PLIC + of_nat VIRTIO0_IRQ * 4) 1 (plic_write (PLIC + of_nat UART0_IRQ * 4) 1 s)"

definition plicinithart :: "'a trapst_scheme \<Rightarrow> 'a trapst_scheme" where
  "plicinithart s =
     (let hart = cpuid (lks s);
          s = plic_write (PLIC_SENABLE hart) (push_bit UART0_IRQ 1 OR push_bit VIRTIO0_IRQ 1) s
      in plic_write (PLIC_SPRIORITY hart) 0 s)"

definition plic_claim :: "'a trapst_scheme \<Rightarrow> nat \<times> 'a trapst_scheme" where
  "plic_claim s = (case plic_in s of [] \<Rightarrow> (0, s) | i # is \<Rightarrow> (i, s\<lparr>plic_in := is\<rparr>))"

definition plic_complete :: "nat \<Rightarrow> 'a trapst_scheme \<Rightarrow> 'a trapst_scheme" where
  "plic_complete irq s = plic_write (PLIC_SCLAIM (cpuid (lks s))) (of_nat irq) s"

section \<open>Traps\<close>

definition trapinit :: "'a trapst_scheme \<Rightarrow> 'a trapst_scheme" where
  "trapinit s = s\<lparr>lks := initlock TicksLock ''time'' (lks s)\<rparr>"

definition trapinithart :: "'a trapst_scheme \<Rightarrow> 'a trapst_scheme" where
  "trapinithart s = upd_csr (\<lambda>c. c\<lparr>stvec := kernelvec s\<rparr>) s"

definition clockintr :: "'a trapst_scheme \<Rightarrow> kerr + 'a trapst_scheme" where
  "clockintr s =
     bindE (lock TicksLock s) (\<lambda>s. bindE (wakeup ChanTicks (s\<lparr>ticks := ticks s + 1\<rparr>)) (unlock TicksLock))"

definition devintr :: "'a trapst_scheme \<Rightarrow> kerr + nat \<times> 'a trapst_scheme" where
  "devintr s =
     (let c = scause (csr s) in
      if c AND 0x8000000000000000 \<noteq> 0 \<and> c AND 0xff = 9 then
        let (irq, s) = plic_claim s in
        bindE (if irq = UART0_IRQ then uartintr s
               else if irq = VIRTIO0_IRQ then virtio_disk_intr s
               else if irq \<noteq> 0 then printf (str ''unexpected interrupt irq=%d'' @ [10]) [AInt (of_nat irq)] s
               else Inr s) (\<lambda>s.
        Inr (1, if irq \<noteq> 0 then plic_complete irq s else s))
      else if c = 0x8000000000000001 then
        bindE (if cpuid (lks s) = 0 then clockintr s else Inr s) (\<lambda>s.
        Inr (2, upd_csr (\<lambda>c. c\<lparr>sip := sip c AND NOT 2\<rparr>) s))
      else Inr (0, s))"

text \<open>How the handler of a trap from user space ends: in user space, asleep or dead, or off the CPU.\<close>

datatype trapret = ToUser uint64 uint64 | Blocked pending | Yielded

abbreviation (input) SSTATUS_SPP :: uint64 where "SSTATUS_SPP \<equiv> 0x100"
abbreviation (input) SSTATUS_SPIE :: uint64 where "SSTATUS_SPIE \<equiv> 0x20"

text \<open>The two numbers are the arguments of \<^verbatim>\<open>userret\<close>: the user address of the trap frame, and \<^verbatim>\<open>satp\<close>.\<close>

definition usertrapret :: "'a trapst_scheme \<Rightarrow> kerr + trapret \<times> 'a trapst_scheme" where
  "usertrapret s =
     bindE (curproc s) (\<lambda>(p, s).
     let s = s\<lparr>lks := intr_off (lks s)\<rparr>;
         s = upd_csr (\<lambda>c. c\<lparr>stvec := TRAMPOLINE + (uservec s - trampoline s)\<rparr>) s;
         tf = trapframe (procs s p);
         s = s\<lparr>mem := wr64 (mem s) (tf + TF_kernel_satp) (satp s (tp (lks s)))\<rparr>;
         s = s\<lparr>mem := wr64 (mem s) (tf + TF_kernel_sp) (kstack (procs s p) + PGSIZE)\<rparr>;
         s = s\<lparr>mem := wr64 (mem s) (tf + TF_kernel_trap) (usertrap_a s)\<rparr>;
         s = s\<lparr>mem := wr64 (mem s) (tf + TF_kernel_hartid) (of_nat (tp (lks s)))\<rparr>;
         s = upd_csr (\<lambda>c. c\<lparr>sstatus := (sstatus c AND NOT SSTATUS_SPP) OR SSTATUS_SPIE\<rparr>) s;
         s = upd_csr (\<lambda>c. c\<lparr>sepc := rd64 (mem s) (tf + TF_epc)\<rparr>) s;
         sat = MAKE_SATP (pagetable (procs s p))
     in bindE (curproc s) (\<lambda>(p, s).
        Inr (ToUser (TRAPFRAME - PGSIZE * of_int (threadCount (procs s p))) sat, s)))"

text \<open>The end of \<^verbatim>\<open>usertrap\<close>; what follows a \<^verbatim>\<open>yield\<close> is \<^verbatim>\<open>usertrapret\<close>.\<close>

definition usertrap_end :: "nat \<Rightarrow> nat \<Rightarrow> 'a trapst_scheme \<Rightarrow> kerr + trapret \<times> 'a trapst_scheme" where
  "usertrap_end p which_dev s =
     (if killed (procs s p) \<noteq> 0 then bindE (exit (- 1) s) (\<lambda>s. Inr (Blocked Exited, s))
      else if which_dev = 2 then bindE (yield s) (\<lambda>s. Inr (Yielded, s))
      else usertrapret s)"

definition usertrap :: "uint64 \<Rightarrow> 'a trapst_scheme \<Rightarrow> kerr + trapret \<times> 'a trapst_scheme" where
  "usertrap junk s =
     (if sstatus (csr s) AND SSTATUS_SPP \<noteq> 0 then Inl (Panic ''usertrap: not from user mode'')
      else
        let s = upd_csr (\<lambda>c. c\<lparr>stvec := kernelvec s\<rparr>) s in
        bindE (curproc s) (\<lambda>(p, s).
        let epc = trapframe (procs s p) + TF_epc; s = s\<lparr>mem := wr64 (mem s) epc (sepc (csr s))\<rparr> in
        if scause (csr s) = 8 then
          if killed (procs s p) \<noteq> 0 then bindE (exit (- 1) s) (\<lambda>s. Inr (Blocked Exited, s))
          else
            let s = s\<lparr>mem := wr64 (mem s) epc (rd64 (mem s) epc + 4)\<rparr>; s = s\<lparr>lks := intr_on (lks s)\<rparr> in
            bindE (syscall junk s) (\<lambda>(r, s).
            case r of Some l \<Rightarrow> Inr (Blocked l, s) | None \<Rightarrow> usertrap_end p 0 s)
        else
          bindE (devintr s) (\<lambda>(which_dev, s).
          if which_dev \<noteq> 0 then usertrap_end p which_dev s
          else
            bindE (printf (str ''usertrap(): unexpected scause %p pid=%d'' @ [10])
              [APtr (scause (csr s)), AInt (word_of_int (pid (procs s p)))] s) (\<lambda>s.
            bindE (printf (str ''            sepc=%p stval=%p'' @ [10]) [APtr (sepc (csr s)), APtr (stval (csr s))] s) (\<lambda>s.
            usertrap_end p 0 (upd_proc p (\<lambda>q. q\<lparr>killed := 1\<rparr>) s))))))"

text \<open>
  \<open>kerneltrap\<close> returns whether it has given up the CPU; \<open>kerneltrap_end\<close> is its end, with the values
  read on entry.
\<close>

definition kerneltrap_end :: "uint64 \<Rightarrow> uint64 \<Rightarrow> 'a trapst_scheme \<Rightarrow> 'a trapst_scheme" where
  "kerneltrap_end pc st s = upd_csr (\<lambda>c. c\<lparr>sepc := pc, sstatus := st\<rparr>) s"

definition kerneltrap :: "'a trapst_scheme \<Rightarrow> kerr + bool \<times> 'a trapst_scheme" where
  "kerneltrap s =
     (let pc = sepc (csr s); st = sstatus (csr s); cause = scause (csr s) in
      if st AND SSTATUS_SPP = 0 then Inl (Panic ''kerneltrap: not from supervisor mode'')
      else if intr_get (lks s) then Inl (Panic ''kerneltrap: interrupts enabled'')
      else
        bindE (devintr s) (\<lambda>(which_dev, s).
        if which_dev = 0 then
          bindE (printf (str ''scause %p'' @ [10]) [APtr cause] s) (\<lambda>s.
          bindE (printf (str ''sepc=%p stval=%p'' @ [10]) [APtr (sepc (csr s)), APtr (stval (csr s))] s) (\<lambda>s.
          Inl (Panic ''kerneltrap'')))
        else if which_dev = 2 then
          bindE (myproc s) (\<lambda>(p, s).
          case p of None \<Rightarrow> Inr (False, kerneltrap_end pc st s)
          | Some p \<Rightarrow>
            bindE (myproc s) (\<lambda>(_, s).
            if pstate (procs s p) = RUNNING then bindE (yield s) (\<lambda>s. Inr (True, s))
            else Inr (False, kerneltrap_end pc st s)))
        else Inr (False, kerneltrap_end pc st s)))"

section \<open>Start of the kernel\<close>

definition CLINT_MTIMECMP :: "nat \<Rightarrow> uint64" where
  "CLINT_MTIMECMP hartid = 0x2000000 + 0x4000 + 8 * of_nat hartid"

definition timerinit :: "nat \<Rightarrow> 'a trapst_scheme \<Rightarrow> 'a trapst_scheme" where
  "timerinit i s =
     (let s = s\<lparr>mtimecmp := (mtimecmp s)(i := mtime s + 1000000)\<rparr>;
          s = s\<lparr>timer_scratch := (timer_scratch s)(i := (timer_scratch s i)[3 := CLINT_MTIMECMP i, 4 := 1000000])\<rparr>;
          s = upd_mcsr (\<lambda>c. c\<lparr>mscratch := timer_scratch_a s i\<rparr>) s;
          s = upd_mcsr (\<lambda>c. c\<lparr>mtvec := timervec s\<rparr>) s;
          s = upd_mcsr (\<lambda>c. c\<lparr>mstatus := mstatus c OR 8\<rparr>) s
      in upd_mcsr (\<lambda>c. c\<lparr>mie := mie c OR 0x80\<rparr>) s)"

text \<open>The state is taken with \<open>tp\<close> the number of the hart, which \<^verbatim>\<open>start\<close> puts there from \<^verbatim>\<open>mhartid\<close>.\<close>

definition start :: "'a trapst_scheme \<Rightarrow> 'a trapst_scheme" where
  "start s =
     (let s = upd_mcsr (\<lambda>c. c\<lparr>mstatus := (mstatus c AND NOT 0x1800) OR 0x800\<rparr>) s;
          s = upd_mcsr (\<lambda>c. c\<lparr>mepc := main_a s\<rparr>) s;
          s = s\<lparr>satp := (satp s)(tp (lks s) := 0)\<rparr>;
          s = upd_mcsr (\<lambda>c. c\<lparr>medeleg := 0xffff\<rparr>) s;
          s = upd_mcsr (\<lambda>c. c\<lparr>mideleg := 0xffff\<rparr>) s;
          s = upd_mcsr (\<lambda>c. c\<lparr>sie_reg := sie_reg c OR 0x200 OR 0x20 OR 2\<rparr>) s;
          s = upd_mcsr (\<lambda>c. c\<lparr>pmpaddr0 := 0x3fffffffffffff\<rparr>) s;
          s = upd_mcsr (\<lambda>c. c\<lparr>pmpcfg0 := 0xf\<rparr>) s
      in timerinit (tp (lks s)) s)"

definition main :: "'a trapst_scheme \<Rightarrow> kerr + 'a trapst_scheme" where
  "main s =
     (if cpuid (lks s) = 0 then
        let s = consoleinit_devsw (consoleinit s); s = printfinit s in
        bindE (printf [10] [] s) (\<lambda>s.
        bindE (printf (str ''xv6 kernel is booting'' @ [10]) [] s) (\<lambda>s.
        bindE (printf [10] [] s) (\<lambda>s.
        bindE (kinit s) (\<lambda>s.
        bindE (kvminit s) (\<lambda>s.
        let s = kvminithart s; s = procinit s; s = trapinit s; s = trapinithart s; s = plicinit s;
            s = plicinithart s; s = binit s; s = iinit s; s = fileinit s in
        bindE (virtio_disk_init (disk_pages s) s) (\<lambda>s.
        bindE (userinit s) (\<lambda>s.
        Inr (scheduler_start (s\<lparr>started := True\<rparr>)))))))))
      else if \<not> started s then Inl (Hang ''started'')
      else
        bindE (printf (str ''hart %d starting'' @ [10]) [AInt (of_nat (cpuid (lks s)))] s) (\<lambda>s.
        Inr (scheduler_start (plicinithart (trapinithart (kvminithart s))))))"

end
