(* ===== verification/Asm.thy ===== *)
theory Asm
  imports Pagetable
begin

text \<open>
  The assembly of the kernel: \<^verbatim>\<open>swtch.S\<close>, \<^verbatim>\<open>trampoline.S\<close>, \<^verbatim>\<open>kernelvec.S\<close> and \<^verbatim>\<open>entry.S\<close> as lists of instructions on the
  registers of a hart and the byte memory of \<open>Machine\<close>, and what they do for the C code: contexts are saved and resumed, and
  an interrupt in the kernel changes no register
  of the thread it interrupts. The trampoline is the subject of \<open>Tramp\<close>.
\<close>

section \<open>Instructions\<close>

datatype reg =
    Ra | Sp | Gp | Tp | T0 | T1 | T2 | S0 | S1 | A0 | A1 | A2 | A3 | A4 | A5 | A6 | A7
  | S2 | S3 | S4 | S5 | S6 | S7 | S8 | S9 | S10 | S11 | T3 | T4 | T5 | T6

datatype csreg = Satp | Sscratch | Mscratch | Sip | Mhartid

text \<open>
  The instructions the files use. \<open>Sd r o b\<close> is \<^verbatim>\<open>sd r, o(b)\<close>, \<open>La r a\<close> loads the address of a symbol, \<open>Csrrw r c r'\<close> swaps through a
  control register.
\<close>

datatype instr =
    Sd reg nat reg
  | Ld reg nat reg
  | Addi reg reg uint64
  | AddR reg reg reg
  | MulR reg reg reg
  | Li reg uint64
  | La reg addr
  | Csrrw reg csreg reg
  | Csrr reg csreg
  | Csrw csreg reg
  | Sfence

text \<open>How a sequence ends: \<^verbatim>\<open>jr\<close> (of which \<^verbatim>\<open>ret\<close> is a case), \<^verbatim>\<open>sret\<close>, \<^verbatim>\<open>mret\<close>, a call of a C function, or \<^verbatim>\<open>ecall\<close>.\<close>

datatype goes = JumpTo addr | Sret | Mret | CallTo addr | Ecall

record hart =
  rf :: "reg \<Rightarrow> uint64"
  hcsr :: "csreg \<Rightarrow> uint64"
  hmem :: "addr \<Rightarrow> byte"

text \<open>
  The address translation of the hardware is a parameter: the physical address of a virtual one, under a value of \<^verbatim>\<open>satp\<close>. In machine
  mode there is none.
\<close>

type_synonym mmu = "uint64 \<Rightarrow> addr \<Rightarrow> addr"

definition no_mmu :: mmu where
  "no_mmu sat a = a"

definition set_reg :: "reg \<Rightarrow> uint64 \<Rightarrow> hart \<Rightarrow> hart" where
  "set_reg r v h = h\<lparr>rf := (rf h)(r := v)\<rparr>"

definition set_csr :: "csreg \<Rightarrow> uint64 \<Rightarrow> hart \<Rightarrow> hart" where
  "set_csr c v h = h\<lparr>hcsr := (hcsr h)(c := v)\<rparr>"

definition eff_addr :: "mmu \<Rightarrow> hart \<Rightarrow> reg \<Rightarrow> nat \<Rightarrow> addr" where
  "eff_addr tr h b off = tr (hcsr h Satp) (rf h b + of_nat off)"

fun exec_instr :: "mmu \<Rightarrow> instr \<Rightarrow> hart \<Rightarrow> hart" where
  "exec_instr tr (Sd r off b) h = h\<lparr>hmem := wr64 (hmem h) (eff_addr tr h b off) (rf h r)\<rparr>"
| "exec_instr tr (Ld r off b) h = set_reg r (rd64 (hmem h) (eff_addr tr h b off)) h"
| "exec_instr tr (Addi r r' i) h = set_reg r (rf h r' + i) h"
| "exec_instr tr (AddR r r1 r2) h = set_reg r (rf h r1 + rf h r2) h"
| "exec_instr tr (MulR r r1 r2) h = set_reg r (rf h r1 * rf h r2) h"
| "exec_instr tr (Li r i) h = set_reg r i h"
| "exec_instr tr (La r a) h = set_reg r a h"
| "exec_instr tr (Csrrw r c r') h = set_csr c (rf h r') (set_reg r (hcsr h c) h)"
| "exec_instr tr (Csrr r c) h = set_reg r (hcsr h c) h"
| "exec_instr tr (Csrw c r) h = set_csr c (rf h r) h"
| "exec_instr tr Sfence h = h"

abbreviation run :: "mmu \<Rightarrow> instr list \<Rightarrow> hart \<Rightarrow> hart" where
  "run tr is h \<equiv> fold (exec_instr tr) is h"

section \<open>The files\<close>

text \<open>\<^verbatim>\<open>struct context\<close> and \<^verbatim>\<open>struct trapframe\<close>: the registers they hold and their offsets.\<close>

definition ctx_regs :: "(reg \<times> nat) list" where
  "ctx_regs = [(Ra, 0), (Sp, 8), (S0, 16), (S1, 24), (S2, 32), (S3, 40), (S4, 48), (S5, 56), (S6, 64), (S7, 72), (S8, 80), (S9, 88),
     (S10, 96), (S11, 104)]"

definition tf_regs :: "(reg \<times> nat) list" where
  "tf_regs = [(Ra, 40), (Sp, 48), (Gp, 56), (Tp, 64), (T0, 72), (T1, 80), (T2, 88), (S0, 96), (S1, 104), (A0, 112), (A1, 120), (A2, 128),
     (A3, 136), (A4, 144), (A5, 152), (A6, 160), (A7, 168), (S2, 176), (S3, 184), (S4, 192), (S5, 200), (S6, 208), (S7, 216), (S8, 224),
     (S9, 232), (S10, 240), (S11, 248), (T3, 256), (T4, 264), (T5, 272), (T6, 280)]"

definition swtch_code :: "instr list" where
  "swtch_code =
     [Sd Ra 0 A0, Sd Sp 8 A0, Sd S0 16 A0, Sd S1 24 A0, Sd S2 32 A0, Sd S3 40 A0, Sd S4 48 A0, Sd S5 56 A0, Sd S6 64 A0, Sd S7 72 A0,
      Sd S8 80 A0, Sd S9 88 A0, Sd S10 96 A0, Sd S11 104 A0,
      Ld Ra 0 A1, Ld Sp 8 A1, Ld S0 16 A1, Ld S1 24 A1, Ld S2 32 A1, Ld S3 40 A1, Ld S4 48 A1, Ld S5 56 A1, Ld S6 64 A1, Ld S7 72 A1,
      Ld S8 80 A1, Ld S9 88 A1, Ld S10 96 A1, Ld S11 104 A1]"

definition swtch :: "mmu \<Rightarrow> hart \<Rightarrow> hart \<times> goes" where
  "swtch tr h = (let h = run tr swtch_code h in (h, JumpTo (rf h Ra)))"

definition uservec_code :: "instr list" where
  "uservec_code =
     [Csrrw A0 Sscratch A0,
      Sd Ra 40 A0, Sd Sp 48 A0, Sd Gp 56 A0, Sd Tp 64 A0, Sd T0 72 A0, Sd T1 80 A0, Sd T2 88 A0, Sd S0 96 A0, Sd S1 104 A0, Sd A1 120 A0,
      Sd A2 128 A0, Sd A3 136 A0, Sd A4 144 A0, Sd A5 152 A0, Sd A6 160 A0, Sd A7 168 A0, Sd S2 176 A0, Sd S3 184 A0, Sd S4 192 A0,
      Sd S5 200 A0, Sd S6 208 A0, Sd S7 216 A0, Sd S8 224 A0, Sd S9 232 A0, Sd S10 240 A0, Sd S11 248 A0, Sd T3 256 A0, Sd T4 264 A0,
      Sd T5 272 A0, Sd T6 280 A0,
      Csrr T0 Sscratch, Sd T0 112 A0,
      Ld Sp 8 A0, Ld Tp 32 A0, Ld T0 16 A0, Ld T1 0 A0, Csrw Satp T1, Sfence]"

definition uservec_asm :: "mmu \<Rightarrow> hart \<Rightarrow> hart \<times> goes" where
  "uservec_asm tr h = (let h = run tr uservec_code h in (h, JumpTo (rf h T0)))"

definition userret_code :: "instr list" where
  "userret_code =
     [Csrw Satp A1, Sfence,
      Ld T0 112 A0, Csrw Sscratch T0,
      Ld Ra 40 A0, Ld Sp 48 A0, Ld Gp 56 A0, Ld Tp 64 A0, Ld T0 72 A0, Ld T1 80 A0, Ld T2 88 A0, Ld S0 96 A0, Ld S1 104 A0, Ld A1 120 A0,
      Ld A2 128 A0, Ld A3 136 A0, Ld A4 144 A0, Ld A5 152 A0, Ld A6 160 A0, Ld A7 168 A0, Ld S2 176 A0, Ld S3 184 A0, Ld S4 192 A0,
      Ld S5 200 A0, Ld S6 208 A0, Ld S7 216 A0, Ld S8 224 A0, Ld S9 232 A0, Ld S10 240 A0, Ld S11 248 A0, Ld T3 256 A0, Ld T4 264 A0,
      Ld T5 272 A0, Ld T6 280 A0,
      Csrrw A0 Sscratch A0]"

definition userret_asm :: "mmu \<Rightarrow> hart \<Rightarrow> hart \<times> goes" where
  "userret_asm tr h = (run tr userret_code h, Sret)"

definition kernelvec_save :: "instr list" where
  "kernelvec_save =
     [Addi Sp Sp (- 256),
      Sd Ra 0 Sp, Sd Sp 8 Sp, Sd Gp 16 Sp, Sd Tp 24 Sp, Sd T0 32 Sp, Sd T1 40 Sp, Sd T2 48 Sp, Sd S0 56 Sp, Sd S1 64 Sp, Sd A0 72 Sp,
      Sd A1 80 Sp, Sd A2 88 Sp, Sd A3 96 Sp, Sd A4 104 Sp, Sd A5 112 Sp, Sd A6 120 Sp, Sd A7 128 Sp, Sd S2 136 Sp, Sd S3 144 Sp,
      Sd S4 152 Sp, Sd S5 160 Sp, Sd S6 168 Sp, Sd S7 176 Sp, Sd S8 184 Sp, Sd S9 192 Sp, Sd S10 200 Sp, Sd S11 208 Sp, Sd T3 216 Sp,
      Sd T4 224 Sp, Sd T5 232 Sp, Sd T6 240 Sp]"

definition kernelvec_restore :: "instr list" where
  "kernelvec_restore =
     [Ld Ra 0 Sp, Ld Sp 8 Sp, Ld Gp 16 Sp, Ld T0 32 Sp, Ld T1 40 Sp, Ld T2 48 Sp, Ld S0 56 Sp, Ld S1 64 Sp, Ld A0 72 Sp,
      Ld A1 80 Sp, Ld A2 88 Sp, Ld A3 96 Sp, Ld A4 104 Sp, Ld A5 112 Sp, Ld A6 120 Sp, Ld A7 128 Sp, Ld S2 136 Sp, Ld S3 144 Sp,
      Ld S4 152 Sp, Ld S5 160 Sp, Ld S6 168 Sp, Ld S7 176 Sp, Ld S8 184 Sp, Ld S9 192 Sp, Ld S10 200 Sp, Ld S11 208 Sp, Ld T3 216 Sp,
      Ld T4 224 Sp, Ld T5 232 Sp, Ld T6 240 Sp,
      Addi Sp Sp 256]"

text \<open>What the compiled \<^verbatim>\<open>kerneltrap\<close> does to the hart is a parameter.\<close>

definition kernelvec_asm :: "mmu \<Rightarrow> (hart \<Rightarrow> hart) \<Rightarrow> hart \<Rightarrow> hart \<times> goes" where
  "kernelvec_asm tr handler h = (run tr kernelvec_restore (handler (run tr kernelvec_save h)), Sret)"

definition timervec_code :: "instr list" where
  "timervec_code =
     [Csrrw A0 Mscratch A0, Sd A1 0 A0, Sd A2 8 A0, Sd A3 16 A0,
      Ld A1 24 A0, Ld A2 32 A0, Ld A3 0 A1, AddR A3 A3 A2, Sd A3 0 A1,
      Li A1 2, Csrw Sip A1,
      Ld A3 16 A0, Ld A2 8 A0, Ld A1 0 A0, Csrrw A0 Mscratch A0]"

definition timervec_asm :: "hart \<Rightarrow> hart \<times> goes" where
  "timervec_asm h = (run no_mmu timervec_code h, Mret)"

text \<open>The symbols \<^verbatim>\<open>stack0\<close> and \<^verbatim>\<open>start\<close> are those of the linker; \<^verbatim>\<open>start\<close> does not return.\<close>

definition entry_code :: "addr \<Rightarrow> instr list" where
  "entry_code stack0 = [La Sp stack0, Li A0 (1024 * 4), Csrr A1 Mhartid, Addi A1 A1 1, MulR A0 A0 A1, AddR Sp Sp A0]"

definition entry_asm :: "addr \<Rightarrow> addr \<Rightarrow> hart \<Rightarrow> hart \<times> goes" where
  "entry_asm stack0 start_a h = (run no_mmu (entry_code stack0) h, CallTo start_a)"

text \<open>
  System calls from user space: the numbers of \<^verbatim>\<open>syscall.h\<close>, the stubs that \<^verbatim>\<open>usys.pl\<close> prints, and the first program, \<^verbatim>\<open>initcode.S\<close>. What an \<^verbatim>\<open>ecall\<close> does
  to the hart is a parameter of a stub. \<^verbatim>\<open>initcode.S\<close> is modelled up to each of its two \<^verbatim>\<open>ecall\<close>s; the second one is in an endless loop.
\<close>

definition SYS :: "(string \<times> nat) list" where
  "SYS = [(''fork'', 1), (''exit'', 2), (''wait'', 3), (''pipe'', 4), (''read'', 5), (''kill'', 6), (''exec'', 7), (''fstat'', 8), (''chdir'', 9),
     (''dup'', 10), (''getpid'', 11), (''sbrk'', 12), (''sleep'', 13), (''uptime'', 14), (''open'', 15), (''write'', 16), (''mknod'', 17),
     (''unlink'', 18), (''link'', 19), (''mkdir'', 20), (''close'', 21), (''clone'', 22)]"

definition usys_names :: "string list" where
  "usys_names = [''fork'', ''exit'', ''wait'', ''pipe'', ''read'', ''write'', ''close'', ''kill'', ''exec'', ''open'', ''mknod'', ''unlink'', ''fstat'',
     ''link'', ''mkdir'', ''chdir'', ''dup'', ''getpid'', ''sbrk'', ''sleep'', ''uptime'', ''clone'']"

definition usys_code :: "string \<Rightarrow> instr list" where
  "usys_code name = [Li A7 (of_nat (the (map_of SYS name)))]"

definition usys_entry :: "mmu \<Rightarrow> (hart \<Rightarrow> hart) \<Rightarrow> string \<Rightarrow> hart \<Rightarrow> hart \<times> goes" where
  "usys_entry tr ecall name h = (let h = ecall (run tr (usys_code name) h) in (h, JumpTo (rf h Ra)))"

definition initcode_start :: "mmu \<Rightarrow> addr \<Rightarrow> addr \<Rightarrow> hart \<Rightarrow> hart \<times> goes" where
  "initcode_start tr init argv h = (run tr [La A0 init, La A1 argv, Li A7 (of_nat (the (map_of SYS ''exec'')))] h, Ecall)"

definition initcode_exit :: "mmu \<Rightarrow> hart \<Rightarrow> hart \<times> goes" where
  "initcode_exit tr h = (run tr [Li A7 (of_nat (the (map_of SYS ''exit'')))] h, Ecall)"

section \<open>Saving and loading registers\<close>

lemma rf_set_reg [simp]: "rf (set_reg r v h) = (rf h)(r := v)" "hcsr (set_reg r v h) = hcsr h" "hmem (set_reg r v h) = hmem h"
  by (simp_all add: set_reg_def)

lemma hcsr_set_csr [simp]: "rf (set_csr c v h) = rf h" "hcsr (set_csr c v h) = (hcsr h)(c := v)" "hmem (set_csr c v h) = hmem h"
  by (simp_all add: set_csr_def)

definition saves :: "reg \<Rightarrow> (reg \<times> nat) list \<Rightarrow> instr list" where
  "saves b fr = map (\<lambda>(r, off). Sd r off b) fr"

definition loads :: "reg \<Rightarrow> (reg \<times> nat) list \<Rightarrow> instr list" where
  "loads b fr = map (\<lambda>(r, off). Ld r off b) fr"

text \<open>Words in a page-sized frame at \<open>a\<close>.\<close>

definition slots :: "(reg \<times> nat) list \<Rightarrow> bool" where
  "slots fr \<longleftrightarrow> distinct (map snd fr) \<and> list_all (\<lambda>(r, off). off mod 8 = 0 \<and> off < 4096) fr"

lemma slot_wr64:
  assumes "x mod 8 = 0" "x < 4096" "y mod 8 = 0" "y < 4096"
  shows "rd64 (wr64 m (a + of_nat x) v) (a + of_nat y) = (if x = y then v else rd64 m (a + of_nat y))"
proof -
  define i j :: uint64 where "i = of_nat (x div 8)" and "j = of_nat (y div 8)"
  have u: "unat i = x div 8" "unat j = y div 8" using assms by (simp_all add: i_def j_def unat_of_nat)
  then have ij: "i < 512" "j < 512" using assms by (simp_all add: word_less_nat_alt)
  have xy: "x = 8 * unat i" "y = 8 * unat j" using u assms by auto
  then have "of_nat x = 8 * i" "of_nat y = 8 * j" by simp_all
  moreover have "x = y \<longleftrightarrow> j = i" using xy by (auto simp: word_unat_eq_iff)
  ultimately show ?thesis using pte_at_wr64 [OF ij, of m a v] by (simp add: pte_at_def)
qed

lemma run_saves:
  "run tr (saves b fr) h = h\<lparr>hmem := fold (\<lambda>(r, off) m. wr64 m (eff_addr tr h b off) (rf h r)) fr (hmem h)\<rparr>"
  unfolding saves_def by (induction fr arbitrary: h) (auto simp: eff_addr_def)

lemma saved_other:
  assumes "list_all (\<lambda>(r, off). off mod 8 = 0 \<and> off < 4096) fr" "y mod 8 = 0" "y < 4096" "y \<notin> snd ` set fr"
  shows "rd64 (fold (\<lambda>(r, off) m. wr64 m (a + of_nat off) (v r)) fr m) (a + of_nat y) = rd64 m (a + of_nat y)"
  using assms
proof (induction fr arbitrary: m)
  case (Cons p fr)
  then show ?case using slot_wr64 [of "snd p" y m a "v (fst p)"] by (cases p) auto
qed simp

lemma saved:
  assumes "slots fr" "(r, off) \<in> set fr"
  shows "rd64 (fold (\<lambda>(r, off) m. wr64 m (a + of_nat off) (v r)) fr m) (a + of_nat off) = v r"
  using assms
proof (induction fr arbitrary: m)
  case (Cons p fr)
  note s = Cons.prems(1) [unfolded slots_def]
  show ?case
  proof (cases "p = (r, off)")
    case True
    then show ?thesis using s saved_other [of fr off a v "wr64 m (a + of_nat off) (v r)"] by (auto simp: rd64_wr64)
  next
    case False
    then show ?thesis using Cons s by (auto simp: slots_def)
  qed
qed simp

lemma saved_outside:
  assumes "list_all (\<lambda>(r, off). off + 8 \<le> n) fr" "n \<le> 4096" "n \<le> unat (x - a)"
  shows "fold (\<lambda>(r, off) m. wr64 m (a + of_nat off) (v r)) fr m x = m x"
  using assms(1)
proof (induction fr arbitrary: m)
  case (Cons p fr)
  obtain r off where p: "p = (r, off)" by (cases p)
  define d where "d = x - a"
  have d: "off + 8 \<le> unat d" "x - (a + of_nat off) = d - of_nat off" using Cons(2) assms(3) p by (simp_all add: d_def)
  moreover have "unat (of_nat off :: uint64) = off" using Cons(2) assms(2) p by (simp add: unat_of_nat)
  ultimately have "8 \<le> unat (x - (a + of_nat off))" by (simp only: unat_sub_if') simp
  then show ?case using Cons p by (simp add: wr64_def mem_put_out)
qed simp

lemma run_loads:
  assumes "\<And>r off. (r, off) \<in> set fr \<Longrightarrow> rd64 (hmem h) (eff_addr tr h b off) = v r" "b \<in> fst ` set fr \<Longrightarrow> v b = rf h b"
  shows "run tr (loads b fr) h = h\<lparr>rf := \<lambda>r. if r \<in> fst ` set fr then v r else rf h r\<rparr>"
  using assms
proof (induction fr arbitrary: h)
  case (Cons p fr)
  obtain r off where p: "p = (r, off)" by (cases p)
  let ?h = "set_reg r (v r) h"
  have b: "rf ?h b = rf h b" using Cons(3) p by auto
  then have e: "eff_addr tr ?h b k = eff_addr tr h b k" for k by (simp add: eff_addr_def)
  have "run tr (loads b fr) ?h = ?h\<lparr>rf := \<lambda>q. if q \<in> fst ` set fr then v q else rf ?h q\<rparr>"
    using Cons(2,3) e b by (intro Cons(1)) auto
  moreover have "run tr (loads b (p # fr)) h = run tr (loads b fr) ?h"
    using Cons(2) [of r off] p by (simp add: loads_def)
  ultimately show ?case using p by (auto simp: set_reg_def intro!: hart.equality)
qed (simp add: loads_def)

lemma run_saves_at:
  assumes "list_all (\<lambda>(r, off). off + 8 \<le> n) fr" "\<And>off. off < n \<Longrightarrow> eff_addr tr h b off = a + of_nat off"
  shows "run tr (saves b fr) h = h\<lparr>hmem := fold (\<lambda>(r, off) m. wr64 m (a + of_nat off) (rf h r)) fr (hmem h)\<rparr>"
proof -
  have "fold (\<lambda>(r, off) m. wr64 m (eff_addr tr h b off) (rf h r)) fr (hmem h) = fold (\<lambda>(r, off) m. wr64 m (a + of_nat off) (rf h r)) fr (hmem h)"
    using assms by (intro fold_cong) (auto simp: list_all_iff)
  then show ?thesis by (simp add: run_saves)
qed

section \<open>Context switches\<close>

definition ctx_off :: "reg \<Rightarrow> nat" where
  "ctx_off r = the (map_of ctx_regs r)"

text \<open>The registers a C function keeps, and the return address.\<close>

definition kept :: "reg \<Rightarrow> bool" where
  "kept r \<longleftrightarrow> r \<in> fst ` set ctx_regs"

lemma swtch_parts: "swtch_code = saves A0 ctx_regs @ loads A1 ctx_regs"
  by (simp add: swtch_code_def saves_def loads_def ctx_regs_def)

lemma ctx_slots: "slots ctx_regs" "list_all (\<lambda>(r, off). off + 8 \<le> 112) ctx_regs"
  by (simp_all add: slots_def ctx_regs_def)

lemma ctx_off_in: "kept r \<Longrightarrow> (r, ctx_off r) \<in> set ctx_regs"
  by (auto simp: kept_def ctx_off_def ctx_regs_def)

lemma ctx_off_eq: "(r, off) \<in> set ctx_regs \<Longrightarrow> off = ctx_off r"
  by (auto simp: ctx_off_def ctx_regs_def)

lemma kept_simps [simp]: "\<not> kept A0" "\<not> kept A1" "kept Ra" "ctx_off Ra = 0"
  by (simp_all add: kept_def ctx_off_def ctx_regs_def)

text \<open>Two frames of \<open>n\<close> bytes that have no byte in common; a frame at \<open>a\<close> that the hardware finds at \<open>p\<close>.\<close>

definition apart :: "nat \<Rightarrow> addr \<Rightarrow> addr \<Rightarrow> bool" where
  "apart n a b \<longleftrightarrow> n \<le> unat (a - b) \<and> n \<le> unat (b - a)"

definition maps_to :: "mmu \<Rightarrow> uint64 \<Rightarrow> nat \<Rightarrow> addr \<Rightarrow> addr \<Rightarrow> bool" where
  "maps_to tr sat n a p \<longleftrightarrow> (\<forall>k < n. tr sat (a + of_nat k) = p + of_nat k)"

lemma apart_byte:
  assumes "apart n a b" "k < n"
  shows "n \<le> unat (b + of_nat k - a)"
proof -
  define d where "d = b - a"
  have d: "n \<le> unat d" "n \<le> unat (0 - d)" using assms(1) by (simp_all add: apart_def d_def)
  have l: "unat d < 2 ^ 64" using unsigned_less [of d] by simp
  have "unat (0 - d) \<le> 2 ^ 64 - unat d" by (simp only: unat_sub_if') simp
  then have "unat d + k < 2 ^ 64" "k < 2 ^ 64" using d assms(2) l by linarith+
  then have "unat (d + of_nat k) = unat d + k" by (simp add: unat_word_ariths unat_of_nat)
  then have "n \<le> unat (d + of_nat k)" using d(1) by simp
  then show ?thesis by (simp add: d_def algebra_simps)
qed

lemma swtch_run:
  assumes "rf h A0 = old" "rf h A1 = new" "maps_to tr (hcsr h Satp) 112 old old" "maps_to tr (hcsr h Satp) 112 new new" "apart 112 old new"
  shows "rf (fst (swtch tr h)) r = (if kept r then rd64 (hmem h) (new + of_nat (ctx_off r)) else rf h r)"
    and "kept r \<Longrightarrow> rd64 (hmem (fst (swtch tr h))) (old + of_nat (ctx_off r)) = rf h r"
    and "112 \<le> unat (x - old) \<Longrightarrow> hmem (fst (swtch tr h)) x = hmem h x"
    and "snd (swtch tr h) = JumpTo (rd64 (hmem h) new)"
proof -
  let ?m = "fold (\<lambda>(r, off) m. wr64 m (old + of_nat off) (rf h r)) ctx_regs (hmem h)"
  let ?h = "h\<lparr>hmem := ?m\<rparr>" and ?v = "\<lambda>r. rd64 (hmem h) (new + of_nat (ctx_off r))"
  have out: "?m x = hmem h x" if "112 \<le> unat (x - old)" for x
    by (rule saved_outside [OF ctx_slots(2) _ that]) simp
  have s: "run tr (saves A0 ctx_regs) h = ?h"
    using assms(1,3) by (intro run_saves_at [OF ctx_slots(2)]) (simp add: eff_addr_def maps_to_def)
  have w: "rd64 (hmem ?h) (eff_addr tr ?h A1 off) = ?v r" if "(r, off) \<in> set ctx_regs" for r off
  proof -
    have b: "off + 8 \<le> 112" using ctx_slots(2) that by (auto simp: list_all_iff)
    then have "eff_addr tr ?h A1 off = new + of_nat off" using assms(2,4) by (simp add: eff_addr_def maps_to_def)
    moreover have "rd64 ?m (new + of_nat off) = rd64 (hmem h) (new + of_nat off)"
      using out apart_byte [OF assms(5), of "off + k" for k] b by (intro rd64_same) (simp add: add.assoc)
    ultimately show ?thesis using ctx_off_eq [OF that] by simp
  qed
  have "run tr (loads A1 ctx_regs) ?h = ?h\<lparr>rf := \<lambda>r. if r \<in> fst ` set ctx_regs then ?v r else rf ?h r\<rparr>"
    by (rule run_loads [OF w]) (simp_all flip: kept_def)
  then have e: "run tr swtch_code h = ?h\<lparr>rf := \<lambda>r. if kept r then ?v r else rf h r\<rparr>" using s by (simp add: swtch_parts kept_def cong: if_cong)
  show "rf (fst (swtch tr h)) r = (if kept r then ?v r else rf h r)" "snd (swtch tr h) = JumpTo (rd64 (hmem h) new)"
    by (simp_all add: swtch_def e)
  show "kept r \<Longrightarrow> rd64 (hmem (fst (swtch tr h))) (old + of_nat (ctx_off r)) = rf h r"
    using saved [OF ctx_slots(1) ctx_off_in] by (simp add: swtch_def e)
  show "112 \<le> unat (x - old) \<Longrightarrow> hmem (fst (swtch tr h)) x = hmem h x" using out by (simp add: swtch_def e)
qed

text \<open>
  C38: A context switch saves a thread and resumes it. A thread that calls \<^verbatim>\<open>swtch(old, new)\<close> makes the hart go on at the return address in \<open>new\<close>,
  with the registers of \<open>new\<close>, and changes no memory but its own context. When a hart later switches to \<open>old\<close>, which has not been touched
  since, it returns to the caller of the first \<^verbatim>\<open>swtch\<close> with the stack and every register that a C function must keep as they were.
\<close>

theorem swtch_resumes:
  assumes "rf h A0 = old" "rf h A1 = new" "maps_to tr (hcsr h Satp) 112 old old" "maps_to tr (hcsr h Satp) 112 new new" "apart 112 old new"
    and "rf h' A0 = c" "rf h' A1 = old" "maps_to tr (hcsr h' Satp) 112 c c" "maps_to tr (hcsr h' Satp) 112 old old" "apart 112 c old"
    and "\<forall>k < 112. hmem h' (old + of_nat k) = hmem (fst (swtch tr h)) (old + of_nat k)"
  shows "snd (swtch tr h) = JumpTo (rd64 (hmem h) new) \<and>
    (\<forall>r. rf (fst (swtch tr h)) r = (if kept r then rd64 (hmem h) (new + of_nat (ctx_off r)) else rf h r)) \<and>
    (\<forall>x. 112 \<le> unat (x - old) \<longrightarrow> hmem (fst (swtch tr h)) x = hmem h x) \<and>
    snd (swtch tr h') = JumpTo (rf h Ra) \<and> (\<forall>r. kept r \<longrightarrow> rf (fst (swtch tr h')) r = rf h r)"
proof -
  note a = swtch_run [OF assms(1-5)] and b = swtch_run [OF assms(6-10)]
  have w: "rd64 (hmem h') (old + of_nat (ctx_off r)) = rf h r" if "kept r" for r
  proof -
    have "ctx_off r + 8 \<le> 112" using ctx_slots(2) ctx_off_in [OF that] by (auto simp: list_all_iff)
    then have "rd64 (hmem h') (old + of_nat (ctx_off r)) = rd64 (hmem (fst (swtch tr h))) (old + of_nat (ctx_off r))"
      using assms(11) [rule_format, of "ctx_off r + k" for k] by (intro rd64_same) (simp add: add.assoc)
    then show ?thesis using a(2) [OF that] by simp
  qed
  then show ?thesis using a(1,3,4) b(1,4) w [of Ra] by simp
qed

theorem swtch_resumes_witness:
  "let m = wr64 (\<lambda>_. 0) 0x80002000 0x80000100;
       h = \<lparr>rf = (\<lambda>_. 7)(A0 := 0x80001000, A1 := 0x80002000), hcsr = \<lambda>_. 0, hmem = m\<rparr>;
       h' = (fst (swtch no_mmu h))\<lparr>rf := (\<lambda>_. 9)(A0 := 0x80002000, A1 := 0x80001000)\<rparr>
   in snd (swtch no_mmu h) = JumpTo 0x80000100 \<and> snd (swtch no_mmu h') = JumpTo 7 \<and> rf (fst (swtch no_mmu h')) S5 = 7"
proof -
  define h :: hart where "h = \<lparr>rf = (\<lambda>_. 7)(A0 := 0x80001000, A1 := 0x80002000), hcsr = \<lambda>_. 0, hmem = wr64 (\<lambda>_. 0) 0x80002000 0x80000100\<rparr>"
  define h' where "h' = (fst (swtch no_mmu h))\<lparr>rf := (\<lambda>_. 9)(A0 := 0x80002000, A1 := 0x80001000)\<rparr>"
  have m: "maps_to no_mmu sat n a a" for sat n a by (simp add: maps_to_def no_mmu_def)
  have k: "kept S5" by (simp add: kept_def ctx_regs_def)
  have "snd (swtch no_mmu h) = JumpTo 0x80000100 \<and> snd (swtch no_mmu h') = JumpTo 7 \<and> rf (fst (swtch no_mmu h')) S5 = 7"
    using swtch_resumes [OF _ _ m m _ _ _ m m, of h "0x80001000" "0x80002000" h' "0x80002000"] k
    by (simp add: h_def h'_def apart_def rd64_wr64)
  then show ?thesis unfolding Let_def h'_def h_def .
qed

section \<open>Interrupts in the kernel\<close>

definition kv_regs :: "(reg \<times> nat) list" where
  "kv_regs = map (\<lambda>(r, off). (r, off - 40)) tf_regs"

text \<open>The registers that \<^verbatim>\<open>kernelvec\<close> loads again: all but \<^verbatim>\<open>tp\<close>, since the thread may go on on another hart.\<close>

definition kv_back :: "(reg \<times> nat) list" where
  "kv_back = filter (\<lambda>(r, off). r \<noteq> Tp) kv_regs"

lemma kernelvec_parts: "kernelvec_save = Addi Sp Sp (- 256) # saves Sp kv_regs" "kernelvec_restore = loads Sp kv_back @ [Addi Sp Sp 256]"
  by (simp_all add: kernelvec_save_def kernelvec_restore_def saves_def loads_def kv_back_def kv_regs_def tf_regs_def)

lemma kv_slots: "slots kv_regs" "list_all (\<lambda>(r, off). off + 8 \<le> 256) kv_regs"
  by (simp_all add: slots_def kv_regs_def tf_regs_def)

lemma kv_back_regs: "r \<in> fst ` set kv_back \<longleftrightarrow> r \<noteq> Tp"
  by (cases r) (simp_all add: kv_back_def kv_regs_def tf_regs_def)

text \<open>
  C39: An interrupt in the kernel changes no register of the thread it interrupts. \<^verbatim>\<open>kernelvec\<close> saves the registers in the 256 bytes below the stack pointer and
  nowhere else, and when \<^verbatim>\<open>kerneltrap\<close> has returned as a C function does, with the stack pointer as it was, the page table of the kernel
  and the frame of its caller untouched, every register has its old value but \<^verbatim>\<open>tp\<close>, which is that of the hart the thread goes on.
\<close>

theorem kernelvec_transparent:
  assumes "maps_to tr (hcsr h Satp) 256 (rf h Sp - 256) p" and k: "k = handler (run tr kernelvec_save h)"
    and "rf k Sp = rf h Sp - 256" "hcsr k Satp = hcsr h Satp"
    and "\<forall>i < 256. hmem k (p + of_nat i) = hmem (run tr kernelvec_save h) (p + of_nat i)"
  shows "snd (kernelvec_asm tr handler h) = Sret \<and> (\<forall>r. rf (fst (kernelvec_asm tr handler h)) r = (if r = Tp then rf k Tp else rf h r)) \<and>
    hmem (fst (kernelvec_asm tr handler h)) = hmem k \<and> hcsr (fst (kernelvec_asm tr handler h)) = hcsr k \<and>
    (\<forall>x. 256 \<le> unat (x - p) \<longrightarrow> hmem (run tr kernelvec_save h) x = hmem h x)"
proof -
  let ?h = "set_reg Sp (rf h Sp - 256) h" and ?v = "\<lambda>r. if r = Sp then rf h Sp - 256 else rf h r"
  define m where "m = fold (\<lambda>(r, off) m. wr64 m (p + of_nat off) (?v r)) kv_regs (hmem h)"
  have at: "tr (hcsr h Satp) (rf h Sp - 256 + of_nat off) = p + of_nat off" if "off < 256" for off using assms(1) that by (simp add: maps_to_def)
  have "run tr (saves Sp kv_regs) ?h = ?h\<lparr>hmem := fold (\<lambda>(r, off) m. wr64 m (p + of_nat off) (rf ?h r)) kv_regs (hmem ?h)\<rparr>"
    using at by (intro run_saves_at [OF kv_slots(2)]) (simp add: eff_addr_def)
  moreover have "rf ?h = ?v" by (simp add: fun_eq_iff)
  ultimately have s: "run tr kernelvec_save h = ?h\<lparr>hmem := m\<rparr>" by (simp add: kernelvec_parts m_def)
  have w: "rd64 (hmem k) (eff_addr tr k Sp off) = ?v r" if "(r, off) \<in> set kv_back" for r off
  proof -
    have i: "(r, off) \<in> set kv_regs" using that by (simp add: kv_back_def)
    then have b: "off + 8 \<le> 256" using kv_slots(2) by (auto simp: list_all_iff)
    then have "eff_addr tr k Sp off = p + of_nat off" using at assms(3,4) by (simp add: eff_addr_def)
    moreover have "rd64 (hmem k) (p + of_nat off) = rd64 m (p + of_nat off)"
      using assms(5) s b by (intro rd64_same) (simp add: add.assoc flip: of_nat_add)
    ultimately show ?thesis using saved [OF kv_slots(1) i, of p ?v "hmem h"] by (simp add: m_def)
  qed
  have "run tr (loads Sp kv_back) k = k\<lparr>rf := \<lambda>r. if r \<in> fst ` set kv_back then ?v r else rf k r\<rparr>"
    using assms(3) by (intro run_loads [OF w]) simp_all
  then have "run tr kernelvec_restore k = set_reg Sp (rf h Sp) (k\<lparr>rf := \<lambda>r. if r \<noteq> Tp then ?v r else rf k r\<rparr>)"
    by (simp add: kernelvec_parts kv_back_regs cong: if_cong)
  moreover have "hmem (run tr kernelvec_save h) x = hmem h x" if "256 \<le> unat (x - p)" for x
    unfolding s m_def using saved_outside [OF kv_slots(2) _ that] by simp
  ultimately show ?thesis using k by (simp add: kernelvec_asm_def)
qed

theorem kernelvec_transparent_witness:
  "let h = \<lparr>rf = (\<lambda>_. 7)(Sp := 0x80009000, Tp := 1), hcsr = \<lambda>_. 0, hmem = \<lambda>_. 0\<rparr>;
       handler = \<lambda>k. k\<lparr>rf := (\<lambda>_. 9)(Sp := rf k Sp, Tp := 2)\<rparr>
   in rf (fst (kernelvec_asm no_mmu handler h)) Tp = 2 \<and> rf (fst (kernelvec_asm no_mmu handler h)) Sp = 0x80009000 \<and>
      rf (fst (kernelvec_asm no_mmu handler h)) A5 = 7"
proof -
  define h :: hart where "h = \<lparr>rf = (\<lambda>_. 7)(Sp := 0x80009000, Tp := 1), hcsr = \<lambda>_. 0, hmem = \<lambda>_. 0\<rparr>"
  define g :: "hart \<Rightarrow> hart" where "g = (\<lambda>k. k\<lparr>rf := (\<lambda>_. 9)(Sp := rf k Sp, Tp := 2)\<rparr>)"
  have m: "maps_to no_mmu (hcsr h Satp) 256 (rf h Sp - 256) (rf h Sp - 256)" by (simp add: maps_to_def no_mmu_def)
  have s: "rf (run no_mmu (saves b fr) t) = rf t" "hcsr (run no_mmu (saves b fr) t) = hcsr t" for b fr t by (simp_all add: run_saves)
  have "rf (g (run no_mmu kernelvec_save h)) Sp = rf h Sp - 256" "hcsr (g (run no_mmu kernelvec_save h)) Satp = hcsr h Satp"
    "\<forall>i < 256. hmem (g (run no_mmu kernelvec_save h)) (rf h Sp - 256 + of_nat i) = hmem (run no_mmu kernelvec_save h) (rf h Sp - 256 + of_nat i)"
    by (simp_all add: g_def kernelvec_parts s)
  from kernelvec_transparent [where handler = g, OF m refl this]
  have "rf (fst (kernelvec_asm no_mmu g h)) Tp = 2 \<and> rf (fst (kernelvec_asm no_mmu g h)) Sp = 0x80009000 \<and> rf (fst (kernelvec_asm no_mmu g h)) A5 = 7"
    by (simp add: g_def h_def)
  then show ?thesis unfolding Let_def h_def g_def .
qed

section \<open>The timer\<close>

lemma wr64_byte: "8 \<le> unat (x - c) \<Longrightarrow> wr64 m c v x = m x"
  by (simp add: wr64_def mem_put_out)

text \<open>The word at \<open>c\<close> is outside the \<open>n\<close> bytes at \<open>a\<close>.\<close>

lemma word_outside:
  assumes "n \<le> unat (c - a)" "8 \<le> unat (a - c)" "n < 2 ^ 32"
  shows "y + 8 \<le> n \<Longrightarrow> rd64 (wr64 m c v) (a + of_nat y) = rd64 m (a + of_nat y)"
    and "y + 8 \<le> n \<Longrightarrow> rd64 (wr64 m (a + of_nat y) v) c = rd64 m c"
proof -
  define d where "d = c - a"
  have d: "n \<le> unat d" "8 \<le> unat (0 - d)" using assms by (simp_all add: d_def)
  have l: "unat d < 2 ^ 64" using unsigned_less [of d] by simp
  have "unat (0 - d) = (if unat d = 0 then 0 else 2 ^ 64 - unat d)" by (simp only: unat_sub_if') simp
  then have top: "unat d + 8 \<le> 2 ^ 64" using d l by (simp split: if_splits)
  have un: "unat (of_nat i :: uint64) = i" if "i < n + 8" for i using that assms(3) by (simp add: unat_of_nat)
  show "rd64 (wr64 m c v) (a + of_nat y) = rd64 m (a + of_nat y)" if y: "y + 8 \<le> n"
  proof (intro rd64_same wr64_byte)
    fix k :: nat assume k: "k < 8"
    have "8 \<le> unat (of_nat (y + k) - d)" using un [of "y + k"] k y d top by (simp only: unat_sub_if') simp
    then show "8 \<le> unat (a + of_nat y + of_nat k - c)" by (simp add: d_def algebra_simps)
  qed
  show "rd64 (wr64 m (a + of_nat y) v) c = rd64 m c" if y: "y + 8 \<le> n"
  proof (intro rd64_same wr64_byte)
    fix k :: nat assume k: "k < 8"
    have "unat (d + of_nat k) = unat d + k" using top k un [of k] by (simp add: unat_word_ariths)
    then have "8 \<le> unat ((d + of_nat k) - of_nat y)" using un [of y] y d by (simp only: unat_sub_if') simp
    then show "8 \<le> unat (c + of_nat k - (a + of_nat y))" by (simp add: d_def algebra_simps)
  qed
qed

text \<open>
  C40: A timer interrupt changes no register either. With \<^verbatim>\<open>mscratch\<close> at a scratch area that holds the address of the comparison register of the hart and the
  interval, \<^verbatim>\<open>timervec\<close> adds the interval to the comparison register and raises a supervisor software interrupt; every register and
  \<^verbatim>\<open>mscratch\<close> are as before, and the address and the interval are still in the scratch area.
\<close>

theorem timervec_transparent:
  assumes "a = hcsr h Mscratch" "c = rd64 (hmem h) (a + 24)" "40 \<le> unat (c - a)" "8 \<le> unat (a - c)"
  shows "snd (timervec_asm h) = Mret \<and> rf (fst (timervec_asm h)) = rf h \<and> hcsr (fst (timervec_asm h)) = (hcsr h)(Sip := 2) \<and>
    rd64 (hmem (fst (timervec_asm h))) c = rd64 (hmem h) c + rd64 (hmem h) (a + 32) \<and>
    rd64 (hmem (fst (timervec_asm h))) (a + 24) = c \<and> rd64 (hmem (fst (timervec_asm h))) (a + 32) = rd64 (hmem h) (a + 32)"
proof -
  define m where "m = wr64 (wr64 (wr64 (hmem h) a (rf h A1)) (a + 8) (rf h A2)) (a + 16) (rf h A3)"
  define t where "t = rd64 (hmem h) c + rd64 (hmem h) (a + 32)"
  note o = word_outside [OF assms(3,4)]
  have s: "rd64 m (a + 24) = c" "rd64 m (a + 32) = rd64 (hmem h) (a + 32)" "rd64 m a = rf h A1" "rd64 m (a + 8) = rf h A2" "rd64 m (a + 16) = rf h A3"
    using assms(2) slot_wr64 [of 16 24 _ a] slot_wr64 [of 8 24 _ a] slot_wr64 [of 0 24 _ a] slot_wr64 [of 16 32 _ a] slot_wr64 [of 8 32 _ a]
      slot_wr64 [of 0 32 _ a] slot_wr64 [of 16 0 _ a] slot_wr64 [of 8 0 _ a] slot_wr64 [of 16 8 _ a]
    by (simp_all add: m_def rd64_wr64)
  have mc: "rd64 m c = rd64 (hmem h) c" using o(2) [of 0] o(2) [of 8] o(2) [of 16] by (simp add: m_def)
  have w: "rd64 (wr64 m c t) (a + 24) = c" "rd64 (wr64 m c t) (a + 32) = rd64 (hmem h) (a + 32)" "rd64 (wr64 m c t) a = rf h A1"
    "rd64 (wr64 m c t) (a + 8) = rf h A2" "rd64 (wr64 m c t) (a + 16) = rf h A3"
    using o(1) [of 24] o(1) [of 32] o(1) [of 0] o(1) [of 8] o(1) [of 16] s by simp_all
  define h1 where "h1 = h\<lparr>rf := (rf h)(A0 := a), hcsr := (hcsr h)(Mscratch := rf h A0), hmem := m\<rparr>"
  have "run no_mmu (take 4 timervec_code) h = h1"
    using assms(1) by (simp add: timervec_code_def eff_addr_def no_mmu_def h1_def m_def set_reg_def set_csr_def)
  then have "fst (timervec_asm h) = run no_mmu (drop 4 timervec_code) h1"
    by (metis timervec_asm_def fst_conv append_take_drop_id fold_append comp_apply)
  moreover have f: "rf h1 = (rf h)(A0 := a)" "hcsr h1 = (hcsr h)(Mscratch := rf h A0)" "hmem h1 = m" by (simp_all add: h1_def)
  have "run no_mmu (drop 4 timervec_code) h1 = h\<lparr>hcsr := (hcsr h)(Sip := 2), hmem := wr64 m c t\<rparr>"
    by (rule hart.equality) (simp_all add: timervec_code_def eff_addr_def no_mmu_def f s mc w fun_eq_iff assms(1) [symmetric] flip: t_def)
  ultimately have "fst (timervec_asm h) = h\<lparr>hcsr := (hcsr h)(Sip := 2), hmem := wr64 m c t\<rparr>" by simp
  then show ?thesis using w by (simp add: timervec_asm_def rd64_wr64 t_def)
qed

theorem timervec_transparent_witness:
  "let m = wr64 (wr64 (wr64 (\<lambda>_. 0) 0x80009018 0x2004000) 0x80009020 1000000) 0x2004000 5;
       h = timervec_asm \<lparr>rf = \<lambda>_. 7, hcsr = (\<lambda>_. 0)(Mscratch := 0x80009000), hmem = m\<rparr>
   in rd64 (hmem (fst h)) 0x2004000 = 1000005 \<and> rf (fst h) A1 = 7 \<and> hcsr (fst h) Sip = 2"
proof -
  define m where "m = wr64 (wr64 (wr64 (\<lambda>_. 0) 0x80009018 0x2004000) 0x80009020 1000000) 0x2004000 5"
  define h :: hart where "h = \<lparr>rf = \<lambda>_. 7, hcsr = (\<lambda>_. 0)(Mscratch := 0x80009000), hmem = m\<rparr>"
  have "40 \<le> unat (0x2004000 - 0x80009000 :: addr)" "8 \<le> unat (0x80009000 - 0x2004000 :: addr)" by simp_all
  note o = word_outside(1) [OF this, of 24] word_outside(1) [OF this, of 32]
  have r: "rd64 m 0x80009018 = 0x2004000" "rd64 m 0x80009020 = 1000000" "rd64 m 0x2004000 = 5"
    using o slot_wr64 [of 32 24 _ "0x80009000"] by (simp_all add: m_def rd64_wr64)
  have "rd64 (hmem (fst (timervec_asm h))) 0x2004000 = 1000005 \<and> rf (fst (timervec_asm h)) A1 = 7 \<and> hcsr (fst (timervec_asm h)) Sip = 2"
    using timervec_transparent [of "0x80009000" h "0x2004000"] r by (simp add: h_def)
  then show ?thesis unfolding Let_def h_def m_def .
qed

lemma entry_stack: "hcsr h Mhartid = of_nat i \<Longrightarrow> rf (fst (entry_asm stack0 st h)) Sp = stack0 + 4096 * of_nat (i + 1)"
  by (simp add: entry_asm_def entry_code_def algebra_simps)

end
