(* ===== verification/Tramp.thy ===== *)
theory Tramp
  imports Trap Asm
begin

text \<open>
  The way from the kernel to user space and back: \<^verbatim>\<open>usertrapret\<close> of \<^verbatim>\<open>trap.c\<close> composed with \<^verbatim>\<open>userret\<close> and \<^verbatim>\<open>uservec\<close> of \<^verbatim>\<open>trampoline.S\<close>.
\<close>

section \<open>From the kernel to user space and back\<close>

definition tf_off :: "reg \<Rightarrow> nat" where
  "tf_off r = the (map_of tf_regs r)"

text \<open>The registers that are moved while \<^verbatim>\<open>a0\<close> points to the frame.\<close>

definition tf_rest :: "(reg \<times> nat) list" where
  "tf_rest = filter (\<lambda>(r, off). r \<noteq> A0) tf_regs"

lemma uservec_parts:
  "uservec_code = Csrrw A0 Sscratch A0 # saves A0 tf_rest @
     [Csrr T0 Sscratch, Sd T0 112 A0, Ld Sp 8 A0, Ld Tp 32 A0, Ld T0 16 A0, Ld T1 0 A0, Csrw Satp T1, Sfence]"
  by (simp add: uservec_code_def saves_def tf_rest_def tf_regs_def)

lemma userret_parts:
  "userret_code = [Csrw Satp A1, Sfence, Ld T0 112 A0, Csrw Sscratch T0] @ loads A0 tf_rest @ [Csrrw A0 Sscratch A0]"
  by (simp add: userret_code_def loads_def tf_rest_def tf_regs_def)

lemma tf_slots: "slots (tf_rest @ [(A0, 112)])" "list_all (\<lambda>(r, off). off + 8 \<le> 288) (tf_rest @ [(A0, 112)])"
  by (simp_all add: slots_def tf_rest_def tf_regs_def)

lemma tf_off_in: "(r, tf_off r) \<in> set (tf_rest @ [(A0, 112)])"
  by (cases r) (simp_all add: tf_off_def tf_rest_def tf_regs_def)

lemma tf_off_eq: "(r, off) \<in> set tf_rest \<Longrightarrow> off = tf_off r"
  by (auto simp: tf_off_def tf_rest_def tf_regs_def)

lemma tf_rest_regs: "r \<in> fst ` set tf_rest \<longleftrightarrow> r \<noteq> A0" "tf_off A0 = 112"
  by (cases r) (simp_all add: tf_off_def tf_rest_def tf_regs_def)

lemma tf_off_bound: "tf_off r + 8 \<le> 288" "40 \<le> tf_off r" "tf_off r mod 8 = 0"
  by (cases r; simp add: tf_off_def tf_regs_def)+

lemma uservec_run:
  assumes "hcsr h Sscratch = va" "maps_to tr (hcsr h Satp) 288 va tf"
  defines "h' \<equiv> fst (uservec_asm tr h)"
  shows "rd64 (hmem h') (tf + of_nat (tf_off r)) = rf h r" and "288 \<le> unat (x - tf) \<Longrightarrow> hmem h' x = hmem h x"
    and "rf h' Sp = rd64 (hmem h) (tf + 8)" "rf h' Tp = rd64 (hmem h) (tf + 32)" "hcsr h' Satp = rd64 (hmem h) tf"
    and "snd (uservec_asm tr h) = JumpTo (rd64 (hmem h) (tf + 16))" and "k \<in> {0, 8, 16, 24, 32} \<Longrightarrow> rd64 (hmem h') (tf + of_nat k) = rd64 (hmem h) (tf + of_nat k)"
proof -
  let ?h = "set_csr Sscratch (rf h A0) (set_reg A0 va h)"
  let ?m = "fold (\<lambda>(r, off) m. wr64 m (tf + of_nat off) (rf h r)) tf_rest (hmem h)"
  define m where "m = fold (\<lambda>(r, off) m. wr64 m (tf + of_nat off) (rf h r)) (tf_rest @ [(A0, 112)]) (hmem h)"
  have at: "tr (hcsr h Satp) (va + of_nat off) = tf + of_nat off" if "off < 288" for off using assms(2) that by (simp add: maps_to_def)
  have r: "fold (\<lambda>(r, off) m. wr64 m (tf + of_nat off) (rf ?h r)) tf_rest (hmem ?h) = ?m"
    using tf_rest_regs(1) by (intro fold_cong) (force simp: image_iff)+
  have "run tr (saves A0 tf_rest) ?h = ?h\<lparr>hmem := ?m\<rparr>"
    unfolding r [symmetric] using tf_slots(2) at by (intro run_saves_at [of 288]) (simp_all add: eff_addr_def)
  moreover have "tr (hcsr h Satp) va = tf" using at [of 0] by simp
  ultimately have e: "h' = set_csr Satp (rd64 m tf) (set_reg T1 (rd64 m tf) (set_reg T0 (rd64 m (tf + 16)) (set_reg Tp (rd64 m (tf + 32)) (set_reg Sp (rd64 m (tf + 8))
      (set_reg T0 (rf h A0) (?h\<lparr>hmem := m\<rparr>))))))"
    using assms(1) at [of 112] at [of 8] at [of 32] at [of 16]
    by (simp add: h'_def uservec_asm_def uservec_parts eff_addr_def m_def set_reg_def)
  have o: "rd64 m (tf + of_nat k) = rd64 (hmem h) (tf + of_nat k)" if "k \<in> {0, 8, 16, 24, 32}" for k :: nat
    unfolding m_def using tf_slots(1) that by (intro saved_other) (auto simp: slots_def tf_rest_def tf_regs_def)
  show "rd64 (hmem h') (tf + of_nat (tf_off r)) = rf h r" using saved [OF tf_slots(1) tf_off_in] by (simp add: e m_def)
  show "288 \<le> unat (x - tf) \<Longrightarrow> hmem h' x = hmem h x" using saved_outside [OF tf_slots(2)] by (simp add: e m_def)
  show "rf h' Sp = rd64 (hmem h) (tf + 8)" "rf h' Tp = rd64 (hmem h) (tf + 32)" "hcsr h' Satp = rd64 (hmem h) tf"
    "snd (uservec_asm tr h) = JumpTo (rd64 (hmem h) (tf + 16))"
    using o [of 8] o [of 32] o [of 0] o [of 16] e by (simp_all add: h'_def uservec_asm_def Let_def)
  show "k \<in> {0, 8, 16, 24, 32} \<Longrightarrow> rd64 (hmem h') (tf + of_nat k) = rd64 (hmem h) (tf + of_nat k)" using o by (simp add: e)
qed

lemma userret_run:
  assumes "rf h A0 = va" "rf h A1 = sat" "maps_to tr sat 288 va tf"
  shows "userret_asm tr h = (\<lparr>rf = \<lambda>r. rd64 (hmem h) (tf + of_nat (tf_off r)), hcsr = (hcsr h)(Satp := sat, Sscratch := va), hmem = hmem h\<rparr>, Sret)"
proof -
  let ?v = "\<lambda>r. rd64 (hmem h) (tf + of_nat (tf_off r))"
  let ?h = "set_csr Sscratch (?v A0) (set_reg T0 (?v A0) (set_csr Satp sat h))"
  have at: "tr sat (va + of_nat off) = tf + of_nat off" if "off < 288" for off using assms(3) that by (simp add: maps_to_def)
  have w: "rd64 (hmem ?h) (eff_addr tr ?h A0 off) = ?v r" if "(r, off) \<in> set tf_rest" for r off
    using tf_off_eq [OF that] tf_off_bound(1) [of r] at [of off] assms(1) by (simp add: eff_addr_def)
  have "run tr (loads A0 tf_rest) ?h = ?h\<lparr>rf := \<lambda>r. if r \<in> fst ` set tf_rest then ?v r else rf ?h r\<rparr>"
    by (rule run_loads [OF w]) (simp_all add: tf_rest_regs)
  then have "run tr userret_code h = set_csr Sscratch va (set_reg A0 (?v A0) (?h\<lparr>rf := \<lambda>r. if r \<noteq> A0 then ?v r else rf ?h r\<rparr>))"
    using assms(1,2) at [of 112] by (simp add: userret_parts eff_addr_def tf_rest_regs cong: if_cong)
  then show ?thesis by (auto simp: userret_asm_def set_csr_def set_reg_def intro!: hart.equality)
qed

lemma usertrapret_eq:
  assumes "cproc (mycpu (lks s)) = Some p"
  shows "\<exists>s'. usertrapret s = Inr (ToUser (TRAPFRAME - PGSIZE * of_int (threadCount (procs s p))) (MAKE_SATP (pagetable (procs s p))), s') \<and>
    mem s' = (let tf = trapframe (procs s p) in
      wr64 (wr64 (wr64 (wr64 (mem s) tf (satp s (tp (lks s)))) (tf + 8) (kstack (procs s p) + PGSIZE)) (tf + 16) (usertrap_a s)) (tf + 32) (of_nat (tp (lks s))))"
proof -
  have c: "curproc s = Inr (p, s\<lparr>lks := settle (lks s)\<rparr>)" using assms by (rule curproc_Some)
  have d: "curproc t = Inr (p, t\<lparr>lks := settle (lks t)\<rparr>)" if "lks t = intr_off (settle (lks s))" for t :: "'a trapst_scheme"
    using assms that by (intro curproc_Some) (simp add: cpu_defs settle_def)
  show ?thesis unfolding usertrapret_def c Let_def by (simp add: d upd_csr_def csr_def intr_off_def)
qed

text \<open>
  C11: The trap frame carries a process to user space and back. When the handler of a trap ends for a process without threads whose page
  table has its trap frame at the address \<^verbatim>\<open>TRAPFRAME\<close>, \<^verbatim>\<open>usertrapret\<close> returns, and \<^verbatim>\<open>userret\<close> enters user space with the page table of the process, every
  register as in the trap frame, and the address of the frame in \<^verbatim>\<open>sscratch\<close>. Whatever the process then does with its registers, at the
  next trap \<^verbatim>\<open>uservec\<close> leaves every register of it in the frame, and no other byte of memory changed, and enters \<^verbatim>\<open>usertrap\<close> on the kernel stack of the process,
  with the kernel's page table and the number of the hart in \<^verbatim>\<open>tp\<close>.
\<close>

theorem user_round_trip:
  fixes s :: "'a trapst_scheme"
  assumes "cproc (mycpu (lks s)) = Some p" "threadCount (procs s p) = 0" "tf = trapframe (procs s p)"
    and "sat = MAKE_SATP (pagetable (procs s p))" "maps_to tr sat 288 TRAPFRAME tf"
  shows "\<exists>s'. usertrapret s = Inr (ToUser TRAPFRAME sat, s') \<and>
    (\<forall>h u h' k. hmem h = mem s' \<and> rf h A0 = TRAPFRAME \<and> rf h A1 = sat \<and> u = fst (userret_asm tr h) \<and>
       hcsr h' Satp = hcsr u Satp \<and> hcsr h' Sscratch = hcsr u Sscratch \<and> (\<forall>i < 40. hmem h' (tf + of_nat i) = hmem u (tf + of_nat i)) \<and>
       k = fst (uservec_asm tr h') \<longrightarrow>
       snd (userret_asm tr h) = Sret \<and> hcsr u Satp = sat \<and> hcsr u Sscratch = TRAPFRAME \<and> (\<forall>r. rf u r = rd64 (mem s) (tf + of_nat (tf_off r))) \<and>
       snd (uservec_asm tr h') = JumpTo (usertrap_a s) \<and> rf k Sp = kstack (procs s p) + PGSIZE \<and> rf k Tp = of_nat (tp (lks s)) \<and>
       hcsr k Satp = satp s (tp (lks s)) \<and> (\<forall>r. rd64 (hmem k) (tf + of_nat (tf_off r)) = rf h' r) \<and>
       (\<forall>x. 288 \<le> unat (x - tf) \<longrightarrow> hmem k x = hmem h' x))"
proof -
  obtain s' where s: "usertrapret s = Inr (ToUser TRAPFRAME sat, s')"
      "mem s' = wr64 (wr64 (wr64 (wr64 (mem s) tf (satp s (tp (lks s)))) (tf + 8) (kstack (procs s p) + PGSIZE)) (tf + 16) (usertrap_a s)) (tf + 32) (of_nat (tp (lks s)))"
    using usertrapret_eq [OF assms(1)] assms(2-4) by (auto simp: Let_def)
  have t: "rd64 (mem s') (tf + of_nat (tf_off r)) = rd64 (mem s) (tf + of_nat (tf_off r))" for r
    using tf_off_bound [of r] slot_wr64 [of 0 "tf_off r" _ tf] slot_wr64 [of 8 "tf_off r" _ tf] slot_wr64 [of 16 "tf_off r" _ tf]
      slot_wr64 [of 32 "tf_off r" _ tf] by (simp add: s(2))
  have kern: "rd64 (mem s') tf = satp s (tp (lks s))" "rd64 (mem s') (tf + 8) = kstack (procs s p) + PGSIZE"
      "rd64 (mem s') (tf + 16) = usertrap_a s" "rd64 (mem s') (tf + 32) = of_nat (tp (lks s))"
    using slot_wr64 [of 32 0 _ tf] slot_wr64 [of 32 8 _ tf] slot_wr64 [of 32 16 _ tf] slot_wr64 [of 16 0 _ tf] slot_wr64 [of 16 8 _ tf]
      slot_wr64 [of 8 0 _ tf] by (simp_all add: s(2) rd64_wr64)
  show ?thesis
  proof (rule exI [of _ s'], rule conjI, rule s(1), rule allI, rule allI, rule allI, rule allI, rule impI, elim conjE, goal_cases)
    case (1 h u h' k)
    note u = userret_run [OF 1(2,3) assms(5)]
    have w: "rd64 (hmem h') (tf + of_nat i) = rd64 (mem s') (tf + of_nat i)" if "i + 8 \<le> 40" for i
      using 1(1,4,7) u that by (intro rd64_same) (simp add: add.assoc flip: of_nat_add)
    have v: "hcsr h' Sscratch = TRAPFRAME" "maps_to tr (hcsr h' Satp) 288 TRAPFRAME tf" using 1(4,5,6) u assms(5) by simp_all
    show ?case
      unfolding 1(8) using u uservec_run [OF v] w [of 0] w [of 8] w [of 16] w [of 32] kern t 1(1,4) by simp
  qed
qed

text \<open>A machine on whose hart 0 process 1 runs, with the trap frame at \<^verbatim>\<open>0x87000000\<close>.\<close>

definition trap_st0 :: trapst where
  "trap_st0 =
     (let l = vdiskst.extend vdisk_st0 (logst.fields 2 30 0 False 1 0 (replicate LOGSIZE 0));
          f = logst.extend l (fsst.fields \<lparr>sb_magic = 0, sb_size = 0, sb_nblocks = 0, sb_ninodes = 0, sb_nlog = 0, sb_logstart = 0, sb_inodestart = 0, sb_bmapstart = 0\<rparr>
            (\<lambda>_. \<lparr>idev = 0, inum = 0, iref = 0, ivalid = False, idi = \<lparr>di_type = 0, di_major = 0, di_minor = 0, di_nlink = 0, di_size = 0, di_addrs = replicate 13 0\<rparr>\<rparr>));
          t = fsst.extend f (filest.fields (\<lambda>_. \<lparr>ftype = FD_NONE, fref = 0, readable = False, writable = False, fpipe = 0, fip = None, foff = 0, fmajor = 0\<rparr>) (\<lambda>_. True));
          s = filest.extend t (trapst.fields (\<lambda>_. \<lparr>stvec = 0, sepc = 0, scause = 8, stval = 0, sstatus = 0, sip = 0\<rparr>)
            (\<lambda>_. \<lparr>mstatus = 0, mepc = 0, medeleg = 0, mideleg = 0, sie_reg = 0, pmpaddr0 = 0, pmpcfg0 = 0, mscratch = 0, mtvec = 0, mie = 0\<rparr>)
            [] [] 0 (\<lambda>_. 0) (\<lambda>_. replicate 5 0) True 0x80005000 0x80007000 0x80007090 0x80002000 0x80001000 0x80005100 (\<lambda>_. 0x80009000) 0x8000a000)
      in s\<lparr>lks := lks0\<lparr>cpus := \<lambda>_. \<lparr>cproc = Some 1, noff = 0, intena = False\<rparr>\<rparr>,
           procs := \<lambda>_. proc0\<lparr>kstack := KSTACK 1, trapframe := 0x87000000, pagetable := 0x87001000\<rparr>\<rparr>)"

theorem user_round_trip_witness:
  "\<exists>s' tr. usertrapret trap_st0 = Inr (ToUser TRAPFRAME (MAKE_SATP 0x87001000), s') \<and> tr (MAKE_SATP 0x87001000) TRAPFRAME = 0x87000000 \<and>
     (let h = \<lparr>rf = (\<lambda>_. 0)(A0 := TRAPFRAME, A1 := MAKE_SATP 0x87001000), hcsr = \<lambda>_. 0, hmem = mem s'\<rparr>;
          h' = (fst (userret_asm tr h))\<lparr>rf := \<lambda>_. 7\<rparr>
      in snd (uservec_asm tr h') = JumpTo 0x80002000 \<and> rf (fst (uservec_asm tr h')) Sp = KSTACK 1 + 4096 \<and>
         rd64 (hmem (fst (uservec_asm tr h'))) 0x87000070 = 7)"
proof -
  define tr :: mmu where "tr = (\<lambda>sat a. 0x87000000 + (a - TRAPFRAME))"
  have p: "cproc (mycpu (lks trap_st0)) = Some 1" "procs trap_st0 i = proc0\<lparr>kstack := KSTACK 1, trapframe := 0x87000000, pagetable := 0x87001000\<rparr>"
    "usertrap_a trap_st0 = 0x80002000" for i
    by (simp_all add: trap_st0_def mycpu_def Let_def filest.defs trapst.defs)
  have m: "maps_to tr sat 288 TRAPFRAME 0x87000000" for sat by (simp add: maps_to_def tr_def)
  have f: "threadCount (procs trap_st0 1) = 0" "0x87000000 = trapframe (procs trap_st0 1)" "MAKE_SATP 0x87001000 = MAKE_SATP (pagetable (procs trap_st0 1))"
    by (simp_all add: p proc0_def)
  obtain s' where q: "usertrapret trap_st0 = Inr (ToUser TRAPFRAME (MAKE_SATP 0x87001000), s') \<and>
      (\<forall>h u h' k. hmem h = mem s' \<and> rf h A0 = TRAPFRAME \<and> rf h A1 = MAKE_SATP 0x87001000 \<and> u = fst (userret_asm tr h) \<and>
        hcsr h' Satp = hcsr u Satp \<and> hcsr h' Sscratch = hcsr u Sscratch \<and> (\<forall>i < 40. hmem h' (0x87000000 + of_nat i) = hmem u (0x87000000 + of_nat i)) \<and>
        k = fst (uservec_asm tr h') \<longrightarrow>
        snd (userret_asm tr h) = Sret \<and> hcsr u Satp = MAKE_SATP 0x87001000 \<and> hcsr u Sscratch = TRAPFRAME \<and>
        (\<forall>r. rf u r = rd64 (mem trap_st0) (0x87000000 + of_nat (tf_off r))) \<and>
        snd (uservec_asm tr h') = JumpTo (usertrap_a trap_st0) \<and> rf k Sp = kstack (procs trap_st0 1) + PGSIZE \<and> rf k Tp = of_nat (tp (lks trap_st0)) \<and>
        hcsr k Satp = satp trap_st0 (tp (lks trap_st0)) \<and> (\<forall>r. rd64 (hmem k) (0x87000000 + of_nat (tf_off r)) = rf h' r) \<and>
        (\<forall>x. 288 \<le> unat (x - 0x87000000) \<longrightarrow> hmem k x = hmem h' x))"
    using user_round_trip [OF p(1) f m] by (rule exE)
  define h where "h = \<lparr>rf = (\<lambda>_. 0)(A0 := TRAPFRAME, A1 := MAKE_SATP 0x87001000), hcsr = \<lambda>_. 0, hmem = mem s'\<rparr>"
  define h' where "h' = (fst (userret_asm tr h))\<lparr>rf := \<lambda>_. 7\<rparr>"
  have h: "hmem h = mem s'" "rf h A0 = TRAPFRAME" "rf h A1 = MAKE_SATP 0x87001000" by (simp_all add: h_def)
  have h': "hcsr h' = hcsr (fst (userret_asm tr h))" "hmem h' = hmem (fst (userret_asm tr h))" "rf h' r = 7" for r by (simp_all add: h'_def)
  have k: "snd (uservec_asm tr h') = JumpTo 0x80002000" "rf (fst (uservec_asm tr h')) Sp = KSTACK 1 + 4096"
    "\<forall>r. rd64 (hmem (fst (uservec_asm tr h'))) (0x87000000 + of_nat (tf_off r)) = 7"
    using q [THEN conjunct2, THEN spec [of _ h], THEN spec [of _ "fst (userret_asm tr h)"], THEN spec [of _ h'], THEN spec [of _ "fst (uservec_asm tr h')"]] h h' p
    by (simp_all add: proc0_def)
  have "rd64 (hmem (fst (uservec_asm tr h'))) 0x87000070 = 7" using k(3) [THEN spec [of _ A0]] by (simp add: tf_rest_regs)
  then show ?thesis
    using q [THEN conjunct1] k(1,2) unfolding h'_def h_def by (intro exI [of _ s'] exI [of _ tr]) (simp add: Let_def tr_def)
qed

section \<open>System calls\<close>

text \<open>
  The stub of a system call, the trap and the dispatch agree: the number that the stub loads is the one \<^verbatim>\<open>syscall\<close> finds in the trap frame, and there is
  a function for it.
\<close>

lemma usys_numbers: "name \<in> set usys_names \<Longrightarrow> \<exists>n. map_of SYS name = Some n \<and> 1 \<le> n \<and> n \<le> 22"
  by (auto simp: usys_names_def SYS_def)

lemma syscalls_defined:
  fixes junk :: uint64
  assumes "1 \<le> n" "n \<le> 22"
  shows "syscalls junk (int n) \<noteq> (None :: ('a filest_scheme \<Rightarrow> _) option)" "sint (ucast (of_nat n :: uint64) :: uint) = int n"
proof -
  have n: "n \<in> set [1..<23]" using assms by simp
  have "list_all (\<lambda>n. syscalls junk (int n) \<noteq> (None :: ('a filest_scheme \<Rightarrow> _) option)) [1..<23]" by (simp add: upt_rec syscalls_def)
  then show "syscalls junk (int n) \<noteq> (None :: ('a filest_scheme \<Rightarrow> _) option)" unfolding list_all_iff using n by (rule bspec)
  have "list_all (\<lambda>n. sint (ucast (of_nat n :: uint64) :: uint) = int n) [1..<23]" by code_simp
  then show "sint (ucast (of_nat n :: uint64) :: uint) = int n" unfolding list_all_iff using n by (rule bspec)
qed

lemma stub_dispatched:
  assumes "name \<in> set usys_names" "hcsr h Sscratch = TRAPFRAME" "maps_to tr (hcsr h Satp) 288 TRAPFRAME tf"
  defines "k \<equiv> fst (uservec_asm tr (run tr (usys_code name) h))"
  shows "\<exists>n. map_of SYS name = Some n \<and> sint (ucast (rd64 (hmem k) (tf + TF_a7)) :: uint) = int n \<and> syscalls junk (int n) \<noteq> None"
proof -
  obtain n where n: "map_of SYS name = Some n" "1 \<le> n" "n \<le> 22" using usys_numbers [OF assms(1)] by blast
  let ?h = "run tr (usys_code name) h"
  have h: "hcsr ?h Sscratch = TRAPFRAME" "maps_to tr (hcsr ?h Satp) 288 TRAPFRAME tf" "rf ?h A7 = of_nat n"
    using assms(2,3) n(1) by (simp_all add: usys_code_def)
  have "tf_off A7 = 168" by (simp add: tf_off_def tf_regs_def)
  then have "rd64 (hmem k) (tf + TF_a7) = of_nat n" using uservec_run(1) [OF h(1,2), of A7] h(3) by (simp add: k_def)
  then have "sint (ucast (rd64 (hmem k) (tf + TF_a7)) :: uint) = int n" using syscalls_defined(2) [OF n(2,3)] by simp
  then show ?thesis using n(1) syscalls_defined(1) [OF n(2,3)] by blast
qed

end
