(* ===== verification/Crash.thy ===== *)
theory Crash
  imports Log
begin

unbundle bit_operations_syntax

text \<open>
  Crash safety of the log (\<^verbatim>\<open>kernel/log.c\<close>). A disk is a map from block numbers to contents, changed by a
  sequence of block writes; a crash keeps a prefix of the sequence. What the log makes of a disk
  (\<open>log_view\<close>) is defined on disks alone; \<^verbatim>\<open>recover_from_log\<close> is shown to compute it, and \<^verbatim>\<open>commit\<close> to change it in one
  step, whatever prefix of its writes the disk has seen.
\<close>

section \<open>Disks and the view of the log\<close>

type_synonym disk = "uint \<Rightarrow> byte list"

definition disk_after :: "disk \<Rightarrow> (uint \<times> byte list) list \<Rightarrow> disk" where
  "disk_after D ws = fold (\<lambda>w D. D(fst w := snd w)) ws D"

lemma disk_after_simps [simp]:
  "disk_after D [] = D" "disk_after D (ws @ ws') = disk_after (disk_after D ws) ws'" "disk_after D (w # ws) = disk_after (D(fst w := snd w)) ws"
  by (simp_all add: disk_after_def)

lemma disk_after_other: "m \<notin> fst ` set ws \<Longrightarrow> disk_after D ws m = D m"
  by (induction ws arbitrary: D) (auto simp: disk_after_def)

definition head_n :: "byte list \<Rightarrow> nat" where
  "head_n d = nat (sint (get32 d 0))"

definition head_block :: "byte list \<Rightarrow> nat \<Rightarrow> uint" where
  "head_block d i = get32 d (4 + 4 * i)"

text \<open>The \<open>i\<close>th block of the log that starts at \<open>st\<close>; the blocks of the log.\<close>

definition log_at :: "uint \<Rightarrow> nat \<Rightarrow> uint" where
  "log_at st i = st + of_nat i + 1"

definition in_log :: "uint \<Rightarrow> uint \<Rightarrow> bool" where
  "in_log st m \<longleftrightarrow> unat st \<le> unat m \<and> unat m < unat st + LOGSIZE"

definition log_area :: "uint \<Rightarrow> bool" where
  "log_area st \<longleftrightarrow> unat st + LOGSIZE < 2 ^ 31"

text \<open>The contents of a block once the log is installed.\<close>

definition log_view :: "uint \<Rightarrow> disk \<Rightarrow> disk" where
  "log_view st D m =
     (case find (\<lambda>i. head_block (D st) i = m) (rev [0..<head_n (D st)]) of Some i \<Rightarrow> D (log_at st i) | None \<Rightarrow> D m)"

definition head_ok :: "uint \<Rightarrow> byte list \<Rightarrow> bool" where
  "head_ok st d \<longleftrightarrow> head_n d < LOGSIZE \<and> (\<forall>i<head_n d. small (head_block d i) \<and> \<not> in_log st (head_block d i))"

lemma unat_log_at: "log_area st \<Longrightarrow> Suc i < LOGSIZE \<Longrightarrow> unat (log_at st i) = unat st + i + 1"
  by (simp add: log_at_def log_area_def unat_word_ariths unat_of_nat)

lemma log_at_in [simp]: "log_area st \<Longrightarrow> Suc i < LOGSIZE \<Longrightarrow> in_log st (log_at st i)"
  by (simp add: in_log_def unat_log_at)

lemma log_start_in [simp]: "in_log st st"
  by (simp add: in_log_def)

lemma log_at_neq [simp]: "log_area st \<Longrightarrow> Suc i < LOGSIZE \<Longrightarrow> log_at st i \<noteq> st"
proof
  assume "log_area st" "Suc i < LOGSIZE" "log_at st i = st"
  from arg_cong [OF this(3), of unat] unat_log_at [OF this(1,2)] show False by simp
qed

lemma log_at_inj: "log_area st \<Longrightarrow> Suc i < LOGSIZE \<Longrightarrow> Suc j < LOGSIZE \<Longrightarrow> log_at st i = log_at st j \<longleftrightarrow> i = j"
proof
  assume "log_area st" "Suc i < LOGSIZE" "Suc j < LOGSIZE" "log_at st i = log_at st j"
  from arg_cong [OF this(4), of unat] show "i = j" using \<open>log_area st\<close> \<open>Suc i < LOGSIZE\<close> \<open>Suc j < LOGSIZE\<close> by (simp add: unat_log_at)
qed simp

lemma in_log_small: "log_area st \<Longrightarrow> in_log st m \<Longrightarrow> small m"
  by (simp add: log_area_def in_log_def small_def)

section \<open>Copies between the log and the home blocks\<close>

text \<open>Blocks \<open>B i\<close> with contents \<open>c i\<close>, written in order: the last write to a block counts.\<close>

lemma disk_after_map:
  "disk_after D (map (\<lambda>i. (B i, c i)) [0..<k]) m = (case find (\<lambda>i. B i = m) (rev [0..<k]) of Some i \<Rightarrow> c i | None \<Rightarrow> D m)"
  by (induction k) simp_all

lemma disk_after_map_other: "\<forall>i<k. B i \<noteq> m \<Longrightarrow> disk_after D (map (\<lambda>i. (B i, c i)) [0..<k]) m = D m"
  by (rule disk_after_other) auto

lemma find_rev_None: "find P (rev [0..<k]) = None \<longleftrightarrow> (\<forall>i<k. \<not> P i)"
  by (auto simp: find_None_iff)

lemma find_rev_Some: "find P (rev [0..<k]) = Some i \<Longrightarrow> i < k \<and> P i"
  by (induction k) (auto split: if_splits)

lemma disk_after_map_at:
  assumes "i < k" "\<And>j. j < k \<Longrightarrow> B j = B i \<Longrightarrow> c j = c i"
  shows "disk_after D (map (\<lambda>i. (B i, c i)) [0..<k]) (B i) = c i"
proof (cases "find (\<lambda>j. B j = B i) (rev [0..<k])")
  case None
  then show ?thesis using assms(1) by (auto simp: find_rev_None)
next
  case (Some j)
  then show ?thesis using find_rev_Some [OF Some] assms(2) [of j] by (simp add: disk_after_map)
qed

definition rec_writes :: "uint \<Rightarrow> disk \<Rightarrow> (uint \<times> byte list) list" where
  "rec_writes st D = map (\<lambda>i. (head_block (D st) i, D (log_at st i))) [0..<head_n (D st)] @ [(st, put32 0 0 (D st))]"

lemma log_view_empty: "head_n (D st) = 0 \<Longrightarrow> log_view st D = D"
  by (simp add: log_view_def fun_eq_iff)

lemma log_view_installing:
  assumes "log_area st" "head_ok st (D st)" "k \<le> head_n (D st)"
    and D': "D' = disk_after D (map (\<lambda>i. (head_block (D st) i, D (log_at st i))) [0..<k])"
  shows "D' st = D st" "i < head_n (D st) \<Longrightarrow> D' (log_at st i) = D (log_at st i)" "log_view st D' m = log_view st D m"
proof -
  let ?B = "head_block (D st)"
  have ni: "\<not> in_log st (?B i)" if "i < k" for i using that assms(2,3) by (simp add: head_ok_def)
  have log: "D' l = D l" if "in_log st l" for l
    unfolding D' using ni that by (intro disk_after_map_other) auto
  show st: "D' st = D st" by (simp add: log)
  have la: "D' (log_at st i) = D (log_at st i)" if "i < head_n (D st)" for i
    using that assms(1,2) by (intro log log_at_in) (auto simp: head_ok_def)
  then show "i < head_n (D st) \<Longrightarrow> D' (log_at st i) = D (log_at st i)" .
  show "log_view st D' m = log_view st D m"
  proof (cases "find (\<lambda>i. ?B i = m) (rev [0..<head_n (D st)])")
    case None
    then have "D' m = D m" unfolding D' using assms(3) by (intro disk_after_map_other) (auto simp: find_rev_None)
    then show ?thesis using None by (simp add: log_view_def st)
  next
    case (Some i)
    then show ?thesis using la find_rev_Some [OF Some] by (simp add: log_view_def st)
  qed
qed

lemma put32_head: "4 \<le> length d \<Longrightarrow> head_n (put32 0 0 d) = 0"
  by (simp add: head_n_def)

lemma take_append_map: "k \<le> n \<Longrightarrow> take k (map f [0..<n] @ ws) = map f [0..<k]"
  by (simp add: take_map)

lemma log_view_recovering:
  assumes "log_area st" "head_ok st (D st)" "4 \<le> length (D st)" "\<not> in_log st m"
  shows "log_view st (disk_after D (take k (rec_writes st D))) m = log_view st D m"
proof (cases "k \<le> head_n (D st)")
  case True
  then show ?thesis using log_view_installing(3) [where D = D and st = st and k = k, OF assms(1,2) True refl] by (simp add: rec_writes_def take_map)
next
  case False
  let ?D = "disk_after D (map (\<lambda>i. (head_block (D st) i, D (log_at st i))) [0..<head_n (D st)])"
  let ?E = "?D(st := put32 0 0 (D st))"
  have E: "disk_after D (take k (rec_writes st D)) = ?E" using False by (simp add: rec_writes_def)
  have e: "log_view st ?E = ?E"
    using assms(3) by (intro log_view_empty) (simp add: put32_head)
  have "m \<noteq> st" using assms(4) by auto
  then have "?E m = ?D m" by simp
  also have "\<dots> = log_view st D m" unfolding disk_after_map log_view_def ..
  finally show ?thesis unfolding E e .
qed

text \<open>The writes of a commit of \<open>n\<close> blocks \<open>B i\<close> with contents \<open>V (B i)\<close>, and headers \<open>h\<close> and \<open>h0\<close>.\<close>

definition commit_writes :: "uint \<Rightarrow> nat \<Rightarrow> (nat \<Rightarrow> uint) \<Rightarrow> disk \<Rightarrow> byte list \<Rightarrow> byte list \<Rightarrow> (uint \<times> byte list) list" where
  "commit_writes st n B V h h0 =
     map (\<lambda>i. (log_at st i, V (B i))) [0..<n] @ [(st, h)] @ map (\<lambda>i. (B i, V (B i))) [0..<n] @ [(st, h0)]"

lemma length_commit_writes [simp]: "length (commit_writes st n B V h h0) = 2 * n + 2"
  by (simp add: commit_writes_def)

lemma log_view_commit:
  assumes "log_area st" "head_n (D st) = 0" "head_n h = n" "\<And>i. i < n \<Longrightarrow> head_block h i = B i" "head_n h0 = 0"
    and n: "n < LOGSIZE" "\<And>i. i < n \<Longrightarrow> \<not> in_log st (B i)" and m: "\<not> in_log st m"
  shows "log_view st (disk_after D (take k (commit_writes st n B V h h0))) m =
    (if k \<le> n then D m else if m \<in> B ` {..<n} then V m else D m)"
proof -
  let ?L = "\<lambda>k. map (\<lambda>i. (log_at st i, V (B i))) [0..<k]"
  let ?H = "\<lambda>k. map (\<lambda>i. (B i, V (B i))) [0..<k]"
  have mst: "m \<noteq> st" using m by auto
  have Lst: "disk_after E (?L j) st = E st" "disk_after E (?L j) m = E m" if "j \<le> n" for j E
    using that assms(1) n(1) m by (intro disk_after_map_other; auto)+
  have Hl: "disk_after E (?H j) l = E l" if "j \<le> n" "in_log st l" for j E l
  proof (rule disk_after_map_other, intro allI impI)
    fix i assume "i < j"
    then have "\<not> in_log st (B i)" using n(2) that(1) by simp
    then show "B i \<noteq> l" using that(2) by blast
  qed
  have Hm: "disk_after E (?H n) m = (if m \<in> B ` {..<n} then V m else E m)" for E
    using disk_after_map_at [of _ n B "\<lambda>i. V (B i)"] disk_after_map_other [of n B m E "\<lambda>i. V (B i)"] by auto
  have "k \<le> n \<or> (\<exists>j. k = n + 1 + j \<and> j \<le> n) \<or> 2 * n + 2 \<le> k" by presburger
  then consider "k \<le> n" | j where "k = n + 1 + j" "j \<le> n" | "2 * n + 2 \<le> k" by blast
  then show ?thesis
  proof cases
    case 1
    then have "take k (commit_writes st n B V h h0) = ?L k" by (simp add: commit_writes_def take_map)
    then show ?thesis using 1 Lst [OF 1, of D] assms(2) log_view_empty [of "disk_after D (?L k)" st] by simp
  next
    case 2
    let ?D1 = "(disk_after D (?L n))(st := h)"
    let ?D = "disk_after ?D1 (?H j)"
    have t: "take k (commit_writes st n B V h h0) = ?L n @ [(st, h)] @ ?H j"
      using 2 by (simp add: commit_writes_def take_map)
    have st: "?D st = h" using Hl [OF 2(2)] by simp
    have la: "?D (log_at st i) = V (B i)" if "i < n" for i
      using that Hl [OF 2(2)] assms(1) n(1) disk_after_map_at [of i n "log_at st" "\<lambda>i. V (B i)" D]
      by (auto simp: log_at_inj)
    have "log_view st ?D m = (if m \<in> B ` {..<n} then V m else D m)"
    proof (cases "find (\<lambda>i. head_block h i = m) (rev [0..<n])")
      case None
      then have nb: "\<forall>i<n. B i \<noteq> m" using assms(4) by (auto simp: find_rev_None)
      then have "?D m = D m" using 2(2) mst Lst(2) [of n D] by (subst disk_after_map_other) auto
      then show ?thesis using None st assms(3) nb by (auto simp: log_view_def)
    next
      case (Some i)
      then have "i < n" "B i = m" using find_rev_Some [OF Some] assms(4) by auto
      then show ?thesis using Some st assms(3) la by (auto simp: log_view_def)
    qed
    moreover have "\<not> k \<le> n" using 2(1) by simp
    ultimately show ?thesis unfolding t by simp
  next
    case 3
    let ?D = "(disk_after ((disk_after D (?L n))(st := h)) (?H n))(st := h0)"
    have "take k (commit_writes st n B V h h0) = commit_writes st n B V h h0" using 3 by (simp del: take_append)
    then have "disk_after D (take k (commit_writes st n B V h h0)) = ?D" by (simp add: commit_writes_def)
    moreover have "log_view st ?D = ?D" using assms(5) by (intro log_view_empty) simp
    moreover have "?D m = (if m \<in> B ` {..<n} then V m else D m)" using mst Hm Lst(2) [of n D] by auto
    ultimately show ?thesis using 3 by simp
  qed
qed

section \<open>The header\<close>

definition head_enc :: "int \<Rightarrow> int list \<Rightarrow> byte list \<Rightarrow> byte list" where
  "head_enc n bl d = fold (\<lambda>i. put32 (4 + 4 * i) (of_int (bl ! i))) [0..<nat n] (put32 0 (of_int n) d)"

lemma head_enc_fold:
  fixes d :: "byte list"
  assumes "4 + 4 * k \<le> length d" "d' = fold (\<lambda>i. put32 (4 + 4 * i) (of_int (bl ! i))) [0..<k] d"
  shows "length d' = length d \<and> get32 d' 0 = get32 d 0 \<and> (\<forall>i<k. get32 d' (4 + 4 * i) = of_int (bl ! i))"
  using assms
proof (induction k arbitrary: d')
  case (Suc k)
  let ?e = "fold (\<lambda>i. put32 (4 + 4 * i) (of_int (bl ! i))) [0..<k] d"
  have e: "length ?e = length d" "get32 ?e 0 = get32 d 0" "\<And>i. i < k \<Longrightarrow> get32 ?e (4 + 4 * i) = of_int (bl ! i)"
    using Suc.IH [OF _ refl] Suc.prems(1) by auto
  have d': "d' = put32 (4 + 4 * k) (of_int (bl ! k)) ?e" using Suc.prems(2) by simp
  show ?case
    using e Suc.prems(1) by (auto simp: d' less_Suc_eq get32_put32_other)
qed simp

lemma head_enc:
  assumes "length d = BSIZE" "0 \<le> n" "n \<le> int LOGSIZE"
  shows "length (head_enc n bl d) = BSIZE" "head_n (head_enc n bl d) = nat n"
    "i < nat n \<Longrightarrow> head_block (head_enc n bl d) i = of_int (bl ! i)"
proof -
  let ?d = "put32 0 (of_int n) d"
  have h: "length (head_enc n bl d) = length ?d \<and> get32 (head_enc n bl d) 0 = get32 ?d 0 \<and>
      (\<forall>i<nat n. get32 (head_enc n bl d) (4 + 4 * i) = of_int (bl ! i))"
    by (rule head_enc_fold) (use assms in \<open>simp_all add: head_enc_def\<close>)
  have "sint (of_int n :: uint) = n" using assms by (simp add: signed_of_int signed_take_bit_int_eq_self)
  then show "length (head_enc n bl d) = BSIZE" "head_n (head_enc n bl d) = nat n"
    "i < nat n \<Longrightarrow> head_block (head_enc n bl d) i = of_int (bl ! i)"
    using h assms by (auto simp: head_n_def head_block_def)
qed

section \<open>What the loops of the log do to the cache\<close>

definition secs :: "(uint \<times> byte list) list \<Rightarrow> (uint64 \<times> byte list) list" where
  "secs ws = map (\<lambda>w. (sector (fst w), snd w)) ws"

lemma secs_simps [simp]: "secs [] = []" "secs (ws @ ws') = secs ws @ secs ws'" "secs [(n, d)] = [(sector n, d)]"
  by (simp_all add: secs_def)

lemma on_disk_secs:
  assumes "\<forall>w\<in>set ws. small (fst w)" "small m" "cwr a' = cwr a @ secs ws" "cimg a' = cimg a"
  shows "on_disk a' m = disk_after (on_disk a) ws m"
  using assms(1,3,4)
proof (induction ws arbitrary: a' rule: rev_induct)
  case Nil
  then show ?case by (simp add: on_disk_def)
next
  case (snoc w ws)
  obtain n d where w: "w = (n, d)" by (cases w)
  let ?b = "a\<lparr>cwr := cwr a @ secs ws\<rparr>"
  have "on_disk ?b m = disk_after (on_disk a) ws m" using snoc.IH [of ?b] snoc.prems(1) by simp
  moreover have "on_disk a' m = (if m = n then d else on_disk ?b m)"
    using snoc.prems assms(2) w last_write_append [of _ "cwr a @ secs ws"] by (simp add: on_disk_def sector_inj)
  ultimately show ?case by (simp add: w)
qed

text \<open>The cache after the blocks of \<open>ws\<close> were given new contents and written; references are \<open>r\<close>.\<close>

definition c_copies :: "(uint \<times> byte list) list \<Rightarrow> (uint \<Rightarrow> nat) \<Rightarrow> cache \<Rightarrow> cache" where
  "c_copies ws r a = a\<lparr>cview := disk_after (cview a) ws, cref := r, cwr := cwr a @ secs ws\<rparr>"

lemma c_copies_simps [simp]:
  "cview (c_copies ws r a) = disk_after (cview a) ws" "cref (c_copies ws r a) = r" "cheld (c_copies ws r a) = cheld a"
  "cimg (c_copies ws r a) = cimg a" "cwr (c_copies ws r a) = cwr a @ secs ws" "c_copies [] (cref a) a = a"
  "c_copies ws' r' (c_copies ws r a) = c_copies (ws @ ws') r' a"
  by (simp_all add: c_copies_def)

lemma log_fields:
  assumes "bframe s s'"
  shows "log_start s' = log_start s" "log_dev s' = log_dev s" "lh_n s' = lh_n s" "lh_block s' = lh_block s"
    "log_size s' = log_size s" "outstanding s' = outstanding s" "committing s' = committing s"
proof -
  have d: "derase s' = derase s" using assms by (simp add: bframe_def)
  show "log_start s' = log_start s" "log_dev s' = log_dev s" "lh_n s' = lh_n s" "lh_block s' = lh_block s"
    "log_size s' = log_size s" "outstanding s' = outstanding s" "committing s' = committing s"
    using arg_cong [OF d, of log_start] arg_cong [OF d, of log_dev] arg_cong [OF d, of lh_n] arg_cong [OF d, of lh_block]
      arg_cong [OF d, of log_size] arg_cong [OF d, of outstanding] arg_cong [OF d, of committing]
    by (simp_all add: derase_def)
qed

lemma cached_log_fields [simp]:
  "cached p a (s\<lparr>lh_n := n\<rparr>) = cached p a s" "cached p a (s\<lparr>lh_block := bl\<rparr>) = cached p a s"
  "cached p a (s\<lparr>outstanding := z\<rparr>) = cached p a s" "cached p a (s\<lparr>committing := c\<rparr>) = cached p a s"
  "holder (s\<lparr>lh_n := n\<rparr>) = holder s" "holder (s\<lparr>lh_block := bl\<rparr>) = holder s"
  "holder (s\<lparr>outstanding := z\<rparr>) = holder s" "holder (s\<lparr>committing := c\<rparr>) = holder s"
  by (simp_all add: cached_def cached0_def holder_def buf_ok_def disk_idle_def quiet_def fun_eq_iff)

text \<open>The log of the state: device 1, its first block, the blocks of the transaction.\<close>

abbreviation st_of :: "'a logst_scheme \<Rightarrow> uint" where "st_of s \<equiv> of_int (log_start s)"
abbreviation blk_of :: "'a logst_scheme \<Rightarrow> nat \<Rightarrow> uint" where "blk_of s i \<equiv> of_int (lh_block s ! i)"

lemma bkeep_bframe: "bkeep a s s' \<Longrightarrow> bframe s s'"
  by (simp add: bkeep_def)

lemma write_log_step_cached:
  assumes "cached p a s" "log_dev s = 1" "free_for a (log_at (st_of s) i)" "free_for (c_get (log_at (st_of s) i) a) (blk_of s i)"
  shows "\<exists>s'. write_log_step i s = Inr s' \<and> bframe s s' \<and>
    cached p (c_copies [(log_at (st_of s) i, cview a (blk_of s i))] (cref a) a) s'"
proof -
  obtain b s1 c s2 s3 s4 s5 where r: "bread 1 (log_at (st_of s) i) s = Inr (b, s1)" "bkeep a s s1"
    "bread 1 (blk_of s i) s1 = Inr (c, s2)" "bwrite b (set_data b (buf_data c s2) s2) = Inr s3"
    "brelse c s3 = Inr s4" "brelse b s4 = Inr s5" "bkeep a s s5"
    "cached p (a\<lparr>cview := (cview a)(log_at (st_of s) i := cview a (blk_of s i)),
      cwr := cwr a @ [(sector (log_at (st_of s) i), cview a (blk_of s i))]\<rparr>) s5"
    using bc.copy_to_first [OF assms(1,3,4)] by blast
  have "write_log_step i s = Inr s5"
    using r(1,3-6) log_fields [OF bkeep_bframe [OF r(2)]] assms(2) by (simp add: write_log_step_def log_at_def)
  then show ?thesis using bkeep_bframe [OF r(7)] r(8) by (simp add: c_copies_def)
qed

lemma install_step_cached:
  assumes "cached p a s" "log_dev s = 1" "free_for a (log_at (st_of s) i)" "free_for (c_get (log_at (st_of s) i) a) (blk_of s i)"
    "\<not> rec \<longrightarrow> 0 < cref a (blk_of s i)"
  shows "\<exists>s'. install_step rec i s = Inr s' \<and> bframe s s' \<and>
    cached p (c_copies [(blk_of s i, cview a (log_at (st_of s) i))]
      ((cref a)(blk_of s i := cref a (blk_of s i) - (if \<not> rec then 1 else 0))) a) s'"
proof -
  obtain b s1 c s2 s3 s4 s5 s6 where r: "bread 1 (log_at (st_of s) i) s = Inr (b, s1)" "bkeep a s s1"
    "bread 1 (blk_of s i) s1 = Inr (c, s2)" "bwrite c (set_data c (buf_data b s2) s2) = Inr s3"
    "(if \<not> rec then bunpin c s3 else Inr s3) = Inr s4" "brelse b s4 = Inr s5" "brelse c s5 = Inr s6" "bkeep a s s6"
    "cached p (a\<lparr>cview := (cview a)(blk_of s i := cview a (log_at (st_of s) i)),
      cref := (cref a)(blk_of s i := cref a (blk_of s i) - (if \<not> rec then 1 else 0)),
      cwr := cwr a @ [(sector (blk_of s i), cview a (log_at (st_of s) i))]\<rparr>) s6"
    using bc.copy_to_second [OF assms(1,3,4,5)] by blast
  have "install_step rec i s = Inr s6"
    using r(1,3-7) log_fields [OF bkeep_bframe [OF r(2)]] assms(2) by (simp add: install_step_def log_at_def)
  then show ?thesis using bkeep_bframe [OF r(8)] r(9) by (simp add: c_copies_def)
qed

text \<open>There is a buffer for a block of the log and one for its home.\<close>

definition room :: "(uint \<Rightarrow> nat) \<Rightarrow> uint \<Rightarrow> uint \<Rightarrow> bool" where
  "room r l b \<longleftrightarrow> r l = 0 \<and> r b < 2 ^ 30 \<and>
     (card {m. r m \<noteq> 0} < NBUF \<and> 0 < r b \<or> card {m. r m \<noteq> 0} + 1 < NBUF)"

lemma room_mono:
  assumes "room r l b" "\<And>m. r' m \<le> r m" "r' b = r b"
  shows "room r' l b"
proof -
  have "card {m. r' m \<noteq> 0} \<le> card {m. r m \<noteq> 0}"
  proof (rule card_mono)
    have "r m \<noteq> 0" if "r' m \<noteq> 0" for m using that assms(2) [of m] by simp
    then show "{m. r' m \<noteq> 0} \<subseteq> {m. r m \<noteq> 0}" by blast
  qed simp
  then show ?thesis using assms(1) assms(2) [of l] assms(3) by (auto simp: room_def)
qed

lemma free_pair:
  assumes "room (cref a) l b" "small l" "small b" "l \<noteq> b" "l \<notin> cheld a" "b \<notin> cheld a"
  shows "free_for a l" "free_for (c_get l a) b"
proof -
  show "free_for a l" using assms by (auto simp: free_for_def room_def)
  have "{m. cref (c_get l a) m \<noteq> 0} \<subseteq> insert l {m. cref a m \<noteq> 0}" by (auto simp: c_get_def)
  then have "card {m. cref (c_get l a) m \<noteq> 0} \<le> card (insert l {m. cref a m \<noteq> 0})" by (intro card_mono) simp_all
  also have "\<dots> \<le> card {m. cref a m \<noteq> 0} + 1" by (simp add: card_insert_if)
  finally have "cref a b \<noteq> 0 \<or> card {m. cref (c_get l a) m \<noteq> 0} < NBUF" using assms(1) by (auto simp: room_def)
  moreover have "cref (c_get l a) b = cref a b" "cheld (c_get l a) = insert l (cheld a)" using assms(4) by (simp_all add: c_get_def)
  ultimately show "free_for (c_get l a) b" using assms unfolding free_for_def room_def by simp
qed

text \<open>The log is in place, its first \<open>n\<close> entries are home blocks, and nobody holds a buffer that the log needs.\<close>

definition log_ready :: "nat \<Rightarrow> cache \<Rightarrow> 'a logst_scheme \<Rightarrow> nat \<Rightarrow> bool" where
  "log_ready p a s n \<longleftrightarrow> cached p a s \<and> log_dev s = 1 \<and> log_area (st_of s) \<and> n < LOGSIZE \<and>
     (\<forall>l. in_log (st_of s) l \<longrightarrow> l \<notin> cheld a \<and> cref a l = 0) \<and> card {m. cref a m \<noteq> 0} < NBUF \<and>
     (\<forall>i<n. small (blk_of s i) \<and> \<not> in_log (st_of s) (blk_of s i) \<and> blk_of s i \<notin> cheld a \<and>
       room (cref a) (log_at (st_of s) i) (blk_of s i))"

lemma log_readyD:
  assumes "log_ready p a s n"
  shows "cached p a s" "log_dev s = 1" "log_area (st_of s)" "n < LOGSIZE" "card {m. cref a m \<noteq> 0} < NBUF"
    "\<And>l. in_log (st_of s) l \<Longrightarrow> l \<notin> cheld a \<and> cref a l = 0"
    "\<And>i. i < n \<Longrightarrow> small (blk_of s i) \<and> \<not> in_log (st_of s) (blk_of s i) \<and> blk_of s i \<notin> cheld a \<and>
       room (cref a) (log_at (st_of s) i) (blk_of s i)"
    "\<And>i. i < n \<Longrightarrow> in_log (st_of s) (log_at (st_of s) i)"
  using assms by (auto simp: log_ready_def)

lemma log_ready_pair:
  assumes "log_ready p a s n" "i < n" "bframe s s'" "cheld a' = cheld a" "\<And>m. cref a' m \<le> cref a m"
    "cref a' (blk_of s i) = cref a (blk_of s i)"
  shows "log_dev s' = 1" "free_for a' (log_at (st_of s') i)" "free_for (c_get (log_at (st_of s') i) a') (blk_of s' i)"
proof -
  note D = log_readyD [OF assms(1)] and F = log_fields [OF assms(3)]
  show "log_dev s' = 1" using D(2) F(2) by simp
  have B: "small (blk_of s i)" "\<not> in_log (st_of s) (blk_of s i)" "blk_of s i \<notin> cheld a"
    "room (cref a) (log_at (st_of s) i) (blk_of s i)" using D(7) [OF assms(2)] by auto
  have L: "in_log (st_of s) (log_at (st_of s) i)" using D(8) [OF assms(2)] .
  then have L': "small (log_at (st_of s) i)" "log_at (st_of s) i \<noteq> blk_of s i" "log_at (st_of s) i \<notin> cheld a"
    using B(2) in_log_small [OF D(3)] D(6) by auto
  have "room (cref a') (log_at (st_of s) i) (blk_of s i)" using room_mono [OF B(4) assms(5,6)] .
  then show "free_for a' (log_at (st_of s') i)" "free_for (c_get (log_at (st_of s') i) a') (blk_of s' i)"
    using free_pair [of a' "log_at (st_of s) i" "blk_of s i"] B L' assms(4) F by simp_all
qed

lemma write_log_loop:
  assumes "log_ready p a s n" "k \<le> n"
  shows "\<exists>s'. foldE write_log_step [0..<k] s = Inr s' \<and> bframe s s' \<and>
    cached p (c_copies (map (\<lambda>i. (log_at (st_of s) i, cview a (blk_of s i))) [0..<k]) (cref a) a) s'"
  using assms(2)
proof (induction k)
  case 0
  then show ?case using log_readyD(1) [OF assms(1)] by (simp add: bframe_def)
next
  case (Suc k)
  let ?ws = "map (\<lambda>i. (log_at (st_of s) i, cview a (blk_of s i))) [0..<k]"
  let ?a = "c_copies ?ws (cref a) a"
  obtain t where t: "foldE write_log_step [0..<k] s = Inr t" "bframe s t" "cached p ?a t" using Suc by auto
  note D = log_readyD [OF assms(1)] and F = log_fields [OF t(2)]
  have k: "k < n" using Suc.prems by simp
  obtain s' where s': "write_log_step k t = Inr s'" "bframe t s'"
      "cached p (c_copies [(log_at (st_of t) k, cview ?a (blk_of t k))] (cref ?a) ?a) s'"
    using write_log_step_cached [OF t(3) log_ready_pair [OF assms(1) k t(2), of ?a]] by auto
  have "log_at (st_of s) i \<noteq> blk_of s k" if "i < k" for i using D(7) [OF k] D(8) [of i] k that by auto
  then have "cview ?a (blk_of s k) = cview a (blk_of s k)" by (simp add: disk_after_map_other)
  then show ?case using t(1) s' F bframe_trans [OF t(2) s'(2)] by (simp add: foldE_append)
qed

text \<open>References after the first \<open>k\<close> blocks were unpinned.\<close>

definition unpinned :: "bool \<Rightarrow> (nat \<Rightarrow> uint) \<Rightarrow> nat \<Rightarrow> (uint \<Rightarrow> nat) \<Rightarrow> uint \<Rightarrow> nat" where
  "unpinned rec B k r m = (if \<not> rec \<and> m \<in> B ` {..<k} then r m - 1 else r m)"

lemma install_loop:
  assumes "log_ready p a s n" "\<not> rec \<longrightarrow> inj_on (blk_of s) {..<n} \<and> (\<forall>i<n. 0 < cref a (blk_of s i))" "k \<le> n"
  shows "\<exists>s'. foldE (install_step rec) [0..<k] s = Inr s' \<and> bframe s s' \<and>
    cached p (c_copies (map (\<lambda>i. (blk_of s i, cview a (log_at (st_of s) i))) [0..<k]) (unpinned rec (blk_of s) k (cref a)) a) s'"
  using assms(3)
proof (induction k)
  case 0
  have "unpinned rec (blk_of s) 0 (cref a) = cref a" by (simp add: unpinned_def fun_eq_iff)
  then show ?case using log_readyD(1) [OF assms(1)] by (simp add: bframe_def)
next
  case (Suc k)
  let ?B = "blk_of s"
  let ?ws = "map (\<lambda>i. (?B i, cview a (log_at (st_of s) i))) [0..<k]"
  let ?a = "c_copies ?ws (unpinned rec ?B k (cref a)) a"
  obtain t where t: "foldE (install_step rec) [0..<k] s = Inr t" "bframe s t" "cached p ?a t" using Suc by auto
  note D = log_readyD [OF assms(1)] and F = log_fields [OF t(2)]
  have k: "k < n" using Suc.prems by simp
  have nw: "?B k \<notin> ?B ` {..<k}" if "\<not> rec"
  proof
    assume "?B k \<in> ?B ` {..<k}"
    then obtain i where "i < k" "?B k = ?B i" by auto
    then show False using that assms(2) k inj_onD [of ?B "{..<n}" k i] by auto
  qed
  then have rk: "unpinned rec ?B k (cref a) (?B k) = cref a (?B k)" by (auto simp: unpinned_def)
  have le: "unpinned rec ?B k (cref a) m \<le> cref a m" for m by (simp add: unpinned_def)
  have "cref ?a (blk_of t k) = cref a (?B k)" using rk F by simp
  then have pin: "\<not> rec \<longrightarrow> 0 < cref ?a (blk_of t k)" using assms(2) k by metis
  have pr: "log_dev t = 1" "free_for ?a (log_at (st_of t) k)" "free_for (c_get (log_at (st_of t) k) ?a) (blk_of t k)"
    using log_ready_pair [OF assms(1) k t(2), of ?a] le rk by simp_all
  obtain s' where s': "install_step rec k t = Inr s'" "bframe t s'"
      "cached p (c_copies [(blk_of t k, cview ?a (log_at (st_of t) k))]
        ((cref ?a)(blk_of t k := cref ?a (blk_of t k) - (if \<not> rec then 1 else 0))) ?a) s'"
    using install_step_cached [OF t(3) pr pin] by auto
  have "?B i \<noteq> log_at (st_of s) k" if "i < k" for i using D(7) [of i] D(8) [OF k] k that by auto
  then have v: "cview ?a (log_at (st_of s) k) = cview a (log_at (st_of s) k)" by (simp add: disk_after_map_other)
  have "(unpinned rec ?B k (cref a))(?B k := unpinned rec ?B k (cref a) (?B k) - (if \<not> rec then 1 else 0)) =
      unpinned rec ?B (Suc k) (cref a)"
    unfolding rk using nw by (auto simp: unpinned_def fun_eq_iff lessThan_Suc)
  then show ?case using t(1) s' F v bframe_trans [OF t(2) s'(2)] by (simp add: foldE_append)
qed

lemma write_head_cached:
  assumes "cached p a s" "log_dev s = 1" "free_for a (st_of s)"
  shows "\<exists>s'. write_head s = Inr s' \<and> bframe s s' \<and>
    cached p (c_copies [(st_of s, head_enc (lh_n s) (lh_block s) (cview a (st_of s)))] (cref a) a) s'"
proof -
  let ?d = "head_enc (lh_n s) (lh_block s) (cview a (st_of s))"
  obtain b s1 s2 s3 where r: "bread 1 (st_of s) s = Inr (b, s1)" "buf_data b s1 = cview a (st_of s)" "bkeep a s s1"
    "bwrite b (set_data b ?d s1) = Inr s2" "brelse b s2 = Inr s3" "bkeep a s s3"
    "cached p (a\<lparr>cview := (cview a)(st_of s := ?d), cwr := cwr a @ [(sector (st_of s), ?d)]\<rparr>) s3"
    using bc.rewrite_block [OF assms(1,3), of ?d] by blast
  note F = log_fields [OF bkeep_bframe [OF r(3)]]
  have "write_head s = Inr s3"
    using r(1,4,5) assms(2) by (simp add: write_head_def Let_def r(2) F(3,4)) (simp add: head_enc_def)
  then show ?thesis using bkeep_bframe [OF r(6)] r(7) by (simp add: c_copies_def)
qed

lemma fold_list_update:
  assumes "k \<le> length bl"
  shows "length (fold (\<lambda>i bl. bl[i := f i]) [0..<k] bl) = length bl \<and> (\<forall>i<k. fold (\<lambda>i bl. bl[i := f i]) [0..<k] bl ! i = f i)"
  using assms by (induction k) (auto simp: less_Suc_eq nth_list_update)

lemma read_head_cached:
  assumes "cached p a s" "log_dev s = 1" "free_for a (st_of s)" "head_n (cview a (st_of s)) \<le> LOGSIZE" "length (lh_block s) = LOGSIZE"
  shows "\<exists>s'. read_head s = Inr s' \<and> cached p a s' \<and> log_start s' = log_start s \<and> log_dev s' = 1 \<and>
    length (lh_block s') = LOGSIZE \<and> nat (lh_n s') = head_n (cview a (st_of s)) \<and>
    (\<forall>i<nat (lh_n s'). blk_of s' i = head_block (cview a (st_of s)) i)"
proof -
  let ?d = "cview a (st_of s)"
  let ?n = "sint (get32 ?d 0)"
  obtain b s1 where 1: "bread 1 (st_of s) s = Inr (b, s1)" "cached p (c_get (st_of s) a) s1" "holder s1 (st_of s) b" "bkeep a s s1"
    using bc.get_law [OF assms(1), of "st_of s"] assms(3) by (auto simp: free_for_def)
  have d: "buf_data b s1 = ?d" using bc.dat_law [OF 1(2,3)] by (simp add: c_get_def)
  note F = log_fields [OF bkeep_bframe [OF 1(4)]]
  let ?bl = "fold (\<lambda>i bl. bl[i := sint (get32 ?d (4 + 4 * i))]) [0..<nat ?n] (lh_block s)"
  let ?s2 = "s1\<lparr>lh_n := ?n, lh_block := ?bl\<rparr>"
  have sm: "small (st_of s)" "st_of s \<notin> cheld a" using assms(3) by (simp_all add: free_for_def)
  have "settled (c_get (st_of s) a) (st_of s)"
    using cached_view [OF assms(1) sm(1)] by (auto simp: settled_def) (auto simp: c_get_def)
  then obtain s3 where 3: "brelse b ?s2 = Inr s3" "cached p (c_rel (st_of s) (c_get (st_of s) a)) s3"
      "bkeep (c_get (st_of s) a) ?s2 s3"
    using bc.put_law [of p "c_get (st_of s) a" ?s2 "st_of s" b] 1(2,3) by (auto simp: c_get_def)
  have a: "c_rel (st_of s) (c_get (st_of s) a) = a" using sm(2) by (simp add: c_defs)
  have n: "\<not> ?n > int LOGSIZE" using assms(4) by (simp add: head_n_def)
  have run: "read_head s = Inr s3"
    using 1(1) 3(1) assms(2) n by (simp add: read_head_def Let_def d F(4))
  note G = log_fields [OF bkeep_bframe [OF 3(3)]]
  have bl: "length ?bl = LOGSIZE" "\<And>i. i < nat ?n \<Longrightarrow> ?bl ! i = sint (get32 ?d (4 + 4 * i))"
    using fold_list_update [of "nat ?n" "lh_block s" "\<lambda>i. sint (get32 ?d (4 + 4 * i))"] n assms(5) by auto
  show ?thesis
    using run 3(2) bl by (intro exI [of _ s3]) (simp add: a G F assms(2) head_n_def head_block_def)
qed

section \<open>Recovery and commit\<close>

lemma log_ready_cong:
  assumes "log_ready p a s n" "bframe s s'" "cached p a' s'" "cref a' = cref a" "cheld a' = cheld a"
  shows "log_ready p a' s' n"
  using assms(1,3) log_fields [OF assms(2)] assms(4,5) unfolding log_ready_def by simp

lemma free_head: "log_ready p a s n \<Longrightarrow> free_for a (st_of s)"
  using log_readyD(3,5,6) [of p a s n] in_log_small [of "st_of s" "st_of s"] by (simp add: free_for_def)

lemma free_for_cong: "cref a' = cref a \<Longrightarrow> cheld a' = cheld a \<Longrightarrow> free_for a' n = free_for a n"
  by (simp add: free_for_def)

lemma recover_run:
  assumes "cached p a s" "log_dev s = 1" "log_area (st_of s)" "cheld a = {}" "cref a = (\<lambda>_. 0)"
    "head_ok (st_of s) (on_disk a (st_of s))" "length (lh_block s) = LOGSIZE"
  shows "\<exists>s'. recover_from_log s = Inr s' \<and> lh_n s' = 0 \<and> log_start s' = log_start s \<and>
    cached p (c_copies (rec_writes (st_of s) (on_disk a)) (\<lambda>_. 0) a) s'"
proof -
  let ?st = "st_of s"
  have view: "cview a m = on_disk a m" if "small m" for m using cached_view [OF assms(1) that] assms(5) by simp
  have st: "small ?st" using in_log_small [OF assms(3)] by simp
  have ff: "free_for a ?st" using st assms(4,5) by (simp add: free_for_def)
  obtain s1 where 1: "read_head s = Inr s1" "cached p a s1" "log_start s1 = log_start s" "log_dev s1 = 1"
    "length (lh_block s1) = LOGSIZE" "nat (lh_n s1) = head_n (on_disk a ?st)"
    "\<And>i. i < nat (lh_n s1) \<Longrightarrow> blk_of s1 i = head_block (on_disk a ?st) i"
    using read_head_cached [OF assms(1,2) ff _ assms(7)] assms(6) by (auto simp: view [OF st] head_ok_def)
  let ?n = "nat (lh_n s1)"
  have rdy: "log_ready p a s1 ?n"
    using 1 assms(3-6) by (simp add: log_ready_def room_def head_ok_def)
  let ?ws = "map (\<lambda>i. (head_block (on_disk a ?st) i, on_disk a (log_at ?st i))) [0..<?n]"
  have ws: "map (\<lambda>i. (blk_of s1 i, cview a (log_at (st_of s1) i))) [0..<?n] = ?ws"
    using 1(3,7) view in_log_small [OF assms(3) log_readyD(8) [OF rdy, unfolded 1(3)]] by auto
  have "\<exists>s2. install_trans True s1 = Inr s2 \<and> bframe s1 s2 \<and> cached p (c_copies ?ws (\<lambda>_. 0) a) s2"
    using install_loop [OF rdy, of True ?n] unfolding ws by (simp add: install_trans_def unpinned_def [abs_def] assms(5))
  then obtain s2 where 2: "install_trans True s1 = Inr s2" "bframe s1 s2" "cached p (c_copies ?ws (\<lambda>_. 0) a) s2" by blast
  note F = log_fields [OF 2(2)]
  let ?s2 = "s2\<lparr>lh_n := 0\<rparr>"
  let ?a = "c_copies ?ws (\<lambda>_. 0) a"
  have "free_for ?a (st_of ?s2)" using ff F(1) 1(3) free_for_cong [of ?a a] assms(5) by simp
  then obtain s3 where 3: "write_head ?s2 = Inr s3" "bframe ?s2 s3"
      "cached p (c_copies [(?st, head_enc 0 (lh_block s2) (cview ?a ?st))] (\<lambda>_. 0) ?a) s3"
    using write_head_cached [of p ?a ?s2] 2(3) F 1(3,4) by auto
  have "head_block (on_disk a ?st) i \<noteq> ?st" if "i < ?n" for i using assms(6) 1(6) that by (auto simp: head_ok_def)
  then have "cview ?a ?st = on_disk a ?st" by (simp add: disk_after_map_other view [OF st])
  then have "cached p (c_copies (rec_writes ?st (on_disk a)) (\<lambda>_. 0) a) s3"
    using 3(3) by (simp add: rec_writes_def 1(6) head_enc_def)
  moreover have "recover_from_log s = Inr s3" using 1(1) 2(1) 3(1) by (simp add: recover_from_log_def)
  ultimately show ?thesis using log_fields [OF 3(2)] F 1(3) by auto
qed

text \<open>The log in memory after a commit: as before, but empty.\<close>

definition log_same :: "'a logst_scheme \<Rightarrow> 'a logst_scheme \<Rightarrow> bool" where
  "log_same s s' \<longleftrightarrow> lh_n s' = 0 \<and> log_start s' = log_start s \<and> log_dev s' = log_dev s \<and> lh_block s' = lh_block s \<and>
     log_size s' = log_size s \<and> outstanding s' = outstanding s \<and> committing s' = committing s"

lemma commit_run:
  fixes s :: "'a logst_scheme"
  defines "B \<equiv> blk_of s" and "st \<equiv> st_of s"
  assumes "log_ready p a s n" "lh_n s = int n" "0 < n" "inj_on B {..<n}" "\<forall>i<n. 0 < cref a (B i)"
    and h: "h = head_enc (int n) (lh_block s) (cview a st)" "h0 = head_enc 0 (lh_block s) h"
  shows "\<exists>s'. commit s = Inr s' \<and> log_same s s' \<and>
    cached p (c_copies (commit_writes st n B (cview a) h h0) (unpinned False B n (cref a)) a) s'"
proof -
  note D = log_readyD [OF assms(3)]
  let ?V = "cview a"
  let ?L = "map (\<lambda>i. (log_at st i, ?V (B i))) [0..<n]" and ?H = "map (\<lambda>i. (B i, ?V (B i))) [0..<n]"
  obtain s1 where 1: "write_log s = Inr s1" "bframe s s1" "cached p (c_copies ?L (cref a) a) s1"
    using write_log_loop [OF assms(3) order_refl] assms(4) by (auto simp: write_log_def st_def B_def)
  note F1 = log_fields [OF 1(2)]
  have r1: "log_ready p (c_copies ?L (cref a) a) s1 n" using log_ready_cong [OF assms(3) 1(2,3)] by simp
  have v1: "disk_after ?V ?L st = ?V st" using D(3,4) by (intro disk_after_map_other) (auto simp: st_def)
  obtain s2 where 2: "write_head s1 = Inr s2" "bframe s1 s2" "cached p (c_copies (?L @ [(st, h)]) (cref a) a) s2"
    using write_head_cached [OF 1(3) log_readyD(2) [OF r1] free_head [OF r1]] F1 v1 assms(4) by (auto simp: st_def h(1))
  have f2: "bframe s s2" using bframe_trans [OF 1(2) 2(2)] .
  note F2 = log_fields [OF f2]
  let ?a2 = "c_copies (?L @ [(st, h)]) (cref a) a"
  have r2: "log_ready p ?a2 s2 n" using log_ready_cong [OF assms(3) f2 2(3)] by simp
  have v2: "cview ?a2 (log_at st i) = ?V (B i)" if "i < n" for i
  proof -
    have "disk_after ?V ?L (log_at st i) = ?V (B i)"
      using that D(3,4) by (intro disk_after_map_at) (auto simp: log_at_inj st_def)
    then show ?thesis using that D(3,4) by (simp add: st_def)
  qed
  have ws: "map (\<lambda>i. (blk_of s2 i, cview ?a2 (log_at (st_of s2) i))) [0..<n] = ?H" using v2 F2 by (simp add: B_def st_def)
  have B2: "blk_of s2 = B" by (simp add: B_def F2 fun_eq_iff)
  have pin: "\<forall>i<n. 0 < cref ?a2 (blk_of s2 i)" using assms(7) by (simp add: B_def F2)
  obtain s3 where 3: "install_trans False s2 = Inr s3" "bframe s2 s3"
      "cached p (c_copies (?L @ [(st, h)] @ ?H) (unpinned False B n (cref a)) a) s3"
    using install_loop [OF r2, of False n] assms(4,6) pin F2(3) unfolding ws B2 by (auto simp: install_trans_def)
  have f3: "bframe s s3" using bframe_trans [OF f2 3(2)] .
  note F3 = log_fields [OF f3]
  let ?a3 = "c_copies (?L @ [(st, h)] @ ?H) (unpinned False B n (cref a)) a"
  let ?s3 = "s3\<lparr>lh_n := 0\<rparr>"
  have Bst: "B i \<noteq> st" if "i < n" for i using D(7) [OF that] by (auto simp: B_def st_def)
  have v3: "cview ?a3 st = h" using Bst by (simp add: disk_after_map_other)
  have "card {m. cref ?a3 m \<noteq> 0} \<le> card {m. cref a m \<noteq> 0}" by (rule card_mono) (auto simp: unpinned_def split: if_splits)
  then have ff: "free_for ?a3 (st_of ?s3)"
    using free_head [OF assms(3)] D(5) F3(1) Bst by (auto simp: free_for_def unpinned_def st_def)
  obtain s4 where 4: "write_head ?s3 = Inr s4" "bframe ?s3 s4" "cached p (c_copies [(st, h0)] (cref ?a3) ?a3) s4"
    using write_head_cached [OF _ _ ff] 3(3) F3 D(2) v3 by (auto simp: h(2) st_def)
  have "commit s = Inr s4" using 1(1) 2(1) 3(1) 4(1) assms(4,5) by (simp add: commit_def)
  then show ?thesis using 4(3) log_fields [OF 4(2)] F3 by (auto simp: commit_writes_def log_same_def)
qed

section \<open>Crashes\<close>

definition disk_of :: "'a vdiskst_scheme \<Rightarrow> disk" where
  "disk_of s m = disk_block (vq s) (sector m)"

text \<open>The disk after \<open>k\<close> of the writes that lead from \<open>s\<close> to \<open>s'\<close>.\<close>

definition crash_disk :: "'a vdiskst_scheme \<Rightarrow> 'a vdiskst_scheme \<Rightarrow> nat \<Rightarrow> disk" where
  "crash_disk s s' k m = last_write (dimage (vq s')) (take (length (dwrites (vq s)) + k) (dwrites (vq s'))) (sector m)"

text \<open>A machine that has just started: nothing is cached, and the log is found on device 1.\<close>

definition booted :: "nat \<Rightarrow> 'a logst_scheme \<Rightarrow> bool" where
  "booted p s \<longleftrightarrow> (\<exists>a. cached p a s \<and> cheld a = {} \<and> cref a = (\<lambda>_. 0)) \<and> log_dev s = 1 \<and> log_area (st_of s) \<and>
     length (lh_block s) = LOGSIZE"

lemma cached_disk: "cached p a s \<Longrightarrow> on_disk a = disk_of s"
  unfolding cached_def using cached0D(5,6) [of p a s]
  by (auto simp: disk_of_def on_disk_block sector_def fun_eq_iff)

lemma cached_dwrites: "cached p a s \<Longrightarrow> dwrites (vq s) = cwr a \<and> dimage (vq s) = cimg a"
  unfolding cached_def using cached0D(5,6) [of p a s] by auto

lemma crash_disk_copies:
  assumes "cached p a s" "cached p (c_copies ws r a) s'" "\<forall>w\<in>set ws. small (fst w)" "small m"
  shows "crash_disk s s' k m = disk_after (disk_of s) (take k ws) m"
proof -
  let ?b = "a\<lparr>cwr := cwr a @ secs (take k ws)\<rparr>"
  have "crash_disk s s' k m = on_disk ?b m"
    using cached_dwrites [OF assms(1)] cached_dwrites [OF assms(2)] by (simp add: crash_disk_def on_disk_def secs_def take_map)
  also have "\<dots> = disk_after (on_disk a) (take k ws) m"
    using assms(3,4) by (intro on_disk_secs) (auto dest: in_set_takeD)
  finally show ?thesis using cached_disk [OF assms(1)] by simp
qed

lemma disk_of_copies:
  assumes "cached p a s" "cached p (c_copies ws r a) s'" "\<forall>w\<in>set ws. small (fst w)" "small m"
  shows "disk_of s' m = disk_after (disk_of s) ws m"
  using on_disk_secs [OF assms(3,4), of "c_copies ws r a" a] cached_disk [OF assms(1)] cached_disk [OF assms(2)] by simp

lemma log_view_cong:
  assumes "log_area st" "head_n (D st) < LOGSIZE" "\<And>m. small m \<Longrightarrow> D' m = D m" "small m"
  shows "log_view st D' m = log_view st D m"
proof -
  have s: "D' st = D st" "D' m = D m" using assms(3,4) in_log_small [OF assms(1)] by simp_all
  have l: "D' (log_at st i) = D (log_at st i)" if "i < head_n (D st)" for i
    using that assms(2) by (intro assms(3) in_log_small [OF assms(1)] log_at_in [OF assms(1)]) simp
  show ?thesis
  proof (cases "find (\<lambda>i. head_block (D st) i = m) (rev [0..<head_n (D st)])")
    case None
    then show ?thesis by (simp add: log_view_def s)
  next
    case (Some i)
    then show ?thesis using l find_rev_Some [OF Some] by (simp add: log_view_def s)
  qed
qed

lemma rec_writes_small: "log_area st \<Longrightarrow> head_ok st (D st) \<Longrightarrow> \<forall>w\<in>set (rec_writes st D). small (fst w)"
  using in_log_small [of st st] by (auto simp: rec_writes_def head_ok_def)

text \<open>Recovery on the real disk.\<close>

lemma recover_disk:
  assumes "booted p s" "head_ok (st_of s) (disk_of s (st_of s))" "4 \<le> length (disk_of s (st_of s))"
  shows "\<exists>s'. recover_from_log s = Inr s' \<and>
    (\<forall>m. small m \<and> \<not> in_log (st_of s) m \<longrightarrow> disk_of s' m = log_view (st_of s) (disk_of s) m \<and>
      (\<forall>k. log_view (st_of s) (crash_disk s s' k) m = log_view (st_of s) (disk_of s) m))"
proof -
  let ?st = "st_of s" and ?D = "disk_of s"
  obtain a where a: "cached p a s" "cheld a = {}" "cref a = (\<lambda>_. 0)" and b: "log_dev s = 1" "log_area ?st" "length (lh_block s) = LOGSIZE"
    using assms(1) by (auto simp: booted_def)
  have D: "on_disk a = ?D" using cached_disk [OF a(1)] .
  let ?ws = "rec_writes ?st ?D"
  obtain s' where r: "recover_from_log s = Inr s'" "cached p (c_copies ?ws (\<lambda>_. 0) a) s'"
    using recover_run [OF a(1) b(1,2) a(2,3) _ b(3)] assms(2) by (auto simp: D)
  have sm: "\<forall>w\<in>set ?ws. small (fst w)" using rec_writes_small [where D = ?D and st = ?st, OF b(2) assms(2)] .
  have hn: "head_n (disk_after ?D (take k ?ws) ?st) < LOGSIZE" for k
  proof (cases "k \<le> head_n (?D ?st)")
    case True
    then have "disk_after ?D (take k ?ws) ?st = ?D ?st"
      using log_view_installing(1) [where D = ?D and st = ?st and k = k, OF b(2) assms(2) True refl] by (simp add: rec_writes_def take_map)
    then show ?thesis using assms(2) by (simp add: head_ok_def)
  next
    case False
    then show ?thesis using assms(3) by (simp add: rec_writes_def put32_head)
  qed
  have "disk_of s' m = log_view ?st ?D m \<and> (\<forall>k. log_view ?st (crash_disk s s' k) m = log_view ?st ?D m)"
    if m: "small m" "\<not> in_log ?st m" for m
  proof (intro conjI allI)
    have "m \<noteq> ?st" using m(2) by auto
    then show "disk_of s' m = log_view ?st ?D m"
      unfolding disk_of_copies [OF a(1) r(2) sm m(1)] by (simp add: rec_writes_def disk_after_map log_view_def)
    fix k
    have "log_view ?st (crash_disk s s' k) m = log_view ?st (disk_after ?D (take k ?ws)) m"
      using crash_disk_copies [OF a(1) r(2) sm]
      by (intro log_view_cong [where D = "disk_after ?D (take k ?ws)" and st = ?st, OF b(2) hn _ m(1)])
    then show "log_view ?st (crash_disk s s' k) m = log_view ?st ?D m"
      using log_view_recovering [where D = ?D and st = ?st, OF b(2) assms(2,3) m(2)] by simp
  qed
  then show ?thesis using r(1) by blast
qed

text \<open>A transaction that is ready to be committed: its blocks are pinned and distinct, and the log on the disk is empty.\<close>

definition committable :: "nat \<Rightarrow> cache \<Rightarrow> 'a logst_scheme \<Rightarrow> nat \<Rightarrow> bool" where
  "committable p a s n \<longleftrightarrow> log_ready p a s n \<and> lh_n s = int n \<and> 0 < n \<and> inj_on (blk_of s) {..<n} \<and>
     (\<forall>i<n. 0 < cref a (blk_of s i)) \<and> head_n (disk_of s (st_of s)) = 0 \<and> length (disk_of s (st_of s)) = BSIZE"

text \<open>The blocks after the transaction.\<close>

definition new_disk :: "cache \<Rightarrow> 'a logst_scheme \<Rightarrow> nat \<Rightarrow> disk" where
  "new_disk a s n m = (if m \<in> blk_of s ` {..<n} then cview a m else disk_of s m)"

lemma commit_disk:
  fixes s :: "'a logst_scheme"
  assumes "committable p a s n"
  shows "\<exists>s' a'. commit s = Inr s' \<and> log_same s s' \<and> cached p a' s' \<and> cheld a' = cheld a \<and>
    cref a' = unpinned False (blk_of s) n (cref a) \<and> (\<forall>m. \<not> in_log (st_of s) m \<longrightarrow> cview a' m = cview a m) \<and>
    head_n (disk_of s' (st_of s)) = 0 \<and> length (disk_of s' (st_of s)) = BSIZE \<and> (\<forall>k. head_ok (st_of s) (crash_disk s s' k (st_of s)) \<and>
      4 \<le> length (crash_disk s s' k (st_of s))) \<and>
    (\<forall>m. small m \<and> \<not> in_log (st_of s) m \<longrightarrow> disk_of s' m = new_disk a s n m \<and>
      (\<forall>k. log_view (st_of s) (crash_disk s s' k) m = (if k \<le> n then disk_of s m else new_disk a s n m)))"
proof -
  let ?st = "st_of s" and ?D = "disk_of s" and ?B = "blk_of s"
  have c: "log_ready p a s n" "lh_n s = int n" "0 < n" "inj_on ?B {..<n}" "\<forall>i<n. 0 < cref a (?B i)" "head_n (?D ?st) = 0"
    "length (?D ?st) = BSIZE" using assms by (simp_all add: committable_def)
  note R = log_readyD [OF c(1)]
  have st: "small ?st" using in_log_small [OF R(3)] by simp
  have v: "cview a ?st = ?D ?st" using cached_view [OF R(1) st] R(6) [of ?st] cached_disk [OF R(1)] by simp
  let ?h = "head_enc (int n) (lh_block s) (cview a ?st)"
  let ?hz = "head_enc 0 (lh_block s) ?h"
  have h: "length ?h = BSIZE" "head_n ?h = n" "\<And>i. i < n \<Longrightarrow> head_block ?h i = ?B i"
    using head_enc [where d = "cview a ?st" and n = "int n" and bl = "lh_block s"] c(7) v R(4) by simp_all
  have h0: "length ?hz = BSIZE" "head_n ?hz = 0" using head_enc [where n = 0 and bl = "lh_block s", OF h(1)] by simp_all
  let ?ws = "commit_writes ?st n ?B (cview a) ?h ?hz"
  obtain s' where r: "commit s = Inr s'" "log_same s s'" "cached p (c_copies ?ws (unpinned False ?B n (cref a)) a) s'"
    using commit_run [OF c(1-5) refl refl] by auto
  have Bh: "small (?B i)" "\<not> in_log ?st (?B i)" if "i < n" for i using R(7) [OF that] by auto
  have sm: "\<forall>w\<in>set ?ws. small (fst w)"
    using Bh st in_log_small [OF R(3) R(8)] by (auto simp: commit_writes_def)
  note crash = crash_disk_copies [OF R(1) r(3) sm]
  have lst: "disk_after E (map (\<lambda>i. (log_at ?st i, V i)) [0..<j]) ?st = E ?st" if "j \<le> n" for E V j
    using that R(3,4) by (intro disk_after_map_other) auto
  have hst: "disk_after E (map (\<lambda>i. (?B i, V i)) [0..<j]) ?st = E ?st" if "j \<le> n" for E V j
    using that Bh(2) by (intro disk_after_map_other) (metis log_start_in order_less_le_trans)
  have head: "disk_after ?D (take k ?ws) ?st \<in> {?D ?st, ?h, ?hz}" for k
  proof -
    have "k \<le> n \<or> (\<exists>j. k = n + 1 + j \<and> j \<le> n) \<or> 2 * n + 2 \<le> k" by presburger
    then consider "k \<le> n" | j where "k = n + 1 + j" "j \<le> n" | "2 * n + 2 \<le> k" by blast
    then show ?thesis by cases (simp_all add: commit_writes_def take_map lst hst)
  qed
  have ok: "head_ok ?st d \<and> 4 \<le> length d" if "d \<in> {?D ?st, ?h, ?hz}" for d
    using that h h0 c(6,7) Bh R(4) by (auto simp: head_ok_def)
  have hd: "head_ok ?st (crash_disk s s' k ?st) \<and> 4 \<le> length (crash_disk s s' k ?st)" for k
    using ok [OF head] crash [OF st] by simp
  have "disk_of s' m = new_disk a s n m \<and>
      (\<forall>k. log_view ?st (crash_disk s s' k) m = (if k \<le> n then ?D m else new_disk a s n m))"
    if m: "small m" "\<not> in_log ?st m" for m
  proof -
    note lv = log_view_commit [where D = ?D and st = ?st and V = "cview a", OF R(3) c(6) h(2,3) h0(2) R(4) Bh(2) m(2)]
    have "log_view ?st (crash_disk s s' k) m = (if k \<le> n then ?D m else new_disk a s n m)" for k
    proof -
      have "head_n (disk_after ?D (take k ?ws) ?st) < LOGSIZE" using ok [OF head [of k]] by (simp add: head_ok_def)
      then have "log_view ?st (crash_disk s s' k) m = log_view ?st (disk_after ?D (take k ?ws)) m"
        using crash by (intro log_view_cong [where D = "disk_after ?D (take k ?ws)" and st = ?st, OF R(3) _ _ m(1)])
      then show ?thesis using lv [of k] by (simp add: new_disk_def)
    qed
    moreover have "disk_of s' m = new_disk a s n m"
    proof -
      have e: "disk_after ?D ?ws ?st = ?hz" by (simp add: commit_writes_def)
      have "disk_of s' m = disk_after ?D ?ws m" using disk_of_copies [OF R(1) r(3) sm m(1)] .
      also have "\<dots> = log_view ?st (disk_after ?D ?ws) m"
        using log_view_empty [of "disk_after ?D ?ws" ?st] e h0(2) by simp
      also have "\<dots> = new_disk a s n m" using lv [of "2 * n + 2"] by (simp add: new_disk_def)
      finally show ?thesis .
    qed
    ultimately show ?thesis by blast
  qed
  moreover have "disk_after (cview a) ?ws m = cview a m" if "\<not> in_log ?st m" for m
  proof -
    have m: "m \<noteq> ?st" "\<And>i. i < n \<Longrightarrow> log_at ?st i \<noteq> m" using that R(8) by auto
    have "disk_after E (map (\<lambda>i. (?B i, cview a (?B i))) [0..<n]) m = cview a m" if "E m = cview a m" for E
      using that find_rev_Some by (fastforce simp: disk_after_map split: option.split)
    moreover have "disk_after (cview a) (map (\<lambda>i. (log_at ?st i, cview a (?B i))) [0..<n]) m = cview a m"
      using m(2) by (intro disk_after_map_other) auto
    ultimately show ?thesis using m(1) by (simp add: commit_writes_def)
  qed
  moreover have "disk_of s' ?st = ?hz" using disk_of_copies [OF R(1) r(3) sm st] by (simp add: commit_writes_def)
  ultimately show ?thesis
    using r hd h0 by (intro exI [of _ s'] exI [of _ "c_copies ?ws (unpinned False ?B n (cref a)) a"]) simp
qed

text \<open>
  C7: recovery installs the log, and a crash during recovery does no harm. On a machine that has just started,
  with a log header on the disk whose entries are home blocks, \<^verbatim>\<open>recover_from_log\<close> returns and leaves in every home
  block what the log says. If the machine stops after any number of the disk writes of the recovery, the
  log still says the same, so that the next recovery reaches the same disk.
\<close>

theorem log_recovery:
  assumes "booted p s" "head_ok (st_of s) (disk_of s (st_of s))" "4 \<le> length (disk_of s (st_of s))"
  shows "\<exists>s'. recover_from_log s = Inr s' \<and>
    (\<forall>m. small m \<and> \<not> in_log (st_of s) m \<longrightarrow> disk_of s' m = log_view (st_of s) (disk_of s) m \<and>
      (\<forall>k. log_view (st_of s) (crash_disk s s' k) m = log_view (st_of s) (disk_of s) m))"
  by (rule recover_disk [OF assms])

text \<open>
  C1: a commit is atomic. \<^verbatim>\<open>commit\<close> of a transaction of \<open>n\<close> distinct home blocks returns with an empty log and the
  new contents of those blocks on the disk. If the machine stops after \<open>k\<close> of its disk writes and starts again
  with the disk of that moment, \<^verbatim>\<open>recover_from_log\<close> leaves every home block as it was before the
  transaction if \<open>k \<le> n\<close> (the header was not yet written), and otherwise every home block as the transaction made it: never a mixture.
\<close>

theorem commit_crash_atomic:
  fixes s :: "'a logst_scheme"
  assumes "committable p a s n"
  shows "\<exists>s'. commit s = Inr s' \<and> lh_n s' = 0 \<and>
    (\<forall>m. small m \<and> \<not> in_log (st_of s) m \<longrightarrow> disk_of s' m = new_disk a s n m) \<and>
    (\<forall>k q (t :: 'a logst_scheme). booted q t \<and> log_start t = log_start s \<and> (\<forall>m. small m \<longrightarrow> disk_of t m = crash_disk s s' k m) \<longrightarrow>
      (\<exists>t'. recover_from_log t = Inr t' \<and>
        (\<forall>m. small m \<and> \<not> in_log (st_of s) m \<longrightarrow> disk_of t' m = (if k \<le> n then disk_of s m else new_disk a s n m))))"
proof -
  let ?st = "st_of s"
  obtain s' where c: "commit s = Inr s'" "lh_n s' = 0"
    "\<And>k. head_ok ?st (crash_disk s s' k ?st) \<and> 4 \<le> length (crash_disk s s' k ?st)"
    "\<And>m. small m \<Longrightarrow> \<not> in_log ?st m \<Longrightarrow> disk_of s' m = new_disk a s n m"
    "\<And>m k. small m \<Longrightarrow> \<not> in_log ?st m \<Longrightarrow>
      log_view ?st (crash_disk s s' k) m = (if k \<le> n then disk_of s m else new_disk a s n m)"
    using commit_disk [OF assms] by (fastforce simp: log_same_def)
  have ar: "log_area ?st" using assms log_readyD(3) by (auto simp: committable_def)
  have "\<exists>t'. recover_from_log t = Inr t' \<and>
      (\<forall>m. small m \<and> \<not> in_log ?st m \<longrightarrow> disk_of t' m = (if k \<le> n then disk_of s m else new_disk a s n m))"
    if t: "booted q t" "log_start t = log_start s" "\<And>m. small m \<Longrightarrow> disk_of t m = crash_disk s s' k m" for k q and t :: "'a logst_scheme"
  proof -
    have st: "disk_of t ?st = crash_disk s s' k ?st" using t(3) in_log_small [OF ar] by simp
    have "head_ok (st_of t) (disk_of t (st_of t))" "4 \<le> length (disk_of t (st_of t))" using c(3) [of k] st t(2) by simp_all
    from recover_disk [OF t(1) this] obtain t' where r: "recover_from_log t = Inr t'"
      "\<And>m. small m \<Longrightarrow> \<not> in_log ?st m \<Longrightarrow> disk_of t' m = log_view ?st (disk_of t) m" unfolding t(2) by blast
    have hn: "head_n (crash_disk s s' k ?st) < LOGSIZE" using c(3) [of k] by (simp add: head_ok_def)
    have "disk_of t' m = (if k \<le> n then disk_of s m else new_disk a s n m)" if m: "small m" "\<not> in_log ?st m" for m
      using r(2) [OF m] c(5) [OF m, of k] log_view_cong [where D = "crash_disk s s' k" and st = ?st, OF ar hn t(3) m(1)] by simp
    then show ?thesis using r(1) by blast
  qed
  then show ?thesis using c(1,2,4) by blast
qed

section \<open>Two machines\<close>

text \<open>A machine with an image and no buffer in use; one with a changed block 100 pinned in buffer 0.\<close>

definition boot_st :: "(uint64 \<Rightarrow> byte list) \<Rightarrow> logst" where
  "boot_st im = vdiskst.extend (vdisk_st0\<lparr>vq := (vq vdisk_st0)\<lparr>dimage := im\<rparr>\<rparr>)
     (logst.fields 2 30 0 False 1 0 (replicate LOGSIZE 0))"

definition dirty_st :: logst where
  "dirty_st = (boot_st (\<lambda>_. replicate BSIZE 0))
     \<lparr>bufs := (\<lambda>b. if b = 0 then \<lparr>bvalid = True, bdisk = False, bdev = 1, blockno = 100, refcnt = 1\<rparr>
        else \<lparr>bvalid = False, bdisk = False, bdev = 0, blockno = 0, refcnt = 0\<rparr>),
      vq := (vq vdisk_st0)\<lparr>bdata := (\<lambda>b. replicate BSIZE (if b = 0 then 7 else 0))\<rparr>,
      lh_n := 1, lh_block := 100 # replicate 29 0\<rparr>"

lemma boot_st_fields [simp]:
  "lks (boot_st im) = set_cproc (Some 1) lks0" "slocks (boot_st im) = (\<lambda>_. \<lparr>slocked = False, slname = [], slpid = 0\<rparr>)"
  "bufs (boot_st im) = (\<lambda>_. \<lparr>bvalid = False, bdisk = False, bdev = 0, blockno = 0, refcnt = 0\<rparr>)" "lru (boot_st im) = [0..<NBUF]"
  "vq (boot_st im) = (vq vdisk_st0)\<lparr>dimage := im\<rparr>" "log_start (boot_st im) = 2" "log_dev (boot_st im) = 1"
  "lh_n (boot_st im) = 0" "lh_block (boot_st im) = replicate LOGSIZE 0" "vfree (boot_st im) = vfree vdisk_st0"
  "vused_idx (boot_st im) = vused_idx vdisk_st0" "vdev (boot_st im) = vdev vdisk_st0"
  by (simp_all add: boot_st_def vdiskst.defs logst.defs)

lemma boot_idle: "disk_idle (boot_st im)"
  using vdisk_st0_idle by (simp add: disk_idle_def quiet_def)

lemma boot_cached: "cached 1 (cache0\<lparr>cview := (\<lambda>m. im (sector m)), cimg := im\<rparr>) (boot_st im)"
proof -
  have "\<not> holder (boot_st im) n b" for n b by (simp add: holder_def)
  then show ?thesis unfolding cached_def cached0_def
    by (simp add: boot_idle cache0_def on_disk_def last_write_def atLeast_upt)
qed

lemma booted_boot: "booted 1 (boot_st im)"
  unfolding booted_def using boot_cached [of im]
  by (auto intro!: exI [of _ "cache0\<lparr>cview := (\<lambda>m. im (sector m)), cimg := im\<rparr>"] simp: cache0_def log_area_def)

lemma disk_of_boot [simp]: "disk_of (boot_st im) m = im (sector m)"
  by (simp add: disk_of_def disk_block_def)

definition dirty_cache :: cache where
  "dirty_cache = cache0\<lparr>cview := (\<lambda>m. replicate BSIZE (if m = 100 then 7 else 0)), cref := (\<lambda>m. if m = 100 then 1 else 0)\<rparr>"

lemma dirty_cached: "cached 1 dirty_cache dirty_st"
proof -
  have h: "holder dirty_st n b \<longleftrightarrow> n = 100 \<and> b = 0" for n b by (auto simp: holder_def dirty_st_def)
  have "disk_idle dirty_st" using vdisk_st0_idle by (simp add: disk_idle_def quiet_def dirty_st_def)
  then show ?thesis unfolding cached_def cached0_def
    by (simp add: h buf_ok_def dirty_cache_def cache0_def on_disk_def last_write_def atLeast_upt small_def)
      (simp add: dirty_st_def atLeast_upt)
qed

theorem log_recovery_witness:
  "\<exists>s'. recover_from_log (boot_st ((\<lambda>_. replicate BSIZE 0)(4 := head_enc 1 [100] (replicate BSIZE 0), 6 := replicate BSIZE 7))) = Inr s' \<and>
    disk_of s' 100 = replicate 1024 7"
proof -
  let ?h = "head_enc 1 [100] (replicate BSIZE 0)"
  define im where "im = (\<lambda>_ :: uint64. replicate BSIZE (0 :: byte))(4 := ?h, 6 := replicate BSIZE 7)"
  have h: "length ?h = 1024" "head_n ?h = 1" "head_block ?h 0 = 100"
    using head_enc [where d = "replicate BSIZE 0" and n = 1 and bl = "[100]"] by simp_all
  have sec: "sector 2 = 4" "sector 3 = 6" "sector 100 = 200" by (simp_all add: sector_def)
  have D: "disk_of (boot_st im) m = im (sector m)" for m by (rule disk_of_boot)
  have im: "im 4 = ?h" "im 6 = replicate 1024 7" by (simp_all add: im_def)
  have ok: "head_ok 2 (disk_of (boot_st im) 2)" "4 \<le> length (disk_of (boot_st im) 2)"
    unfolding D sec im by (simp_all add: h head_ok_def small_def in_log_def)
  have lv: "log_view 2 (disk_of (boot_st im)) 100 = replicate 1024 7"
    unfolding log_view_def D sec im by (simp add: h log_at_def sec im)
  have st: "st_of (boot_st im) = 2" by simp
  obtain s' where "recover_from_log (boot_st im) = Inr s'"
    "\<And>m. small m \<Longrightarrow> \<not> in_log 2 m \<Longrightarrow> disk_of s' m = log_view 2 (disk_of (boot_st im)) m"
    using log_recovery [OF booted_boot, of im] ok unfolding st by blast
  then show ?thesis using lv unfolding im_def [symmetric] by (auto simp: small_def in_log_def)
qed

theorem commit_crash_atomic_witness:
  "\<exists>s'. commit dirty_st = Inr s' \<and> disk_of s' 100 = replicate 1024 7 \<and> lh_n s' = 0"
proof -
  have f: "log_start dirty_st = 2" "lh_block dirty_st = 100 # replicate 29 0" "lh_n dirty_st = 1" "log_dev dirty_st = 1"
    by (simp_all add: dirty_st_def)
  have d: "disk_of dirty_st m = replicate 1024 0" for m by (simp add: disk_of_def disk_block_def dirty_st_def)
  have "card {m. cref dirty_cache m \<noteq> 0} = 1" by (simp add: dirty_cache_def)
  moreover have "cheld dirty_cache = {}" "cref dirty_cache m = (if m = 100 then 1 else 0)" for m
    by (simp_all add: dirty_cache_def cache0_def)
  moreover have "head_n (replicate 1024 0) = 0" by code_simp
  moreover have "log_at 2 0 \<noteq> 100" "inj_on g {..<1}" for g :: "nat \<Rightarrow> uint" by (simp_all add: log_at_def inj_on_def)
  ultimately have "committable 1 dirty_cache dirty_st 1"
    unfolding committable_def log_ready_def using dirty_cached by (auto simp: f d log_area_def in_log_def small_def room_def)
  from commit_crash_atomic [OF this] obtain s' where "commit dirty_st = Inr s'" "lh_n s' = 0"
    "\<And>m. small m \<Longrightarrow> \<not> in_log 2 m \<Longrightarrow> disk_of s' m = new_disk dirty_cache dirty_st 1 m" by (auto simp: f)
  moreover have "new_disk dirty_cache dirty_st 1 100 = replicate 1024 7" by (simp add: new_disk_def f dirty_cache_def)
  ultimately show ?thesis by (auto simp: small_def in_log_def)
qed

end
