(* ===== verification/Trans.thy ===== *)
theory Trans
  imports Crash
begin

unbundle bit_operations_syntax

text \<open>
  Transactions of the log (\<^verbatim>\<open>kernel/log.c\<close>): \<^verbatim>\<open>log_write\<close> records a block, \<^verbatim>\<open>begin_op\<close> and \<^verbatim>\<open>end_op\<close> count the system calls, and the
  last \<^verbatim>\<open>end_op\<close> makes the changes durable.
\<close>

section \<open>The state between \<^verbatim>\<open>begin_op\<close> and \<^verbatim>\<open>end_op\<close>\<close>

definition logged :: "'a logst_scheme \<Rightarrow> uint set" where
  "logged s = blk_of s ` {..<nat (lh_n s)}"

text \<open>
  The invariant: the logged blocks are distinct home blocks, pinned in the cache, the log's own blocks are not
  in use, the log on the disk is empty, and a block that is neither logged nor held is unchanged.
\<close>

definition trans_inv :: "nat \<Rightarrow> cache \<Rightarrow> 'a logst_scheme \<Rightarrow> bool" where
  "trans_inv p a s \<longleftrightarrow> cached p a s \<and> log_dev s = 1 \<and> log_area (st_of s) \<and> log_size s = int LOGSIZE \<and>
     length (lh_block s) = LOGSIZE \<and> 0 \<le> lh_n s \<and> lh_n s < int LOGSIZE \<and> inj_on (blk_of s) {..<nat (lh_n s)} \<and>
     (\<forall>m\<in>logged s. small m \<and> \<not> in_log (st_of s) m \<and> 0 < cref a m) \<and>
     (\<forall>l. in_log (st_of s) l \<longrightarrow> l \<notin> cheld a \<and> cref a l = 0) \<and>
     (\<forall>m. small m \<and> m \<notin> logged s \<and> m \<notin> cheld a \<longrightarrow> cview a m = disk_of s m) \<and>
     head_n (disk_of s (st_of s)) = 0 \<and> length (disk_of s (st_of s)) = BSIZE"

lemma cached_settle [simp]: "l = lks s \<Longrightarrow> cached p a (s\<lparr>lks := settle l\<rparr>) = cached p a s"
  by (simp add: cached_def cached0_def holder_def buf_ok_def disk_idle_def quiet_def fun_eq_iff)

lemma cached_procs: "procs_sim (procs s) f \<Longrightarrow> cached p a (s\<lparr>procs := f\<rparr>) = cached p a s"
  by (simp add: cached_def cached0_def holder_def buf_ok_def disk_idle_def quiet_def fun_eq_iff procs_sim_pid)

lemma disk_of_fields [simp]:
  "disk_of (s\<lparr>lks := l\<rparr>) = disk_of s" "disk_of (s\<lparr>bufs := f\<rparr>) = disk_of s" "disk_of (s\<lparr>lh_n := n\<rparr>) = disk_of s"
  "disk_of (s\<lparr>lh_block := bl\<rparr>) = disk_of s" "disk_of (s\<lparr>outstanding := z\<rparr>) = disk_of s"
  "disk_of (s\<lparr>committing := c\<rparr>) = disk_of s" "disk_of (s\<lparr>procs := pr\<rparr>) = disk_of s"
  by (simp_all add: disk_of_def fun_eq_iff)

lemma holder_lks [simp]: "holder (s\<lparr>lks := l\<rparr>) = holder s"
  by (simp add: holder_def fun_eq_iff)

text \<open>The slot that \<^verbatim>\<open>log_write\<close> uses: that of the block if it is logged already.\<close>

definition log_slot :: "'a logst_scheme \<Rightarrow> uint \<Rightarrow> nat" where
  "log_slot s m = (case scan (\<lambda>i. blk_of s i = m) 0 (nat (lh_n s)) of Some i \<Rightarrow> i | None \<Rightarrow> nat (lh_n s))"

lemma log_slot:
  "log_slot s m \<le> nat (lh_n s)" "log_slot s m < nat (lh_n s) \<longleftrightarrow> m \<in> logged s"
  "log_slot s m < nat (lh_n s) \<Longrightarrow> blk_of s (log_slot s m) = m"
proof -
  let ?n = "nat (lh_n s)"
  have "(m \<in> logged s \<longrightarrow> log_slot s m < ?n \<and> blk_of s (log_slot s m) = m) \<and> (m \<notin> logged s \<longrightarrow> log_slot s m = ?n)"
  proof (cases "scan (\<lambda>i. blk_of s i = m) 0 ?n")
    case None
    then show ?thesis using scan_NoneD [OF None] by (auto simp: logged_def log_slot_def)
  next
    case (Some i)
    then show ?thesis using scan_SomeD [OF Some] by (auto simp: logged_def log_slot_def)
  qed
  then show "log_slot s m \<le> ?n" "log_slot s m < ?n \<longleftrightarrow> m \<in> logged s" "log_slot s m < ?n \<Longrightarrow> blk_of s (log_slot s m) = m"
    by (cases "m \<in> logged s"; auto)+
qed

lemma log_write_run:
  fixes s :: "'a logst_scheme"
  defines "m \<equiv> \<lambda>b. blockno (bufs s b)"
  assumes "quiet s" "0 \<le> lh_n s" "lh_n s < int LOGSIZE - 1" "log_size s = int LOGSIZE" "1 \<le> outstanding s"
  shows "log_write b s = Inr (if m b \<in> logged s
      then s\<lparr>lh_block := (lh_block s)[log_slot s (m b) := sint (m b)], lks := settle (lks s)\<rparr>
      else s\<lparr>lh_block := (lh_block s)[nat (lh_n s) := sint (m b)],
             bufs := (bufs s)(b := (bufs s b)\<lparr>refcnt := refcnt (bufs s b) + 1\<rparr>),
             lh_n := lh_n s + 1, lks := settle (lks s)\<rparr>)"
proof -
  have fr: "lock_free L (lks s)" for L using quietD [OF assms(2)] .
  let ?i = "log_slot s (m b)"
  let ?s1 = "s\<lparr>lks := acq LogLock (lks s), lh_block := (lh_block s)[?i := sint (m b)]\<rparr>"
  have pin: "bpin b ?s1 = Inr (?s1\<lparr>bufs := (bufs s)(b := (bufs s b)\<lparr>refcnt := refcnt (bufs s b) + 1\<rparr>)\<rparr>)"
    using fr by (simp add: bpin_def lock_ok upd_buf_def unlock_ok [of _ _ "acq LogLock (lks s)"])
  have i: "int ?i = lh_n s \<longleftrightarrow> m b \<notin> logged s" using log_slot(1,2) [of s "m b"] assms(3) by linarith
  have "log_write b s = bindE (if int ?i = lh_n s then bindE (bpin b ?s1) (\<lambda>s. Inr (s\<lparr>lh_n := lh_n s + 1\<rparr>)) else Inr ?s1) (unlock LogLock)"
    using assms(3-6) fr by (simp add: log_write_def lock_ok Let_def log_slot_def m_def)
  then show ?thesis
    using i pin fr log_slot(2) [of s "m b"] log_slot(1) [of s "m b"]
    by (cases "m b \<in> logged s") (simp_all add: unlock_ok [of _ _ "lks s"])
qed

lemma log_write_inv:
  assumes "trans_inv p a s" "holder s m b" "m \<in> cheld a" "\<not> in_log (st_of s) m" "cref a m < 2 ^ 31"
    "lh_n s < int LOGSIZE - 1" "1 \<le> outstanding s"
  shows "\<exists>s'. log_write b s = Inr s' \<and> trans_inv p (if m \<in> logged s then a else c_pin m a) s' \<and>
    logged s' = insert m (logged s) \<and> lh_n s' = lh_n s + (if m \<in> logged s then 0 else 1) \<and>
    holder s' = holder s \<and> outstanding s' = outstanding s \<and> disk_of s' = disk_of s"
proof -
  have I: "cached p a s" "log_size s = int LOGSIZE" "length (lh_block s) = LOGSIZE" "0 \<le> lh_n s" "lh_n s < int LOGSIZE"
    "inj_on (blk_of s) {..<nat (lh_n s)}" using assms(1) by (simp_all add: trans_inv_def)
  have q: "quiet s" using I(1) cached0D(2) by (auto simp: cached_def)
  have mb: "blockno (bufs s b) = m" "small m" using heldD(2,6) [OF I(1) assms(2,3)] by auto
  note run = log_write_run [OF q I(4) assms(6) I(2) assms(7), of b, unfolded mb]
  show ?thesis
  proof (cases "m \<in> logged s")
    case True
    let ?i = "log_slot s m"
    have i: "?i < nat (lh_n s)" "blk_of s ?i = m" using True log_slot(2,3) [of s m] by auto
    let ?s' = "s\<lparr>lh_block := (lh_block s)[?i := sint m], lks := settle (lks s)\<rparr>"
    have blk: "blk_of ?s' j = blk_of s j" if "j < nat (lh_n s)" for j
      using i that I(3,5) by (cases "j = ?i") simp_all
    then have lg: "logged ?s' = logged s" by (simp add: logged_def)
    have "inj_on (blk_of ?s') {..<nat (lh_n s)} = inj_on (blk_of s) {..<nat (lh_n s)}" using blk by (intro inj_on_cong) auto
    moreover have "cached p a ?s'" using I(1) by simp
    ultimately have "trans_inv p a ?s'" using assms(1) unfolding trans_inv_def lg by simp
    then show ?thesis using run True lg by (auto simp: insert_absorb)
  next
    case False
    let ?q = "(bufs s b)\<lparr>refcnt := refcnt (bufs s b) + 1\<rparr>"
    let ?bl = "(lh_block s)[nat (lh_n s) := sint m]"
    let ?s' = "s\<lparr>lh_block := ?bl, bufs := (bufs s)(b := ?q), lh_n := lh_n s + 1, lks := settle (lks s)\<rparr>"
    have "unat (refcnt (bufs s b)) = cref a m" using heldD(4) [OF I(1) assms(2,3)] by (simp add: buf_ok_def)
    then have "unat (refcnt ?q) = Suc (cref a m)" using assms(5) by (simp add: unat_word_ariths)
    then have c: "cached p (c_pin m a) (s\<lparr>bufs := (bufs s)(b := ?q), lks := settle (lks s)\<rparr>)"
      "holder (s\<lparr>bufs := (bufs s)(b := ?q), lks := settle (lks s)\<rparr>) = holder s"
      using ref_step [OF I(1) assms(2), of ?q "Suc (cref a m)"] by (simp_all add: c_pin_def)
    have s': "?s' = s\<lparr>bufs := (bufs s)(b := ?q), lks := settle (lks s)\<rparr>\<lparr>lh_n := lh_n s + 1\<rparr>\<lparr>lh_block := ?bl\<rparr>" by simp
    have cs: "cached p (c_pin m a) ?s'" "holder ?s' = holder s" unfolding s' using c by simp_all
    have n: "nat (lh_n ?s') = Suc (nat (lh_n s))" using I(4) by simp
    have blk: "blk_of ?s' j = (if j = nat (lh_n s) then m else blk_of s j)" if "j < Suc (nat (lh_n s))" for j
      using that I(3,5) by (auto simp: nth_list_update)
    have lg: "logged ?s' = insert m (logged s)"
      unfolding logged_def n lessThan_Suc using blk by (auto simp: image_iff)
    have inj: "inj_on (blk_of ?s') {..<nat (lh_n ?s')}"
      unfolding n lessThan_Suc using I(6) False blk by (auto simp: inj_on_def logged_def image_iff)
    have "trans_inv p (c_pin m a) ?s'"
      using assms(1,3,4,6) cs(1) inj mb(2) unfolding trans_inv_def lg by (auto simp: c_pin_def)
    then show ?thesis using run False lg cs(2) by auto
  qed
qed

text \<open>Reading a home block inside a transaction.\<close>

lemma trans_get:
  assumes "trans_inv p a s" "free_for a m" "\<not> in_log (st_of s) m"
  shows "\<exists>b s'. bread 1 m s = Inr (b, s') \<and> trans_inv p (c_get m a) s' \<and> holder s' m b \<and> logged s' = logged s \<and> bframe s s'"
proof -
  have c: "cached p a s" using assms(1) by (simp add: trans_inv_def)
  obtain b s' where r: "bread 1 m s = Inr (b, s')" "cached p (c_get m a) s'" "holder s' m b" "bkeep a s s'"
    using bc.get_law [OF c, of m] assms(2) by (auto simp: free_for_def)
  note F = log_fields [OF bkeep_bframe [OF r(4)]]
  have lg: "logged s' = logged s" by (simp add: logged_def F)
  have d: "disk_of s' = disk_of s" using cached_disk [OF c] cached_disk [OF r(2)] by simp
  have "trans_inv p (c_get m a) s'"
    using assms(1,3) r(2) unfolding trans_inv_def lg d F by (auto simp: c_get_def)
  then show ?thesis using r lg bkeep_bframe by blast
qed

section \<open>The end of the last operation\<close>

lemma trans_committable:
  assumes "trans_inv p a s" "cheld a = {}" "card {m. cref a m \<noteq> 0} < NBUF" "\<forall>m. cref a m < 2 ^ 30" "0 < lh_n s"
  shows "committable p a s (nat (lh_n s))"
proof -
  have "blk_of s i \<in> logged s" if "i < nat (lh_n s)" for i using that by (simp add: logged_def)
  then show ?thesis using assms unfolding committable_def log_ready_def trans_inv_def room_def by auto
qed

lemma commit_trans:
  assumes "trans_inv p a s" "cheld a = {}" "card {m. cref a m \<noteq> 0} < NBUF" "\<forall>m. cref a m < 2 ^ 30"
  shows "\<exists>s' a'. commit s = Inr s' \<and> log_same s s' \<and> trans_inv p a' s' \<and> cheld a' = {} \<and>
    (\<forall>m. small m \<and> \<not> in_log (st_of s) m \<longrightarrow> disk_of s' m = cview a m \<and> cview a' m = cview a m)"
proof (cases "0 < lh_n s")
  case False
  then have n: "lh_n s = 0" "logged s = {}" "commit s = Inr s" using assms(1) by (auto simp: trans_inv_def logged_def commit_def)
  have "log_same s s" using n by (simp add: log_same_def)
  moreover have "disk_of s m = cview a m" if "small m" for m using that assms(1,2) n(2) by (simp add: trans_inv_def)
  ultimately show ?thesis using assms(1,2) n(3) by blast
next
  case True
  let ?n = "nat (lh_n s)" and ?st = "st_of s"
  note c = trans_committable [OF assms True]
  obtain s' a' where r: "commit s = Inr s'" "log_same s s'" "cached p a' s'" "cheld a' = {}"
      "cref a' = unpinned False (blk_of s) ?n (cref a)" "\<And>m. \<not> in_log ?st m \<Longrightarrow> cview a' m = cview a m"
      "head_n (disk_of s' ?st) = 0" "length (disk_of s' ?st) = BSIZE"
      "\<And>m. small m \<Longrightarrow> \<not> in_log ?st m \<Longrightarrow> disk_of s' m = new_disk a s ?n m"
    using commit_disk [OF c] assms(2) by metis
  have same: "lh_n s' = 0" "log_start s' = log_start s" "log_dev s' = log_dev s" "lh_block s' = lh_block s"
    "log_size s' = log_size s" "committing s' = committing s" using r(2) by (simp_all add: log_same_def)
  have d: "disk_of s' m = cview a m" if "small m" "\<not> in_log ?st m" for m
    using r(9) [OF that] assms(1,2) that by (auto simp: new_disk_def trans_inv_def logged_def)
  have l0: "cref a' l = 0" if "in_log ?st l" for l using that assms(1) r(5) by (simp add: unpinned_def trans_inv_def)
  have v: "cview a' m = disk_of s' m" if "small m" for m
  proof (cases "in_log ?st m")
    case True
    then show ?thesis using cached_view [OF r(3) that l0] cached_disk [OF r(3)] by simp
  next
    case False
    then show ?thesis using d [OF that] r(6) by simp
  qed
  have "logged s' = {}" by (simp add: logged_def same)
  then have "trans_inv p a' s'"
    using assms(1) r(3,4,7,8) same l0 v unfolding trans_inv_def by simp
  then show ?thesis using r(1,2,4,6) d by blast
qed

lemma end_op_trans:
  assumes "trans_inv p a s" "cheld a = {}" "card {m. cref a m \<noteq> 0} < NBUF" "\<forall>m. cref a m < 2 ^ 30" "outstanding s = 1"
    "\<not> committing s"
  shows "\<exists>s' a'. end_op s = Inr s' \<and> outstanding s' = 0 \<and> \<not> committing s' \<and> lh_n s' = 0 \<and> log_start s' = log_start s \<and> trans_inv p a' s' \<and> cheld a' = {} \<and>
    (\<forall>m. small m \<and> \<not> in_log (st_of s) m \<longrightarrow> disk_of s' m = cview a m \<and> cview a' m = cview a m)"
proof -
  have q: "lock_free L (lks s)" for L using assms(1) cached0D(2) quietD by (fastforce simp: trans_inv_def cached_def)
  let ?s1 = "s\<lparr>outstanding := 0, committing := True, lks := settle (lks s)\<rparr>"
  have "logged ?s1 = logged s" by (simp add: logged_def)
  then have "trans_inv p a ?s1" using assms(1) unfolding trans_inv_def by simp
  from commit_trans [OF this assms(2-4)] obtain s2 a' where c: "commit ?s1 = Inr s2" "log_same ?s1 s2" "trans_inv p a' s2" "cheld a' = {}"
    "\<And>m. small m \<Longrightarrow> \<not> in_log (st_of s) m \<Longrightarrow> disk_of s2 m = cview a m \<and> cview a' m = cview a m" by auto
  have q2: "lock_free L (lks s2)" for L using c(3) cached0D(2) quietD by (fastforce simp: trans_inv_def cached_def)
  let ?s3 = "s2\<lparr>lks := acq LogLock (lks s2), committing := False\<rparr>"
  obtain f where f: "procs_sim (procs s2) f" "wakeup ChanLog ?s3 = Inr (?s3\<lparr>procs := f, lks := settle (lks ?s3)\<rparr>)"
    using wakeup_quiet [of ?s3 ChanLog] q2 by auto
  let ?s4 = "s2\<lparr>committing := False, procs := f, lks := settle (lks s2)\<rparr>"
  have "unlock LogLock (s2\<lparr>committing := False, procs := f, lks := acq LogLock (lks s2)\<rparr>) = Inr ?s4"
    using q2 by (simp add: unlock_ok [of _ _ "lks s2"])
  moreover have "unlock LogLock (s\<lparr>lks := acq LogLock (lks s), outstanding := 0, committing := True\<rparr>) = Inr ?s1"
    using q by (simp add: unlock_ok [of _ _ "lks s"])
  ultimately have run: "end_op s = Inr ?s4"
    using c(1) f(2) q q2 assms(5,6) by (simp add: end_op_def lock_ok Let_def)
  have "cached p a' s2" using c(3) by (simp add: trans_inv_def)
  then have ca: "cached p a' ?s4" using cached_procs [of "s2\<lparr>committing := False\<rparr>" f] f(1) by simp
  have "logged ?s4 = logged s2" by (simp add: logged_def)
  then have "trans_inv p a' ?s4" using c(3) ca unfolding trans_inv_def by simp
  then show ?thesis using run c(2,4,5) by (intro exI [of _ ?s4] exI [of _ a']) (simp add: log_same_def)
qed

text \<open>
  C26: \<^verbatim>\<open>log_write\<close> keeps the transaction in order. Inside a transaction with room in the log, \<^verbatim>\<open>log_write\<close> of a held buffer of
  a home block succeeds, adds the block to the logged ones exactly once (a block that is already logged is
  absorbed: no new entry and no second pin), pins its buffer, writes nothing to the disk, and keeps the
  invariant that the logged blocks are distinct, pinned home blocks and that every other block that is not held is unchanged.
\<close>

theorem log_write_absorbs:
  assumes "trans_inv p a s" "holder s m b" "m \<in> cheld a" "\<not> in_log (st_of s) m" "cref a m < 2 ^ 31"
    "lh_n s < int LOGSIZE - 1" "1 \<le> outstanding s"
  shows "\<exists>s'. log_write b s = Inr s' \<and> trans_inv p (if m \<in> logged s then a else c_pin m a) s' \<and>
    logged s' = insert m (logged s) \<and> lh_n s' = lh_n s + (if m \<in> logged s then 0 else 1) \<and> disk_of s' = disk_of s"
  using log_write_inv [OF assms] by blast

text \<open>
  C8: the last \<^verbatim>\<open>end_op\<close> makes a transaction durable. When the only outstanding operation ends, with no buffer held,
  \<^verbatim>\<open>end_op\<close> returns with an empty log and no operation outstanding, and the disk holds in every home block what the
  kernel saw there, changed or not; the invariant holds again for the next transaction.
\<close>

theorem end_op_durable:
  assumes "trans_inv p a s" "cheld a = {}" "card {m. cref a m \<noteq> 0} < NBUF" "\<forall>m. cref a m < 2 ^ 30" "outstanding s = 1"
    "\<not> committing s"
  shows "\<exists>s' a'. end_op s = Inr s' \<and> outstanding s' = 0 \<and> \<not> committing s' \<and> lh_n s' = 0 \<and> trans_inv p a' s' \<and>
    (\<forall>m. small m \<and> \<not> in_log (st_of s) m \<longrightarrow> disk_of s' m = cview a m \<and> cview a' m = cview a m)"
  using end_op_trans [OF assms] by blast

section \<open>Space in the log\<close>

text \<open>
  The operations that are under way, each with the number of blocks that it may still write: \<^verbatim>\<open>begin_op\<close> admits
  one with \<^verbatim>\<open>MAXOPBLOCKS\<close>, each \<^verbatim>\<open>log_write\<close> uses up one. Between these steps the kernel does anything that leaves the log alone.
\<close>

definition log_quota :: "'a logst_scheme \<Rightarrow> int \<times> int \<times> int" where
  "log_quota s = (lh_n s, outstanding s, log_size s)"

inductive log_run :: "'a logst_scheme \<Rightarrow> nat list \<Rightarrow> bool" where
  run_start: "log_quota s = (0, 0, int LOGSIZE) \<Longrightarrow> log_run s []"
| run_begin: "log_run s us \<Longrightarrow> begin_op_try s = Inr (True, s') \<Longrightarrow> log_run s' (10 # us)"
| run_write: "log_run s (us @ Suc u # vs) \<Longrightarrow> log_write b s = Inr s' \<Longrightarrow> log_run s' (us @ u # vs)"
| run_end: "log_run s (us @ u # vs) \<Longrightarrow> us @ vs \<noteq> [] \<Longrightarrow> end_op s = Inr s' \<Longrightarrow> log_run s' (us @ vs)"
| run_last: "log_run s [u] \<Longrightarrow> trans_inv p a s \<Longrightarrow> cheld a = {} \<Longrightarrow> card {m. cref a m \<noteq> 0} < NBUF \<Longrightarrow>
    \<forall>m. cref a m < 2 ^ 30 \<Longrightarrow> \<not> committing s \<Longrightarrow> end_op s = Inr s' \<Longrightarrow> log_run s' []"
| run_other: "log_run s us \<Longrightarrow> log_quota s' = log_quota s \<Longrightarrow> log_run s' us"

lemma foldE_keeps:
  assumes "\<And>x s s'. f x s = Inr s' \<Longrightarrow> g s' = g s"
  shows "foldE f xs s = Inr s' \<Longrightarrow> g s' = g s"
proof (induction xs arbitrary: s)
  case (Cons x xs)
  then obtain s1 where "f x s = Inr s1" "foldE f xs s1 = Inr s'" by auto
  then show ?case using Cons.IH [of s1] assms [of x s s1] by simp
qed simp

lemma on_lks_quota: "on_lks f s = Inr s' \<Longrightarrow> log_quota s' = log_quota s"
  by (auto simp: on_lks_def log_quota_def)

lemma myproc_quota: "myproc s = Inr (q, s') \<Longrightarrow> log_quota s' = log_quota s"
  by (auto simp: myproc_def on_lks_def log_quota_def)

lemma quota_upd [simp]:
  "log_quota (s\<lparr>procs := f\<rparr>) = log_quota s" "log_quota (s\<lparr>bufs := bf\<rparr>) = log_quota s"
  "log_quota (s\<lparr>lh_block := bl\<rparr>) = log_quota s" "log_quota (s\<lparr>committing := c\<rparr>) = log_quota s"
  "log_quota (upd_proc p g s) = log_quota s" "log_quota (upd_buf b h s) = log_quota s"
  by (simp_all add: log_quota_def upd_proc_def upd_buf_def)

lemma wakeup_one_quota: "wakeup_one ch p s = Inr s' \<Longrightarrow> log_quota s' = log_quota s"
  by (auto simp: wakeup_one_def Let_def dest!: on_lks_quota myproc_quota split: if_splits)

lemma wakeup_quota: "wakeup ch s = Inr s' \<Longrightarrow> log_quota s' = log_quota s"
  unfolding wakeup_def by (rule foldE_keeps [of _ log_quota]) (rule wakeup_one_quota)

lemma bpin_quota: "bpin b s = Inr s' \<Longrightarrow> log_quota s' = log_quota s"
  by (auto simp: bpin_def dest!: on_lks_quota)

lemma begin_op_quota:
  "begin_op_try s = Inr (True, s') \<Longrightarrow> log_quota s' = (lh_n s, outstanding s + 1, log_size s) \<and>
     lh_n s + (outstanding s + 1) * MAXOPBLOCKS \<le> int LOGSIZE"
  by (auto simp: begin_op_try_def begin_op_pass_def dest!: on_lks_quota split: if_splits) (auto simp: log_quota_def)

lemma log_write_quota:
  assumes "log_write b s = Inr s'"
  shows "outstanding s' = outstanding s \<and> log_size s' = log_size s \<and> (lh_n s' = lh_n s \<or> lh_n s' = lh_n s + 1)"
proof -
  obtain s1 where "lock LogLock s = Inr s1" and 1: "log_quota s1 = log_quota s" using assms
    by (auto simp: log_write_def dest: on_lks_quota)
  then show ?thesis using assms
    by (auto simp: log_write_def Let_def dest!: on_lks_quota bpin_quota split: if_splits) (auto simp: log_quota_def)
qed

lemma end_op_quota:
  assumes "end_op s = Inr s'" "outstanding s \<noteq> 1"
  shows "log_quota s' = (lh_n s, outstanding s - 1, log_size s)"
  using assms
  by (auto simp: end_op_def Let_def dest!: on_lks_quota wakeup_quota split: if_splits) (auto simp: log_quota_def)

text \<open>
  C27: admission keeps the log within bounds. In every run in which each operation calls \<^verbatim>\<open>begin_op\<close>, at most ten
  times \<^verbatim>\<open>log_write\<close>, and \<^verbatim>\<open>end_op\<close>, the counter \<^verbatim>\<open>outstanding\<close> is the number of operations under way, and the blocks
  logged plus those that these may still log are at most \<^verbatim>\<open>LOGSIZE\<close>: the array \<^verbatim>\<open>log.lh.block\<close> cannot overflow.
\<close>

theorem log_space:
  assumes "log_run s us"
  shows "outstanding s = int (length us) \<and> log_size s = int LOGSIZE \<and> 0 \<le> lh_n s \<and> lh_n s + int (sum_list us) \<le> int LOGSIZE \<and>
    (\<forall>u\<in>set us. u \<le> 10)"
  using assms
proof (induction rule: log_run.induct)
  case (run_begin s us s')
  have "sum_list us \<le> 10 * length us" if "\<forall>u\<in>set us. u \<le> 10" using that by (induction us) auto
  then show ?case using run_begin.IH begin_op_quota [OF run_begin.hyps(2)] by (auto simp: log_quota_def)
next
  case (run_write s us u vs b s')
  then show ?case using log_write_quota [OF run_write.hyps(2)] by auto
next
  case (run_end s us u vs s')
  then have "outstanding s \<noteq> 1" by (cases us; cases vs) auto
  then show ?case using run_end.IH end_op_quota [OF run_end.hyps(3)] by (auto simp: log_quota_def)
next
  case (run_last s u p a s')
  then have o: "outstanding s = 1" "log_size s = int LOGSIZE" by simp_all
  obtain t a' where "end_op s = Inr t" "outstanding t = 0" "lh_n t = 0" "trans_inv p a' t"
    using end_op_trans [OF run_last.hyps(2-5) o(1) run_last.hyps(6)] by blast
  then show ?case using run_last.hyps(7) by (auto simp: trans_inv_def)
qed (auto simp: log_quota_def)

lemma begin_op_admits:
  assumes "quiet s" "\<not> committing s" "lh_n s + (outstanding s + 1) * MAXOPBLOCKS \<le> int LOGSIZE"
  shows "begin_op_try s = Inr (True, s\<lparr>outstanding := outstanding s + 1, lks := settle (lks s)\<rparr>)"
  using assms quietD [OF assms(1)] by (simp add: begin_op_try_def begin_op_pass_def lock_ok unlock_ok [of _ _ "lks s"])

text \<open>
  C28: the bound of \<^verbatim>\<open>begin_op\<close> is one too large. It admits a third operation next to two that may write ten blocks each,
  for thirty blocks, but a log of \<^verbatim>\<open>LOGSIZE\<close> blocks has room for 29 besides its header, and \<^verbatim>\<open>log_write\<close> panics as
  soon as 29 blocks are logged, even for a block that is already in the log.
\<close>

theorem log_admits_too_much:
  assumes "quiet s" "\<not> committing s" "lh_n s = 0" "outstanding s = 2" "log_size s = int LOGSIZE"
  shows "(\<exists>s'. begin_op_try s = Inr (True, s') \<and> lh_n s' + outstanding s' * MAXOPBLOCKS = log_size s') \<and>
    (\<forall>t b. lock_free LogLock (lks t) \<and> lh_n t = 29 \<and> log_size t = int LOGSIZE \<longrightarrow>
      log_write b t = Inl (Panic ''too big a transaction''))"
  using begin_op_admits [OF assms(1,2)] assms(3-5) by (auto simp: log_write_def lock_ok)

section \<open>A concrete transaction\<close>

text \<open>The pinned block 100 of \<^const>\<open>dirty_st\<close>, with one operation under way; the same block held.\<close>

definition open_st :: logst where
  "open_st = dirty_st\<lparr>outstanding := 1\<rparr>"

lemma open_inv: "trans_inv 1 dirty_cache open_st"
proof -
  have f: "log_start open_st = 2" "lh_block open_st = 100 # replicate 29 0" "lh_n open_st = 1" "log_dev open_st = 1"
    by (simp_all add: open_st_def dirty_st_def)
  have ls: "log_size open_st = 30" by (simp add: open_st_def dirty_st_def boot_st_def vdiskst.defs logst.defs)
  have lg: "logged open_st = {100}" by (auto simp: logged_def f)
  have d: "disk_of open_st m = replicate 1024 0" for m by (simp add: disk_of_def disk_block_def dirty_st_def open_st_def)
  have "cached 1 dirty_cache open_st" using dirty_cached by (simp add: open_st_def)
  moreover have "head_n (replicate 1024 0) = 0" by code_simp
  ultimately show ?thesis
    unfolding trans_inv_def lg by (simp add: f ls d log_area_def in_log_def small_def dirty_cache_def cache0_def inj_on_def)
qed

lemma dirty_cache_refs [simp]: "cref dirty_cache m = (if m = 100 then 1 else 0)" "cheld dirty_cache = {}"
  by (simp_all add: dirty_cache_def cache0_def)

lemma open_st_fields [simp]: "log_start open_st = 2" "lh_n open_st = 1" "outstanding open_st = 1" "\<not> committing open_st"
  by (simp_all add: open_st_def dirty_st_def boot_st_def vdiskst.defs logst.defs)

theorem log_write_absorbs_witness:
  "\<exists>b s s'. bread 1 100 open_st = Inr (b, s) \<and> log_write b s = Inr s' \<and> lh_n s' = 1"
proof -
  have "free_for dirty_cache 100" "\<not> in_log (st_of open_st) 100" by (simp_all add: free_for_def small_def in_log_def)
  from trans_get [OF open_inv this] obtain b s where r: "bread 1 100 open_st = Inr (b, s)" "trans_inv 1 (c_get 100 dirty_cache) s"
    "holder s 100 b" "logged s = logged open_st" "bframe open_st s" by blast
  note F = log_fields [OF r(5)]
  have "100 \<in> logged s" unfolding r(4) by (simp add: logged_def) (simp add: open_st_def dirty_st_def)
  moreover have "\<exists>s'. log_write b s = Inr s' \<and> trans_inv 1 (if 100 \<in> logged s then c_get 100 dirty_cache else c_pin 100 (c_get 100 dirty_cache)) s' \<and>
    logged s' = insert 100 (logged s) \<and> lh_n s' = lh_n s + (if 100 \<in> logged s then 0 else 1) \<and> disk_of s' = disk_of s"
    by (rule log_write_absorbs [OF r(2,3)]) (simp_all add: F c_get_def in_log_def)
  ultimately show ?thesis using r(1) F(3) by auto
qed

theorem end_op_durable_witness:
  "\<exists>s'. end_op open_st = Inr s' \<and> lh_n s' = 0 \<and> disk_of s' 100 = replicate 1024 7"
proof -
  have c: "card {m. cref dirty_cache m \<noteq> 0} < NBUF" "\<forall>m. cref dirty_cache m < 2 ^ 30" by (simp_all add: dirty_cache_def)
  then obtain s' where "end_op open_st = Inr s'" "lh_n s' = 0"
    "\<And>m. small m \<Longrightarrow> \<not> in_log 2 m \<Longrightarrow> disk_of s' m = cview dirty_cache m"
    using end_op_durable [OF open_inv dirty_cache_refs(2) c open_st_fields(3,4)] by auto
  then show ?thesis by (auto simp: small_def in_log_def dirty_cache_def)
qed

theorem log_space_witness:
  "\<exists>s'. begin_op_try (boot_st (\<lambda>_. [])) = Inr (True, s') \<and> outstanding s' = 1 \<and> lh_n s' + 10 \<le> 30"
proof -
  let ?s = "boot_st (\<lambda>_. [])"
  have f: "outstanding ?s = 0" "log_size ?s = 30" "\<not> committing ?s" "quiet ?s"
    using boot_idle by (simp_all add: disk_idle_def) (simp_all add: boot_st_def vdiskst.defs logst.defs)
  let ?t = "?s\<lparr>outstanding := 1, lks := settle (lks ?s)\<rparr>"
  have b: "begin_op_try ?s = Inr (True, ?t)" using begin_op_admits [of ?s] f by simp
  have "log_run ?s []" by (rule run_start) (simp add: log_quota_def f)
  then have "log_run ?t [10]" using b by (rule run_begin)
  from log_space [OF this] b show ?thesis by auto
qed

theorem log_admits_too_much_witness:
  "\<exists>s'. begin_op_try ((boot_st (\<lambda>_. []))\<lparr>outstanding := 2\<rparr>) = Inr (True, s') \<and> outstanding s' * 10 = log_size s' - lh_n s'"
proof -
  let ?s = "(boot_st (\<lambda>_. []))\<lparr>outstanding := 2\<rparr>"
  have "quiet (boot_st (\<lambda>_. []))" using boot_idle by (simp add: disk_idle_def)
  then have "quiet ?s" "\<not> committing ?s" "lh_n ?s = 0" "outstanding ?s = 2" "log_size ?s = 30"
    by (simp_all add: quiet_def boot_st_def vdiskst.defs logst.defs)
  then show ?thesis using log_admits_too_much [of ?s] by auto
qed

end
