(* ===== verification/Mkfs.thy ===== *)
theory Mkfs
  imports Fs
begin

text \<open>
  The program that makes the disk image (\<^verbatim>\<open>mkfs/mkfs.c\<close>). The image is the list of its blocks; the host is little-endian, as the
  program needs it to be, since it uses the fields of the superblock without converting them. System calls of the host on the image
  succeed, except that reading past the end of the image gives no bytes.
\<close>

section \<open>State\<close>

datatype mkerr = Die "byte list" | Assert | Usage

record mkst =
  img :: "byte list list"
  freeinode :: uint
  freeblock :: uint
  msb :: superblock

abbreviation (input) FSSIZE :: nat where "FSSIZE \<equiv> 1000"
abbreviation (input) NINODES :: nat where "NINODES \<equiv> 200"
abbreviation (input) MAXFILE :: nat where "MAXFILE \<equiv> 268"

definition nbitmap :: nat where "nbitmap = FSSIZE div (BSIZE * 8) + 1"
definition ninodeblocks :: nat where "ninodeblocks = NINODES div 16 + 1"
definition nmeta :: nat where "nmeta = 2 + LOGSIZE + ninodeblocks + nbitmap"

section \<open>Operations\<close>

definition xshort :: "ushort \<Rightarrow> ushort" where
  "xshort x = le_dec [ucast x, ucast (drop_bit 8 x)]"

definition xint :: "uint \<Rightarrow> uint" where
  "xint x = le_dec [ucast x, ucast (drop_bit 8 x), ucast (drop_bit 16 x), ucast (drop_bit 24 x)]"

definition wsect :: "uint \<Rightarrow> byte list \<Rightarrow> mkst \<Rightarrow> mkst" where
  "wsect sec buf st =
     (let n = unat sec; bs = img st @ replicate (n + 1 - length (img st)) (replicate BSIZE 0) in
      st\<lparr>img := bs[n := buf]\<rparr>)"

definition rsect :: "uint \<Rightarrow> mkst \<Rightarrow> mkerr + byte list" where
  "rsect sec st = (if unat sec < length (img st) then Inr (img st ! unat sec) else Inl (Die (str ''read'')))"

definition winode :: "uint \<Rightarrow> dinode \<Rightarrow> mkst \<Rightarrow> mkerr + mkst" where
  "winode n d st =
     (let bn = IBLOCK n (msb st) in
      bindE (rsect bn st) (\<lambda>buf. Inr (wsect bn (patch (dioff n) (dinode_enc d) buf) st)))"

definition rinode :: "uint \<Rightarrow> mkst \<Rightarrow> mkerr + dinode" where
  "rinode n st =
     (let bn = IBLOCK n (msb st) in
      bindE (rsect bn st) (\<lambda>buf. Inr (dinode_dec (slice (dioff n) 64 buf))))"

definition mk_ialloc :: "ushort \<Rightarrow> mkst \<Rightarrow> mkerr + uint \<times> mkst" where
  "mk_ialloc ty st =
     (let n = freeinode st; st = st\<lparr>freeinode := n + 1\<rparr>;
          din = \<lparr>di_type = xshort ty, di_major = 0, di_minor = 0, di_nlink = xshort 1, di_size = xint 0, di_addrs = replicate 13 0\<rparr>
      in bindE (winode n din st) (\<lambda>st. Inr (n, st)))"

definition mk_balloc :: "int \<Rightarrow> mkst \<Rightarrow> mkerr + mkst" where
  "mk_balloc used st =
     (if \<not> used < int (BSIZE * 8) then Inl Assert
      else Inr (wsect (sb_bmapstart (msb st)) (fold (bm_set True) [0..<nat used] (replicate BSIZE 0)) st))"

text \<open>The address of block \<open>fbn\<close> of a file, allocated when there is none yet.\<close>

definition iappend_block :: "nat \<Rightarrow> dinode \<Rightarrow> mkst \<Rightarrow> mkerr + uint \<times> dinode \<times> mkst" where
  "iappend_block fbn din st =
     (if fbn < NDIRECT then
        let (din, st) =
          (if xint (di_addrs din ! fbn) = 0
           then (din\<lparr>di_addrs := (di_addrs din)[fbn := xint (freeblock st)]\<rparr>, st\<lparr>freeblock := freeblock st + 1\<rparr>)
           else (din, st))
        in Inr (xint (di_addrs din ! fbn), din, st)
      else
        let (din, st) =
          (if xint (di_addrs din ! NDIRECT) = 0
           then (din\<lparr>di_addrs := (di_addrs din)[NDIRECT := xint (freeblock st)]\<rparr>, st\<lparr>freeblock := freeblock st + 1\<rparr>)
           else (din, st))
        in
        bindE (rsect (xint (di_addrs din ! NDIRECT)) st) (\<lambda>indirect.
        let (indirect, st) =
          (if get32 indirect (4 * (fbn - NDIRECT)) = 0
           then let indirect = put32 (4 * (fbn - NDIRECT)) (xint (freeblock st)) indirect in
             (indirect, wsect (xint (di_addrs din ! NDIRECT)) indirect (st\<lparr>freeblock := freeblock st + 1\<rparr>))
           else (indirect, st))
        in Inr (xint (get32 indirect (4 * (fbn - NDIRECT))), din, st)))"

lemma block_end: "off < (off div BSIZE + 1) * BSIZE" for off :: nat
  using mod_less_divisor [of 1024 off] div_mult_mod_eq [of off 1024] by simp

lemma chunk_less: "p \<noteq> [] \<Longrightarrow> fbn = off div BSIZE \<Longrightarrow> n1 = min (length p) ((fbn + 1) * BSIZE - off) \<Longrightarrow> length (drop n1 p) < length p"
  using block_end [of off] by simp

function iappend_loop :: "byte list \<Rightarrow> nat \<Rightarrow> dinode \<Rightarrow> mkst \<Rightarrow> mkerr + nat \<times> dinode \<times> mkst" where
  "iappend_loop p off din st =
     (if p = [] then Inr (off, din, st)
      else
        let fbn = off div BSIZE in
        if \<not> fbn < MAXFILE then Inl Assert
        else
          bindE (iappend_block fbn din st) (\<lambda>(x, din, st).
          let n1 = min (length p) ((fbn + 1) * BSIZE - off) in
          bindE (rsect x st) (\<lambda>buf.
          iappend_loop (drop n1 p) (off + n1) din (wsect x (patch (off - fbn * BSIZE) (take n1 p) buf) st))))"
  by pat_completeness auto
termination
proof (relation "measure (\<lambda>(p, off, din, st). length p)", goal_cases)
  case (2 p off din st fbn r x rd din' st' n1 buf)
  have "length (drop n1 p) < length p" using 2(1,2,7) by (rule chunk_less)
  then show ?case by simp
qed simp

declare iappend_loop.simps [simp del]

definition iappend :: "uint \<Rightarrow> byte list \<Rightarrow> mkst \<Rightarrow> mkerr + mkst" where
  "iappend n xp st =
     bindE (rinode n st) (\<lambda>din.
     bindE (iappend_loop xp (unat (xint (di_size din))) din st) (\<lambda>(off, din, st).
     winode n (din\<lparr>di_size := xint (of_nat off)\<rparr>) st))"

section \<open>The program\<close>

definition sb_enc :: "superblock \<Rightarrow> byte list" where
  "sb_enc b = concat (map (le_enc 4) [sb_magic b, sb_size b, sb_nblocks b, sb_ninodes b, sb_nlog b, sb_logstart b, sb_inodestart b, sb_bmapstart b])"

definition mk_sb :: superblock where
  "mk_sb = \<lparr>sb_magic = 0x10203040, sb_size = xint (of_nat FSSIZE), sb_nblocks = xint (of_nat (FSSIZE - nmeta)), sb_ninodes = xint (of_nat NINODES),
     sb_nlog = xint (of_nat LOGSIZE), sb_logstart = xint 2, sb_inodestart = xint (of_nat (2 + LOGSIZE)),
     sb_bmapstart = xint (of_nat (2 + LOGSIZE + ninodeblocks))\<rparr>"

definition dirent_enc :: "uint \<Rightarrow> byte list \<Rightarrow> byte list" where
  "dirent_enc n name = le_enc 2 (xshort (ucast n)) @ name"

text \<open>\<^verbatim>\<open>strncpy(de.name, shortname, DIRSIZ)\<close> into zeroed memory, for a string of the host.\<close>

definition de_name :: "byte list \<Rightarrow> byte list" where
  "de_name s = take DIRSIZ (s @ replicate DIRSIZ 0)"

definition mk_init :: mkst where
  "mk_init =
     (let st = \<lparr>img = [], freeinode = 1, freeblock = of_nat nmeta, msb = mk_sb\<rparr>;
          st = fold (\<lambda>i. wsect (of_nat i) (replicate BSIZE 0)) [0..<FSSIZE] st
      in wsect 1 (patch 0 (sb_enc mk_sb) (replicate BSIZE 0)) st)"

definition mk_root :: "mkst \<Rightarrow> mkerr + uint \<times> mkst" where
  "mk_root st =
     bindE (mk_ialloc T_DIR st) (\<lambda>(rootino, st).
     if rootino \<noteq> ROOTINO then Inl Assert
     else
       bindE (iappend rootino (dirent_enc rootino (de_name (str ''.''))) st) (\<lambda>st.
       bindE (iappend rootino (dirent_enc rootino (de_name (str ''..''))) st) (\<lambda>st.
       Inr (rootino, st))))"

text \<open>One file of the command line: its name and, when it can be opened, what the reads of it return; no bytes at its end and when a read fails.\<close>

definition short_name :: "byte list \<Rightarrow> byte list" where
  "short_name a = (if take 5 a = str ''user/'' then drop 5 a else a)"

definition mk_file :: "uint \<Rightarrow> byte list \<times> byte list list option \<Rightarrow> mkst \<Rightarrow> mkerr + mkst" where
  "mk_file rootino af st =
     (let shortname = short_name (fst af) in
      if 47 \<in> set shortname then Inl Assert
      else
        case snd af of
          None \<Rightarrow> Inl (Die (fst af))
        | Some reads \<Rightarrow>
            let shortname = (if take 1 shortname = [95] then drop 1 shortname else shortname) in
            bindE (mk_ialloc T_FILE st) (\<lambda>(n, st).
            bindE (iappend rootino (dirent_enc n (de_name shortname)) st) (\<lambda>st.
            foldE (iappend n) (takeWhile (\<lambda>r. r \<noteq> []) reads) st)))"

text \<open>
  The program. The first argument, when it is given, is the name of the image and whether it can be opened; the others are the files.
\<close>

definition mk_main :: "(byte list \<times> bool) option \<Rightarrow> (byte list \<times> byte list list option) list \<Rightarrow> mkerr + mkst" where
  "mk_main fsimg files =
     (case fsimg of
        None \<Rightarrow> Inl Usage
      | Some (name, opened) \<Rightarrow>
          if BSIZE mod 64 \<noteq> 0 then Inl Assert
          else if BSIZE mod 16 \<noteq> 0 then Inl Assert
          else if \<not> opened then Inl (Die name)
          else
            bindE (mk_root mk_init) (\<lambda>(rootino, st).
            bindE (foldE (mk_file rootino) files st) (\<lambda>st.
            bindE (rinode rootino st) (\<lambda>din.
            let off = xint (di_size din); off = (off div of_nat BSIZE + 1) * of_nat BSIZE in
            bindE (winode rootino (din\<lparr>di_size := xint off\<rparr>) st) (\<lambda>st.
            mk_balloc (sint (freeblock st)) st)))))"

section \<open>Basic facts\<close>

lemma xint_id [simp]: "xint x = x"
proof -
  have "[ucast x, ucast (drop_bit 8 x), ucast (drop_bit 16 x), ucast (drop_bit 24 x)] = le_enc 4 x"
    by (simp add: numeral_eq_Suc drop_bit_drop_bit)
  then show ?thesis by (simp add: xint_def)
qed

lemma xshort_id [simp]: "xshort x = x"
proof -
  have "[ucast x, ucast (drop_bit 8 x)] = le_enc 2 x" by (simp add: numeral_eq_Suc)
  then show ?thesis by (simp add: xshort_def)
qed

lemma length_bm_fold: "length (fold (bm_set True) is xs) = length xs"
  by (induction "is" arbitrary: xs) (simp_all add: bm_set_def)

lemma bm_get_set: "i div 8 < length xs \<Longrightarrow> bm_get (bm_set True i xs) j \<longleftrightarrow> j = i \<or> bm_get xs j"
proof -
  assume l: "i div 8 < length xs"
  show ?thesis
  proof (cases "j div 8 = i div 8")
    case True
    have m: "j mod 8 < 8" by simp
    have "j = i \<longleftrightarrow> j mod 8 = i mod 8" using True by (metis div_mult_mod_eq)
    then show ?thesis using l True m by (auto simp: bm_get_def bm_set_def bit_simps)
  next
    case False
    then show ?thesis by (auto simp: bm_get_def bm_set_def)
  qed
qed

lemma bm_get_fold:
  "n \<le> 8 * length xs \<Longrightarrow> bm_get (fold (bm_set True) [0..<n] xs) j \<longleftrightarrow> j < n \<or> bm_get xs j"
proof (induction n)
  case (Suc n)
  then show ?case using bm_get_set [of n "fold (bm_set True) [0..<n] xs" j] by (auto simp: length_bm_fold)
qed simp

end
