(* ===== verification/Mkimg.thy ===== *)
theory Mkimg
  imports Mkfs
begin

text \<open>
  The files of a disk image that \<^verbatim>\<open>mkfs\<close> makes: which blocks belong to which file, what the files contain, and that \<^verbatim>\<open>iappend\<close> appends.
\<close>

section \<open>Files of an image\<close>

text \<open>
  An image is seen as its inodes \<open>D\<close> and its blocks \<open>B\<close>. The blocks of a file have keys: \<open>k < 268\<close> is the block of data \<open>k\<close>, and 268 is
  the indirect block.
\<close>

definition nblk :: "nat \<Rightarrow> nat" where
  "nblk z = (z + 1023) div 1024"

definition dsize :: "dinode \<Rightarrow> nat" where
  "dsize d = unat (di_size d)"

definition blk_addr :: "dinode \<Rightarrow> (nat \<Rightarrow> byte list) \<Rightarrow> nat \<Rightarrow> nat" where
  "blk_addr d B k =
     (if k < 12 then unat (di_addrs d ! k)
      else if k = 268 then unat (di_addrs d ! 12)
      else unat (get32 (B (unat (di_addrs d ! 12))) (4 * (k - 12))))"

definition live :: "dinode \<Rightarrow> nat \<Rightarrow> bool" where
  "live d k \<longleftrightarrow> k < nblk (dsize d) \<or> k = 268 \<and> 12 < nblk (dsize d)"

text \<open>The bytes of a file.\<close>

definition dbytes :: "dinode \<Rightarrow> (nat \<Rightarrow> byte list) \<Rightarrow> byte list" where
  "dbytes d B = map (\<lambda>i. B (blk_addr d B (i div 1024)) ! (i mod 1024)) [0..<dsize d]"

definition dinode_ok :: "(nat \<Rightarrow> byte list) \<Rightarrow> dinode \<Rightarrow> bool" where
  "dinode_ok B d \<longleftrightarrow> length (di_addrs d) = 13 \<and> dsize d \<le> 268 * 1024 \<and>
     (\<forall>k < 12. \<not> live d k \<longrightarrow> di_addrs d ! k = 0) \<and>
     (\<not> live d 268 \<longrightarrow> di_addrs d ! 12 = 0) \<and>
     (\<forall>k. live d 268 \<longrightarrow> 12 \<le> k \<longrightarrow> k < 268 \<longrightarrow> \<not> live d k \<longrightarrow> blk_addr d B k = 0)"

definition image_ok :: "(nat \<Rightarrow> dinode) \<Rightarrow> (nat \<Rightarrow> byte list) \<Rightarrow> nat \<Rightarrow> bool" where
  "image_ok D B fr \<longleftrightarrow> 46 \<le> fr \<and> fr \<le> 1000 \<and> (\<forall>b < 1000. length (B b) = 1024) \<and>
     (\<forall>b. fr \<le> b \<longrightarrow> b < 1000 \<longrightarrow> B b = replicate 1024 0) \<and>
     (\<forall>m < 208. dinode_ok B (D m)) \<and>
     (\<forall>m < 208. \<forall>k. live (D m) k \<longrightarrow> 46 \<le> blk_addr (D m) B k \<and> blk_addr (D m) B k < fr) \<and>
     (\<forall>m < 208. \<forall>k. \<forall>m' < 208. \<forall>k'. live (D m) k \<longrightarrow> live (D m') k' \<longrightarrow> blk_addr (D m) B k = blk_addr (D m') B k' \<longrightarrow> m = m' \<and> k = k')"

lemma image_okD:
  assumes "image_ok D B fr"
  shows "46 \<le> fr" "fr \<le> 1000" "b < 1000 \<Longrightarrow> length (B b) = 1024" "fr \<le> b \<Longrightarrow> b < 1000 \<Longrightarrow> B b = replicate 1024 0"
    "m < 208 \<Longrightarrow> dinode_ok B (D m)" "m < 208 \<Longrightarrow> live (D m) k \<Longrightarrow> 46 \<le> blk_addr (D m) B k \<and> blk_addr (D m) B k < fr"
    "m < 208 \<Longrightarrow> m' < 208 \<Longrightarrow> live (D m) k \<Longrightarrow> live (D m') k' \<Longrightarrow> blk_addr (D m) B k = blk_addr (D m') B k' \<Longrightarrow> m = m' \<and> k = k'"
  using assms unfolding image_ok_def by blast+

lemma image_okI:
  assumes "46 \<le> fr" "fr \<le> 1000" "\<And>b. b < 1000 \<Longrightarrow> length (B b) = 1024" "\<And>b. fr \<le> b \<Longrightarrow> b < 1000 \<Longrightarrow> B b = replicate 1024 0"
    "\<And>m. m < 208 \<Longrightarrow> dinode_ok B (D m)" "\<And>m k. m < 208 \<Longrightarrow> live (D m) k \<Longrightarrow> 46 \<le> blk_addr (D m) B k \<and> blk_addr (D m) B k < fr"
    "\<And>m m' k k'. m < 208 \<Longrightarrow> m' < 208 \<Longrightarrow> live (D m) k \<Longrightarrow> live (D m') k' \<Longrightarrow> blk_addr (D m) B k = blk_addr (D m') B k' \<Longrightarrow> m = m' \<and> k = k'"
  shows "image_ok D B fr"
  unfolding image_ok_def using assms by blast

lemma live_ind: "live d k \<Longrightarrow> 12 \<le> k \<Longrightarrow> live d 268"
  by (auto simp: live_def)

text \<open>The blocks of one file grow; nothing else changes.\<close>

lemma image_ok_grow:
  assumes ok: "image_ok D B fr" and n: "n < 208" and fr: "fr \<le> fr'" "fr' \<le> 1000"
    and len: "\<And>b. b < 1000 \<Longrightarrow> length (B' b) = 1024" and z: "\<And>b. fr' \<le> b \<Longrightarrow> b < 1000 \<Longrightarrow> B' b = replicate 1024 0"
    and d: "dinode_ok B' d'" and others: "\<And>m. m < 208 \<Longrightarrow> m \<noteq> n \<Longrightarrow> dinode_ok B' (D m)"
    and old: "\<And>m k. m < 208 \<Longrightarrow> live (D m) k \<Longrightarrow> blk_addr (if m = n then d' else D m) B' k = blk_addr (D m) B k"
    and new: "\<And>k. live d' k \<Longrightarrow> \<not> live (D n) k \<Longrightarrow> fr \<le> blk_addr d' B' k \<and> blk_addr d' B' k < fr'"
    and inj: "\<And>k k'. live d' k \<Longrightarrow> \<not> live (D n) k \<Longrightarrow> live d' k' \<Longrightarrow> \<not> live (D n) k' \<Longrightarrow> blk_addr d' B' k = blk_addr d' B' k' \<Longrightarrow> k = k'"
  shows "image_ok (D(n := d')) B' fr'"
proof -
  let ?D = "D(n := d')"
  have o: "blk_addr (?D m) B' k = blk_addr (D m) B k" if "m < 208" "live (D m) k" for m k
    using old [OF that] by (cases "m = n") simp_all
  have cs: "live (D m) k \<or> m = n \<and> live d' k \<and> \<not> live (D n) k" if "live (?D m) k" for m k
    using that by (cases "m = n") auto
  have lo: "46 \<le> blk_addr (?D m) B' k \<and> blk_addr (?D m) B' k < fr" if "m < 208" "live (D m) k" for m k
    using o [OF that] image_okD(6) [OF ok that] by simp
  have hi: "fr \<le> blk_addr (?D m) B' k \<and> blk_addr (?D m) B' k < fr'" if "m = n" "live d' k" "\<not> live (D n) k" for m k
    using new [OF that(2,3)] that(1) by simp
  have rng: "46 \<le> blk_addr (?D m) B' k \<and> blk_addr (?D m) B' k < fr'" if "m < 208" "live (?D m) k" for m k
    using cs [OF that(2)] lo [OF that(1), of k] hi [of m k] fr(1) image_okD(1) [OF ok] by linarith
  have uniq: "m = m' \<and> k = k'" if a: "m < 208" "m' < 208" "live (?D m) k" "live (?D m') k'" "blk_addr (?D m) B' k = blk_addr (?D m') B' k'" for m k m' k'
  proof -
    consider "live (D m) k" "live (D m') k'" | "live (D m) k" "m' = n" "live d' k'" "\<not> live (D n) k'" |
      "m = n" "live d' k" "\<not> live (D n) k" "live (D m') k'" | "m = n" "live d' k" "\<not> live (D n) k" "m' = n" "live d' k'" "\<not> live (D n) k'"
      using cs [OF a(3)] cs [OF a(4)] by blast
    then show ?thesis
    proof cases
      case 1
      then show ?thesis using image_okD(7) [OF ok a(1,2) 1] o [OF a(1) 1(1)] o [OF a(2) 1(2)] a(5) by simp
    next
      case 2
      then show ?thesis using lo [OF a(1) 2(1)] hi [OF 2(2-4)] a(5) by simp
    next
      case 3
      then show ?thesis using lo [OF a(2) 3(4)] hi [OF 3(1-3)] a(5) by simp
    next
      case 4
      then show ?thesis using inj [OF 4(2,3,5,6)] a(5) by simp
    qed
  qed
  have dok: "dinode_ok B' (?D m)" if "m < 208" for m using d others [OF that] by (cases "m = n") simp_all
  have "46 \<le> fr'" using image_okD(1) [OF ok] fr(1) by simp
  then show ?thesis using fr(2) len z dok rng uniq by (rule image_okI)
qed

section \<open>One block more\<close>

lemma blk_addr_frame:
  "k < 12 \<or> k = 268 \<or> B' (unat (di_addrs d ! 12)) = B (unat (di_addrs d ! 12)) \<Longrightarrow> blk_addr d B' k = blk_addr d B k"
  by (auto simp: blk_addr_def)

lemma addr_268: "blk_addr d B 268 = unat (di_addrs d ! 12)"
  by (simp add: blk_addr_def)

lemma blk_addr_live:
  "live d k \<Longrightarrow> (live d 268 \<Longrightarrow> B' (blk_addr d B 268) = B (blk_addr d B 268)) \<Longrightarrow> blk_addr d B' k = blk_addr d B k"
  using live_ind [of d k] by (cases "k < 12") (auto intro: blk_addr_frame simp: addr_268)

lemma dinode_ok_frame:
  assumes "dinode_ok B d" "live d 268 \<Longrightarrow> B' (blk_addr d B 268) = B (blk_addr d B 268)"
  shows "dinode_ok B' d"
  using assms blk_addr_frame [of _ B' d B] unfolding dinode_ok_def addr_268 by auto

lemma live_data: "i < dsize d \<Longrightarrow> live d (i div 1024)"
  by (auto simp: live_def nblk_def)

lemma dbytes_frame:
  assumes "\<And>k. live d k \<Longrightarrow> B' (blk_addr d B k) = B (blk_addr d B k)"
  shows "dbytes d B' = dbytes d B"
proof -
  have "blk_addr d B' (i div 1024) = blk_addr d B (i div 1024)" if "i < dsize d" for i
    using blk_addr_live [OF live_data [OF that], of B' B] assms by blast
  then show ?thesis using assms live_data by (simp add: dbytes_def)
qed

lemma image_step:
  assumes ok: "image_ok D B fr" and n: "n < 208" and off: "off = dsize (D n)" and fbn: "fbn = off div 1024"
    and c: "off + length c \<le> (fbn + 1) * 1024" and sz: "dsize d' = off + length c"
    and fr: "fr \<le> fr'" "fr' \<le> 1000" and d': "dinode_ok B' d'"
    and len: "\<And>b. b < 1000 \<Longrightarrow> length (B' b) = 1024" and z: "\<And>b. fr' \<le> b \<Longrightarrow> b < 1000 \<Longrightarrow> B' b = replicate 1024 0"
    and old: "\<And>k. live (D n) k \<Longrightarrow> blk_addr d' B' k = blk_addr (D n) B k"
    and same: "\<And>b. b < fr \<Longrightarrow> \<not> (live (D n) fbn \<and> b = blk_addr (D n) B fbn) \<Longrightarrow> \<not> (live (D n) 268 \<and> b = blk_addr (D n) B 268) \<Longrightarrow> B' b = B b"
    and new: "\<And>k. live d' k \<Longrightarrow> \<not> live (D n) k \<Longrightarrow> fr \<le> blk_addr d' B' k \<and> blk_addr d' B' k < fr'"
    and inj: "\<And>k k'. live d' k \<Longrightarrow> \<not> live (D n) k \<Longrightarrow> live d' k' \<Longrightarrow> \<not> live (D n) k' \<Longrightarrow> blk_addr d' B' k = blk_addr d' B' k' \<Longrightarrow> k = k'"
    and cont: "B' (blk_addr d' B' fbn) = patch (off - fbn * 1024) c X" "length X = 1024" "live (D n) fbn \<Longrightarrow> X = B (blk_addr (D n) B fbn)"
  shows "image_ok (D(n := d')) B' fr' \<and> dbytes d' B' = dbytes (D n) B @ c \<and> (\<forall>m < 208. m \<noteq> n \<longrightarrow> dbytes (D m) B' = dbytes (D m) B)"
proof -
  have keep: "B' (blk_addr (D m) B k) = B (blk_addr (D m) B k)" if "m < 208" "live (D m) k" "m \<noteq> n \<or> k \<noteq> fbn \<and> k \<noteq> 268" for m k
  proof (rule same)
    show "blk_addr (D m) B k < fr" using image_okD(6) [OF ok that(1,2)] by simp
    show "\<not> (live (D n) fbn \<and> blk_addr (D m) B k = blk_addr (D n) B fbn)" "\<not> (live (D n) 268 \<and> blk_addr (D m) B k = blk_addr (D n) B 268)"
      using image_okD(7) [OF ok that(1) n that(2)] that(3) by auto
  qed
  have r1: "image_ok (D(n := d')) B' fr'"
  proof (rule image_ok_grow [OF ok n fr len z d'])
    show "dinode_ok B' (D m)" if "m < 208" "m \<noteq> n" for m
      using dinode_ok_frame [OF image_okD(5) [OF ok that(1)]] keep [OF that(1)] that(2) by blast
    show "blk_addr (if m = n then d' else D m) B' k = blk_addr (D m) B k" if "m < 208" "live (D m) k" for m k
      using old [of k] blk_addr_live [OF that(2), of B' B] keep [OF that(1)] that(2) by (cases "m = n") auto
  qed (use new inj in blast)+
  have r2: "dbytes (D m) B' = dbytes (D m) B" if "m < 208" "m \<noteq> n" for m
    using keep [OF that(1)] that(2) by (intro dbytes_frame) blast
  have lo: "fbn * 1024 \<le> off" using fbn by simp
  have a: "B' (blk_addr d' B' (i div 1024)) ! (i mod 1024) = B (blk_addr (D n) B (i div 1024)) ! (i mod 1024)" if i: "i < off" for i
  proof -
    have l: "live (D n) (i div 1024)" using i off live_data by simp
    have k: "i div 1024 \<le> fbn" "i div 1024 \<noteq> 268"
      using i fbn div_le_mono [of i off 1024] image_okD(5) [OF ok n] off by (auto simp: dinode_ok_def)
    show ?thesis
    proof (cases "i div 1024 = fbn")
      case False
      then show ?thesis using old [OF l] keep [OF n l] k by simp
    next
      case True
      have "i mod 1024 < off - fbn * 1024" using True i div_mult_mod_eq [of i 1024] by simp
      then show ?thesis using True cont old [OF l] l by (simp add: patch_def nth_append)
    qed
  qed
  have b: "B' (blk_addr d' B' ((off + j) div 1024)) ! ((off + j) mod 1024) = c ! j" if j: "j < length c" for j
  proof -
    have dv: "(off + j) div 1024 = fbn" using c j lo by (intro div_nat_eqI) (simp_all add: algebra_simps)
    have md: "(off + j) mod 1024 = off - fbn * 1024 + j" using dv lo by (simp add: modulo_nat_def)
    have "off - fbn * 1024 \<le> length X" using cont(2) c lo by simp
    then show ?thesis unfolding dv md using cont(1) j by (simp add: patch_def nth_append)
  qed
  have "dbytes d' B' = dbytes (D n) B @ c"
  proof (rule nth_equalityI)
    show "length (dbytes d' B') = length (dbytes (D n) B @ c)" using sz off by (simp add: dbytes_def)
    fix i assume "i < length (dbytes d' B')"
    then have i: "i < off + length c" using sz by (simp add: dbytes_def)
    show "dbytes d' B' ! i = (dbytes (D n) B @ c) ! i"
    proof (cases "i < off")
      case True
      then show ?thesis using a [OF True] i sz off by (simp add: dbytes_def nth_append)
    next
      case False
      then show ?thesis using b [of "i - off"] i sz off by (simp add: dbytes_def nth_append)
    qed
  qed
  then show ?thesis using r1 r2 by blast
qed

lemma nblk_eqI: "m * 1024 < z + 1024 \<Longrightarrow> z \<le> m * 1024 \<Longrightarrow> nblk z = m"
  unfolding nblk_def by (rule div_nat_eqI) simp_all

lemma nblk_grow: "l > 0 \<Longrightarrow> off + l \<le> (off div 1024 + 1) * 1024 \<Longrightarrow> nblk (off + l) = off div 1024 + 1"
  using div_times_less_eq_dividend [of off 1024] by (intro nblk_eqI) simp_all

lemma nblk_here: "nblk off = (if off mod 1024 = 0 then off div 1024 else off div 1024 + 1)"
proof -
  define q r where "q = off div 1024" and "r = off mod 1024"
  have "off = q * 1024 + r" "r < 1024" by (simp_all add: q_def r_def)
  then have "nblk off = (if r = 0 then q else q + 1)" by (auto intro!: nblk_eqI)
  then show ?thesis by (simp add: q_def r_def)
qed

text \<open>The inode after \<open>c\<close> has been appended.\<close>

definition grown :: "dinode \<Rightarrow> uint list \<Rightarrow> byte list \<Rightarrow> dinode" where
  "grown d as c = d\<lparr>di_addrs := as, di_size := of_nat (dsize d + length c)\<rparr>"

lemma unat_of_nat_uint: "x < 2 ^ 32 \<Longrightarrow> unat (of_nat x :: uint) = x"
  by (simp add: unat_of_nat take_bit_nat_eq_self)

lemma grown_size: "dsize d + length c \<le> 269 * 1024 \<Longrightarrow> dsize (grown d as c) = dsize d + length c"
  using unat_of_nat_uint [of "dsize d + length c"] by (simp add: dsize_def grown_def)

lemma grown_addrs [simp]: "di_addrs (grown d as c) = as"
  by (simp add: grown_def)

lemma live_grown:
  assumes "fbn = dsize d div 1024" "fbn < 268" "c \<noteq> []" "dsize d + length c \<le> (fbn + 1) * 1024"
  shows "live (grown d as c) k \<longleftrightarrow> k \<le> fbn \<or> k = 268 \<and> 12 \<le> fbn" "dsize (grown d as c) = dsize d + length c"
    "live d k \<longleftrightarrow> k < fbn \<or> k = fbn \<and> live d fbn \<or> k = 268 \<and> (12 < fbn \<or> fbn = 12 \<and> live d fbn)" "dsize (grown d as c) \<le> 268 * 1024"
proof -
  have b: "(fbn + 1) * 1024 \<le> 268 * 1024" using assms(2) by (intro mult_right_mono) auto
  then show s: "dsize (grown d as c) = dsize d + length c" using assms(4) by (intro grown_size) simp
  show "dsize (grown d as c) \<le> 268 * 1024" using s b assms(4) by simp
  have "nblk (dsize (grown d as c)) = fbn + 1" unfolding s assms(1) using assms by (intro nblk_grow) auto
  then show "live (grown d as c) k \<longleftrightarrow> k \<le> fbn \<or> k = 268 \<and> 12 \<le> fbn" by (auto simp: live_def)
  show "live d k \<longleftrightarrow> k < fbn \<or> k = fbn \<and> live d fbn \<or> k = 268 \<and> (12 < fbn \<or> fbn = 12 \<and> live d fbn)"
    using nblk_here [of "dsize d"] assms(1,2) by (auto simp: live_def split: if_splits)
qed

definition appended :: "(nat \<Rightarrow> dinode) \<Rightarrow> (nat \<Rightarrow> byte list) \<Rightarrow> nat \<Rightarrow> byte list \<Rightarrow> dinode \<Rightarrow> (nat \<Rightarrow> byte list) \<Rightarrow> nat \<Rightarrow> bool" where
  "appended D B n c e B' fr' \<longleftrightarrow> image_ok (D(n := e)) B' fr' \<and> dbytes e B' = dbytes (D n) B @ c \<and>
     (\<forall>m < 208. m \<noteq> n \<longrightarrow> dbytes (D m) B' = dbytes (D m) B)"

lemma grow_last:
  assumes ok: "image_ok D B fr" and n: "n < 208" and fbn: "fbn = dsize (D n) div 1024" "fbn < 268"
    and c: "c \<noteq> []" "dsize (D n) + length c \<le> (fbn + 1) * 1024" and l: "live (D n) fbn"
    and x: "x = blk_addr (D n) B fbn" and B': "B' = B(x := patch (dsize (D n) - fbn * 1024) c (B x))"
  shows "appended D B n c (grown (D n) (di_addrs (D n)) c) B' fr"
proof -
  let ?d = "D n" and ?e = "grown (D n) (di_addrs (D n)) c"
  note okD = image_okD [OF ok]
  have xr: "46 \<le> x" "x < fr" "x < 1000" using okD(6) [OF n l] x okD(2) by auto
  have le: "live ?e k \<longleftrightarrow> live ?d k" for k using live_grown(1,3) [OF fbn c] l by auto
  have ne: "live ?d 268 \<Longrightarrow> blk_addr ?d B 268 \<noteq> x" using okD(7) [OF n n _ l, of 268] x fbn(2) by auto
  have ad: "blk_addr ?e B' k = blk_addr ?d B' k" for k by (simp add: blk_addr_def)
  have old: "blk_addr ?e B' k = blk_addr ?d B k" if "live ?d k" for k
    unfolding ad using ne by (intro blk_addr_live [OF that]) (auto simp: B')
  have dk: "dinode_ok B' ?d" using ne by (intro dinode_ok_frame [OF okD(5) [OF n]]) (auto simp: B')
  have ol: "dsize ?d - fbn * 1024 + length c \<le> 1024" using c(2) fbn(1) by simp
  show ?thesis unfolding appended_def
  proof (rule image_step [OF ok n refl fbn(1) c(2) live_grown(2) [OF fbn c], where X = "B x"])
    show "dinode_ok B' ?e" using dk live_grown(4) [OF fbn c] unfolding dinode_ok_def le ad by simp
    show "length (B' b) = 1024" if "b < 1000" for b using okD(3) [OF that] okD(3) [OF xr(3)] ol by (simp add: B')
    show "B' b = replicate 1024 0" if "fr \<le> b" "b < 1000" for b using okD(4) [OF that] that(1) xr(2) by (simp add: B')
    show "B' (blk_addr ?e B' fbn) = patch (dsize ?d - fbn * 1024) c (B x)" using old [OF l] x by (simp add: B')
  qed (use old le l x xr okD in \<open>auto simp: B'\<close>)
qed

lemma grow_direct:
  assumes ok: "image_ok D B fr" and n: "n < 208" and fbn: "fbn = dsize (D n) div 1024" "fbn < 12"
    and c: "c \<noteq> []" "dsize (D n) + length c \<le> (fbn + 1) * 1024" and l: "\<not> live (D n) fbn" and fr: "fr < 1000"
    and B': "B' = B(fr := patch (dsize (D n) - fbn * 1024) c (B fr))"
  shows "appended D B n c (grown (D n) ((di_addrs (D n))[fbn := of_nat fr]) c) B' (fr + 1)"
proof -
  let ?d = "D n" and ?e = "grown (D n) ((di_addrs (D n))[fbn := of_nat fr]) c"
  have f: "fbn < 268" using fbn(2) by simp
  note okD = image_okD [OF ok] and gd = live_grown(3) [OF fbn(1) f c] and g = live_grown(1,2,4) [OF fbn(1) f c, where as = "(di_addrs (D n))[fbn := of_nat fr]"]
  have le: "live ?e k \<longleftrightarrow> k \<le> fbn" "live ?d k \<longleftrightarrow> k < fbn" for k using g(1) [of k] gd [of k] l fbn(2) by auto
  have dok: "length (di_addrs ?d) = 13" "\<forall>k < 12. \<not> live ?d k \<longrightarrow> di_addrs ?d ! k = 0" "\<not> live ?d 268 \<longrightarrow> di_addrs ?d ! 12 = 0"
    using okD(5) [OF n] by (auto simp: dinode_ok_def)
  have u: "unat (of_nat fr :: uint) = fr" using fr by (intro unat_of_nat_uint) simp
  have ad: "blk_addr ?e B' k = (if k = fbn then fr else blk_addr ?d B k)" if "k \<le> fbn" for k
    using that fbn(2) dok(1) u by (auto simp: blk_addr_def)
  have ol: "dsize ?d - fbn * 1024 + length c \<le> 1024" using c(2) fbn(1) by simp
  show ?thesis unfolding appended_def
  proof (rule image_step [OF ok n refl fbn(1) c(2) g(2), where X = "B fr"])
    show "dinode_ok B' ?e" unfolding dinode_ok_def using g(3) dok fbn(2) by (auto simp: le nth_list_update)
    show "length (B' b) = 1024" if "b < 1000" for b using okD(3) [OF that] okD(3) [OF fr] ol by (simp add: B')
    show "B' b = replicate 1024 0" if "fr + 1 \<le> b" "b < 1000" for b using okD(4) [of b] that by (simp add: B')
    show "B' (blk_addr ?e B' fbn) = patch (dsize ?d - fbn * 1024) c (B fr)" using ad [of fbn] by (simp add: B')
  qed (use ad le l fr okD(3) in \<open>auto simp: B'\<close>)
qed

lemma get32_zero: "get32 (replicate 1024 0) i = 0"
  by (simp add: get32_def slice_def)

lemma grow_ind:
  assumes ok: "image_ok D B fr" and n: "n < 208" and fbn: "fbn = dsize (D n) div 1024" "12 \<le> fbn" "fbn < 268"
    and c: "c \<noteq> []" "dsize (D n) + length c \<le> (fbn + 1) * 1024" and l: "\<not> live (D n) fbn" "live (D n) 268" and fr: "fr < 1000"
    and a: "a = blk_addr (D n) B 268"
    and B': "B' = B(a := put32 (4 * (fbn - 12)) (of_nat fr) (B a), fr := patch (dsize (D n) - fbn * 1024) c (B fr))"
  shows "appended D B n c (grown (D n) (di_addrs (D n)) c) B' (fr + 1)"
proof -
  let ?d = "D n" and ?e = "grown (D n) (di_addrs (D n)) c"
  note okD = image_okD [OF ok] and gd = live_grown(3) [OF fbn(1,3) c] and g = live_grown(1,2,4) [OF fbn(1,3) c, where as = "di_addrs (D n)"]
  have ar: "46 \<le> a" "a < fr" "a < 1000" using okD(6) [OF n l(2)] a okD(2) by auto
  have le: "live ?e k \<longleftrightarrow> k \<le> fbn \<or> k = 268" "live ?d k \<longleftrightarrow> k < fbn \<or> k = 268" for k
    using g(1) [of k] gd [of k] gd [of 268] l fbn(2,3) by auto
  have dok: "length (di_addrs ?d) = 13" "\<And>k. 12 \<le> k \<Longrightarrow> k < 268 \<Longrightarrow> \<not> live ?d k \<Longrightarrow> blk_addr ?d B k = 0"
    using okD(5) [OF n] l(2) by (auto simp: dinode_ok_def)
  have u: "unat (of_nat fr :: uint) = fr" using fr by (intro unat_of_nat_uint) simp
  have q: "4 * (fbn - 12) + 4 \<le> length (B a)" using okD(3) [OF ar(3)] fbn(3) by simp
  have ad: "blk_addr ?e B' k = (if k = fbn then fr else blk_addr ?d B k)" if "k \<le> 268" for k
  proof (cases "k < 12 \<or> k = 268")
    case True
    then show ?thesis using fbn(2,3) by (auto simp: blk_addr_def)
  next
    case False
    have "get32 (B' a) (4 * (k - 12)) = (if k = fbn then of_nat fr else get32 (B a) (4 * (k - 12)))"
    proof (cases "k = fbn")
      case True
      then show ?thesis using q ar(2) by (simp add: B')
    next
      case other: False
      have "4 * (k - 12) + 4 \<le> 4 * (fbn - 12) \<or> 4 * (fbn - 12) + 4 \<le> 4 * (k - 12)" using False other fbn(2) by auto
      then show ?thesis using get32_put32_other [OF q] ar(2) other by (simp add: B')
    qed
    then show ?thesis using False u a by (simp add: blk_addr_def)
  qed
  have ol: "dsize ?d - fbn * 1024 + length c \<le> 1024" using c(2) fbn(1) by simp
  show ?thesis unfolding appended_def
  proof (rule image_step [OF ok n refl fbn(1) c(2) g(2), where X = "B fr"])
    show "dinode_ok B' ?e" unfolding dinode_ok_def using g(3) dok fbn(2,3) ad by (auto simp: le)
    show "length (B' b) = 1024" if "b < 1000" for b using okD(3) [OF that] okD(3) [OF fr] okD(3) [OF ar(3)] q ol by (simp add: B')
    show "B' b = replicate 1024 0" if "fr + 1 \<le> b" "b < 1000" for b using okD(4) [of b] that ar(2) by (simp add: B')
    show "B' (blk_addr ?e B' fbn) = patch (dsize ?d - fbn * 1024) c (B fr)" using ad [of fbn] fbn(3) by (simp add: B')
  qed (use ad le l fr okD(3) fbn a ar in \<open>auto simp: B'\<close>)
qed

lemma grow_first:
  assumes ok: "image_ok D B fr" and n: "n < 208" and fbn: "12 = dsize (D n) div 1024"
    and c: "c \<noteq> []" "dsize (D n) + length c \<le> 13 * 1024" and l: "\<not> live (D n) 12" and fr: "fr + 1 < 1000"
    and B': "B' = B(fr := put32 0 (of_nat (fr + 1)) (B fr), fr + 1 := patch (dsize (D n) - 12 * 1024) c (B (fr + 1)))"
  shows "appended D B n c (grown (D n) ((di_addrs (D n))[12 := of_nat fr]) c) B' (fr + 2)"
proof -
  let ?d = "D n" and ?e = "grown (D n) ((di_addrs (D n))[12 := of_nat fr]) c"
  have c': "dsize (D n) + length c \<le> (12 + 1) * 1024" using c(2) by simp
  have t: "(12::nat) < 268" by simp
  note okD = image_okD [OF ok] and gd = live_grown(3) [OF fbn t c(1) c'] and g = live_grown(1,2,4) [OF fbn t c(1) c', where as = "(di_addrs (D n))[12 := of_nat fr]"]
  have le: "live ?e k \<longleftrightarrow> k \<le> 12 \<or> k = 268" "live ?d k \<longleftrightarrow> k < 12" for k using g(1) [of k] gd [of k] l by auto
  have dok: "length (di_addrs ?d) = 13" using okD(5) [OF n] by (auto simp: dinode_ok_def)
  have u: "unat (of_nat fr :: uint) = fr" "unat (of_nat (fr + 1) :: uint) = fr + 1" using fr by (auto intro!: unat_of_nat_uint simp del: of_nat_add of_nat_Suc)
  have z: "B fr = replicate 1024 0" using okD(4) [of fr] fr by simp
  have en: "unat (get32 (B' fr) (4 * (k - 12))) = (if k = 12 then fr + 1 else 0)" if "12 \<le> k" "k < 268" for k
    using that get32_put32_same [of 0 "B fr" "of_nat (fr + 1)"] get32_put32_other [of 0 "B fr" "4 * (k - 12)" "of_nat (fr + 1)"]
    using u(2) by (auto simp: B' z get32_zero simp del: of_nat_add of_nat_Suc)
  have ad: "blk_addr ?e B' k = (if k < 12 then blk_addr ?d B k else if k = 12 then fr + 1 else if k = 268 then fr else 0)" if "k \<le> 268" for k
    using that dok u(1) en [of k] by (auto simp: blk_addr_def)
  have ol: "dsize ?d - 12 * 1024 + length c \<le> 1024" using c(2) fbn by simp
  show ?thesis unfolding appended_def
  proof (rule image_step [OF ok n refl fbn c' g(2), where X = "B (fr + 1)"])
    show "dinode_ok B' ?e" unfolding dinode_ok_def using g(3) dok ad by (auto simp: le)
    show "length (B' b) = 1024" if "b < 1000" for b using okD(3) [OF that] okD(3) [of "fr + 1"] z fr ol by (simp add: B')
    show "B' b = replicate 1024 0" if "fr + 2 \<le> b" "b < 1000" for b using okD(4) [of b] that by (simp add: B')
    show "B' (blk_addr ?e B' 12) = patch (dsize ?d - 12 * 1024) c (B (fr + 1))" using ad [of 12] by (simp add: B')
  qed (use ad le fr okD(3) in \<open>auto simp: B' split: if_splits\<close>)
qed

section \<open>The code appends\<close>

abbreviation blocks :: "mkst \<Rightarrow> nat \<Rightarrow> byte list" where "blocks st \<equiv> (\<lambda>b. img st ! b)"

lemma blocks_upd: "n < length xs \<Longrightarrow> (\<lambda>b. xs[n := y] ! b) = (\<lambda>b. xs ! b)(n := y)"
  by (auto simp: fun_eq_iff nth_list_update)

lemma blocks_upd2: "n < length xs \<Longrightarrow> m < length xs \<Longrightarrow> (\<lambda>b. xs[n := y, m := z] ! b) = (\<lambda>b. xs ! b)(n := y, m := z)"
  by (auto simp: fun_eq_iff nth_list_update)

lemma wsect_in: "unat x < length (img st) \<Longrightarrow> wsect x buf st = st\<lparr>img := (img st)[unat x := buf]\<rparr>"
  by (simp add: wsect_def Let_def)

text \<open>What one turn of the loop of \<^verbatim>\<open>iappend\<close> needs of free blocks.\<close>

definition cost :: "dinode \<Rightarrow> nat \<Rightarrow> nat" where
  "cost d fbn = (if live d fbn then 0 else if fbn = 12 then 2 else 1)"

lemma dinode_zero:
  assumes "image_ok D B fr" "n < 208" "k < 268"
  shows "k < 12 \<Longrightarrow> di_addrs (D n) ! k = 0 \<longleftrightarrow> \<not> live (D n) k" "di_addrs (D n) ! 12 = 0 \<longleftrightarrow> \<not> live (D n) 268"
    "live (D n) 268 \<Longrightarrow> 12 \<le> k \<Longrightarrow> get32 (B (blk_addr (D n) B 268)) (4 * (k - 12)) = 0 \<longleftrightarrow> \<not> live (D n) k"
proof -
  note r = image_okD(6) [OF assms(1,2)] and d = image_okD(5) [OF assms(1,2), unfolded dinode_ok_def]
  show "k < 12 \<Longrightarrow> di_addrs (D n) ! k = 0 \<longleftrightarrow> \<not> live (D n) k" using r [of k] d by (auto simp: blk_addr_def)
  show "di_addrs (D n) ! 12 = 0 \<longleftrightarrow> \<not> live (D n) 268" using r [of 268] d by (auto simp: blk_addr_def)
  show "live (D n) 268 \<Longrightarrow> 12 \<le> k \<Longrightarrow> get32 (B (blk_addr (D n) B 268)) (4 * (k - 12)) = 0 \<longleftrightarrow> \<not> live (D n) k"
    using r [of k] d assms(3) by (auto simp: blk_addr_def unat_eq_zero)
qed

text \<open>The states before and after a turn.\<close>

definition turn :: "(nat \<Rightarrow> dinode) \<Rightarrow> nat \<Rightarrow> byte list \<Rightarrow> dinode \<Rightarrow> mkst \<Rightarrow> dinode \<Rightarrow> mkst \<Rightarrow> bool" where
  "turn D n c din st din' st' \<longleftrightarrow> di_type din' = di_type din \<and> di_nlink din' = di_nlink din \<and> length (img st') = 1000 \<and> msb st' = msb st \<and> freeinode st' = freeinode st \<and>
     (\<forall>b < 46. img st' ! b = img st ! b) \<and>
     appended D (blocks st) n c (din'\<lparr>di_size := of_nat (dsize (D n) + length c)\<rparr>) (blocks st') (unat (freeblock st'))"

lemma grown_eq:
  "d = din\<lparr>di_size := z\<rparr> \<Longrightarrow> grown d as c = din\<lparr>di_addrs := as\<rparr>\<lparr>di_size := of_nat (dsize d + length c)\<rparr>"
  by (simp add: grown_def)

lemma din_same: "din\<lparr>di_addrs := di_addrs din\<rparr> = din"
  by (cases din) simp

lemma unat_next: "unat w < 1000 \<Longrightarrow> unat (w + 1 :: uint) = unat w + 1"
  by (simp add: unat_word_ariths)

lemma chunk_last:
  assumes ok: "image_ok D (blocks st) (unat (freeblock st))" and im: "length (img st) = 1000" and n: "n < 208" and d: "D n = din\<lparr>di_size := z\<rparr>"
    and fbn: "fbn = dsize (D n) div 1024" "fbn < 268" and c: "c \<noteq> []" "dsize (D n) + length c \<le> (fbn + 1) * 1024" and l: "live (D n) fbn"
  shows "\<exists>x buf. iappend_block fbn din st = Inr (x, din, st) \<and> rsect x st = Inr buf \<and>
    turn D n c din st din (wsect x (patch (dsize (D n) - fbn * 1024) c buf) st)"
proof -
  let ?x = "blk_addr (D n) (blocks st) fbn"
  have x: "46 \<le> ?x" "?x < 1000" using image_okD(6) [OF ok n l] image_okD(2) [OF ok] by auto
  have da: "di_addrs din = di_addrs (D n)" using d by simp
  have l2: "\<not> fbn < 12 \<Longrightarrow> live (D n) 268" using l live_ind by simp
  have i: "unat (di_addrs (D n) ! 12) < 1000" if "live (D n) 268"
    using image_okD(6) [OF ok n that] image_okD(2) [OF ok] by (simp add: addr_268)
  have b: "iappend_block fbn din st = Inr (of_nat ?x, din, st)"
    using dinode_zero [OF ok n fbn(2)] l l2 i im fbn(2)
    by (auto simp: iappend_block_def da rsect_def blk_addr_def Let_def)
  have u: "unat (of_nat ?x :: uint) = ?x" using x by (intro unat_of_nat_uint) simp
  have "turn D n c din st din (st\<lparr>img := (img st)[?x := patch (dsize (D n) - fbn * 1024) c (img st ! ?x)]\<rparr>)"
    unfolding turn_def
    using grow_last [OF ok n fbn c l refl refl] x im unfolding grown_eq [OF d] da [symmetric] din_same by (auto simp: blocks_upd)
  then show ?thesis using b u x im by (auto simp: rsect_def wsect_in)
qed

lemma chunk_direct:
  assumes ok: "image_ok D (blocks st) (unat (freeblock st))" and im: "length (img st) = 1000" and n: "n < 208" and d: "D n = din\<lparr>di_size := z\<rparr>"
    and fbn: "fbn = dsize (D n) div 1024" "fbn < 12" and c: "c \<noteq> []" "dsize (D n) + length c \<le> (fbn + 1) * 1024" and l: "\<not> live (D n) fbn"
    and fr: "unat (freeblock st) < 1000"
  shows "\<exists>x din' st' buf. iappend_block fbn din st = Inr (x, din', st') \<and> rsect x st' = Inr buf \<and>
    (let st2 = wsect x (patch (dsize (D n) - fbn * 1024) c buf) st' in turn D n c din st din' st2 \<and> unat (freeblock st2) = unat (freeblock st) + 1)"
proof -
  let ?x = "freeblock st" and ?din = "din\<lparr>di_addrs := (di_addrs din)[fbn := freeblock st]\<rparr>" and ?st = "st\<lparr>freeblock := freeblock st + 1\<rparr>"
  have da: "di_addrs din = di_addrs (D n)" using d by simp
  have "length (di_addrs (D n)) = 13" using image_okD(5) [OF ok n] by (simp add: dinode_ok_def)
  moreover have "di_addrs (D n) ! fbn = 0" using dinode_zero(1) [OF ok n _ fbn(2)] fbn(2) l by simp
  ultimately have b: "iappend_block fbn din st = Inr (?x, ?din, ?st)" using fbn(2) by (simp add: iappend_block_def da)
  have r: "rsect ?x ?st = Inr (img st ! unat ?x)" using im fr by (simp add: rsect_def)
  have w: "wsect ?x buf ?st = ?st\<lparr>img := (img st)[unat ?x := buf]\<rparr>" for buf using im fr by (simp add: wsect_in)
  have a: "appended D (blocks st) n c (?din\<lparr>di_size := of_nat (dsize (D n) + length c)\<rparr>)
      ((blocks st)(unat ?x := patch (dsize (D n) - fbn * 1024) c (img st ! unat ?x))) (unat ?x + 1)"
    using grow_direct [OF ok n fbn c l fr refl] unfolding grown_eq [OF d] da [symmetric] by simp
  have "turn D n c din st ?din (wsect ?x (patch (dsize (D n) - fbn * 1024) c (img st ! unat ?x)) ?st)"
    unfolding turn_def w using a im fr image_okD(1) [OF ok] unat_next [OF fr] by (simp add: blocks_upd)
  then show ?thesis using b r w unat_next [OF fr] by (auto simp: Let_def)
qed

lemma chunk_ind:
  assumes ok: "image_ok D (blocks st) (unat (freeblock st))" and im: "length (img st) = 1000" and n: "n < 208" and d: "D n = din\<lparr>di_size := z\<rparr>"
    and fbn: "fbn = dsize (D n) div 1024" "12 \<le> fbn" "fbn < 268" and c: "c \<noteq> []" "dsize (D n) + length c \<le> (fbn + 1) * 1024"
    and l: "\<not> live (D n) fbn" "live (D n) 268" and fr: "unat (freeblock st) < 1000"
  shows "\<exists>x din' st' buf. iappend_block fbn din st = Inr (x, din', st') \<and> rsect x st' = Inr buf \<and>
    (let st2 = wsect x (patch (dsize (D n) - fbn * 1024) c buf) st' in turn D n c din st din' st2 \<and> unat (freeblock st2) = unat (freeblock st) + 1)"
proof -
  let ?x = "freeblock st" and ?a = "blk_addr (D n) (blocks st) 268"
  let ?ind = "put32 (4 * (fbn - 12)) (freeblock st) (img st ! ?a)"
  let ?st = "st\<lparr>freeblock := freeblock st + 1, img := (img st)[?a := ?ind]\<rparr>"
  have da: "di_addrs din = di_addrs (D n)" using d by simp
  have ar: "46 \<le> ?a" "?a < unat ?x" "?a < 1000" using image_okD(6) [OF ok n l(2)] fr by auto
  have a12: "unat (di_addrs (D n) ! 12) = ?a" by (simp add: addr_268)
  have q: "4 * (fbn - 12) + 4 \<le> length (img st ! ?a)" using image_okD(3) [OF ok ar(3)] fbn(3) by simp
  have b: "iappend_block fbn din st = Inr (?x, din, ?st)"
    using dinode_zero(2) [OF ok n fbn(3)] dinode_zero(3) [OF ok n fbn(3) l(2) fbn(2)] l fbn(2) im ar(3) q
    by (simp add: iappend_block_def da rsect_def a12 wsect_in Let_def)
  have r: "rsect ?x ?st = Inr (img st ! unat ?x)" using im fr ar by (simp add: rsect_def)
  have w: "wsect ?x buf ?st = ?st\<lparr>img := (img st)[?a := ?ind, unat ?x := buf]\<rparr>" for buf using im fr by (simp add: wsect_in)
  have a: "appended D (blocks st) n c (din\<lparr>di_size := of_nat (dsize (D n) + length c)\<rparr>)
      ((blocks st)(?a := ?ind, unat ?x := patch (dsize (D n) - fbn * 1024) c (img st ! unat ?x))) (unat ?x + 1)"
    using grow_ind [OF ok n fbn c l fr refl refl] unfolding grown_eq [OF d] da [symmetric] din_same by simp
  have "turn D n c din st din (wsect ?x (patch (dsize (D n) - fbn * 1024) c (img st ! unat ?x)) ?st)"
    unfolding turn_def w using a im fr ar image_okD(1) [OF ok] unat_next [OF fr] by (simp add: blocks_upd2)
  then show ?thesis using b r w unat_next [OF fr] by (auto simp: Let_def)
qed

lemma chunk_first:
  assumes ok: "image_ok D (blocks st) (unat (freeblock st))" and im: "length (img st) = 1000" and n: "n < 208" and d: "D n = din\<lparr>di_size := z\<rparr>"
    and fbn: "12 = dsize (D n) div 1024" and c: "c \<noteq> []" "dsize (D n) + length c \<le> 13 * 1024"
    and l: "\<not> live (D n) 12" and fr: "unat (freeblock st) + 1 < 1000"
  shows "\<exists>x din' st' buf. iappend_block 12 din st = Inr (x, din', st') \<and> rsect x st' = Inr buf \<and>
    (let st2 = wsect x (patch (dsize (D n) - 12 * 1024) c buf) st' in turn D n c din st din' st2 \<and> unat (freeblock st2) = unat (freeblock st) + 2)"
proof -
  let ?x = "freeblock st + 1" and ?a = "unat (freeblock st)" and ?din = "din\<lparr>di_addrs := (di_addrs din)[12 := freeblock st]\<rparr>"
  let ?ind = "put32 0 ?x (img st ! ?a)"
  let ?st = "st\<lparr>freeblock := freeblock st + 2, img := (img st)[?a := ?ind]\<rparr>"
  have da: "di_addrs din = di_addrs (D n)" using d by simp
  have fr': "?a < 1000" using fr by simp
  have ux: "unat ?x = ?a + 1" using unat_next [OF fr'] .
  have ux2: "unat (freeblock st + 2) = ?a + 2" using unat_next [of ?x] ux fr by (simp add: add.assoc)
  have l2: "\<not> live (D n) 268" using l by (simp add: live_def)
  have z: "img st ! ?a = replicate 1024 0" using image_okD(4) [OF ok, of ?a] fr' by simp
  have "length (di_addrs (D n)) = 13" using image_okD(5) [OF ok n] by (simp add: dinode_ok_def)
  then have b: "iappend_block 12 din st = Inr (?x, ?din, ?st)"
    using dinode_zero(2) [OF ok n, of 12] l2 im fr' get32_zero [of 0]
    by (simp add: iappend_block_def da rsect_def wsect_in Let_def z add.assoc)
  have r: "rsect ?x ?st = Inr (img st ! unat ?x)" using im fr ux by (simp add: rsect_def)
  have w: "wsect ?x buf ?st = ?st\<lparr>img := (img st)[?a := ?ind, unat ?x := buf]\<rparr>" for buf using im fr ux by (simp add: wsect_in)
  have a: "appended D (blocks st) n c (?din\<lparr>di_size := of_nat (dsize (D n) + length c)\<rparr>)
      ((blocks st)(?a := ?ind, unat ?x := patch (dsize (D n) - 12 * 1024) c (img st ! unat ?x))) (?a + 2)"
    using grow_first [OF ok n fbn c l fr refl] ux unfolding grown_eq [OF d] da [symmetric] by (simp add: add.commute)
  have "turn D n c din st ?din (wsect ?x (patch (dsize (D n) - 12 * 1024) c (img st ! unat ?x)) ?st)"
    unfolding turn_def w using a im fr ux ux2 image_okD(1) [OF ok] by (simp add: blocks_upd2)
  then show ?thesis using b r w ux2 by (auto simp: Let_def)
qed

lemma chunk_any:
  assumes ok: "image_ok D (blocks st) (unat (freeblock st))" and im: "length (img st) = 1000" and n: "n < 208" and d: "D n = din\<lparr>di_size := z\<rparr>"
    and fbn: "fbn = dsize (D n) div 1024" "fbn < 268" and c: "c \<noteq> []" "dsize (D n) + length c \<le> (fbn + 1) * 1024"
    and fr: "unat (freeblock st) + cost (D n) fbn \<le> 1000"
  shows "\<exists>x din' st' buf. iappend_block fbn din st = Inr (x, din', st') \<and> rsect x st' = Inr buf \<and>
    (let st2 = wsect x (patch (dsize (D n) - fbn * 1024) c buf) st' in
     turn D n c din st din' st2 \<and> unat (freeblock st2) = unat (freeblock st) + cost (D n) fbn)"
proof (cases "live (D n) fbn")
  case True
  have "freeblock (wsect x buf st) = freeblock st" for x buf by (simp add: wsect_def Let_def)
  then show ?thesis using chunk_last [OF ok im n d fbn c True] True by (auto simp: cost_def Let_def)
next
  case l: False
  have fr': "unat (freeblock st) < 1000" using fr l by (auto simp: cost_def split: if_splits)
  consider "fbn < 12" | "fbn = 12" | "12 < fbn" by linarith
  then show ?thesis
  proof cases
    case 1
    then show ?thesis using chunk_direct [OF ok im n d fbn(1) 1 c l fr'] l by (simp add: cost_def)
  next
    case 2
    have "unat (freeblock st) + 1 < 1000" using fr l 2 by (simp add: cost_def)
    from chunk_first [OF ok im n d _ c(1) _ _ this] show ?thesis using fbn(1) c(2) l 2 by (simp add: cost_def)
  next
    case 3
    have "live (D n) 268" using live_grown(3) [OF fbn c, of 268] 3 by simp
    from chunk_ind [OF ok im n d fbn(1) _ fbn(2) c l this fr'] show ?thesis using l 3 by (simp add: cost_def)
  qed
qed

lemma appended_trans:
  "appended D B n c e B1 fr1 \<Longrightarrow> appended (D(n := e)) B1 n c' e' B2 fr2 \<Longrightarrow> appended D B n (c @ c') e' B2 fr2"
  by (simp add: appended_def)

lemma appended_Nil: "image_ok D B fr \<Longrightarrow> appended D B n [] (D n) B fr"
  by (simp add: appended_def)

lemma turn_trans:
  assumes "turn D n c din st din1 st1" "e = din1\<lparr>di_size := of_nat (dsize (D n) + length c)\<rparr>" "dsize e = dsize (D n) + length c"
    "turn (D(n := e)) n c' din1 st1 din2 st2"
  shows "turn D n (c @ c') din st din2 st2"
  using assms appended_trans [of D "blocks st" n c e "blocks st1" "unat (freeblock st1)" c' _ "blocks st2" "unat (freeblock st2)"]
  unfolding turn_def by (simp add: add.assoc)

text \<open>The blocks that a file of \<open>z\<close> bytes has, with its indirect block.\<close>

definition used :: "nat \<Rightarrow> nat" where
  "used z = nblk z + (if 12 < nblk z then 1 else 0)"

lemma nblk_mono: "x \<le> y \<Longrightarrow> nblk x \<le> nblk y"
  unfolding nblk_def by (intro div_le_mono) simp

lemma used_mono: "x \<le> y \<Longrightarrow> used x \<le> used y"
  using nblk_mono [of x y] by (simp add: used_def)

lemma used_step:
  assumes "fbn = dsize d div 1024" "fbn < 268" "0 < l" "dsize d + l \<le> (fbn + 1) * 1024"
  shows "cost d fbn + used (dsize d) = used (dsize d + l)"
proof -
  have "nblk (dsize d + l) = fbn + 1" using nblk_grow [of l "dsize d"] assms by simp
  moreover have "live d fbn \<longleftrightarrow> nblk (dsize d) = fbn + 1" "nblk (dsize d) = fbn + 1 \<or> nblk (dsize d) = fbn"
    using nblk_here [of "dsize d"] assms(1,2) by (auto simp: live_def)
  ultimately show ?thesis by (auto simp: cost_def used_def)
qed

lemma iappend_loop_ok:
  assumes "image_ok D (blocks st) (unat (freeblock st))" "length (img st) = 1000" "n < 208" "D n = din\<lparr>di_size := of_nat off\<rparr>"
    "dsize (D n) = off" "off + length p \<le> 268 * 1024" "unat (freeblock st) + used (off + length p) \<le> 1000 + used off"
  shows "\<exists>din' st'. iappend_loop p off din st = Inr (off + length p, din', st') \<and> turn D n p din st din' st' \<and>
    unat (freeblock st') + used off = unat (freeblock st) + used (off + length p)"
  using assms
proof (induction "length p" arbitrary: p off din st D rule: less_induct)
  case less
  show ?case
  proof (cases "p = []")
    case True
    then show ?thesis using less(2-6) appended_Nil [OF less(2), of n] by (simp add: iappend_loop.simps turn_def)
  next
    case False
    define fbn where "fbn = off div 1024"
    define n1 where "n1 = min (length p) ((fbn + 1) * 1024 - off)"
    let ?c = "take n1 p"
    have e: "off < (fbn + 1) * 1024" unfolding fbn_def by (rule block_end)
    have n1: "0 < n1" "n1 \<le> length p" "off + n1 \<le> (fbn + 1) * 1024" using False e by (auto simp: n1_def)
    have "0 < length p" using False by simp
    then have "off < 268 * 1024" using less(7) by linarith
    then have f: "fbn < 268" unfolding fbn_def by (rule less_mult_imp_div_less)
    have lc: "length ?c = n1" "?c \<noteq> []" using n1 False by auto
    have fd: "fbn = dsize (D n) div 1024" using less(6) by (simp add: fbn_def)
    have c2: "dsize (D n) + length ?c \<le> (fbn + 1) * 1024" using less(6) lc n1 by simp
    have cst: "cost (D n) fbn + used off = used (off + n1)" using used_step [OF fd f n1(1)] less(6) n1 by simp
    moreover have "used (off + n1) \<le> used (off + length p)" using n1(2) by (intro used_mono) simp
    ultimately have "unat (freeblock st) + cost (D n) fbn \<le> 1000" using less(8) by linarith
    from chunk_any [OF less(2-5) fd f lc(2) c2 this]
    obtain x din1 st1 buf where k: "iappend_block fbn din st = Inr (x, din1, st1)" "rsect x st1 = Inr buf"
      and t: "turn D n ?c din st din1 (wsect x (patch (off - fbn * 1024) ?c buf) st1)"
      and fb: "unat (freeblock (wsect x (patch (off - fbn * 1024) ?c buf) st1)) = unat (freeblock st) + cost (D n) fbn"
      using less(6) by (auto simp: Let_def)
    let ?st = "wsect x (patch (off - fbn * 1024) ?c buf) st1"
    define e1 where "e1 = din1\<lparr>di_size := of_nat (dsize (D n) + length ?c)\<rparr>"
    have sz: "dsize e1 = off + n1" using unat_of_nat_uint [of "off + n1"] less(6,7) n1(2) lc(1) by (simp add: e1_def dsize_def)
    have "\<exists>din' st'. iappend_loop (drop n1 p) (off + n1) din1 ?st = Inr (off + n1 + length (drop n1 p), din', st') \<and>
        turn (D(n := e1)) n (drop n1 p) din1 ?st din' st' \<and>
        unat (freeblock st') + used (off + n1) = unat (freeblock ?st) + used (off + n1 + length (drop n1 p))"
    proof (rule less(1))
      show "length (drop n1 p) < length p" using n1 False by simp
      show "image_ok (D(n := e1)) (blocks ?st) (unat (freeblock ?st))" "length (img ?st) = 1000"
        using t by (simp_all add: turn_def appended_def e1_def)
      show "unat (freeblock ?st) + used (off + n1 + length (drop n1 p)) \<le> 1000 + used (off + n1)" using fb cst less(8) n1 by simp
    qed (use less(4,6,7) sz n1 lc in \<open>simp_all add: e1_def\<close>)
    then obtain din' st' where r: "iappend_loop (drop n1 p) (off + n1) din1 ?st = Inr (off + length p, din', st')"
        "turn (D(n := e1)) n (drop n1 p) din1 ?st din' st'"
        "unat (freeblock st') + used (off + n1) = unat (freeblock ?st) + used (off + length p)" using n1 by auto
    have "turn D n (?c @ drop n1 p) din st din' st'" using turn_trans [OF t e1_def _ r(2)] sz less(6) lc by simp
    moreover have "n1 = min (length p) (1024 + fbn * 1024 - off)" by (simp add: n1_def)
    then have "iappend_loop p off din st = Inr (off + length p, din', st')"
      using False f k r(1) by (subst iappend_loop.simps) (simp add: Let_def fbn_def [symmetric])
    ultimately show ?thesis using r(3) fb cst by simp
  qed
qed

section \<open>The inodes in the image\<close>

definition inode_at :: "mkst \<Rightarrow> nat \<Rightarrow> dinode" where
  "inode_at st m = dinode_dec (slice (m mod 16 * 64) 64 (img st ! (m div 16 + 32)))"

definition mk_ok :: "mkst \<Rightarrow> bool" where
  "mk_ok st \<longleftrightarrow> length (img st) = 1000 \<and> msb st = mk_sb \<and> image_ok (inode_at st) (blocks st) (unat (freeblock st))"

text \<open>The bytes of file \<open>m\<close> of the image.\<close>

definition file_bytes :: "mkst \<Rightarrow> nat \<Rightarrow> byte list" where
  "file_bytes st m = dbytes (inode_at st m) (blocks st)"

lemma length_file_bytes: "length (file_bytes st m) = dsize (inode_at st m)"
  by (simp add: file_bytes_def dbytes_def)

lemma image_ok_cong:
  assumes ok: "image_ok D B fr" and D: "\<And>m. m < 208 \<Longrightarrow> D' m = D m" and B: "\<And>b. 46 \<le> b \<Longrightarrow> B' b = B b"
    and len: "\<And>b. b < 1000 \<Longrightarrow> length (B' b) = 1024"
  shows "image_ok D' B' fr"
proof (rule image_okI)
  have keep: "B' (blk_addr (D m) B k) = B (blk_addr (D m) B k)" if "m < 208" "live (D m) k" for m k
    using image_okD(6) [OF ok that] by (intro B) simp
  have a: "blk_addr (D' m) B' k = blk_addr (D m) B k" if "m < 208" "live (D m) k" for m k
    using blk_addr_live [OF that(2), of B' B] keep [OF that(1)] D [OF that(1)] by simp
  show "dinode_ok B' (D' m)" if "m < 208" for m
    unfolding D [OF that] using dinode_ok_frame [OF image_okD(5) [OF ok that]] keep [OF that] by blast
  show "46 \<le> blk_addr (D' m) B' k \<and> blk_addr (D' m) B' k < fr" if "m < 208" "live (D' m) k" for m k
    using image_okD(6) [OF ok that(1), of k] a [OF that(1), of k] that(2) D [OF that(1)] by simp
  show "m = m' \<and> k = k'" if "m < 208" "m' < 208" "live (D' m) k" "live (D' m') k'" "blk_addr (D' m) B' k = blk_addr (D' m') B' k'" for m m' k k'
    using image_okD(7) [OF ok that(1,2), of k k'] a [OF that(1), of k] a [OF that(2), of k'] that D by simp
  show "B' b = replicate 1024 0" if "fr \<le> b" "b < 1000" for b using image_okD(1,4) [OF ok] that B [of b] by simp
qed (use image_okD [OF ok] len in blast)+

lemma dbytes_high:
  assumes "image_ok D B fr" "m < 208" "\<And>b. 46 \<le> b \<Longrightarrow> B' b = B b"
  shows "dbytes (D m) B' = dbytes (D m) B"
  using image_okD(6) [OF assms(1,2)] assms(3) by (intro dbytes_frame) blast

lemma inode_place:
  assumes "n < 208"
  shows "unat (IBLOCK (of_nat n) mk_sb) = n div 16 + 32" "dioff (of_nat n) = n mod 16 * 64" "n div 16 + 32 < 45"
proof -
  have u: "unat (of_nat n :: uint) = n" using assms by (intro unat_of_nat_uint) simp
  then show "dioff (of_nat n) = n mod 16 * 64" by (simp add: dioff_def)
  show "n div 16 + 32 < 45" using assms by simp
  have "unat (of_nat n div 16 :: uint) = n div 16" using u by (simp add: unat_div)
  moreover have "sb_inodestart mk_sb = 32" by (simp add: mk_sb_def)
  ultimately show "unat (IBLOCK (of_nat n) mk_sb) = n div 16 + 32"
    using assms by (simp add: IBLOCK_def unat_word_ariths)
qed

lemma rinode_ok: "length (img st) = 1000 \<Longrightarrow> msb st = mk_sb \<Longrightarrow> n < 208 \<Longrightarrow> rinode (of_nat n) st = Inr (inode_at st n)"
  using inode_place [of n] by (simp add: rinode_def rsect_def inode_at_def Let_def)

lemma winode_ok:
  assumes "length (img st) = 1000" "msb st = mk_sb" "n < 208" "\<And>b. b < 1000 \<Longrightarrow> length (img st ! b) = 1024" "length (di_addrs d) = 13"
  shows "\<exists>st'. winode (of_nat n) d st = Inr st' \<and> length (img st') = 1000 \<and> msb st' = mk_sb \<and> freeblock st' = freeblock st \<and>
    freeinode st' = freeinode st \<and> (\<forall>m < 208. inode_at st' m = (if m = n then d else inode_at st m)) \<and>
    (\<forall>b. b < 32 \<or> 45 \<le> b \<longrightarrow> img st' ! b = img st ! b) \<and> (\<forall>b < 1000. length (img st' ! b) = 1024)"
proof -
  note p = inode_place [OF assms(3)]
  let ?bn = "n div 16 + 32" and ?o = "n mod 16 * 64"
  let ?buf = "patch ?o (dinode_enc d) (img st ! ?bn)"
  let ?st = "st\<lparr>img := (img st)[?bn := ?buf]\<rparr>"
  have w: "winode (of_nat n) d st = Inr ?st"
    using p assms(1,2) wsect_in [of "IBLOCK (of_nat n) mk_sb" st] by (simp add: winode_def rsect_def Let_def)
  have len: "length (dinode_enc d) = 64" "dinode_dec (dinode_enc d) = d"
    using dinode_dec_enc(1) [of d "[]"] dinode_dec_enc(2) [of d] assms(5) by simp_all
  have lb: "length (img st ! ?bn) = 1024" using assms(4) p(3) by simp
  have fit: "?o + length (dinode_enc d) \<le> length (img st ! ?bn)" using len lb by simp
  have i: "inode_at ?st m = (if m = n then d else inode_at st m)" for m
  proof (cases "m div 16 = n div 16")
    case False
    then show ?thesis using assms(1) p(3) by (auto simp: inode_at_def)
  next
    case same: True
    show ?thesis
    proof (cases "m = n")
      case True
      then show ?thesis using len fit p(3) assms(1) by (simp add: inode_at_def)
    next
      case False
      then have "m mod 16 \<noteq> n mod 16" using same by (metis div_mult_mod_eq)
      then have "m mod 16 * 64 + 64 \<le> ?o \<or> ?o + length (dinode_enc d) \<le> m mod 16 * 64" using len by auto
      then show ?thesis using slice_patch_other [OF fit] same False p(3) assms(1) by (simp add: inode_at_def)
    qed
  qed
  show ?thesis
  proof (intro exI conjI)
    show "winode (of_nat n) d st = Inr ?st" by (rule w)
    show "\<forall>b < 1000. length (img ?st ! b) = 1024" using assms(1,4) fit lb p(3) by (simp add: nth_list_update)
  qed (use i assms(1,2) p(3) in \<open>auto simp: nth_list_update\<close>)
qed

lemma mk_okD:
  assumes "mk_ok st"
  shows "length (img st) = 1000" "msb st = mk_sb" "image_ok (inode_at st) (blocks st) (unat (freeblock st))"
  using assms by (simp_all add: mk_ok_def)

text \<open>Writing an inode whose blocks are those of \<open>D\<close>.\<close>

lemma winode_mk_ok:
  assumes im: "length (img st) = 1000" "msb st = mk_sb" and n: "n < 208" and ok: "image_ok D (blocks st) (unat (freeblock st))"
    and D: "\<And>m. m < 208 \<Longrightarrow> m \<noteq> n \<Longrightarrow> D m = inode_at st m"
  shows "\<exists>st'. winode (of_nat n) (D n) st = Inr st' \<and> mk_ok st' \<and> (\<forall>m < 208. file_bytes st' m = dbytes (D m) (blocks st)) \<and>
    freeinode st' = freeinode st \<and> freeblock st' = freeblock st \<and> (\<forall>m < 208. inode_at st' m = D m) \<and>
    (\<forall>b. b < 32 \<or> b = 45 \<longrightarrow> img st' ! b = img st ! b)"
proof -
  have l: "length (di_addrs (D n)) = 13" using image_okD(5) [OF ok n] by (simp add: dinode_ok_def)
  obtain st' where w: "winode (of_nat n) (D n) st = Inr st'" "length (img st') = 1000" "msb st' = mk_sb"
      "freeblock st' = freeblock st" "freeinode st' = freeinode st" "\<And>m. m < 208 \<Longrightarrow> inode_at st' m = (if m = n then D n else inode_at st m)"
      "\<And>b. b < 32 \<or> 45 \<le> b \<Longrightarrow> img st' ! b = img st ! b" "\<And>b. b < 1000 \<Longrightarrow> length (img st' ! b) = 1024"
    using winode_ok [OF im n image_okD(3) [OF ok] l] by blast
  have Dm: "inode_at st' m = D m" if "m < 208" for m using w(6) [OF that] D [OF that] by simp
  have hi: "blocks st' b = blocks st b" if "46 \<le> b" for b using w(7) that by simp
  have "image_ok (inode_at st') (blocks st') (unat (freeblock st'))"
    unfolding w(4) using ok Dm hi w(8) by (rule image_ok_cong)
  then have "mk_ok st'" using w(2,3) by (simp add: mk_ok_def)
  moreover have "file_bytes st' m = dbytes (D m) (blocks st)" if "m < 208" for m
    unfolding file_bytes_def Dm [OF that] using ok that hi by (rule dbytes_high)
  ultimately show ?thesis using w(1,4,5,7) Dm by auto
qed

lemma iappend_ok:
  assumes ok: "mk_ok st" and n: "n < 208" and sz: "length (file_bytes st n) + length p \<le> 268 * 1024"
    and fr: "unat (freeblock st) + used (length (file_bytes st n) + length p) \<le> 1000 + used (length (file_bytes st n))"
  shows "\<exists>st'. iappend (of_nat n) p st = Inr st' \<and> mk_ok st' \<and> file_bytes st' n = file_bytes st n @ p \<and>
    (\<forall>m < 208. m \<noteq> n \<longrightarrow> file_bytes st' m = file_bytes st m \<and> inode_at st' m = inode_at st m) \<and>
    di_type (inode_at st' n) = di_type (inode_at st n) \<and> di_nlink (inode_at st' n) = di_nlink (inode_at st n) \<and> freeinode st' = freeinode st \<and>
    unat (freeblock st') + used (length (file_bytes st n)) = unat (freeblock st) + used (length (file_bytes st n) + length p) \<and>
    (\<forall>b. b < 32 \<or> b = 45 \<longrightarrow> img st' ! b = img st ! b)"
proof -
  let ?D = "inode_at st" and ?off = "length (file_bytes st n)"
  note m = mk_okD [OF ok]
  have off: "dsize (?D n) = ?off" by (simp add: length_file_bytes)
  have din: "?D n = (?D n)\<lparr>di_size := of_nat ?off\<rparr>" unfolding off [symmetric] dsize_def by (cases "?D n") simp
  obtain din' st1 where l: "iappend_loop p ?off (?D n) st = Inr (?off + length p, din', st1)" "turn ?D n p (?D n) st din' st1"
      "unat (freeblock st1) + used ?off = unat (freeblock st) + used (?off + length p)"
    using iappend_loop_ok [OF m(3,1) n din off sz fr] by blast
  define e where "e = din'\<lparr>di_size := of_nat (?off + length p)\<rparr>"
  have t: "length (img st1) = 1000" "msb st1 = mk_sb" "freeinode st1 = freeinode st" "\<And>b. b < 46 \<Longrightarrow> img st1 ! b = img st ! b"
      "image_ok (?D(n := e)) (blocks st1) (unat (freeblock st1))" "dbytes e (blocks st1) = file_bytes st n @ p"
      "\<And>m. m < 208 \<Longrightarrow> m \<noteq> n \<Longrightarrow> dbytes (?D m) (blocks st1) = file_bytes st m"
    using l(2) m(2) off by (auto simp: turn_def appended_def e_def file_bytes_def)
  have "(?D(n := e)) k = inode_at st1 k" if "k < 208" "k \<noteq> n" for k
    using that t(4) [of "k div 16 + 32"] inode_place(3) [OF that(1)] by (simp add: inode_at_def)
  from winode_mk_ok [OF t(1,2) n t(5) this]
  obtain st' where w: "winode (of_nat n) e st1 = Inr st'" "mk_ok st'" "\<And>m. m < 208 \<Longrightarrow> file_bytes st' m = dbytes ((?D(n := e)) m) (blocks st1)"
      "freeinode st' = freeinode st" "freeblock st' = freeblock st1" "\<And>m. m < 208 \<Longrightarrow> inode_at st' m = (?D(n := e)) m"
      "\<And>b. b < 32 \<or> b = 45 \<Longrightarrow> img st' ! b = img st1 ! b"
    using t(3) by auto
  have "iappend (of_nat n) p st = Inr st'"
    using rinode_ok [OF m(1,2) n] l(1) w(1) off by (simp add: iappend_def e_def dsize_def)
  moreover have "di_type e = di_type (?D n)" "di_nlink e = di_nlink (?D n)" using l(2) by (simp_all add: turn_def e_def)
  ultimately show ?thesis using w(2) w(3) [OF n] w(6) [OF n] w(3-7) t(4,6,7) l(3) by auto
qed

end
