(* ===== verification/Inode.thy ===== *)
theory Inode
  imports Trans Mkimg
begin

text \<open>
  The contents of inodes (\<^verbatim>\<open>fs.c\<close>): reading through \<^verbatim>\<open>bmap\<close> and the buffer cache gives the bytes of the file, as the blocks of the disk define them.
\<close>

section \<open>Operations that keep the cache\<close>

lemma cached_fs_fields [simp]:
  "cached p a (s\<lparr>inodes := f\<rparr>) = cached p a s" "cached p a (s\<lparr>sb := x\<rparr>) = cached p a s"
  "holder (s\<lparr>inodes := f\<rparr>) = holder s" "holder (s\<lparr>sb := x\<rparr>) = holder s"
  by (simp_all add: cached_def cached0_def holder_def buf_ok_def disk_idle_def quiet_def fun_eq_iff)

lemma fs_fields:
  assumes "bframe s s'"
  shows "inodes s' = inodes s" "sb s' = sb s"
proof -
  have d: "derase s' = derase s" using assms by (simp add: bframe_def)
  show "inodes s' = inodes s" "sb s' = sb s" using arg_cong [OF d, of inodes] arg_cong [OF d, of sb] by (simp_all add: derase_def)
qed

lemma bframe_refl [simp]: "bframe s s"
  by (simp add: bframe_def)

lemma bframe_settle [simp]: "bframe s (s\<lparr>lks := settle (lks s)\<rparr>)"
  by (simp add: bframe_def derase_def)

text \<open>A block is read and released: the cache is as before.\<close>

lemma read_block:
  assumes "cached p a s" "free_for a n"
  shows "\<exists>b s1. bread 1 n s = Inr (b, s1) \<and> buf_data b s1 = cview a n \<and> cached p (c_get n a) s1 \<and> holder s1 n b \<and> bframe s s1"
proof -
  obtain b s1 where r: "bread 1 n s = Inr (b, s1)" "cached p (c_get n a) s1" "holder s1 n b" "bkeep a s s1"
    using bc.get_law [OF assms(1), of n] assms(2) by (auto simp: free_for_def)
  moreover have "buf_data b s1 = cview a n" using buf_data_cached [OF r(2,3)] by (simp add: c_get_def)
  ultimately show ?thesis using bkeep_bframe by blast
qed

lemma release_block:
  assumes "cached p a s" "free_for a n" "cached p (c_get n a) s1" "holder s1 n b"
  shows "\<exists>s2. brelse b s1 = Inr s2 \<and> cached p a s2 \<and> bframe s1 s2"
proof -
  have h: "n \<in> cheld (c_get n a)" "c_rel n (c_get n a) = a" using assms(2) by (simp_all add: c_defs free_for_def)
  have "settled (c_get n a) n"
    using cached_view [OF assms(1), of n] assms(2) by (auto simp: settled_def free_for_def on_disk_def c_get_def)
  then obtain s2 where "brelse b s1 = Inr s2" "cached p a s2" "bkeep (c_get n a) s1 s2"
    using bc.put_law [OF assms(3,4) h(1)] h(2) by auto
  then show ?thesis using bkeep_bframe by blast
qed

section \<open>Reading\<close>

text \<open>The blocks of a cache by number; the blocks of a file can be had.\<close>

abbreviation view :: "cache \<Rightarrow> nat \<Rightarrow> byte list" where
  "view a \<equiv> \<lambda>n. cview a (of_nat n)"

definition file_ok :: "cache \<Rightarrow> dinode \<Rightarrow> bool" where
  "file_ok a d \<longleftrightarrow> dsize d \<le> 268 * 1024 \<and>
     (\<forall>k. live d k \<longrightarrow> blk_addr d (view a) k \<noteq> 0 \<and> free_for a (of_nat (blk_addr d (view a) k)) \<and> length (view a (blk_addr d (view a) k)) = 1024)"

lemma nblk_le: "z \<le> 268 * 1024 \<Longrightarrow> nblk z \<le> 268"
  by (simp add: nblk_def)

lemma bmap_ok:
  assumes "cached p a s" "idev (inodes s ip) = 1" "file_ok a (idi (inodes s ip))" "live (idi (inodes s ip)) (unat bn)" "bn < 268"
  shows "\<exists>s'. bmap ip bn s = Inr (of_nat (blk_addr (idi (inodes s ip)) (view a) (unat bn)), s') \<and> cached p a s' \<and> bframe s s'"
proof -
  let ?d = "idi (inodes s ip)" and ?k = "unat bn"
  have k: "?k < 268" using assms(5) by (simp add: word_less_nat_alt)
  note f = assms(3) [unfolded file_ok_def, THEN conjunct2, rule_format]
  show ?thesis
  proof (cases "bn < 12")
    case True
    then have "?k < 12" by (simp add: word_less_nat_alt)
    moreover from this have "iaddrs ip s ! ?k \<noteq> 0" using f [OF assms(4)] by (auto simp: blk_addr_def)
    ultimately show ?thesis using True assms(1) by (simp add: bmap_def blk_addr_def)
  next
    case False
    then have k12: "12 \<le> ?k" by (simp add: word_less_nat_alt)
    have u: "unat (bn - 12) = ?k - 12" "bn - 12 < 256" using k k12 by (simp_all add: unat_sub_if' word_less_nat_alt)
    have l: "live ?d 268" using live_ind [OF assms(4) k12] .
    let ?i = "iaddrs ip s ! 12"
    have i: "of_nat (blk_addr ?d (view a) 268) = ?i" "?i \<noteq> 0" using f [OF l] by (auto simp: blk_addr_def)
    have fr: "free_for a ?i" using f [OF l] i(1) by simp
    obtain b s1 where r: "bread 1 ?i s = Inr (b, s1)" "buf_data b s1 = cview a ?i" "cached p (c_get ?i a) s1" "holder s1 ?i b" "bframe s s1"
      using read_block [OF assms(1) fr] by blast
    obtain s2 where q: "brelse b s1 = Inr s2" "cached p a s2" "bframe s1 s2" using release_block [OF assms(1) fr r(3,4)] by blast
    have a: "of_nat (blk_addr ?d (view a) ?k) = get32 (cview a ?i) (4 * (?k - 12))" using k k12 by (simp add: blk_addr_def)
    moreover have "of_nat (blk_addr ?d (view a) ?k) \<noteq> (0 :: uint)" using f [OF assms(4)] k k12 by (auto simp: blk_addr_def)
    ultimately have "bmap ip bn s = Inr (of_nat (blk_addr ?d (view a) ?k), s2)"
      using False u i(2) r(1,2) q(1) fs_fields [OF r(5)] assms(2) by (simp add: bmap_def Let_def)
    then show ?thesis using q(2) bframe_trans [OF r(5) q(3)] by blast
  qed
qed

lemma dbytes_slice:
  assumes "off + m \<le> dsize d" "off mod 1024 + m \<le> 1024" "length (B (blk_addr d B (off div 1024))) = 1024"
  shows "slice (off mod 1024) m (B (blk_addr d B (off div 1024))) = take m (drop off (dbytes d B))"
proof (rule nth_equalityI)
  fix i assume "i < length (slice (off mod 1024) m (B (blk_addr d B (off div 1024))))"
  then have i: "i < m" by (simp add: slice_def)
  define q r where "q = off div 1024" and "r = off mod 1024"
  have "off = q * 1024 + r" "r + i < 1024" using i assms(2) by (simp_all add: q_def r_def)
  then have "(off + i) div 1024 = q" "(off + i) mod 1024 = r + i" by (simp_all add: add.assoc)
  then show "slice (off mod 1024) m (B (blk_addr d B (off div 1024))) ! i = take m (drop off (dbytes d B)) ! i"
    using i assms by (simp add: slice_def dbytes_def q_def r_def)
qed (use assms in \<open>simp add: slice_def dbytes_def\<close>)

lemma either_copyout_Kbuf: "either_copyout Kbuf bs s = Inr (0, s\<lparr>lks := settle (lks s)\<rparr>)"
  by (simp add: either_copyout_def myproc_eq)

lemma unat_div_1024: "unat (off div 1024 :: uint) = unat off div 1024"
  by (simp add: unat_div)

lemma readi_loop_ok:
  assumes "cached p a s" "idev (inodes s ip) = 1" "d = idi (inodes s ip)" "file_ok a d" "tot \<le> n" "unat off + (n - tot) \<le> dsize d"
  shows "\<exists>s'. readi_loop ip Kbuf off tot n acc s = Inr ((int n, acc @ take (n - tot) (drop (unat off) (dbytes d (view a)))), s') \<and>
    cached p a s' \<and> bframe s s'"
  using assms
proof (induction "n - tot" arbitrary: off tot acc s rule: less_induct)
  case less
  show ?case
  proof (cases "tot < n")
    case False
    then show ?thesis using less.prems by (subst readi_loop.simps) simp
  next
    case True
    let ?k = "unat off div 1024" and ?m = "chunk (n - tot) off"
    let ?n = "blk_addr d (view a) ?k"
    have sz: "dsize d \<le> 268 * 1024" "unat off < dsize d" using less.prems(4,6) True by (simp_all add: file_ok_def)
    have k: "?k < 268" using sz less_mult_imp_div_less [of "unat off" 268 1024] by linarith
    have "?k < nblk (dsize d)" using sz(2) by (simp add: nblk_def div_less_iff_less_mult algebra_simps)
    then have lv: "live d (unat (off div 1024))" by (simp add: live_def unat_div_1024)
    have fr: "free_for a (of_nat ?n)" "length (view a ?n) = 1024" using less.prems(4) lv by (auto simp: file_ok_def unat_div_1024)
    have bn: "off div 1024 < 268" using k by (simp add: word_less_nat_alt unat_div_1024)
    obtain s1 where b: "bmap ip (off div 1024) s = Inr (of_nat ?n, s1)" "cached p a s1" "bframe s s1"
      using bmap_ok [OF less.prems(1,2), of "off div 1024"] less.prems(3,4) lv bn by (auto simp: unat_div_1024)
    obtain b s2 where r: "bread 1 (of_nat ?n) s1 = Inr (b, s2)" "buf_data b s2 = view a ?n" "cached p (c_get (of_nat ?n) a) s2"
        "holder s2 (of_nat ?n) b" "bframe s1 s2"
      using read_block [OF b(2) fr(1)] by blast
    let ?s2 = "s2\<lparr>lks := settle (lks s2)\<rparr>"
    have "cached p (c_get (of_nat ?n) a) ?s2" "holder ?s2 (of_nat ?n) b" using r(3,4) by simp_all
    from release_block [OF b(2) fr(1) this]
    obtain s3 where q: "brelse b ?s2 = Inr s3" "cached p a s3" "bframe ?s2 s3" by blast
    have F: "bframe s s3" using bframe_trans [OF bframe_trans [OF bframe_trans [OF b(3) r(5)] bframe_settle] q(3)] .
    have m: "0 < ?m" "?m \<le> n - tot" "unat off mod 1024 + ?m \<le> 1024" using True chunk_pos [of "n - tot" off] by (auto simp: chunk_def)
    let ?bs = "slice (unat off mod 1024) ?m (view a ?n)" and ?off = "off + of_nat ?m"
    have bs: "?bs = take ?m (drop (unat off) (dbytes d (view a)))" using dbytes_slice [OF _ m(3), of d "view a"] fr(2) m(2) less.prems(6) by simp
    have uo: "unat ?off = unat off + ?m" using sz m less.prems(6) by (simp add: unat_word_ariths unat_of_nat)
    have le: "tot + ?m \<le> n" using m(2) True by linarith
    have e: "unat ?off + (n - (tot + ?m)) \<le> dsize d" using uo le less.prems(6) by linarith
    have nn: "?m + (n - (tot + ?m)) = n - tot" using le by linarith
    have dl: "n - (tot + ?m) < n - tot" using True m(1) by (intro diff_less_mono2) simp_all
    have "\<exists>s'. readi_loop ip Kbuf ?off (tot + ?m) n (acc @ ?bs) s3 =
        Inr ((int n, (acc @ ?bs) @ take (n - (tot + ?m)) (drop (unat ?off) (dbytes d (view a)))), s') \<and> cached p a s' \<and> bframe s3 s'"
      by (rule less.hyps [OF dl q(2) _ _ less.prems(4) le e]) (simp_all add: fs_fields [OF F] less.prems(2,3))
    then obtain s' where s': "readi_loop ip Kbuf ?off (tot + ?m) n (acc @ ?bs) s3 =
        Inr ((int n, (acc @ ?bs) @ take (n - (tot + ?m)) (drop (unat ?off) (dbytes d (view a)))), s')" "cached p a s'" "bframe s3 s'" by blast
    have "readi_loop ip Kbuf off tot n acc s = readi_loop ip Kbuf ?off (tot + ?m) n (acc @ ?bs) s3"
      using True b(1) r(1,2) q(1) fs_fields [OF b(3)] less.prems(2)
      by (subst readi_loop.simps) (simp add: Let_def either_copyout_Kbuf dst_add_def)
    moreover have "?bs @ take (n - (tot + ?m)) (drop (unat ?off) (dbytes d (view a))) = take (n - tot) (drop (unat off) (dbytes d (view a)))"
      unfolding bs uo using nn take_add [of ?m "n - (tot + ?m)" "drop (unat off) (dbytes d (view a))"] by (simp add: add.commute)
    ultimately show ?thesis using s' bframe_trans [OF F s'(3)] by simp
  qed
qed

lemma readi_ok:
  assumes "cached p a s" "idev (inodes s ip) = 1" "d = idi (inodes s ip)" "file_ok a d" "unat off \<le> dsize d" "unat off + unat n < 2 ^ 32"
  shows "\<exists>s'. readi ip Kbuf off n s = Inr ((int (min (unat n) (dsize d - unat off)), take (unat n) (drop (unat off) (dbytes d (view a)))), s') \<and>
    cached p a s' \<and> bframe s s'"
proof -
  have o: "\<not> off > di_size d" "\<not> off + n < off" "unat (off + n) = unat off + unat n"
    using assms(5,6) by (simp_all add: word_less_nat_alt dsize_def unat_word_ariths)
  let ?n = "unat (if off + n > di_size d then di_size d - off else n)"
  have n: "?n = min (unat n) (dsize d - unat off)"
    using o assms(5) by (auto simp: word_less_nat_alt dsize_def unat_sub_if')
  have le: "unat off + (?n - 0) \<le> dsize d" unfolding n using assms(5) by linarith
  obtain s' where s': "readi_loop ip Kbuf off 0 ?n [] s = Inr ((int ?n, [] @ take (?n - 0) (drop (unat off) (dbytes d (view a)))), s')"
      "cached p a s'" "bframe s s'"
    using readi_loop_ok [OF assms(1-4) le0 le, of "[]"] by blast
  have t: "take (min (unat n) (dsize d - unat off)) (drop (unat off) (dbytes d (view a))) = take (unat n) (drop (unat off) (dbytes d (view a)))"
    by (simp add: dbytes_def min_def)
  have "readi ip Kbuf off n s = readi_loop ip Kbuf off 0 ?n [] s" using o assms(3) by (simp add: readi_def)
  also have "\<dots> = Inr ((int (min (unat n) (dsize d - unat off)), take (unat n) (drop (unat off) (dbytes d (view a)))), s')"
    using s'(1) unfolding n minus_nat.diff_0 t by simp
  finally show ?thesis using s'(2,3) by blast
qed

section \<open>The inode table\<close>

text \<open>
  The state of the file system for process \<open>p\<close>: the cache, the inode table \<open>f\<close>, the superblock, and the set \<open>L\<close> of inodes that the process has locked;
  no inode is locked by another process.
\<close>

definition fs_at :: "nat \<Rightarrow> cache \<Rightarrow> (nat \<Rightarrow> inode) \<Rightarrow> nat set \<Rightarrow> superblock \<Rightarrow> 'a fsst_scheme \<Rightarrow> bool" where
  "fs_at p a f L k s \<longleftrightarrow> cached p a s \<and> inodes s = f \<and> sb s = k \<and> (\<forall>i. slocked (slocks s (InodeLk i)) \<longleftrightarrow> i \<in> L) \<and>
     (\<forall>i. i \<in> L \<longrightarrow> slpid (slocks s (InodeLk i)) = pid (procs s p))"

lemma fs_at_frame: "fs_at p a f L k s \<Longrightarrow> cached p a' s' \<Longrightarrow> bframe s s' \<Longrightarrow> fs_at p a' f L k s'"
  using fs_fields [of s s'] by (auto simp: fs_at_def bframe_def procs_sim_pid)

lemma cached_ilock [simp]: "cached p a (s\<lparr>slocks := (slocks s)(InodeLk i := x)\<rparr>) = cached p a s"
  by (simp add: cached_def cached0_def holder_def buf_ok_def disk_idle_def quiet_def fun_eq_iff)

lemma fs_atD:
  assumes "fs_at p a f L k s"
  shows "cached p a s" "inodes s = f" "sb s = k" "quiet s" "cproc (mycpu (lks s)) = Some p" "lock_free x (lks s)"
  using assms cached0D(2,3) [of p a s] quietD [of s] by (auto simp: fs_at_def cached_def)

definition iget_slot :: "(nat \<Rightarrow> inode) \<Rightarrow> uint \<Rightarrow> nat \<Rightarrow> bool" where
  "iget_slot f n i \<longleftrightarrow> i < NINODE \<and> iref (f i) = 0 \<and> (\<forall>j < i. iref (f j) \<noteq> 0) \<and> (\<forall>j < NINODE. 0 < iref (f j) \<longrightarrow> \<not> (idev (f j) = 1 \<and> inum (f j) = n))"

lemma iget_new:
  assumes "fs_at p a f L k s" "iget_slot f n i"
  shows "\<exists>s'. iget 1 n s = Inr (i, s') \<and> fs_at p a (f(i := (f i)\<lparr>idev := 1, inum := n, iref := 1, ivalid := False\<rparr>)) L k s'"
proof -
  note D = fs_atD [OF assms(1)]
  let ?P = "\<lambda>j. 0 < iref (f j) \<and> idev (f j) = 1 \<and> inum (f j) = n"
  have "scan ?P 0 NINODE = None"
  proof (cases "scan ?P 0 NINODE")
    case (Some j)
    then show ?thesis using scan_SomeD [OF Some] assms(2) by (auto simp: iget_slot_def)
  qed
  moreover have "scan (\<lambda>j. iref (f j) = 0) 0 NINODE = Some i" using assms(2) by (simp add: iget_slot_def scan_Some_iff)
  ultimately have "iget 1 n s = Inr (i, s\<lparr>inodes := f(i := (f i)\<lparr>idev := 1, inum := n, iref := 1, ivalid := False\<rparr>), lks := settle (lks s)\<rparr>)"
    using D(2,6) by (simp add: iget_def lock_ok upd_inode_def unlock_ok [of _ _ "lks s"])
  then show ?thesis using assms(1) by (auto simp: fs_at_def)
qed

text \<open>The inode on the disk.\<close>

definition disk_inode :: "cache \<Rightarrow> superblock \<Rightarrow> uint \<Rightarrow> dinode" where
  "disk_inode a k n = dinode_dec (slice (dioff n) 64 (cview a (IBLOCK n k)))"

lemma ilock_load:
  assumes "fs_at p a f L k s" "i \<notin> L" "1 \<le> iref (f i)" "idev (f i) = 1" "\<not> ivalid (f i)" "free_for a (IBLOCK (inum (f i)) k)"
    and d: "d = disk_inode a k (inum (f i))" "di_type d \<noteq> 0"
  shows "\<exists>s'. ilock (Some i) s = Inr s' \<and> fs_at p a (f(i := (f i)\<lparr>idi := d, ivalid := True\<rparr>)) (insert i L) k s'"
proof -
  note D = fs_atD [OF assms(1)]
  let ?n = "IBLOCK (inum (f i)) k"
  let ?s = "s\<lparr>slocks := (slocks s)(InodeLk i := (slocks s (InodeLk i))\<lparr>slocked := True, slpid := pid (procs s p)\<rparr>), lks := settle (lks s)\<rparr>"
  have "\<not> slocked (slocks s (InodeLk i))" using assms(1,2) by (simp add: fs_at_def)
  note ac = acquiresleep_quiet [OF D(4,5) this]
  have c: "cached p a ?s" using D(1) by simp
  have at: "fs_at p a f (insert i L) k ?s" using assms(1) c by (auto simp: fs_at_def)
  obtain b s1 where r: "bread 1 ?n ?s = Inr (b, s1)" "buf_data b s1 = cview a ?n" "cached p (c_get ?n a) s1" "holder s1 ?n b" "bframe ?s s1"
    using read_block [OF c assms(6)] by blast
  have i1: "inodes s1 = f" using fs_fields(1) [OF r(5)] D(2) by simp
  let ?s1 = "upd_idi i (\<lambda>_. d) s1"
  have e: "?s1 = s1\<lparr>inodes := f(i := (f i)\<lparr>idi := d\<rparr>)\<rparr>" by (simp add: upd_idi_def upd_inode_def i1)
  have "cached p (c_get ?n a) ?s1" "holder ?s1 ?n b" using r(3,4) by (simp_all add: e)
  from release_block [OF c assms(6) this]
  obtain s2 where q: "brelse b ?s1 = Inr s2" "cached p a s2" "bframe ?s1 s2" by blast
  have "fs_at p (c_get ?n a) (f(i := (f i)\<lparr>idi := d\<rparr>)) (insert i L) k ?s1"
    using fs_at_frame [OF at r(3,5)] by (simp add: fs_at_def e)
  note at2 = fs_at_frame [OF this q(2,3)]
  let ?s2 = "upd_inode i (\<lambda>q. q\<lparr>ivalid := True\<rparr>) s2"
  have "fs_at p a (f(i := (f i)\<lparr>idi := d, ivalid := True\<rparr>)) (insert i L) k ?s2"
    using at2 by (simp add: fs_at_def upd_inode_def)
  moreover have "ilock (Some i) s = Inr ?s2"
    using ac D(2,3) assms(3-5) r(1,2) q(1) i1 d fs_atD(2) [OF at2]
    by (simp add: ilock_def Let_def disk_inode_def upd_inode_def)
  ultimately show ?thesis by blast
qed

lemma cached_wake:
  assumes "cached p a s" "procs_sim (procs s) g"
  shows "cached p a (s\<lparr>slocks := (slocks s)(InodeLk i := x), procs := g, lks := settle (lks s)\<rparr>)"
proof -
  have e: "s\<lparr>slocks := (slocks s)(InodeLk i := x), procs := g, lks := settle (lks s)\<rparr> =
      (let t = s\<lparr>slocks := (slocks s)(InodeLk i := x)\<rparr>; u = t\<lparr>procs := g\<rparr> in u\<lparr>lks := settle (lks u)\<rparr>)" by (simp add: Let_def)
  show ?thesis unfolding e Let_def using assms by (simp add: cached_procs)
qed

lemma iunlock_ok:
  assumes "fs_at p a f L k s" "i \<in> L" "1 \<le> iref (f i)"
  shows "\<exists>s'. iunlock (Some i) s = Inr s' \<and> fs_at p a f (L - {i}) k s'"
proof -
  note D = fs_atD [OF assms(1)]
  let ?s = "s\<lparr>lks := settle (lks s)\<rparr>"
  have q: "quiet ?s" using D(6) by simp
  let ?g = "woken (sl_chan (InodeLk i)) (cproc (mycpu (lks s))) [0..<NPROC] (procs s)"
  let ?s' = "s\<lparr>slocks := (slocks s)(InodeLk i := (slocks s (InodeLk i))\<lparr>slocked := False, slpid := 0\<rparr>), procs := ?g, lks := settle (lks s)\<rparr>"
  have h: "slocked (slocks s (InodeLk i))" "slpid (slocks s (InodeLk i)) = pid (procs s p)" using assms(1,2) by (auto simp: fs_at_def)
  have "iunlock (Some i) s = Inr ?s'"
    using releasesleep_quiet [OF q, of "InodeLk i"] holdingsleep_quiet [OF D(4,5), of "InodeLk i"] h assms(3) D(2)
    by (simp add: iunlock_def)
  moreover have "cached p a ?s'" by (rule cached_wake [OF D(1) procs_sim_woken])
  ultimately show ?thesis using assms(1) procs_sim_pid [OF procs_sim_woken] by (auto simp: fs_at_def)
qed

lemma iput_ok:
  assumes "fs_at p a f L k s" "di_nlink (idi (f i)) \<noteq> 0"
  shows "\<exists>s'. iput i s = Inr s' \<and> fs_at p a (f(i := (f i)\<lparr>iref := iref (f i) - 1\<rparr>)) L k s'"
proof -
  note D = fs_atD [OF assms(1)]
  have "iput i s = Inr (s\<lparr>inodes := f(i := (f i)\<lparr>iref := iref (f i) - 1\<rparr>), lks := settle (lks s)\<rparr>)"
    using D(2,6) assms(2) by (simp add: iput_def lock_ok upd_inode_def unlock_ok [of _ _ "lks s"])
  then show ?thesis using assms(1) by (auto simp: fs_at_def)
qed

lemma readi_at:
  assumes "fs_at p a f L k s" "idev (f i) = 1" "file_ok a (idi (f i))" "unat off \<le> dsize (idi (f i))" "unat off + unat n < 2 ^ 32"
  shows "\<exists>s'. readi i Kbuf off n s =
      Inr ((int (min (unat n) (dsize (idi (f i)) - unat off)), take (unat n) (drop (unat off) (dbytes (idi (f i)) (view a)))), s') \<and> fs_at p a f L k s'"
proof -
  note D = fs_atD [OF assms(1)]
  have "idev (inodes s i) = 1" "idi (f i) = idi (inodes s i)" using assms(2) D(2) by simp_all
  from readi_ok [OF D(1) this assms(3-5)] show ?thesis using fs_at_frame [OF assms(1)] by blast
qed

section \<open>Directories\<close>

definition dent :: "byte list \<Rightarrow> nat \<Rightarrow> byte list" where
  "dent bs j = slice (16 * j) 16 bs"

definition dent_match :: "byte list \<Rightarrow> byte list \<Rightarrow> nat \<Rightarrow> bool" where
  "dent_match bs name j \<longleftrightarrow> get16 (dent bs j) 0 \<noteq> 0 \<and> namecmp name (drop 2 (dent bs j)) = 0"

lemma readi_dent:
  assumes "fs_at p a f L k s" "idev (f dp) = 1" "file_ok a (idi (f dp))" "16 * j + 16 \<le> dsize (idi (f dp))"
  shows "\<exists>s'. readi dp Kbuf (of_nat (16 * j)) 16 s = Inr ((16, dent (dbytes (idi (f dp)) (view a)) j), s') \<and> fs_at p a f L k s'"
proof -
  let ?d = "idi (f dp)"
  have b: "dsize ?d \<le> 268 * 1024" using assms(3) by (simp add: file_ok_def)
  have o: "unat (of_nat (16 * j) :: uint) = 16 * j" using assms(4) b by (simp only: unat_of_nat) simp
  have n: "min (unat (16 :: uint)) (dsize ?d - 16 * j) = 16" using assms(4) by simp
  have "unat (of_nat (16 * j) :: uint) \<le> dsize ?d" "unat (of_nat (16 * j) :: uint) + unat (16 :: uint) < 2 ^ 32"
    unfolding o using assms(4) b by simp_all
  from readi_at [OF assms(1-3) this] show ?thesis unfolding o n by (simp add: dent_def slice_def)
qed

lemma dirlookup_loop_ok:
  assumes "fs_at p a f L k s" "idev (f dp) = 1" "file_ok a (idi (f dp))" "bs = dbytes (idi (f dp)) (view a)" "j \<le> m" "16 * m + 16 \<le> dsize (idi (f dp))"
    "dent_match bs name m" "\<And>i. j \<le> i \<Longrightarrow> i < m \<Longrightarrow> \<not> dent_match bs name i" "iget_slot f (ucast (get16 (dent bs m) 0)) x" "m < j + fuel"
  shows "\<exists>s'. dirlookup_loop fuel dp name (of_nat (16 * j)) s = Inr (Some (x, of_nat (16 * m)), s') \<and>
    fs_at p a (f(x := (f x)\<lparr>idev := 1, inum := ucast (get16 (dent bs m) 0), iref := 1, ivalid := False\<rparr>)) L k s'"
  using assms(1,5,8,10)
proof (induction fuel arbitrary: j s)
  case (Suc fuel)
  let ?d = "idi (f dp)"
  have j: "16 * j + 16 \<le> dsize ?d" using Suc.prems(2) assms(6) by linarith
  obtain s1 where r: "readi dp Kbuf (of_nat (16 * j)) 16 s = Inr ((16, dent bs j), s1)" "fs_at p a f L k s1"
    using readi_dent [OF Suc.prems(1) assms(2,3) j] assms(4) by auto
  have "dsize ?d < 2 ^ 32" using unsigned_less [of "di_size ?d"] by (simp add: dsize_def)
  then have u: "unat (of_nat (16 * j) :: uint) = 16 * j" using j by (simp only: unat_of_nat) simp
  have off: "of_nat (16 * j) < isize dp s" "of_nat (16 * j) + 16 = (of_nat (16 * Suc j) :: uint)"
    using j fs_atD(2) [OF Suc.prems(1)] u by (simp_all only: word_less_nat_alt) (simp_all add: dsize_def)
  have i1: "idev (inodes s1 dp) = 1" using fs_atD(2) [OF r(2)] assms(2) by simp
  show ?case
  proof (cases "j = m")
    case True
    obtain s2 where g: "iget 1 (ucast (get16 (dent bs m) 0)) s1 = Inr (x, s2)"
        "fs_at p a (f(x := (f x)\<lparr>idev := 1, inum := ucast (get16 (dent bs m) 0), iref := 1, ivalid := False\<rparr>)) L k s2"
      using iget_new [OF r(2) assms(9)] by blast
    have "dirlookup_loop (Suc fuel) dp name (of_nat (16 * j)) s = Inr (Some (x, of_nat (16 * m)), s2)"
      using g(1) True off(1) r(1) assms(7) i1 by (simp add: dent_match_def)
    then show ?thesis using g(2) by blast
  next
    case False
    have "dirlookup_loop (Suc fuel) dp name (of_nat (16 * j)) s = dirlookup_loop fuel dp name (of_nat (16 * Suc j)) s1"
      using off r(1) Suc.prems(3) [OF le_refl] False Suc.prems(2) by (auto simp: dent_match_def add.commute)
    moreover have "\<exists>s'. dirlookup_loop fuel dp name (of_nat (16 * Suc j)) s1 = Inr (Some (x, of_nat (16 * m)), s') \<and>
        fs_at p a (f(x := (f x)\<lparr>idev := 1, inum := ucast (get16 (dent bs m) 0), iref := 1, ivalid := False\<rparr>)) L k s'"
      by (rule Suc.IH [OF r(2)]) (use False Suc.prems(2,3,4) in auto)
    ultimately show ?thesis by (simp only:)
  qed
qed simp

lemma dirlookup_ok:
  assumes "fs_at p a f L k s" "idev (f dp) = 1" "file_ok a (idi (f dp))" "bs = dbytes (idi (f dp)) (view a)" "di_type (idi (f dp)) = T_DIR"
    "16 * m + 16 \<le> dsize (idi (f dp))" "dent_match bs name m" "\<And>i. i < m \<Longrightarrow> \<not> dent_match bs name i" "iget_slot f (ucast (get16 (dent bs m) 0)) x"
  shows "\<exists>s'. dirlookup dp name s = Inr (Some (x, of_nat (16 * m)), s') \<and>
    fs_at p a (f(x := (f x)\<lparr>idev := 1, inum := ucast (get16 (dent bs m) 0), iref := 1, ivalid := False\<rparr>)) L k s'"
proof -
  have "m < 0 + entries dp s" using assms(6) fs_atD(2) [OF assms(1)] by (simp add: entries_def dsize_def)
  then have "\<exists>s'. dirlookup_loop (entries dp s) dp name (of_nat (16 * 0)) s = Inr (Some (x, of_nat (16 * m)), s') \<and>
      fs_at p a (f(x := (f x)\<lparr>idev := 1, inum := ucast (get16 (dent bs m) 0), iref := 1, ivalid := False\<rparr>)) L k s'"
    using assms(8) by (intro dirlookup_loop_ok [OF assms(1-4) le0 assms(6,7) _ assms(9)]) auto
  moreover have "dirlookup dp name s = dirlookup_loop (entries dp s) dp name (of_nat (16 * 0)) s"
    using assms(5) fs_atD(2) [OF assms(1)] by (simp add: dirlookup_def)
  ultimately show ?thesis by (simp only:)
qed

lemma skipelem_one:
  assumes "nm \<noteq> []" "47 \<notin> set nm"
  shows "skipelem (47 # nm) (replicate 14 0) = Some ([], de_name nm)"
proof -
  have d: "dropWhile (\<lambda>c. c = 47) nm = nm" using assms by (cases nm) auto
  have t: "takeWhile (\<lambda>c. c \<noteq> 47) nm = nm" "dropWhile (\<lambda>c. c \<noteq> 47) nm = []" using assms(2) by (auto simp: takeWhile_eq_all_conv dropWhile_eq_Nil_conv)
  have "(if 14 \<le> length nm then patch 0 (take 14 nm) (replicate 14 0) else patch 0 (nm @ [0]) (replicate 14 0)) = de_name nm"
    by (auto simp: patch_def de_name_def replicate_app_Cons_same simp flip: replicate_Suc)
  then show ?thesis using assms(1) by (simp add: skipelem_def d t Let_def)
qed

text \<open>A file of the root directory is found by its path, when the inode table is empty: it gets the second entry of the table.\<close>

lemma namei_ok:
  fixes f :: "nat \<Rightarrow> inode"
  defines "root \<equiv> \<lambda>a k. disk_inode a k 1"
  assumes "fs_at p a f {} k s" "\<And>i. iref (f i) = 0" "file_ok a (root a k)" "di_type (root a k) = T_DIR" "di_nlink (root a k) \<noteq> 0" "free_for a (IBLOCK 1 k)"
    "bs = dbytes (root a k) (view a)" "nm \<noteq> []" "47 \<notin> set nm" "16 * m + 16 \<le> dsize (root a k)" "dent_match bs (de_name nm) m"
    "\<And>i. i < m \<Longrightarrow> \<not> dent_match bs (de_name nm) i" "n = ucast (get16 (dent bs m) 0)" "n \<noteq> 1"
  shows "\<exists>s' f'. namei (47 # nm) s = Inr (Some 1, s') \<and> fs_at p a f' {} k s' \<and> idev (f' 1) = 1 \<and> inum (f' 1) = n \<and> iref (f' 1) = 1 \<and> \<not> ivalid (f' 1)"
proof -
  let ?r = "root a k"
  have "iget_slot f 1 0" using assms(3) by (simp add: iget_slot_def)
  then obtain s1 where 1: "iget 1 1 s = Inr (0, s1)" "fs_at p a (f(0 := (f 0)\<lparr>idev := 1, inum := 1, iref := 1, ivalid := False\<rparr>)) {} k s1"
    using iget_new [OF assms(2)] by blast
  define f2 where "f2 = f(0 := (f 0)\<lparr>idev := 1, inum := 1, iref := 1, idi := ?r, ivalid := True\<rparr>)"
  have "\<exists>s2. ilock (Some 0) s1 = Inr s2 \<and> fs_at p a f2 {0} k s2"
    using ilock_load [OF 1(2), of 0 ?r] assms(4-7) by (simp add: f2_def root_def)
  then obtain s2 where 2: "ilock (Some 0) s1 = Inr s2" "fs_at p a f2 {0} k s2" by blast
  have f2: "idev (f2 0) = 1" "idi (f2 0) = ?r" by (simp_all add: f2_def)
  have "iget_slot f2 n 1" using assms(3,15) by (auto simp: iget_slot_def f2_def)
  then obtain s3 where 3: "dirlookup 0 (de_name nm) s2 = Inr (Some (1, of_nat (16 * m)), s3)"
      "fs_at p a (f2(1 := (f2 1)\<lparr>idev := 1, inum := n, iref := 1, ivalid := False\<rparr>)) {0} k s3"
    using dirlookup_ok [OF 2(2) f2(1), of bs m "de_name nm" 1] assms(4,5,8,11-14) f2(2) by auto
  let ?f3 = "f2(1 := (f2 1)\<lparr>idev := 1, inum := n, iref := 1, ivalid := False\<rparr>)"
  obtain s4 where 4: "iunlock (Some 0) s3 = Inr s4" "fs_at p a ?f3 {} k s4"
    using iunlock_ok [OF 3(2), of 0] by (auto simp: f2_def)
  obtain s5 where 5: "iput 0 s4 = Inr s5" "fs_at p a (?f3(0 := (?f3 0)\<lparr>iref := iref (?f3 0) - 1\<rparr>)) {} k s5"
    using iput_ok [OF 4(2), of 0] assms(6) f2(2) by auto
  have ty: "itype 0 s2 = T_DIR" using fs_atD(2) [OF 2(2)] assms(5) f2(2) by simp
  have "namex_loop False 1 [] (de_name nm) s5 = Inr ((Some 1, de_name nm), s5)" by (subst namex_loop.simps) (simp add: skipelem_def)
  then have "namex_loop False 0 (47 # nm) (replicate 14 0) s1 = Inr ((Some 1, de_name nm), s5)"
    using 2(1) 3(1) 4(1) 5(1) ty by (subst namex_loop.simps) (simp add: skipelem_one [OF assms(9,10)] iunlockput_def)
  then have "namei (47 # nm) s = Inr (Some 1, s5)" using 1(1) by (simp add: namei_def namex_def)
  then show ?thesis using 5(2) by (intro exI [of _ s5] exI [of _ "?f3(0 := (?f3 0)\<lparr>iref := iref (?f3 0) - 1\<rparr>)"]) simp
qed

end
