(* ===== verification/Mkrun.thy ===== *)
theory Mkrun
  imports Mkimg
begin

text \<open>
  The whole run of \<^verbatim>\<open>mkfs\<close>: the image it makes has a superblock, a root directory that names the files, the contents of the files, and a
  bitmap that marks the blocks they take.
\<close>

section \<open>The empty image\<close>

lemma wsect_next: "length (img st) = n \<Longrightarrow> n < 2 ^ 32 \<Longrightarrow> wsect (of_nat n) buf st = st\<lparr>img := img st @ [buf]\<rparr>"
  by (simp add: wsect_def Let_def unat_of_nat_uint list_update_append)

lemma wsect_all:
  "img st = [] \<Longrightarrow> n \<le> 1000 \<Longrightarrow> fold (\<lambda>i. wsect (of_nat i) buf) [0..<n] st = st\<lparr>img := replicate n buf\<rparr>"
proof (induction n)
  case (Suc n)
  then show ?case using wsect_next [of "st\<lparr>img := replicate n buf\<rparr>" n buf] by (simp add: replicate_append_same)
qed simp

lemma nmeta_eq: "nmeta = 46"
  by (simp add: nmeta_def ninodeblocks_def nbitmap_def)

lemma mk_init_eq:
  "mk_init = \<lparr>img = (replicate 1000 (replicate 1024 0))[1 := patch 0 (sb_enc mk_sb) (replicate 1024 0)], freeinode = 1, freeblock = 46, msb = mk_sb\<rparr>"
  by (simp add: mk_init_def Let_def wsect_all wsect_in nmeta_eq)

definition no_inode :: dinode where
  "no_inode = \<lparr>di_type = 0, di_major = 0, di_minor = 0, di_nlink = 0, di_size = 0, di_addrs = replicate 13 0\<rparr>"

lemma dinode_dec_zero: "dinode_dec (replicate 64 0) = no_inode"
  by (simp add: dinode_dec_def no_inode_def get16_def get32_def slice_def map_replicate_const)

lemma live_empty: "dsize d = 0 \<Longrightarrow> \<not> live d k"
  by (simp add: live_def nblk_def)

lemma dinode_ok_empty: "dsize d = 0 \<Longrightarrow> di_addrs d = replicate 13 0 \<Longrightarrow> dinode_ok B d"
  by (simp add: dinode_ok_def live_empty)

lemma length_sb_enc: "length (sb_enc b) = 32"
  by (simp add: sb_enc_def)

lemma mk_init_ok:
  "mk_ok mk_init" "m < 208 \<Longrightarrow> file_bytes mk_init m = []" "img mk_init ! 1 = patch 0 (sb_enc mk_sb) (replicate 1024 0)" "img mk_init ! 2 = replicate 1024 0"
proof -
  have i: "inode_at mk_init m = no_inode" if "m < 208" for m
    using that by (simp add: inode_at_def mk_init_eq nth_list_update slice_def dinode_dec_zero)
  have z: "dsize no_inode = 0" "di_addrs no_inode = replicate 13 0" by (simp_all add: dsize_def no_inode_def)
  have l: "length (img mk_init ! b) = 1024" "46 \<le> b \<Longrightarrow> img mk_init ! b = replicate 1024 0" if "b < 1000" for b
    using that by (simp_all add: mk_init_eq nth_list_update length_sb_enc)
  have "image_ok (inode_at mk_init) (blocks mk_init) 46"
    by (rule image_okI) (simp_all add: i z l live_empty dinode_ok_empty)
  then show "mk_ok mk_init" by (simp add: mk_ok_def) (simp add: mk_init_eq)
  show "m < 208 \<Longrightarrow> file_bytes mk_init m = []" using i z by (simp add: file_bytes_def dbytes_def)
  show "img mk_init ! 1 = patch 0 (sb_enc mk_sb) (replicate 1024 0)" "img mk_init ! 2 = replicate 1024 0" by (simp_all add: mk_init_eq)
qed

section \<open>The parts of the run\<close>

lemma ialloc_ok:
  assumes ok: "mk_ok st" and n: "freeinode st = of_nat n" "n < 208" "file_bytes st n = []"
  shows "\<exists>st'. mk_ialloc ty st = Inr (of_nat n, st') \<and> mk_ok st' \<and> freeinode st' = of_nat (n + 1) \<and> freeblock st' = freeblock st \<and>
    (\<forall>m < 208. file_bytes st' m = file_bytes st m) \<and> (\<forall>m < 208. m \<noteq> n \<longrightarrow> inode_at st' m = inode_at st m) \<and>
    di_type (inode_at st' n) = ty \<and> di_nlink (inode_at st' n) = 1 \<and> (\<forall>b. b < 32 \<or> b = 45 \<longrightarrow> img st' ! b = img st ! b)"
proof -
  let ?d = "\<lparr>di_type = ty, di_major = 0, di_minor = 0, di_nlink = 1, di_size = 0, di_addrs = replicate 13 0\<rparr>"
  let ?D = "(inode_at st)(n := ?d)" and ?st = "st\<lparr>freeinode := of_nat (n + 1)\<rparr>"
  note m = mk_okD [OF ok]
  have z: "dsize (inode_at st n) = 0" using n(3) length_file_bytes [of st n] by simp
  have zd: "dsize ?d = 0" by (simp add: dsize_def)
  have "image_ok ?D (blocks st) (unat (freeblock st))"
    using image_okD [OF m(3)] live_empty [OF z] live_empty [OF zd] dinode_ok_empty [OF zd]
    by (intro image_ok_grow [OF m(3) n(2)]) auto
  then have "image_ok ?D (blocks ?st) (unat (freeblock ?st))" by simp
  from winode_mk_ok [OF _ _ n(2) this] m(1,2)
  obtain st' where w: "winode (of_nat n) ?d ?st = Inr st'" "mk_ok st'" "\<And>k. k < 208 \<Longrightarrow> file_bytes st' k = dbytes (?D k) (blocks st)"
      "freeinode st' = of_nat (n + 1)" "freeblock st' = freeblock st" "\<And>k. k < 208 \<Longrightarrow> inode_at st' k = ?D k"
      "\<And>b. b < 32 \<or> b = 45 \<Longrightarrow> img st' ! b = img st ! b"
    by (auto simp: inode_at_def)
  have "file_bytes st' k = file_bytes st k" if "k < 208" for k
    using w(3) [OF that] n(3) zd by (auto simp: file_bytes_def dbytes_def)
  moreover have "mk_ialloc ty st = Inr (of_nat n, st')" using w(1) n(1) by (simp add: mk_ialloc_def Let_def add.commute)
  ultimately show ?thesis using w(2,4-7) w(6) [OF n(2)] by auto
qed

text \<open>The data of a file is appended read by read.\<close>

lemma iappend_all:
  assumes "mk_ok st" "n < 208" "length (file_bytes st n) + length (concat rs) \<le> 268 * 1024"
    "unat (freeblock st) + used (length (file_bytes st n) + length (concat rs)) \<le> 1000 + used (length (file_bytes st n))"
  shows "\<exists>st'. foldE (iappend (of_nat n)) rs st = Inr st' \<and> mk_ok st' \<and> file_bytes st' n = file_bytes st n @ concat rs \<and>
    (\<forall>m < 208. m \<noteq> n \<longrightarrow> file_bytes st' m = file_bytes st m \<and> inode_at st' m = inode_at st m) \<and>
    di_type (inode_at st' n) = di_type (inode_at st n) \<and> di_nlink (inode_at st' n) = di_nlink (inode_at st n) \<and> freeinode st' = freeinode st \<and>
    unat (freeblock st') + used (length (file_bytes st n)) = unat (freeblock st) + used (length (file_bytes st n) + length (concat rs)) \<and>
    (\<forall>b. b < 32 \<or> b = 45 \<longrightarrow> img st' ! b = img st ! b)"
  using assms
proof (induction rs arbitrary: st)
  case (Cons r rs)
  let ?z = "length (file_bytes st n)"
  have "used (?z + length r) \<le> used (?z + length (concat (r # rs)))" by (intro used_mono) simp
  then obtain st1 where a: "iappend (of_nat n) r st = Inr st1" "mk_ok st1" "file_bytes st1 n = file_bytes st n @ r"
      "\<And>m. m < 208 \<Longrightarrow> m \<noteq> n \<Longrightarrow> file_bytes st1 m = file_bytes st m \<and> inode_at st1 m = inode_at st m"
      "di_type (inode_at st1 n) = di_type (inode_at st n)" "di_nlink (inode_at st1 n) = di_nlink (inode_at st n)" "freeinode st1 = freeinode st"
      "unat (freeblock st1) + used ?z = unat (freeblock st) + used (?z + length r)" "\<And>b. b < 32 \<or> b = 45 \<Longrightarrow> img st1 ! b = img st ! b"
    using iappend_ok [OF Cons(2,3), of r] Cons(4,5) by auto
  have "length (file_bytes st1 n) + length (concat rs) \<le> 268 * 1024"
    "unat (freeblock st1) + used (length (file_bytes st1 n) + length (concat rs)) \<le> 1000 + used (length (file_bytes st1 n))"
    using Cons(4,5) a(3,8) by (simp_all add: add.assoc)
  from Cons(1) [OF a(2) Cons(3) this] show ?case using a by (auto simp: add.assoc)
qed simp

text \<open>The state after some files: \<open>root\<close> is the contents of the root directory and \<open>n\<close> the next inode.\<close>

definition made :: "mkst \<Rightarrow> byte list \<Rightarrow> nat \<Rightarrow> bool" where
  "made st root n \<longleftrightarrow> mk_ok st \<and> freeinode st = of_nat n \<and> file_bytes st 1 = root \<and> (\<forall>m. n \<le> m \<longrightarrow> m < 208 \<longrightarrow> file_bytes st m = []) \<and>
     img st ! 1 = patch 0 (sb_enc mk_sb) (replicate 1024 0) \<and> di_type (inode_at st 1) = T_DIR \<and> di_nlink (inode_at st 1) = 1 \<and>
     img st ! 2 = replicate 1024 0"

definition dir_entry :: "nat \<Rightarrow> byte list \<Rightarrow> byte list" where
  "dir_entry n name = dirent_enc (of_nat n) (de_name name)"

lemma length_dir_entry: "length (dir_entry n name) = 16"
  by (simp add: dir_entry_def dirent_enc_def de_name_def)

lemma used_small: "0 < z \<Longrightarrow> z \<le> 1024 \<Longrightarrow> used z = 1" "used 0 = 0"
  using nblk_eqI [of 1 z] by (simp_all add: used_def nblk_def)

lemma mk_root_ok:
  "\<exists>st. mk_root mk_init = Inr (1, st) \<and> made st (dir_entry 1 (str ''.'') @ dir_entry 1 (str ''..'')) 2 \<and> unat (freeblock st) = 47"
proof -
  have fb: "freeblock mk_init = 46" "freeinode mk_init = of_nat 1" by (simp_all add: mk_init_eq)
  obtain st1 where a: "mk_ialloc T_DIR mk_init = Inr (of_nat 1, st1)" "mk_ok st1" "freeinode st1 = of_nat 2" "freeblock st1 = 46"
      "\<And>m. m < 208 \<Longrightarrow> file_bytes st1 m = []" "di_type (inode_at st1 1) = T_DIR" "img st1 ! 1 = img mk_init ! 1" "di_nlink (inode_at st1 1) = 1" "img st1 ! 2 = img mk_init ! 2"
    using ialloc_ok [OF mk_init_ok(1) fb(2) _ mk_init_ok(2), of T_DIR] fb(1) mk_init_ok(2) by (auto simp: numeral_2_eq_2)
  have u: "used 16 = 1" "used 32 = 1" "used 0 = 0" using used_small by simp_all
  obtain st2 where b: "iappend (of_nat 1) (dir_entry 1 (str ''.'')) st1 = Inr st2" "mk_ok st2" "file_bytes st2 1 = dir_entry 1 (str ''.'')"
      "\<And>m. m < 208 \<Longrightarrow> m \<noteq> 1 \<Longrightarrow> file_bytes st2 m = []" "di_type (inode_at st2 1) = T_DIR" "freeinode st2 = of_nat 2"
      "unat (freeblock st2) = 47" "img st2 ! 1 = img mk_init ! 1" "di_nlink (inode_at st2 1) = 1" "img st2 ! 2 = img mk_init ! 2"
    using iappend_ok [OF a(2), of 1 "dir_entry 1 (str ''.'')"] a u by (auto simp: length_dir_entry)
  obtain st3 where c: "iappend (of_nat 1) (dir_entry 1 (str ''..'')) st2 = Inr st3" "mk_ok st3"
      "file_bytes st3 1 = dir_entry 1 (str ''.'') @ dir_entry 1 (str ''..'')"
      "\<And>m. m < 208 \<Longrightarrow> m \<noteq> 1 \<Longrightarrow> file_bytes st3 m = []" "di_type (inode_at st3 1) = T_DIR" "freeinode st3 = of_nat 2"
      "unat (freeblock st3) = 47" "img st3 ! 1 = img mk_init ! 1" "di_nlink (inode_at st3 1) = 1" "img st3 ! 2 = img mk_init ! 2"
    using iappend_ok [OF b(2), of 1 "dir_entry 1 (str ''..'')"] b u by (auto simp: length_dir_entry)
  have "mk_root mk_init = Inr (1, st3)" using a(1) b(1) c(1) by (simp add: mk_root_def dir_entry_def)
  then show ?thesis using c mk_init_ok(3,4) by (auto simp: made_def)
qed

text \<open>A file of the command line that can be opened: its name in the directory and its data.\<close>

definition entry_name :: "byte list \<Rightarrow> byte list" where
  "entry_name a = (let s = short_name a in if take 1 s = [95] then drop 1 s else s)"

definition data_of :: "byte list list \<Rightarrow> byte list" where
  "data_of reads = concat (takeWhile (\<lambda>r. r \<noteq> []) reads)"

lemma mk_file_ok:
  assumes mk: "made st root n" and n: "2 \<le> n" "n < 208" and nm: "47 \<notin> set (short_name a)"
    and sz: "length root + 16 \<le> 268 * 1024" "length (data_of reads) \<le> 268 * 1024"
    and fr: "unat (freeblock st) + used (length root + 16) + used (length (data_of reads)) \<le> 1000 + used (length root)"
  shows "\<exists>st'. mk_file 1 (a, Some reads) st = Inr st' \<and> made st' (root @ dir_entry n (entry_name a)) (n + 1) \<and>
    file_bytes st' n = data_of reads \<and> di_type (inode_at st' n) = T_FILE \<and>
    (\<forall>m < 208. m \<noteq> 1 \<and> m \<noteq> n \<longrightarrow> file_bytes st' m = file_bytes st m \<and> inode_at st' m = inode_at st m) \<and>
    unat (freeblock st') + used (length root) = unat (freeblock st) + used (length root + 16) + used (length (data_of reads))"
proof -
  note m = mk [unfolded made_def]
  have one: "(1 :: nat) < 208" "n \<noteq> 1" using n by simp_all
  obtain st1 where a: "mk_ialloc T_FILE st = Inr (of_nat n, st1)" "mk_ok st1" "freeinode st1 = of_nat (n + 1)" "freeblock st1 = freeblock st"
      "\<And>m. m < 208 \<Longrightarrow> file_bytes st1 m = file_bytes st m" "\<And>m. m < 208 \<Longrightarrow> m \<noteq> n \<Longrightarrow> inode_at st1 m = inode_at st m"
      "di_type (inode_at st1 n) = T_FILE" "img st1 ! 1 = img st ! 1" "img st1 ! 2 = img st ! 2"
    using ialloc_ok [of st n T_FILE] m n by auto
  have r1: "length (file_bytes st1 1) = length root" using a(5) m one by simp
  obtain st2 where b: "iappend (of_nat 1) (dir_entry n (entry_name a)) st1 = Inr st2" "mk_ok st2"
      "file_bytes st2 1 = root @ dir_entry n (entry_name a)" "di_type (inode_at st2 1) = T_DIR \<and> di_nlink (inode_at st2 1) = 1"
      "\<And>m. m < 208 \<Longrightarrow> m \<noteq> 1 \<Longrightarrow> file_bytes st2 m = file_bytes st1 m \<and> inode_at st2 m = inode_at st1 m" "freeinode st2 = of_nat (n + 1)"
      "unat (freeblock st2) + used (length root) = unat (freeblock st) + used (length root + 16)" "img st2 ! 1 = img st ! 1 \<and> img st2 ! 2 = img st ! 2"
    using iappend_ok [OF a(2) one(1), of "dir_entry n (entry_name a)"] a(3-9) m one r1 sz(1) fr by (auto simp: length_dir_entry)
  have e: "file_bytes st2 n = []" "di_type (inode_at st2 n) = T_FILE" using b(5) [OF n(2) one(2)] a(5) [OF n(2)] a(7) m n by simp_all
  have "length (file_bytes st2 n) + length (data_of reads) \<le> 268 * 1024"
    "unat (freeblock st2) + used (length (file_bytes st2 n) + length (data_of reads)) \<le> 1000 + used (length (file_bytes st2 n))"
    using sz(2) fr b(7) e by (simp_all add: used_small)
  from iappend_all [OF b(2) n(2) this [unfolded data_of_def]]
  obtain st3 where c: "foldE (iappend (of_nat n)) (takeWhile (\<lambda>r. r \<noteq> []) reads) st2 = Inr st3" "mk_ok st3" "file_bytes st3 n = data_of reads"
      "\<And>m. m < 208 \<Longrightarrow> m \<noteq> n \<Longrightarrow> file_bytes st3 m = file_bytes st2 m \<and> inode_at st3 m = inode_at st2 m"
      "di_type (inode_at st3 n) = T_FILE" "freeinode st3 = of_nat (n + 1)"
      "unat (freeblock st3) = unat (freeblock st2) + used (length (data_of reads))" "img st3 ! 1 = img st ! 1 \<and> img st3 ! 2 = img st ! 2"
    using e b(6,8) by (auto simp: data_of_def used_small)
  have "mk_file 1 (a, Some reads) st = Inr st3"
    using nm a(1) b(1) c(1) by (simp add: mk_file_def Let_def dir_entry_def entry_name_def)
  moreover have k: "file_bytes st3 k = file_bytes st k \<and> inode_at st3 k = inode_at st k" if "k < 208" "k \<noteq> 1" "k \<noteq> n" for k
    using c(4) [OF that(1,3)] b(5) [OF that(1,2)] a(5,6) that by simp
  moreover have "file_bytes st3 k = []" if "n + 1 \<le> k" "k < 208" for k using k [OF that(2)] that m n by simp
  then have "made st3 (root @ dir_entry n (entry_name a)) (n + 1)"
    unfolding made_def using c(2,6,8) c(4) [OF one(1)] b(3,4) m one by auto
  ultimately show ?thesis using c(3,5,7) b(7) by auto
qed

definition entries_text :: "nat \<Rightarrow> (byte list \<times> byte list list) list \<Rightarrow> byte list" where
  "entries_text n fs = concat (map (\<lambda>j. dir_entry (n + j) (entry_name (fst (fs ! j)))) [0..<length fs])"

lemma entries_text_simps:
  "entries_text n [] = []" "entries_text n (f # fs) = dir_entry n (entry_name (fst f)) @ entries_text (n + 1) fs"
  by (simp_all add: entries_text_def upt_conv_Cons map_Suc_upt [symmetric] comp_def del: upt_Suc)

lemma length_entries_text: "length (entries_text n fs) = 16 * length fs"
  by (induction fs arbitrary: n) (simp_all add: entries_text_simps length_dir_entry)

abbreviation file_cost :: "(byte list \<times> byte list list) list \<Rightarrow> nat" where
  "file_cost fs \<equiv> sum_list (map (\<lambda>f. used (length (data_of (snd f)))) fs)"

lemma mk_files_ok:
  assumes "made st root n" "2 \<le> n" "n + length fs \<le> 208" "\<forall>f\<in>set fs. 47 \<notin> set (short_name (fst f)) \<and> length (data_of (snd f)) \<le> 268 * 1024"
    "length root + 16 * length fs \<le> 268 * 1024"
    "unat (freeblock st) + used (length root + 16 * length fs) + file_cost fs \<le> 1000 + used (length root)"
  shows "\<exists>st'. foldE (mk_file 1) (map (\<lambda>(a, reads). (a, Some reads)) fs) st = Inr st' \<and> made st' (root @ entries_text n fs) (n + length fs) \<and>
    (\<forall>j < length fs. file_bytes st' (n + j) = data_of (snd (fs ! j)) \<and> di_type (inode_at st' (n + j)) = T_FILE) \<and>
    (\<forall>m < n. m \<noteq> 1 \<longrightarrow> file_bytes st' m = file_bytes st m \<and> inode_at st' m = inode_at st m) \<and>
    unat (freeblock st') + used (length root) = unat (freeblock st) + used (length root + 16 * length fs) + file_cost fs"
  using assms
proof (induction fs arbitrary: st root n)
  case Nil
  then show ?case by (simp add: entries_text_simps)
next
  case (Cons f fs)
  obtain a reads where f: "f = (a, reads)" by (cases f)
  have m1: "used (length root + 16) \<le> used (length root + 16 * length (f # fs))" by (intro used_mono) simp
  have n: "n < 208" "47 \<notin> set (short_name a)" "length root + 16 \<le> 268 * 1024" "length (data_of reads) \<le> 268 * 1024"
    "unat (freeblock st) + used (length root + 16) + used (length (data_of reads)) \<le> 1000 + used (length root)"
    using Cons(4-7) m1 f by simp_all
  obtain st1 where a: "mk_file 1 (a, Some reads) st = Inr st1" "made st1 (root @ dir_entry n (entry_name a)) (n + 1)"
      "file_bytes st1 n = data_of reads" "di_type (inode_at st1 n) = T_FILE"
      "\<And>m. m < 208 \<Longrightarrow> m \<noteq> 1 \<Longrightarrow> m \<noteq> n \<Longrightarrow> file_bytes st1 m = file_bytes st m \<and> inode_at st1 m = inode_at st m"
      "unat (freeblock st1) + used (length root) = unat (freeblock st) + used (length root + 16) + used (length (data_of reads))"
    using mk_file_ok [OF Cons(2,3) n(1-5)] by blast
  let ?r = "root @ dir_entry n (entry_name a)"
  have lr: "length ?r = length root + 16" by (simp add: length_dir_entry)
  have "\<exists>st'. foldE (mk_file 1) (map (\<lambda>(a, reads). (a, Some reads)) fs) st1 = Inr st' \<and> made st' (?r @ entries_text (n + 1) fs) (n + 1 + length fs) \<and>
    (\<forall>j < length fs. file_bytes st' (n + 1 + j) = data_of (snd (fs ! j)) \<and> di_type (inode_at st' (n + 1 + j)) = T_FILE) \<and>
    (\<forall>m < n + 1. m \<noteq> 1 \<longrightarrow> file_bytes st' m = file_bytes st1 m \<and> inode_at st' m = inode_at st1 m) \<and>
    unat (freeblock st') + used (length ?r) = unat (freeblock st1) + used (length ?r + 16 * length fs) + file_cost fs"
    using Cons(3-7) a(6) f by (intro Cons(1) [OF a(2)]) (simp_all add: length_dir_entry add.assoc)
  then obtain st' where b: "foldE (mk_file 1) (map (\<lambda>(a, reads). (a, Some reads)) fs) st1 = Inr st'"
      "made st' (?r @ entries_text (n + 1) fs) (n + 1 + length fs)"
      "\<And>j. j < length fs \<Longrightarrow> file_bytes st' (n + 1 + j) = data_of (snd (fs ! j)) \<and> di_type (inode_at st' (n + 1 + j)) = T_FILE"
      "\<And>m. m < n + 1 \<Longrightarrow> m \<noteq> 1 \<Longrightarrow> file_bytes st' m = file_bytes st1 m \<and> inode_at st' m = inode_at st1 m"
      "unat (freeblock st') + used (length root + 16) = unat (freeblock st1) + used (length root + 16 + 16 * length fs) + file_cost fs"
    unfolding lr by blast
  have "file_bytes st' (n + j) = data_of (snd ((f # fs) ! j)) \<and> di_type (inode_at st' (n + j)) = T_FILE" if "j < length (f # fs)" for j
    using b(3) [of "j - 1"] b(4) [of n] a(3,4) Cons(3) f that by (cases j) simp_all
  moreover have "file_bytes st' m = file_bytes st m \<and> inode_at st' m = inode_at st m" if "m < n" "m \<noteq> 1" for m
    using b(4) [of m] a(5) [of m] that n(1) by simp
  moreover have "unat (freeblock st') + used (length root) = unat (freeblock st) + used (length root + 16 * length (f # fs)) + file_cost (f # fs)"
    using b(5) a(6) f by (simp add: add.assoc)
  ultimately show ?case using a(1) b(1,2) f by (simp add: entries_text_simps)
qed

section \<open>The end of the run\<close>

lemma round_up:
  assumes "dsize d \<le> 268 * 1024"
  shows "dsize (d\<lparr>di_size := (di_size d div 1024 + 1) * 1024\<rparr>) = (dsize d div 1024 + 1) * 1024"
proof -
  have q: "dsize d div 1024 \<le> 268" using div_le_mono [OF assms, of 1024] by simp
  have "unat (di_size d div 1024) = dsize d div 1024" by (simp add: unat_div dsize_def)
  then have "unat (di_size d div 1024 + 1) = dsize d div 1024 + 1" using q unat_next [of "di_size d div 1024"] by simp
  then show ?thesis using q by (simp add: dsize_def unat_word_ariths)
qed

lemma dbytes_resize:
  assumes "dsize d \<le> dsize (d\<lparr>di_size := z\<rparr>)"
  shows "take (dsize d) (dbytes (d\<lparr>di_size := z\<rparr>) B) = dbytes d B"
proof -
  have "blk_addr (d\<lparr>di_size := z\<rparr>) B k = blk_addr d B k" for k by (simp add: blk_addr_def)
  then show ?thesis using assms by (simp add: dbytes_def take_map)
qed

lemma sb_roundtrip: "sb_dec (patch 0 (sb_enc mk_sb) (replicate 1024 0)) = mk_sb"
  by (simp add: sb_dec_def sb_enc_def patch_def get32_def slice_def)

lemma balloc_ok:
  assumes "length (img st) = 1000" "msb st = mk_sb" "unat (freeblock st) \<le> 1000"
  shows "\<exists>st'. mk_balloc (sint (freeblock st)) st = Inr st' \<and> length (img st') = 1000 \<and> (\<forall>b. b \<noteq> 45 \<longrightarrow> img st' ! b = img st ! b) \<and>
    (\<forall>i. bm_get (img st' ! 45) i \<longleftrightarrow> i < unat (freeblock st) \<or> 8192 \<le> i \<and> bm_get (replicate 1024 0) i)"
proof -
  let ?bm = "fold (bm_set True) [0..<unat (freeblock st)] (replicate 1024 0)"
  have s: "sint (freeblock st) = int (unat (freeblock st))"
    using assms(3) uint_sint32 [of "freeblock st"] sint_ge [of "freeblock st"] by (simp add: unat_eq_nat_uint split: if_splits)
  have lt: "sint (freeblock st) < int 8192" "nat (sint (freeblock st)) = unat (freeblock st)" using assms(3) s by linarith+
  have "sb_bmapstart mk_sb = 45" by (simp add: mk_sb_def ninodeblocks_def)
  then have m: "mk_balloc (sint (freeblock st)) st = Inr (st\<lparr>img := (img st)[45 := ?bm]\<rparr>)"
    using assms lt by (simp add: mk_balloc_def wsect_in)
  have "bm_get ?bm i \<longleftrightarrow> i < unat (freeblock st) \<or> 8192 \<le> i \<and> bm_get (replicate 1024 0) i" for i
  proof -
    have "\<not> bm_get (replicate 1024 0) i" if "i < 8192" using that by (simp add: bm_get_def less_mult_imp_div_less)
    then show ?thesis using bm_get_fold [of "unat (freeblock st)" "replicate 1024 0" i] assms(3) by (cases "i < 8192") auto
  qed
  then show ?thesis using m assms(1) by auto
qed

text \<open>
  The end of the run: \<open>st1\<close> is the state after the last file, and what follows changes only the size of the root directory and the bitmap.
\<close>

lemma mk_main_run:
  assumes "length fs \<le> 198" and "\<forall>f\<in>set fs. 47 \<notin> set (short_name (fst f)) \<and> length (data_of (snd f)) \<le> 268 * 1024"
    and "nused = 46 + used (16 * (length fs + 2)) + file_cost fs" "nused \<le> 1000"
  shows "\<exists>st st1. mk_main (Some (name, True)) (map (\<lambda>(a, reads). (a, Some reads)) fs) = Inr st \<and>
    made st1 ((dir_entry 1 (str ''.'') @ dir_entry 1 (str ''..'')) @ entries_text 2 fs) (2 + length fs) \<and> unat (freeblock st1) = nused \<and>
    (\<forall>j < length fs. file_bytes st1 (2 + j) = data_of (snd (fs ! j)) \<and> di_type (inode_at st1 (2 + j)) = T_FILE) \<and>
    (\<forall>k < 208. inode_at st k = (if k = 1 then (inode_at st1 1)\<lparr>di_size := (di_size (inode_at st1 1) div 1024 + 1) * 1024\<rparr> else inode_at st1 k)) \<and>
    (\<forall>b. b < 32 \<or> 46 \<le> b \<longrightarrow> img st ! b = img st1 ! b) \<and> (\<forall>i < 8192. bm_get (img st ! 45) i \<longleftrightarrow> i < nused)"
proof -
  obtain st0 where r: "mk_root mk_init = Inr (1, st0)" "made st0 (dir_entry 1 (str ''.'') @ dir_entry 1 (str ''..'')) 2" "unat (freeblock st0) = 47"
    using mk_root_ok by blast
  let ?root = "dir_entry 1 (str ''.'') @ dir_entry 1 (str ''..'')"
  have lr: "length ?root = 32" "used 32 = 1" using used_small by (simp_all add: length_dir_entry)
  obtain st1 where f: "foldE (mk_file 1) (map (\<lambda>(a, reads). (a, Some reads)) fs) st0 = Inr st1" "made st1 (?root @ entries_text 2 fs) (2 + length fs)"
      "\<And>j. j < length fs \<Longrightarrow> file_bytes st1 (2 + j) = data_of (snd (fs ! j)) \<and> di_type (inode_at st1 (2 + j)) = T_FILE"
      "unat (freeblock st1) = nused"
    using mk_files_ok [OF r(2), of fs] assms r(3) lr by (auto simp: algebra_simps)
  note mo = mk_okD [OF f(2) [unfolded made_def, THEN conjunct1]]
  let ?din = "inode_at st1 1" and ?n = "(1 :: nat)"
  let ?d = "?din\<lparr>di_size := (di_size ?din div 1024 + 1) * 1024\<rparr>"
  have la: "length (di_addrs ?d) = 13" using image_okD(5) [OF mo(3), of 1] by (simp add: dinode_ok_def)
  obtain st2 where w: "winode (of_nat ?n) ?d st1 = Inr st2" "length (img st2) = 1000" "msb st2 = mk_sb" "freeblock st2 = freeblock st1"
      "\<And>k. k < 208 \<Longrightarrow> inode_at st2 k = (if k = ?n then ?d else inode_at st1 k)" "\<And>b. b < 32 \<or> 45 \<le> b \<Longrightarrow> img st2 ! b = img st1 ! b"
    using winode_ok [OF mo(1,2) _ image_okD(3) [OF mo(3)] la, of ?n] by auto
  obtain st3 where b: "mk_balloc (sint (freeblock st2)) st2 = Inr st3" "\<And>k. k \<noteq> 45 \<Longrightarrow> img st3 ! k = img st2 ! k"
      "\<And>i. i < 8192 \<Longrightarrow> bm_get (img st3 ! 45) i \<longleftrightarrow> i < nused"
    using balloc_ok [OF w(2,3)] w(4) f(4) assms(4) by auto
  have "inode_at st3 k = (if k = 1 then ?d else inode_at st1 k)" if "k < 208" for k
    using w(5) [OF that] b(2) inode_place(3) [OF that] by (simp add: inode_at_def)
  moreover have "mk_main (Some (name, True)) (map (\<lambda>(a, reads). (a, Some reads)) fs) = Inr st3"
    using r(1) f(1) rinode_ok [OF mo(1,2), of 1] w(1) b(1) by (simp add: mk_main_def Let_def)
  ultimately show ?thesis using f b(2,3) w(6) by (intro exI [of _ st3] exI [of _ st1]) auto
qed

text \<open>
  C35: \<^verbatim>\<open>mkfs\<close> makes the image of its files. When the image and the files can be opened, their names have no slash, there are at most 198 of them, none is
  larger than 268 blocks, and all blocks fit into the image, the run ends without error, and in the image the superblock
  describes the layout; inode \<open>j + 2\<close> is a file with the data of file \<open>j\<close>, however it was read, whether its blocks are direct or
  indirect; the root directory, inode 1, begins with the entries \<^verbatim>\<open>.\<close> and \<^verbatim>\<open>..\<close> and one for each file; and the
  bitmap marks exactly the blocks before the first that was not handed out, the number of which is known from the sizes.
\<close>

theorem mkfs_image:
  assumes "length fs \<le> 198" and "\<forall>f\<in>set fs. 47 \<notin> set (short_name (fst f)) \<and> length (data_of (snd f)) \<le> 268 * 1024"
    and "nused = 46 + used (16 * (length fs + 2)) + sum_list (map (\<lambda>f. used (length (data_of (snd f)))) fs)" "nused \<le> 1000"
  shows "\<exists>st. mk_main (Some (name, True)) (map (\<lambda>(a, reads). (a, Some reads)) fs) = Inr st \<and> sb_dec (img st ! 1) = mk_sb \<and>
    (\<forall>j < length fs. file_bytes st (j + 2) = data_of (snd (fs ! j)) \<and> di_type (inode_at st (j + 2)) = T_FILE) \<and>
    take (16 * (length fs + 2)) (file_bytes st 1) = dir_entry 1 (str ''.'') @ dir_entry 1 (str ''..'') @ entries_text 2 fs \<and>
    di_type (inode_at st 1) = T_DIR \<and> (\<forall>i < 8192. bm_get (img st ! 45) i \<longleftrightarrow> i < nused)"
proof -
  obtain st st1 where f: "mk_main (Some (name, True)) (map (\<lambda>(a, reads). (a, Some reads)) fs) = Inr st"
      "made st1 ((dir_entry 1 (str ''.'') @ dir_entry 1 (str ''..'')) @ entries_text 2 fs) (2 + length fs)"
      "\<And>j. j < length fs \<Longrightarrow> file_bytes st1 (2 + j) = data_of (snd (fs ! j)) \<and> di_type (inode_at st1 (2 + j)) = T_FILE"
      "\<And>k. k < 208 \<Longrightarrow> inode_at st k = (if k = 1 then (inode_at st1 1)\<lparr>di_size := (di_size (inode_at st1 1) div 1024 + 1) * 1024\<rparr> else inode_at st1 k)"
      "\<And>b. b < 32 \<or> 46 \<le> b \<Longrightarrow> img st ! b = img st1 ! b" "\<And>i. i < 8192 \<Longrightarrow> bm_get (img st ! 45) i \<longleftrightarrow> i < nused"
    using mk_main_run [OF assms] by blast
  note m = f(2) [unfolded made_def]
  note mo = mk_okD [OF m [THEN conjunct1]]
  let ?din = "inode_at st1 1"
  have root: "file_bytes st1 1 = dir_entry 1 (str ''.'') @ dir_entry 1 (str ''..'') @ entries_text 2 fs" "dsize ?din = 16 * (length fs + 2)"
    using m length_file_bytes [of st1 1] by (simp_all add: length_entries_text length_dir_entry)
  have la: "dsize ?din \<le> 268 * 1024" using image_okD(5) [OF mo(3), of 1] by (simp add: dinode_ok_def)
  have high: "dbytes (inode_at st1 k) (blocks st) = file_bytes st1 k" if "k < 208" for k
    unfolding file_bytes_def by (rule dbytes_high [OF mo(3) that]) (use f(5) in simp)
  have "sb_dec (img st ! 1) = mk_sb" using f(5) [of 1] m sb_roundtrip by simp
  moreover have "file_bytes st (j + 2) = data_of (snd (fs ! j)) \<and> di_type (inode_at st (j + 2)) = T_FILE" if "j < length fs" for j
    using f(3) [OF that] high [of "j + 2"] f(4) [of "j + 2"] assms(1) that by (simp add: file_bytes_def add.commute)
  moreover have "take (dsize ?din) (file_bytes st 1) = file_bytes st1 1"
    using high [of 1] dbytes_resize [of ?din _ "blocks st"] round_up [OF la] block_end [of "dsize ?din"] f(4) [of 1]
    by (simp add: file_bytes_def)
  moreover have "di_type (inode_at st 1) = T_DIR" using f(4) [of 1] m by simp
  ultimately show ?thesis using f(1,6) root by auto
qed

theorem mkfs_image_witness:
  "\<exists>st. mk_main (Some (str ''fs.img'', True)) [(str ''user/_hi'', Some [[104, 105], [10], [], [7]])] = Inr st \<and> sb_dec (img st ! 1) = mk_sb \<and> file_bytes st 2 = [104, 105, 10] \<and>
     di_type (inode_at st 2) = T_FILE \<and> bm_get (img st ! 45) 47 \<and> \<not> bm_get (img st ! 45) 48 \<and>
     take 48 (file_bytes st 1) = dir_entry 1 (str ''.'') @ dir_entry 1 (str ''..'') @ dir_entry 2 (str ''hi'')"
proof -
  let ?fs = "[(str ''user/_hi'', [[104, 105], [10], [], [7 :: byte]])]"
  have n: "short_name (str ''user/_hi'') = str ''_hi''" "entry_name (str ''user/_hi'') = str ''hi''" by code_simp+
  have d: "data_of [[104, 105], [10], [], [7]] = [104, 105, 10]" by (simp add: data_of_def)
  have h: "\<forall>f\<in>set ?fs. 47 \<notin> set (short_name (fst f)) \<and> length (data_of (snd f)) \<le> 268 * 1024" unfolding list.set by (simp add: n d) code_simp
  have u: "48 = 46 + used (16 * (length ?fs + 2)) + sum_list (map (\<lambda>f. used (length (data_of (snd f)))) ?fs)" by (simp add: d used_small)
  show ?thesis using mkfs_image [OF _ h u, of "str ''fs.img''"] by (auto simp: d n entries_text_simps numeral_2_eq_2)
qed

end
