(* ===== verification/Boot.thy ===== *)
theory Boot
  imports Inode Mkrun
begin

text \<open>
  The kernel on a disk that \<^verbatim>\<open>mkfs\<close> has made: \<^verbatim>\<open>fsinit\<close> finds the superblock and an empty log, and every file is found by its
  path and read as it was put into the image.
\<close>

section \<open>Starting the file system\<close>

lemma cached_initlock: "cached p a s \<Longrightarrow> cached p a (s\<lparr>lks := initlock L nm (lks s)\<rparr>)"
  by (auto simp: cached_def cached0_def holder_def buf_ok_def disk_idle_def quiet_def initlock_def lock_free_def cpu_defs)

lemma cached_log_place [simp]:
  "cached p a (s\<lparr>log_start := x\<rparr>) = cached p a s" "cached p a (s\<lparr>log_size := y\<rparr>) = cached p a s" "cached p a (s\<lparr>log_dev := z\<rparr>) = cached p a s"
  by (simp_all add: cached_def cached0_def holder_def buf_ok_def disk_idle_def quiet_def fun_eq_iff)

lemma fs_at_log [simp]:
  "fs_at p a f L k (s\<lparr>lh_n := n, lh_block := bl\<rparr>) = fs_at p a f L k s" "fs_at p a f L k (s\<lparr>lh_n := n\<rparr>) = fs_at p a f L k s"
  by (simp_all add: fs_at_def)

lemma fs_at_initlog:
  "fs_at p a f L k s \<Longrightarrow> fs_at p a f L k (s\<lparr>lks := initlock M nm (lks s), log_start := x, log_size := y, log_dev := z\<rparr>)"
  using cached_initlock [of p a s M nm] by (simp add: fs_at_def)

lemma free_for_idle: "cheld a = {} \<Longrightarrow> cref a = (\<lambda>_. 0) \<Longrightarrow> small n \<Longrightarrow> free_for a n"
  by (simp add: free_for_def)

lemma recover_empty:
  assumes "fs_at p a f L k s" "log_dev s = 1" "log_start s = 2" "cheld a = {}" "cref a = (\<lambda>_. 0)" "get32 (cview a 2) 0 = 0"
  shows "\<exists>s' a'. recover_from_log s = Inr s' \<and> fs_at p a' f L k s' \<and> cheld a' = {} \<and> cref a' = (\<lambda>_. 0) \<and> (\<forall>m. m \<noteq> 2 \<longrightarrow> cview a' m = cview a m)"
proof -
  note D = fs_atD [OF assms(1)]
  have fr: "free_for a 2" using free_for_idle [OF assms(4,5)] by (simp add: small_def)
  obtain b s1 where r: "bread 1 2 s = Inr (b, s1)" "buf_data b s1 = cview a 2" "cached p (c_get 2 a) s1" "holder s1 2 b" "bframe s s1"
    using read_block [OF D(1) fr] by blast
  let ?s1 = "s1\<lparr>lh_n := 0, lh_block := lh_block s1\<rparr>"
  have "cached p (c_get 2 a) ?s1" "holder ?s1 2 b" using r(3,4) by simp_all
  from release_block [OF D(1) fr this] obtain s2 where q: "brelse b ?s1 = Inr s2" "cached p a s2" "bframe ?s1 s2" by blast
  have at: "fs_at p a f L k s2" using fs_at_frame [OF assms(1) r(3,5)] fs_at_frame [OF _ q(2,3)] by simp
  note F = log_fields [OF r(5)] and G = log_fields [OF q(3)]
  have g: "lh_n s2 = 0" "log_start s2 = 2" "log_dev s2 = 1" using F G assms(2,3) by simp_all
  have "read_head s = Inr s2" using r(1,2) q(1) assms(2,3,6) by (simp add: read_head_def Let_def)
  moreover have "install_trans True s2 = Inr s2" by (simp add: install_trans_def g)
  moreover have e: "s2\<lparr>lh_n := 0\<rparr> = s2" using g(1) by (cases s2) simp
  let ?w = "[(2, head_enc 0 (lh_block s2) (cview a 2))]"
  obtain s3 where "write_head s2 = Inr s3" "bframe s2 s3" "cached p (c_copies ?w (cref a) a) s3"
    using write_head_cached [OF q(2), of] g fr by auto
  ultimately show ?thesis
    using fs_at_frame [OF at] e assms(4,5) by (intro exI [of _ s3] exI [of _ "c_copies ?w (cref a) a"]) (auto simp: recover_from_log_def)
qed

lemma mk_sb_fields: "sb_magic mk_sb = 0x10203040" "sb_logstart mk_sb = 2" "sb_nlog mk_sb = 30" "sb_inodestart mk_sb = 32"
  by (simp_all add: mk_sb_def)

lemma fsinit_ok:
  assumes "fs_at p a f L k0 s" "cheld a = {}" "cref a = (\<lambda>_. 0)" "sb_dec (cview a 1) = mk_sb" "get32 (cview a 2) 0 = 0"
  shows "\<exists>s' a'. fsinit 1 s = Inr s' \<and> fs_at p a' f L mk_sb s' \<and> cheld a' = {} \<and> cref a' = (\<lambda>_. 0) \<and> (\<forall>m. m \<noteq> 2 \<longrightarrow> cview a' m = cview a m)"
proof -
  note D = fs_atD [OF assms(1)]
  have fr: "free_for a 1" using free_for_idle [OF assms(2,3)] by (simp add: small_def)
  obtain b s1 where r: "bread 1 1 s = Inr (b, s1)" "buf_data b s1 = cview a 1" "cached p (c_get 1 a) s1" "holder s1 1 b" "bframe s s1"
    using read_block [OF D(1) fr] by blast
  let ?s1 = "s1\<lparr>sb := mk_sb\<rparr>"
  have "cached p (c_get 1 a) ?s1" "holder ?s1 1 b" using r(3,4) by simp_all
  from release_block [OF D(1) fr this] obtain s2 where q: "brelse b ?s1 = Inr s2" "cached p a s2" "bframe ?s1 s2" by blast
  have "fs_at p (c_get 1 a) f L mk_sb ?s1" using fs_at_frame [OF assms(1) r(3,5)] by (simp add: fs_at_def)
  note at = fs_at_frame [OF this q(2,3)]
  let ?s2 = "s2\<lparr>lks := initlock LogLock ''log'' (lks s2), log_start := 2, log_size := 30, log_dev := 1\<rparr>"
  have "fsinit 1 s = recover_from_log ?s2"
    using r(1,2) q(1) assms(4) fs_atD(3) [OF at] by (simp add: fsinit_def readsb_def initlog_def mk_sb_fields)
  moreover have "\<exists>s' a'. recover_from_log ?s2 = Inr s' \<and> fs_at p a' f L mk_sb s' \<and> cheld a' = {} \<and> cref a' = (\<lambda>_. 0) \<and> (\<forall>m. m \<noteq> 2 \<longrightarrow> cview a' m = cview a m)"
    by (rule recover_empty [OF fs_at_initlog [OF at] _ _ assms(2,3,5)]) simp_all
  ultimately show ?thesis by simp
qed

section \<open>The files of an image in the cache\<close>

lemma image_file:
  assumes "image_ok D B fr" "n < 208" "cheld a = {}" "cref a = (\<lambda>_. 0)" "\<And>b. 46 \<le> b \<Longrightarrow> b < 1000 \<Longrightarrow> view a b = B b"
  shows "dbytes (D n) (view a) = dbytes (D n) B"
    and "di_addrs d = di_addrs (D n) \<Longrightarrow> nblk (dsize d) = nblk (dsize (D n)) \<Longrightarrow> dsize d \<le> 268 * 1024 \<Longrightarrow> file_ok a d"
proof -
  have r: "46 \<le> blk_addr (D n) B k" "blk_addr (D n) B k < 1000" if "live (D n) k" for k
    using image_okD(2) [OF assms(1)] image_okD(6) [OF assms(1,2) that] by auto
  then have v: "view a (blk_addr (D n) B k) = B (blk_addr (D n) B k)" if "live (D n) k" for k using assms(5) that by blast
  then show "dbytes (D n) (view a) = dbytes (D n) B" by (rule dbytes_frame)
  have ad: "blk_addr (D n) (view a) k = blk_addr (D n) B k" if "live (D n) k" for k by (rule blk_addr_live [OF that]) (rule v)
  show "file_ok a d" if d: "di_addrs d = di_addrs (D n)" "nblk (dsize d) = nblk (dsize (D n))" "dsize d \<le> 268 * 1024"
  proof -
    have e: "blk_addr d (view a) k = blk_addr (D n) (view a) k" "live d k = live (D n) k" for k
      using d by (simp_all add: blk_addr_def live_def)
    have "blk_addr d (view a) k \<noteq> 0 \<and> free_for a (of_nat (blk_addr d (view a) k)) \<and> length (view a (blk_addr d (view a) k)) = 1024" if "live d k" for k
    proof -
      have l: "live (D n) k" using that e(2) by simp
      have "small (of_nat (blk_addr (D n) B k))" using r(2) [OF l] by (simp add: small_def unat_of_nat)
      then show ?thesis using r [OF l] v [OF l] ad [OF l] e(1) free_for_idle [OF assms(3,4)] image_okD(3) [OF assms(1)] by simp
    qed
    then show ?thesis using d(3) by (simp add: file_ok_def)
  qed
qed

lemma disk_inode_image:
  assumes "n < 208" "\<And>b. 32 \<le> b \<Longrightarrow> b < 45 \<Longrightarrow> view a b = img st ! b"
  shows "disk_inode a mk_sb (of_nat n) = inode_at st n" "cheld a = {} \<Longrightarrow> cref a = (\<lambda>_. 0) \<Longrightarrow> free_for a (IBLOCK (of_nat n) mk_sb)"
proof -
  note p = inode_place [OF assms(1)]
  have "view a (n div 16 + 32) = img st ! (n div 16 + 32)" using p(3) by (intro assms(2)) simp_all
  moreover have "IBLOCK (of_nat n) mk_sb = of_nat (n div 16 + 32)" using p(1,3) by (intro word_unat_eqI) (simp add: unat_of_nat_uint del: of_nat_add of_nat_div)
  ultimately show "disk_inode a mk_sb (of_nat n) = inode_at st n" by (simp add: disk_inode_def inode_at_def p(2))
  show "free_for a (IBLOCK (of_nat n) mk_sb)" if "cheld a = {}" "cref a = (\<lambda>_. 0)"
    using p free_for_idle [OF that] by (simp add: small_def)
qed

section \<open>Names\<close>

lemma ucast_ushort: "k < 2 ^ 16 \<Longrightarrow> ucast (of_nat k :: ushort) = (of_nat k :: uint)"
  by (simp add: unsigned_of_nat take_bit_nat_eq_self)

lemma dir_entry_fields:
  assumes "n < 2 ^ 16"
  shows "get16 (dir_entry n nm) 0 = of_nat n" "drop 2 (dir_entry n nm) = de_name nm"
proof -
  have l: "length (le_enc 2 (xshort (ucast (of_nat n :: uint)))) = 2" by simp
  show "drop 2 (dir_entry n nm) = de_name nm" by (simp add: dir_entry_def dirent_enc_def)
  have "ucast (of_nat n :: uint) = (of_nat n :: ushort)" using assms by (simp add: unsigned_of_nat take_bit_nat_eq_self)
  then show "get16 (dir_entry n nm) 0 = of_nat n"
    using slice_append_left [OF l [symmetric], of "de_name nm"] by (simp add: dir_entry_def dirent_enc_def get16_def slice_def)
qed

lemma length_de_name: "length (de_name z) = 14"
  by (simp add: de_name_def)

lemma namecmp_de_name:
  assumes "0 \<notin> set x" "0 \<notin> set y"
  shows "namecmp (de_name x) (de_name y) = 0 \<longleftrightarrow> de_name x = de_name y"
proof
  have a: "arr (de_name z) i = (if i < 14 \<and> i < length z then z ! i else 0)" for z :: "byte list" and i
    by (auto simp: arr_def de_name_def nth_append min_def)
  assume "namecmp (de_name x) (de_name y) = 0"
  then have e: "arr (de_name x) i = arr (de_name y) i" if "i < 14" "\<And>j. j < i \<Longrightarrow> arr (de_name x) j \<noteq> 0" for i
    using that unfolding namecmp_def strncmp_eq_0 by blast
  have nz: "z ! i \<noteq> 0" if "i < length z" "0 \<notin> set z" for z :: "byte list" and i using that by (metis nth_mem)
  have "arr (de_name x) i = arr (de_name y) i" if i: "i < 14" for i
  proof (cases "i \<le> length x")
    case True
    then show ?thesis using i nz [OF _ assms(1)] by (intro e) (simp_all add: a)
  next
    case False
    then have "arr (de_name y) (length x) = 0" using i e [of "length x"] nz [OF _ assms(1)] by (simp add: a)
    then have "length y \<le> length x" using False i nz [OF _ assms(2), of "length x"] by (auto simp: a split: if_splits)
    then show ?thesis using False by (simp add: a)
  qed
  then show "de_name x = de_name y"
    by (intro nth_equalityI) (simp_all add: length_de_name arr_def)
qed (simp add: namecmp_def strncmp_eq_0)

text \<open>The entries of the root directory.\<close>

definition names :: "(byte list \<times> byte list list) list \<Rightarrow> byte list list" where
  "names fs = str ''.'' # str ''..'' # map (\<lambda>f. entry_name (fst f)) fs"

lemma length_names: "length (names fs) = length fs + 2"
  by (simp add: names_def)

definition root_inum :: "nat \<Rightarrow> nat" where
  "root_inum j = (if j < 2 then 1 else j)"

lemma root_text:
  "dir_entry 1 (str ''.'') @ dir_entry 1 (str ''..'') @ entries_text 2 fs = concat (map (\<lambda>j. dir_entry (root_inum j) (names fs ! j)) [0..<length fs + 2])"
proof -
  have u: "[0..<length fs + 2] = 0 # 1 # map (\<lambda>j. 2 + j) [0..<length fs]"
  proof -
    have "map (\<lambda>j. 2 + j) [0..<length fs] = [2..<length fs + 2]" using map_add_upt [of 2 "length fs"] by (simp only: add.commute [of 2])
    moreover have "[0..<length fs + 2] = 0 # 1 # [2..<length fs + 2]" by (simp add: upt_conv_Cons numeral_2_eq_2 del: upt_Suc)
    ultimately show ?thesis by simp
  qed
  show ?thesis unfolding u by (simp add: entries_text_def root_inum_def names_def comp_def) (intro arg_cong [of _ _ concat] map_cong refl, simp)
qed

lemma concat_slice:
  assumes "\<And>j. j < n \<Longrightarrow> length (g j) = 16" "m < n"
  shows "slice (16 * m) 16 (concat (map g [0..<n])) = g m"
  using assms
proof (induction n)
  case (Suc n)
  have l: "length (concat (map g [0..<n])) = 16 * n" using Suc.prems(1) by (induction n) simp_all
  show ?case
  proof (cases "m = n")
    case True
    then show ?thesis using Suc.prems(1) [of n] l by (simp add: slice_def)
  next
    case False
    then have "16 * m + 16 \<le> 16 * n" using Suc.prems(2) by simp
    then have "slice (16 * m) 16 (concat (map g [0..<Suc n])) = slice (16 * m) 16 (concat (map g [0..<n]))" using l by (simp add: slice_def)
    then show ?thesis using Suc False by simp
  qed
qed simp

lemma dent_root:
  assumes "take (16 * (length fs + 2)) bs = dir_entry 1 (str ''.'') @ dir_entry 1 (str ''..'') @ entries_text 2 fs" "m < length fs + 2"
  shows "dent bs m = dir_entry (root_inum m) (names fs ! m)"
proof -
  have "16 * m + 16 \<le> 16 * (length fs + 2)" using assms(2) by simp
  then have "dent bs m = slice (16 * m) 16 (take (16 * (length fs + 2)) bs)" by (simp add: dent_def slice_def drop_take)
  then show ?thesis unfolding assms(1) root_text using concat_slice [of "length fs + 2" "\<lambda>j. dir_entry (root_inum j) (names fs ! j)" m] assms(2)
    by (simp add: length_dir_entry)
qed

lemma dent_match_root:
  assumes "take (16 * (length fs + 2)) bs = dir_entry 1 (str ''.'') @ dir_entry 1 (str ''..'') @ entries_text 2 fs" "m < length fs + 2"
    "length fs \<le> 198" "j < length fs + 2" "distinct (map de_name (names fs))" "\<forall>nm\<in>set (names fs). 0 \<notin> set nm"
  shows "dent_match bs (de_name (names fs ! j)) m \<longleftrightarrow> m = j" "get16 (dent bs m) 0 = of_nat (root_inum m)"
proof -
  have n: "root_inum m < 2 ^ 16" "0 < root_inum m" using assms(2,3) by (simp_all add: root_inum_def)
  note d = dent_root [OF assms(1,2)] and f = dir_entry_fields [OF n(1), of "names fs ! m"]
  show g: "get16 (dent bs m) 0 = of_nat (root_inum m)" using d f(1) by simp
  have "of_nat (root_inum m) \<noteq> (0 :: ushort)" using n by (simp add: word_unat_eq_iff unat_of_nat take_bit_nat_eq_self)
  moreover have "namecmp (de_name (names fs ! j)) (de_name (names fs ! m)) = 0 \<longleftrightarrow> de_name (names fs ! j) = de_name (names fs ! m)"
    using assms(2,4,6) by (intro namecmp_de_name) (simp_all add: length_names)
  moreover have "de_name (names fs ! j) = de_name (names fs ! m) \<longleftrightarrow> m = j"
    using nth_eq_iff_index_eq [OF assms(5), of j m] assms(2,4) by (auto simp: length_names)
  ultimately show "dent_match bs (de_name (names fs ! j)) m \<longleftrightarrow> m = j" using d f(2) g by (simp add: dent_match_def)
qed

section \<open>From the command line of \<^verbatim>\<open>mkfs\<close> to \<^verbatim>\<open>readi\<close>\<close>

text \<open>A machine before \<^verbatim>\<open>fsinit\<close>: no buffer and no inode is in use.\<close>

definition fs_idle :: "nat \<Rightarrow> 'a fsst_scheme \<Rightarrow> bool" where
  "fs_idle p s \<longleftrightarrow> (\<exists>a. cached p a s \<and> cheld a = {} \<and> cref a = (\<lambda>_. 0)) \<and> (\<forall>i. iref (inodes s i) = 0 \<and> \<not> slocked (slocks s (InodeLk i)))"

lemma fs_idleD:
  assumes "fs_idle p s"
  shows "\<exists>a. fs_at p a (inodes s) {} (sb s) s \<and> cheld a = {} \<and> cref a = (\<lambda>_. 0) \<and> (\<forall>m. small m \<longrightarrow> cview a m = disk_of s m)"
proof -
  obtain a where a: "cached p a s" "cheld a = {}" "cref a = (\<lambda>_. 0)" using assms by (auto simp: fs_idle_def)
  have "cview a m = disk_of s m" if "small m" for m using cached_view [OF a(1) that] a(3) cached_disk [OF a(1)] by simp
  then show ?thesis using a assms by (auto simp: fs_idle_def fs_at_def)
qed

lemma nblk_round:
  assumes "z mod 1024 \<noteq> 0"
  shows "nblk ((z div 1024 + 1) * 1024) = nblk z"
proof -
  define q r where "q = z div 1024" and "r = z mod 1024"
  have z: "z = q * 1024 + r" "0 < r" "r < 1024" using assms by (simp_all add: q_def r_def)
  have "nblk z = q + 1" unfolding z(1) nblk_def using z(2,3) by simp
  then show ?thesis unfolding q_def [symmetric] by (simp add: nblk_def)
qed

text \<open>The files of the image as the kernel sees them.\<close>

lemma image_in_cache:
  assumes "length fs \<le> 198" and "\<forall>f\<in>set fs. 47 \<notin> set (short_name (fst f)) \<and> length (data_of (snd f)) \<le> 268 * 1024"
    and "46 + used (16 * (length fs + 2)) + file_cost fs \<le> 1000" "(length fs + 2) mod 64 \<noteq> 0"
    and "mk_main (Some (name, True)) (map (\<lambda>(a, reads). (a, Some reads)) fs) = Inr st"
    and "cheld a = {}" "cref a = (\<lambda>_. 0)" "\<forall>b < 1000. b \<noteq> 2 \<longrightarrow> view a b = img st ! b"
  defines "root \<equiv> disk_inode a mk_sb 1"
  shows "file_ok a root" "di_type root = T_DIR" "di_nlink root \<noteq> 0" "16 * (length fs + 2) \<le> dsize root"
    "take (16 * (length fs + 2)) (dbytes root (view a)) = dir_entry 1 (str ''.'') @ dir_entry 1 (str ''..'') @ entries_text 2 fs"
    "j < length fs \<Longrightarrow> file_ok a (disk_inode a mk_sb (of_nat (j + 2))) \<and> di_type (disk_inode a mk_sb (of_nat (j + 2))) = T_FILE \<and>
       dbytes (disk_inode a mk_sb (of_nat (j + 2))) (view a) = data_of (snd (fs ! j))"
    "sb_dec (img st ! 1) = mk_sb" "img st ! 2 = replicate 1024 0"
proof -
  obtain st' st1 where f: "mk_main (Some (name, True)) (map (\<lambda>(a, reads). (a, Some reads)) fs) = Inr st'"
      "made st1 ((dir_entry 1 (str ''.'') @ dir_entry 1 (str ''..'')) @ entries_text 2 fs) (2 + length fs)"
      "\<And>j. j < length fs \<Longrightarrow> file_bytes st1 (2 + j) = data_of (snd (fs ! j)) \<and> di_type (inode_at st1 (2 + j)) = T_FILE"
      "\<And>k. k < 208 \<Longrightarrow> inode_at st' k = (if k = 1 then (inode_at st1 1)\<lparr>di_size := (di_size (inode_at st1 1) div 1024 + 1) * 1024\<rparr> else inode_at st1 k)"
      "\<And>b. b < 32 \<or> 46 \<le> b \<Longrightarrow> img st' ! b = img st1 ! b"
    using mk_main_run [OF assms(1,2) refl assms(3), of name] by blast
  then have eq: "st' = st" using assms(5) by simp
  note m = f(2) [unfolded made_def]
  note mo = mk_okD [OF m [THEN conjunct1]]
  let ?din = "inode_at st1 1"
  let ?d = "?din\<lparr>di_size := (di_size ?din div 1024 + 1) * 1024\<rparr>"
  have z: "dsize ?din = 16 * (length fs + 2)"
    using m length_file_bytes [of st1 1] by (simp add: length_entries_text length_dir_entry)
  have la: "dsize ?din \<le> 268 * 1024" unfolding z using assms(1) by simp
  have rz: "dsize ?d = (dsize ?din div 1024 + 1) * 1024" by (rule round_up [OF la])
  have hi: "view a b = blocks st1 b" if "46 \<le> b" "b < 1000" for b using assms(8) f(5) that eq by simp
  have ino: "disk_inode a mk_sb (of_nat k) = (if k = 1 then ?d else inode_at st1 k)" if "k < 208" for k
    using disk_inode_image(1) [OF that, of a st] assms(8) f(4) [OF that] eq by simp
  have r: "root = ?d" using ino [of 1] by (simp add: root_def)
  note fl = image_file [OF mo(3) _ assms(6,7) hi]
  have "dsize ?din mod 1024 \<noteq> 0" unfolding z using mod_mult_mult1 [of 16 "length fs + 2" 64] assms(4) by simp
  then have "nblk (dsize ?d) = nblk (dsize ?din)" unfolding rz by (rule nblk_round)
  moreover have "dsize ?d \<le> 268 * 1024" unfolding rz z using assms(1) by simp
  ultimately show "file_ok a root" unfolding r using fl(2) [of 1 ?d] by simp
  show "di_type root = T_DIR" "di_nlink root \<noteq> 0" using m r by simp_all
  show le: "16 * (length fs + 2) \<le> dsize root" unfolding r rz z using block_end [of "16 * (length fs + 2)"] by simp
  have "take (dsize ?din) (dbytes ?d (view a)) = dbytes ?din (view a)" by (rule dbytes_resize) (use le r z in simp)
  then show "take (16 * (length fs + 2)) (dbytes root (view a)) = dir_entry 1 (str ''.'') @ dir_entry 1 (str ''..'') @ entries_text 2 fs"
    unfolding r z using fl(1) [of 1] m by (simp add: file_bytes_def)
  show "file_ok a (disk_inode a mk_sb (of_nat (j + 2))) \<and> di_type (disk_inode a mk_sb (of_nat (j + 2))) = T_FILE \<and>
      dbytes (disk_inode a mk_sb (of_nat (j + 2))) (view a) = data_of (snd (fs ! j))" if j: "j < length fs"
  proof -
    have k: "j + 2 < 208" using j assms(1) by simp
    have "dsize (inode_at st1 (j + 2)) \<le> 268 * 1024" using image_okD(5) [OF mo(3) k] by (simp add: dinode_ok_def)
    then show ?thesis using ino [OF k] fl [OF k] f(3) [OF j] by (simp add: file_bytes_def add.commute)
  qed
  show "sb_dec (img st ! 1) = mk_sb" "img st ! 2 = replicate 1024 0" using f(5) [of 1] f(5) [of 2] m sb_roundtrip eq by simp_all
qed

text \<open>
  C10: The kernel reads what \<^verbatim>\<open>mkfs\<close> has written. Take files that \<^verbatim>\<open>mkfs\<close> can put into an image, with names that are different in their first 14
  bytes, and whose directory does not fill its last block. A machine that starts with that image as its disk runs \<^verbatim>\<open>fsinit\<close> without error, \<^verbatim>\<open>namei\<close> finds the inode of
  each file by its absolute path, \<^verbatim>\<open>ilock\<close> loads it, and \<^verbatim>\<open>readi\<close> returns exactly the data of the file.
\<close>

theorem kernel_reads_image:
  fixes s :: "'a fsst_scheme"
  assumes "length fs \<le> 198" and "\<forall>f\<in>set fs. 47 \<notin> set (short_name (fst f)) \<and> length (data_of (snd f)) \<le> 268 * 1024"
    and "46 + used (16 * (length fs + 2)) + sum_list (map (\<lambda>f. used (length (data_of (snd f)))) fs) \<le> 1000" "(length fs + 2) mod 64 \<noteq> 0"
    and "distinct (map de_name (names fs))" "\<forall>nm\<in>set (names fs). nm \<noteq> [] \<and> 0 \<notin> set nm"
    and "mk_main (Some (name, True)) (map (\<lambda>(a, reads). (a, Some reads)) fs) = Inr st"
    and "fs_idle p s" "\<forall>b < 1000. disk_of s (of_nat b) = img st ! b" "j < length fs"
  shows "\<exists>s1 ip s2 s3 s4. fsinit 1 s = Inr s1 \<and> namei (47 # entry_name (fst (fs ! j))) s1 = Inr (Some ip, s2) \<and> ilock (Some ip) s2 = Inr s3 \<and>
    readi ip Kbuf 0 (isize ip s3) s3 = Inr ((int (length (data_of (snd (fs ! j)))), data_of (snd (fs ! j))), s4)"
proof -
  obtain a where a: "fs_at p a (inodes s) {} (sb s) s" "cheld a = {}" "cref a = (\<lambda>_. 0)" "\<And>m. small m \<Longrightarrow> cview a m = disk_of s m"
    using fs_idleD [OF assms(8)] by blast
  have v: "view a b = img st ! b" if "b < 1000" for b
    using a(4) [of "of_nat b"] assms(9) that by (simp add: small_def unat_of_nat)
  then have "\<forall>b < 1000. b \<noteq> 2 \<longrightarrow> view a b = img st ! b" by simp
  note im0 = image_in_cache [OF assms(1-4,7) a(2,3) this]
  have "sb_dec (cview a 1) = mk_sb" "get32 (cview a 2) 0 = 0"
    using im0(7,8) v v [of 1] v [of 2] by (simp_all add: get32_def slice_def)
  then obtain s1 a1 where 1: "fsinit 1 s = Inr s1" "fs_at p a1 (inodes s) {} mk_sb s1" "cheld a1 = {}" "cref a1 = (\<lambda>_. 0)"
      "\<And>m. m \<noteq> 2 \<Longrightarrow> cview a1 m = cview a m"
    using fsinit_ok [OF a(1-3)] by blast
  have ne: "of_nat b \<noteq> (2 :: uint)" if "b < 1000" "b \<noteq> 2" for b using that by (simp add: word_unat_eq_iff unat_of_nat)
  have v1: "\<forall>b < 1000. b \<noteq> 2 \<longrightarrow> view a1 b = img st ! b" using 1(5) [OF ne] v by simp
  note im = image_in_cache [OF assms(1-4,7) 1(3,4) v1]
  let ?root = "disk_inode a1 mk_sb 1" and ?nm = "entry_name (fst (fs ! j))" and ?k = "j + 2"
  let ?bs = "dbytes ?root (view a1)" and ?n = "of_nat (j + 2) :: uint"
  have k: "?k < length fs + 2" "?k < 208" using assms(1,10) by simp_all
  have nj: "names fs ! ?k = ?nm" using assms(10) by (simp add: names_def)
  then have nm: "?nm \<noteq> []" "47 \<notin> set ?nm" using assms(2,6,10) by (auto simp: names_def entry_name_def Let_def dest: in_set_dropD)
  have z: "\<forall>nm\<in>set (names fs). 0 \<notin> set nm" using assms(6) by blast
  note dm = dent_match_root [OF im(5) _ assms(1) k(1) assms(5) z, unfolded nj]
  have ri: "root_inum ?k = ?k" by (simp add: root_inum_def)
  have g: "ucast (get16 (dent ?bs ?k) 0) = ?n" unfolding dm(2) [OF k(1)] ri using k(2) by (intro ucast_ushort) simp
  have "unat ?n = ?k" using k(2) by (intro unat_of_nat_uint) simp
  then have n1: "?n \<noteq> 1" using unat_1 [where 'a = 32] by (metis Suc_eq_plus1 add_2_eq_Suc' n_not_Suc_n One_nat_def nat.inject zero_neq_one old.nat.distinct(2))
  have iref: "\<And>i. iref (inodes s i) = 0" using assms(8) by (simp add: fs_idle_def)
  have fr: "free_for a1 (IBLOCK 1 mk_sb)" "free_for a1 (IBLOCK ?n mk_sb)"
    using disk_inode_image(2) [of 1 a1 st] disk_inode_image(2) [OF k(2), of a1 st] v1 1(3,4) by simp_all
  have le: "16 * ?k + 16 \<le> dsize ?root" using im(4) k(1) by simp
  obtain s2 f2 where 2: "namei (47 # ?nm) s1 = Inr (Some 1, s2)" "fs_at p a1 f2 {} mk_sb s2" "idev (f2 1) = 1" "inum (f2 1) = ?n" "iref (f2 1) = 1" "\<not> ivalid (f2 1)"
    using namei_ok [OF 1(2) iref im(1-3) fr(1) refl nm le _ _ g [symmetric] n1] dm(1) k(1) by auto
  let ?d = "disk_inode a1 mk_sb ?n"
  have d: "file_ok a1 ?d" "di_type ?d = T_FILE" "dbytes ?d (view a1) = data_of (snd (fs ! j))" using im(6) [OF assms(10)] by auto
  obtain s3 where 3: "ilock (Some 1) s2 = Inr s3" "fs_at p a1 (f2(1 := (f2 1)\<lparr>idi := ?d, ivalid := True\<rparr>)) {1} mk_sb s3"
    using ilock_load [OF 2(2), of 1 ?d] 2(3-6) fr(2) d(2) by auto
  have sz: "isize 1 s3 = di_size ?d" "dsize ?d = length (data_of (snd (fs ! j)))"
    using fs_atD(2) [OF 3(2)] d(3) by (simp_all add: dbytes_def flip: d(3))
  have lt: "unat (0 :: uint) \<le> dsize ?d" "unat (0 :: uint) + unat (di_size ?d) < 2 ^ 32" using unsigned_less [of "di_size ?d"] by simp_all
  obtain s4 where "readi 1 Kbuf 0 (di_size ?d) s3 = Inr ((int (dsize ?d), dbytes ?d (view a1)), s4)"
    using readi_at [OF 3(2), of 1 0 "di_size ?d"] 2(3) d(1) lt by (auto simp: dsize_def dbytes_def)
  then show ?thesis using 1(1) 2(1) 3(1) sz d(3) by auto
qed

text \<open>A machine with a given disk, before \<^verbatim>\<open>fsinit\<close>.\<close>

definition fs_st0 :: "(uint64 \<Rightarrow> byte list) \<Rightarrow> fsst" where
  "fs_st0 im = logst.extend (boot_st im) (fsst.fields
     \<lparr>sb_magic = 0, sb_size = 0, sb_nblocks = 0, sb_ninodes = 0, sb_nlog = 0, sb_logstart = 0, sb_inodestart = 0, sb_bmapstart = 0\<rparr>
     (\<lambda>_. \<lparr>idev = 0, inum = 0, iref = 0, ivalid = False, idi = no_inode\<rparr>))"

lemma fs_st0_fields [simp]:
  "lks (fs_st0 im) = lks (boot_st im)" "slocks (fs_st0 im) = slocks (boot_st im)" "bufs (fs_st0 im) = bufs (boot_st im)" "lru (fs_st0 im) = lru (boot_st im)"
  "vq (fs_st0 im) = vq (boot_st im)" "vfree (fs_st0 im) = vfree (boot_st im)" "vused_idx (fs_st0 im) = vused_idx (boot_st im)" "vdev (fs_st0 im) = vdev (boot_st im)"
  "iref (inodes (fs_st0 im) i) = 0"
  by (simp_all add: fs_st0_def logst.defs fsst.defs)

lemma fs_st0_idle: "fs_idle 1 (fs_st0 im)" "disk_of (fs_st0 im) m = im (sector m)"
proof -
  have "\<not> holder (fs_st0 im) n b" for n b by (simp add: holder_def)
  then have "cached 1 (cache0\<lparr>cview := (\<lambda>m. im (sector m)), cimg := im\<rparr>) (fs_st0 im)"
    unfolding cached_def cached0_def using boot_idle [of im]
    by (simp add: cache0_def on_disk_def last_write_def atLeast_upt disk_idle_def quiet_def)
  then show "fs_idle 1 (fs_st0 im)"
    unfolding fs_idle_def by (auto intro!: exI [of _ "cache0\<lparr>cview := (\<lambda>m. im (sector m)), cimg := im\<rparr>"] simp: cache0_def)
  show "disk_of (fs_st0 im) m = im (sector m)" by (simp add: disk_of_def disk_block_def)
qed

theorem kernel_reads_image_witness:
  "\<exists>st s1 ip s2 s3 s4. mk_main (Some (str ''fs.img'', True)) [(str ''user/_hi'', Some [[104, 105], [10], []])] = Inr st \<and>
     fsinit 1 (fs_st0 (\<lambda>k. img st ! (unat k div 2))) = Inr s1 \<and> namei (str ''/hi'') s1 = Inr (Some ip, s2) \<and> ilock (Some ip) s2 = Inr s3 \<and>
     readi ip Kbuf 0 (isize ip s3) s3 = Inr ((3, [104, 105, 10]), s4)"
proof -
  let ?fs = "[(str ''user/_hi'', [[104, 105], [10], [] :: byte list])]"
  have n: "short_name (str ''user/_hi'') = str ''_hi''" "entry_name (str ''user/_hi'') = str ''hi''" by code_simp+
  have d: "data_of [[104, 105], [10], []] = [104, 105, 10]" by (simp add: data_of_def)
  have h: "\<forall>f\<in>set ?fs. 47 \<notin> set (short_name (fst f)) \<and> length (data_of (snd f)) \<le> 268 * 1024" unfolding list.set by (simp add: n d) code_simp
  have u: "46 + used (16 * (length ?fs + 2)) + sum_list (map (\<lambda>f. used (length (data_of (snd f)))) ?fs) \<le> 1000" by (simp add: d used_small)
  have nm: "names ?fs = [str ''.'', str ''..'', str ''hi'']" by (simp add: names_def n)
  have "distinct (map de_name [str ''.'', str ''..'', str ''hi''])" "list_all (\<lambda>nm. nm \<noteq> [] \<and> 0 \<notin> set nm) [str ''.'', str ''..'', str ''hi'']" by code_simp+
  then have nms: "distinct (map de_name (names ?fs))" "\<forall>nm\<in>set (names ?fs). nm \<noteq> [] \<and> 0 \<notin> set nm" unfolding nm list_all_iff .
  obtain st where st: "mk_main (Some (str ''fs.img'', True)) (map (\<lambda>(a, reads). (a, Some reads)) ?fs) = Inr st"
    using mk_main_run [OF _ h refl u, of "str ''fs.img''"] by auto
  have im: "\<forall>b < 1000. disk_of (fs_st0 (\<lambda>k. img st ! (unat k div 2))) (of_nat b) = img st ! b"
  proof (intro allI impI)
    fix b :: nat assume b: "b < 1000"
    then have "unat (of_nat b * 2 :: uint) = 2 * b" by (subst unat_double) (simp_all add: small_def unat_of_nat)
    then have "unat (sector (of_nat b)) = 2 * b" using b by (simp add: sector_def unsigned_ucast_eq take_bit_nat_eq_self)
    then show "disk_of (fs_st0 (\<lambda>k. img st ! (unat k div 2))) (of_nat b) = img st ! b" by (simp add: fs_st0_idle(2))
  qed
  have "str ''/hi'' = 47 # str ''hi''" by code_simp
  then show ?thesis
    using kernel_reads_image [OF _ h u _ nms st fs_st0_idle(1) im, of 0] st by (simp add: n d)
qed

end
