(* ===== verification/Tx.thy ===== *)
theory Tx
  imports Inode
begin

text \<open>
  Transactions as the file system sees them: what it reads is a map \<open>V\<close> from block numbers to blocks; a block that it changes is logged before it is released.
\<close>

section \<open>The interface\<close>

lemma trans_frame:
  assumes "trans_inv p a s" "bframe s s'" "cached p a s'"
  shows "trans_inv p a s'" "logged s' = logged s" "disk_of s' = disk_of s"
proof -
  note F = log_fields [OF assms(2)]
  have c: "cached p a s" using assms(1) by (simp add: trans_inv_def)
  show lg: "logged s' = logged s" by (simp add: logged_def F)
  show d: "disk_of s' = disk_of s" using cached_disk [OF c] cached_disk [OF assms(3)] by simp
  show "trans_inv p a s'" using assms(1,3) unfolding trans_inv_def lg d F by simp
qed

text \<open>
  Process \<open>p\<close> is in a transaction on a disk \<open>D\<close> and sees the blocks \<open>V\<close>; it holds the blocks of \<open>H\<close> in their buffers; the blocks \<open>C\<close> are logged. The inode table, the
  locked inodes and the superblock are as in \<^const>\<open>fs_at\<close>.
\<close>

definition tx ::
  "nat \<Rightarrow> (uint \<Rightarrow> byte list) \<Rightarrow> disk \<Rightarrow> uint set \<Rightarrow> (nat \<Rightarrow> inode) \<Rightarrow> nat set \<Rightarrow> superblock \<Rightarrow> (uint \<rightharpoonup> nat) \<Rightarrow> 'a fsst_scheme \<Rightarrow> bool" where
  "tx p V D C f L k H s \<longleftrightarrow> (\<exists>a. trans_inv p a s \<and> fs_at p a f L k s \<and> cheld a = dom H \<and> finite (dom H) \<and>
     cref a = (\<lambda>x. (if x \<in> C then 1 else 0) + (if x \<in> dom H then 1 else 0)) \<and> cview a = V \<and> (\<forall>m b. H m = Some b \<longrightarrow> holder s m b)) \<and>
     disk_of s = D \<and> logged s = C \<and> outstanding s = 1 \<and> st_of s = sb_logstart k \<and> \<not> committing s"

lemma txE:
  assumes "tx p V D C f L k H s"
  obtains a where "trans_inv p a s" "fs_at p a f L k s" "cheld a = dom H" "finite (dom H)"
    "cref a = (\<lambda>x. (if x \<in> C then 1 else 0) + (if x \<in> dom H then 1 else 0))" "cview a = V" "\<And>m b. H m = Some b \<Longrightarrow> holder s m b"
    "disk_of s = D" "logged s = C" "outstanding s = 1" "st_of s = sb_logstart k" "\<not> committing s"
  using assms unfolding tx_def by blast

lemma txI:
  assumes "trans_inv p a s" "fs_at p a f L k s" "cheld a = dom H" "finite (dom H)"
    "cref a = (\<lambda>x. (if x \<in> C then 1 else 0) + (if x \<in> dom H then 1 else 0))" "cview a = V" "\<And>m b. H m = Some b \<Longrightarrow> holder s m b"
    "disk_of s = D" "logged s = C" "outstanding s = 1" "st_of s = sb_logstart k" "\<not> committing s"
  shows "tx p V D C f L k H s"
  using assms unfolding tx_def by blast

lemma finite_logged: "finite (logged s)"
  by (simp add: logged_def)

lemma card_logged: "trans_inv p a s \<Longrightarrow> int (card (logged s)) = lh_n s"
  by (simp add: trans_inv_def logged_def card_image)

lemma tx_fields:
  assumes "tx p V D C f L k H s"
  shows "inodes s = f" "sb s = k" "quiet s" "cproc (mycpu (lks s)) = Some p"
  using assms by (auto elim!: txE dest: fs_atD)

lemma tx_data:
  assumes "tx p V D C f L k H s" "H m = Some b"
  shows "buf_data b s = V m"
proof (rule txE [OF assms(1)])
  fix a assume a: "fs_at p a f L k s" "cheld a = dom H" "cview a = V" "\<And>m b. H m = Some b \<Longrightarrow> holder s m b"
  have "m \<in> cheld a" using assms(2) a(2) by auto
  then show ?thesis using buf_data_cached [OF fs_atD(1) [OF a(1)] a(4) [OF assms(2)]] a(3) by simp
qed

lemma tx_settle [simp]: "tx p V D C f L k H s \<Longrightarrow> tx p V D C f L k H (s\<lparr>lks := settle (lks s)\<rparr>)"
proof -
  assume t: "tx p V D C f L k H s"
  show ?thesis
  proof (rule txE [OF t])
    fix a assume a: "trans_inv p a s" "fs_at p a f L k s" "cheld a = dom H" "finite (dom H)"
      "cref a = (\<lambda>x. (if x \<in> C then 1 else 0) + (if x \<in> dom H then 1 else 0))" "cview a = V" "\<And>m b. H m = Some b \<Longrightarrow> holder s m b"
      "disk_of s = D" "logged s = C" "outstanding s = 1" "st_of s = sb_logstart k" "\<not> committing s"
    let ?s = "s\<lparr>lks := settle (lks s)\<rparr>"
    have c: "cached p a ?s" using a(1) by (simp add: trans_inv_def)
    note T = trans_frame [OF a(1) bframe_settle c]
    show "tx p V D C f L k H ?s"
      by (rule txI [OF T(1) fs_at_frame [OF a(2) c bframe_settle] a(3,4) _ a(6)]) (use a T in \<open>simp_all\<close>)
  qed
qed

lemma tx_get:
  assumes "tx p V D C f L k H s" "m \<notin> dom H" "small m" "\<not> in_log (sb_logstart k) m" "card C + card (dom H) < 30"
  shows "\<exists>b s'. bread 1 m s = Inr (b, s') \<and> tx p V D C f L k (H(m \<mapsto> b)) s' \<and> buf_data b s' = V m \<and> (m \<in> C \<or> V m = D m)"
proof (rule txE [OF assms(1)])
  fix a assume a: "trans_inv p a s" "fs_at p a f L k s" "cheld a = dom H" "finite (dom H)"
    "cref a = (\<lambda>x. (if x \<in> C then 1 else 0) + (if x \<in> dom H then 1 else 0))" "cview a = V" "\<And>m b. H m = Some b \<Longrightarrow> holder s m b"
    "disk_of s = D" "logged s = C" "outstanding s = 1" "st_of s = sb_logstart k" "\<not> committing s"
  have "{x. cref a x \<noteq> 0} = C \<union> dom H" by (auto simp: a(5))
  then have "card {x. cref a x \<noteq> 0} \<le> card C + card (dom H)" by (simp add: card_Un_le)
  then have fr: "free_for a m" using assms(2,3,5) a(3,5,9) by (simp add: free_for_def)
  have nl: "\<not> in_log (st_of s) m" using assms(4) a(11) by simp
  obtain b s' where r: "bread 1 m s = Inr (b, s')" "cached p (c_get m a) s'" "holder s' m b" "bkeep a s s'"
    using bc.get_law [OF fs_atD(1) [OF a(2)], of m] fr by (auto simp: free_for_def)
  have t: "trans_inv p (c_get m a) s'" "logged s' = logged s" using trans_get [OF a(1) fr nl] r(1) by auto
  note F = log_fields [OF bkeep_bframe [OF r(4)]]
  have d: "disk_of s' = D" using cached_disk [OF r(2)] cached_disk [OF fs_atD(1) [OF a(2)]] a(8) by simp
  have h: "holder s' x y" if "(H(m \<mapsto> b)) x = Some y" for x y
  proof (cases "x = m")
    case False
    then have "x \<in> dom H" "holder s x y" using that a(7) by (auto split: if_splits)
    moreover from this have "0 < cref a x" by (simp add: a(5))
    ultimately show ?thesis using r(4) by (auto simp: bkeep_def)
  qed (use that r(3) in simp)
  have "tx p V D C f L k (H(m \<mapsto> b)) s'"
    by (rule txI [OF t(1) fs_at_frame [OF a(2) r(2) bkeep_bframe [OF r(4)]] _ _ _ _ h d])
      (use a t(2) assms(2) F in \<open>auto simp: c_get_def\<close>)
  moreover have "buf_data b s' = V m" using buf_data_cached [OF r(2,3)] a(6) by (simp add: c_get_def)
  moreover have "m \<in> C \<or> V m = D m" using a(1,3,6,8,9) assms(2,3) unfolding trans_inv_def by blast
  ultimately show ?thesis using r(1) t(2) by blast
qed

lemma tx_set:
  assumes "tx p V D C f L k H s" "H m = Some b"
  shows "tx p (V(m := d)) D C f L k H (set_data b d s)"
proof -
  have lg: "logged (set_data b d s) = logged s" by (simp add: logged_def set_data_def upd_vq_def)
  show "tx p (V(m := d)) D C f L k H (set_data b d s)"
  proof (rule txE [OF assms(1)])
    fix a assume a: "trans_inv p a s" "fs_at p a f L k s" "cheld a = dom H" "finite (dom H)"
      "cref a = (\<lambda>x. (if x \<in> C then 1 else 0) + (if x \<in> dom H then 1 else 0))" "cview a = V" "\<And>m b. H m = Some b \<Longrightarrow> holder s m b"
      "disk_of s = D" "logged s = C" "outstanding s = 1" "st_of s = sb_logstart k" "\<not> committing s"
    have m: "m \<in> cheld a" using assms(2) a(3) by auto
    note S = set_data_cached [OF fs_atD(1) [OF a(2)] a(7) [OF assms(2)] m, of d]
    note F = log_fields [OF bkeep_bframe [OF S(3)]]
    have od: "on_disk (c_set m d a) = on_disk a" by (simp add: on_disk_def c_set_def fun_eq_iff)
    have dk: "disk_of (set_data b d s) = disk_of s" using cached_disk [OF S(1)] cached_disk [OF fs_atD(1) [OF a(2)]] od by simp
    have "trans_inv p (c_set m d a) (set_data b d s)"
      using a(1) S(1) m unfolding trans_inv_def lg dk F by (auto simp: c_set_def)
    then show ?thesis
      by (rule txI [OF _ fs_at_frame [OF a(2) S(1) bkeep_bframe [OF S(3)]]]) (use a F S(2) dk lg in \<open>auto simp: c_set_def\<close>)
  qed
qed

lemma tx_log:
  assumes "tx p V D C f L k H s" "H m = Some b" "\<not> in_log (sb_logstart k) m" "card C < 29"
  shows "\<exists>s'. log_write b s = Inr s' \<and> tx p V D (insert m C) f L k H s'"
proof (rule txE [OF assms(1)])
  fix a assume a: "trans_inv p a s" "fs_at p a f L k s" "cheld a = dom H" "finite (dom H)"
    "cref a = (\<lambda>x. (if x \<in> C then 1 else 0) + (if x \<in> dom H then 1 else 0))" "cview a = V" "\<And>m b. H m = Some b \<Longrightarrow> holder s m b"
    "disk_of s = D" "logged s = C" "outstanding s = 1" "st_of s = sb_logstart k" "\<not> committing s"
  have m: "m \<in> cheld a" "m \<in> dom H" using assms(2) a(3) by auto
  have n: "lh_n s < int LOGSIZE - 1" "0 \<le> lh_n s" using card_logged [OF a(1)] a(9) assms(4) by simp_all
  have nl: "\<not> in_log (st_of s) m" using assms(3) a(11) by simp
  have hb: "blockno (bufs s b) = m" using a(7) [OF assms(2)] by (simp add: holder_def)
  have ls: "log_size s = int LOGSIZE" "1 \<le> outstanding s" using a(1,10) by (simp_all add: trans_inv_def)
  have rf: "cref a m < 2 ^ 31" by (simp add: a(5))
  obtain s' where l: "log_write b s = Inr s'" "trans_inv p (if m \<in> logged s then a else c_pin m a) s'" "logged s' = insert m (logged s)"
      "holder s' = holder s" "outstanding s' = outstanding s" "disk_of s' = disk_of s"
    using log_write_inv [OF a(1) a(7) [OF assms(2)] m(1) nl rf n(1) ls(2)] by blast
  have run: "log_write b s = Inr (if m \<in> logged s
      then s\<lparr>lh_block := (lh_block s)[log_slot s m := sint m], lks := settle (lks s)\<rparr>
      else s\<lparr>lh_block := (lh_block s)[nat (lh_n s) := sint m],
             bufs := (bufs s)(b := (bufs s b)\<lparr>refcnt := refcnt (bufs s b) + 1\<rparr>),
             lh_n := lh_n s + 1, lks := settle (lks s)\<rparr>)"
    using log_write_run [OF fs_atD(4) [OF a(2)] n(2,1) ls, of b] hb by simp
  have c: "cached p (if m \<in> logged s then a else c_pin m a) s'" using l(2) by (simp add: trans_inv_def)
  have at: "fs_at p (if m \<in> logged s then a else c_pin m a) f L k s'" and st: "log_start s' = log_start s" "committing s' = committing s"
    using a(2) c run l(1) by (auto simp: fs_at_def split: if_splits)
  have "tx p V D (insert m C) f L k H s'"
    by (intro txI [OF l(2) at]) (use a l(3-6) st m in \<open>auto simp: c_pin_def fun_eq_iff\<close>)
  then show ?thesis using l(1) by blast
qed

lemma tx_put:
  assumes "tx p V D C f L k H s" "H m = Some b" "m \<in> C \<or> V m = D m"
  shows "\<exists>s'. brelse b s = Inr s' \<and> tx p V D C f L k (H(m := None)) s'"
proof (rule txE [OF assms(1)])
  fix a assume a: "trans_inv p a s" "fs_at p a f L k s" "cheld a = dom H" "finite (dom H)"
    "cref a = (\<lambda>x. (if x \<in> C then 1 else 0) + (if x \<in> dom H then 1 else 0))" "cview a = V" "\<And>m b. H m = Some b \<Longrightarrow> holder s m b"
    "disk_of s = D" "logged s = C" "outstanding s = 1" "st_of s = sb_logstart k" "\<not> committing s"
  have m: "m \<in> cheld a" "m \<in> dom H" using assms(2) a(3) by auto
  have h: "holder s m b" by (rule a(7) [OF assms(2)])
  have od: "on_disk a = D" using cached_disk [OF fs_atD(1) [OF a(2)]] a(8) by simp
  have st: "settled a m" using assms(3) a(5,6) m(2) od by (auto simp: settled_def)
  obtain s' where r: "brelse b s = Inr s'" "cached p (c_rel m a) s'" "holder s' = holder s" "bkeep a s s'"
    using bc.put_law [OF fs_atD(1) [OF a(2)] h m(1) st] by blast
  note F = log_fields [OF bkeep_bframe [OF r(4)]]
  have lg: "logged s' = logged s" by (simp add: logged_def F)
  have d: "disk_of s' = disk_of s" using cached_disk [OF r(2)] cached_disk [OF fs_atD(1) [OF a(2)]] by simp
  have t: "trans_inv p (c_rel m a) s'"
    using a(1,5,9) r(2) assms(3) a(6,8) m unfolding trans_inv_def lg d F by (auto simp: c_rel_def)
  have "tx p V D C f L k (H(m := None)) s'"
    by (rule txI [OF t fs_at_frame [OF a(2) r(2) bkeep_bframe [OF r(4)]]])
      (use a lg d m F r(3) in \<open>auto simp: c_rel_def fun_eq_iff split: if_splits\<close>)
  then show ?thesis using r(1) by blast
qed

text \<open>Reading, changing, logging and releasing a block.\<close>

lemma tx_modify:
  assumes "tx p V D C f L k H s" "m \<notin> dom H" "small m" "\<not> in_log (sb_logstart k) m" "card C + card (dom H) < 29"
  shows "\<exists>b s1. bread 1 m s = Inr (b, s1) \<and> buf_data b s1 = V m \<and> inodes s1 = f \<and> sb s1 = k \<and>
    (\<forall>d. \<forall>t \<in> {s1, s1\<lparr>lks := settle (lks s1)\<rparr>}. \<exists>s2 s3. log_write b (set_data b d t) = Inr s2 \<and> brelse b s2 = Inr s3 \<and>
      tx p (V(m := d)) D (insert m C) f L k H s3)"
proof -
  have c: "card C + card (dom H) < 30" "card C < 29" using assms(5) by simp_all
  obtain b s1 where r: "bread 1 m s = Inr (b, s1)" "tx p V D C f L k (H(m \<mapsto> b)) s1" "buf_data b s1 = V m"
    using tx_get [OF assms(1-4) c(1)] by blast
  have "\<exists>s2 s3. log_write b (set_data b d t) = Inr s2 \<and> brelse b s2 = Inr s3 \<and> tx p (V(m := d)) D (insert m C) f L k H s3"
    if t: "t \<in> {s1, s1\<lparr>lks := settle (lks s1)\<rparr>}" for d t
  proof -
    have rt: "tx p V D C f L k (H(m \<mapsto> b)) t" using t r(2) by auto
    have b: "(H(m \<mapsto> b)) m = Some b" by simp
    obtain s2 where l: "log_write b (set_data b d t) = Inr s2" "tx p (V(m := d)) D (insert m C) f L k (H(m \<mapsto> b)) s2"
      using tx_log [OF tx_set [OF rt b, of d] b assms(4) c(2)] by blast
    obtain s3 where q: "brelse b s2 = Inr s3" "tx p (V(m := d)) D (insert m C) f L k ((H(m \<mapsto> b))(m := None)) s3"
      using tx_put [OF l(2) b] by blast
    have h: "(H(m \<mapsto> b))(m := None) = H" using assms(2) by (simp add: fun_upd_idem domIff)
    show ?thesis using q(1) q(2) [unfolded h] l(1) by blast
  qed
  then show ?thesis using r(1,3) tx_fields(1,2) [OF r(2)] by blast
qed

lemma tx_upd_idi:
  assumes "tx p V D C f L k H s"
  shows "tx p V D C (f(i := (f i)\<lparr>idi := g (idi (f i))\<rparr>)) L k H (upd_idi i g s)"
proof (rule txE [OF assms])
  fix a assume a: "trans_inv p a s" "fs_at p a f L k s" "cheld a = dom H" "finite (dom H)"
    "cref a = (\<lambda>x. (if x \<in> C then 1 else 0) + (if x \<in> dom H then 1 else 0))" "cview a = V" "\<And>m b. H m = Some b \<Longrightarrow> holder s m b"
    "disk_of s = D" "logged s = C" "outstanding s = 1" "st_of s = sb_logstart k" "\<not> committing s"
  let ?s = "upd_idi i g s"
  have e: "?s = s\<lparr>inodes := f(i := (f i)\<lparr>idi := g (idi (f i))\<rparr>)\<rparr>" using fs_atD(2) [OF a(2)] by (simp add: upd_idi_def upd_inode_def)
  have c: "cached p a ?s" using a(1) by (simp add: trans_inv_def e)
  have dk: "disk_of ?s = disk_of s" "logged ?s = logged s"
    using cached_disk [OF c] cached_disk [OF fs_atD(1) [OF a(2)]] by (simp_all add: e logged_def)
  have t: "trans_inv p a ?s" using a(1) c unfolding trans_inv_def dk by (simp add: e)
  have "fs_at p a (f(i := (f i)\<lparr>idi := g (idi (f i))\<rparr>)) L k ?s" using a(2) c by (simp add: fs_at_def e)
  then show ?thesis by (rule txI [OF t]) (use a dk in \<open>auto simp: e holder_def\<close>)
qed

section \<open>Blocks\<close>

lemma bzero_tx:
  assumes "tx p V D C f L k H s" "m \<notin> dom H" "small m" "\<not> in_log (sb_logstart k) m" "card C + card (dom H) < 29"
  shows "\<exists>s'. bzero 1 m s = Inr s' \<and> tx p (V(m := replicate BSIZE 0)) D (insert m C) f L k H s'"
proof -
  obtain b s1 s2 s3 where "bread 1 m s = Inr (b, s1)" "log_write b (set_data b (replicate BSIZE 0) s1) = Inr s2" "brelse b s2 = Inr s3"
      "tx p (V(m := replicate BSIZE 0)) D (insert m C) f L k H s3"
    using tx_modify [OF assms] by blast
  then show ?thesis by (simp add: bzero_def)
qed

text \<open>
  The blocks of the disk: a bitmap of one block at \<^const>\<open>sb_bmapstart\<close>, which marks itself and every block before it as used; the data
  blocks follow, and the log is before it.
\<close>

definition used_blk :: "(uint \<Rightarrow> byte list) \<Rightarrow> superblock \<Rightarrow> uint \<Rightarrow> bool" where
  "used_blk V k a \<longleftrightarrow> bm_get (V (sb_bmapstart k)) (unat a)"

definition data_blk :: "superblock \<Rightarrow> uint \<Rightarrow> bool" where
  "data_blk k a \<longleftrightarrow> sb_bmapstart k < a \<and> a < sb_size k"

definition layout :: "(uint \<Rightarrow> byte list) \<Rightarrow> superblock \<Rightarrow> bool" where
  "layout V k \<longleftrightarrow> unat (sb_size k) \<le> 8192 \<and> sb_bmapstart k < sb_size k \<and> unat (sb_logstart k) + LOGSIZE \<le> unat (sb_bmapstart k) \<and>
     length (V (sb_bmapstart k)) = BSIZE \<and> (\<forall>n \<le> unat (sb_bmapstart k). bm_get (V (sb_bmapstart k)) n)"

definition free_blks :: "(uint \<Rightarrow> byte list) \<Rightarrow> superblock \<Rightarrow> uint set" where
  "free_blks V k = {a. data_blk k a \<and> \<not> used_blk V k a}"

lemma data_blkD:
  assumes "layout V k" "data_blk k a"
  shows "small a" "\<not> in_log (sb_logstart k) a" "a \<noteq> sb_bmapstart k" "unat a < 8192" "a \<noteq> 0"
  using assms by (auto simp: layout_def data_blk_def word_less_nat_alt small_def in_log_def)

lemma layoutD:
  assumes "layout V k"
  shows "small (sb_bmapstart k)" "\<not> in_log (sb_logstart k) (sb_bmapstart k)"
  using assms by (auto simp: layout_def word_less_nat_alt small_def in_log_def)

text \<open>The blocks once a block is allocated.\<close>

definition ballocd :: "superblock \<Rightarrow> uint \<Rightarrow> (uint \<Rightarrow> byte list) \<Rightarrow> uint \<Rightarrow> byte list" where
  "ballocd k a V = V(sb_bmapstart k := bm_set True (unat a) (V (sb_bmapstart k)), a := replicate BSIZE 0)"

lemma ballocd_used:
  assumes "layout V k" "data_blk k a"
  shows "used_blk (ballocd k a V) k m \<longleftrightarrow> m = a \<or> used_blk V k m"
    "layout (ballocd k a V) k" "free_blks (ballocd k a V) k = free_blks V k - {a}"
proof -
  note d = data_blkD [OF assms]
  have l: "unat a div 8 < length (V (sb_bmapstart k))" using assms(1) less_mult_imp_div_less [of "unat a" 1024 8] d(4) by (simp add: layout_def)
  note b = bm_get_set [OF l]
  have e: "ballocd k a V (sb_bmapstart k) = bm_set True (unat a) (V (sb_bmapstart k))" using d(3) by (simp add: ballocd_def)
  show u: "used_blk (ballocd k a V) k m \<longleftrightarrow> m = a \<or> used_blk V k m" for m by (auto simp: used_blk_def e b word_unat_eq_iff)
  show "layout (ballocd k a V) k" using assms(1) by (auto simp: layout_def e b) (simp add: bm_set_def)
  show "free_blks (ballocd k a V) k = free_blks V k - {a}" by (auto simp: free_blks_def u)
qed

lemma balloc_tx:
  assumes "tx p V D C f L k H s" "layout V k" "free_blks V k \<noteq> {}" "sb_bmapstart k \<notin> dom H" "\<forall>m \<in> dom H. used_blk V k m" "card C + card (dom H) < 28"
  shows "\<exists>a s'. balloc 1 s = Inr (a, s') \<and> a \<in> free_blks V k \<and> tx p (ballocd k a V) D (insert a (insert (sb_bmapstart k) C)) f L k H s'"
proof -
  let ?bm = "sb_bmapstart k" and ?sz = "unat (sb_size k)"
  note ly = layoutD [OF assms(2)]
  have c: "card C + card (dom H) < 29" using assms(6) by simp
  obtain b s1 where r: "bread 1 ?bm s = Inr (b, s1)" "buf_data b s1 = V ?bm" "\<And>d. \<exists>s2 s3. log_write b (set_data b d s1) = Inr s2 \<and> brelse b s2 = Inr s3 \<and>
      tx p (V(?bm := d)) D (insert ?bm C) f L k H s3"
    using tx_modify [OF assms(1,4) ly c] by blast
  obtain a0 where a0: "a0 \<in> free_blks V k" using assms(3) by blast
  then have "unat a0 < ?sz" "\<not> bm_get (V ?bm) (unat a0)" by (auto simp: free_blks_def data_blk_def used_blk_def word_less_nat_alt)
  then have "scan (\<lambda>bi. \<not> bm_get (V ?bm) bi) 0 ?sz \<noteq> None" by (auto simp: scan_None_iff)
  then obtain n where n: "scan (\<lambda>bi. \<not> bm_get (V ?bm) bi) 0 ?sz = Some n" by blast
  then have nn: "n < ?sz" "\<not> bm_get (V ?bm) n" using scan_SomeD by auto
  let ?a = "of_nat n :: uint"
  have "n < 8192" using nn(1) assms(2) by (simp add: layout_def)
  then have un: "unat ?a = n" by (simp add: unat_of_nat)
  have "\<not> n \<le> unat ?bm" using nn(2) assms(2) by (auto simp: layout_def)
  then have fr: "data_blk k ?a" "?a \<in> free_blks V k" using nn un by (auto simp: free_blks_def data_blk_def used_blk_def word_less_nat_alt)
  note d = data_blkD [OF assms(2) fr(1)]
  obtain s2 s3 where l: "log_write b (set_data b (bm_set True n (V ?bm)) s1) = Inr s2" "brelse b s2 = Inr s3"
      "tx p (V(?bm := bm_set True n (V ?bm))) D (insert ?bm C) f L k H s3" using r(3) by blast
  have nd: "?a \<notin> dom H" using assms(5) fr(2) by (auto simp: free_blks_def)
  have fc: "finite C" using assms(1) finite_logged by (auto elim!: txE)
  have c2: "card (insert ?bm C) + card (dom H) < 29" using assms(6) fc by (simp add: card_insert_if)
  obtain s4 where z: "bzero 1 ?a s3 = Inr s4" "tx p ((V(?bm := bm_set True n (V ?bm)))(?a := replicate BSIZE 0)) D (insert ?a (insert ?bm C)) f L k H s4"
    using bzero_tx [OF l(3) nd d(1,2) c2] by blast
  have "0 < ?sz" "min BPB (?sz - 0) = ?sz" using nn(1) assms(2) by (simp_all add: layout_def)
  then have "balloc 1 s = Inr (?a, s4)"
    using r(1,2) l(1,2) z(1) n tx_fields(2) [OF assms(1)] unfolding balloc_def by (subst balloc_loop.simps) (simp add: BBLOCK_def)
  then show ?thesis using z(2) fr(2) un by (auto simp: ballocd_def)
qed

end
