(* ===== verification/Fwrite.thy ===== *)
theory Fwrite
  imports Tx
begin

text \<open>
  Writing files inside a transaction (\<^verbatim>\<open>bmap\<close>, \<^verbatim>\<open>iupdate\<close> and \<^verbatim>\<open>writei\<close> of \<^verbatim>\<open>kernel/fs.c\<close>): the blocks that a file has, that
  \<^verbatim>\<open>bmap\<close> extends a file by free blocks only, and that \<^verbatim>\<open>writei\<close> replaces a range of the bytes of one file and leaves every other file as it is.
\<close>

section \<open>The blocks of a file\<close>

text \<open>The addresses in an inode; index 268 is the indirect block.\<close>

definition adr :: "(uint \<Rightarrow> byte list) \<Rightarrow> dinode \<Rightarrow> nat \<Rightarrow> uint" where
  "adr V d j = (if j < 12 then di_addrs d ! j else if j = 268 then di_addrs d ! 12
     else if di_addrs d ! 12 = 0 then 0 else get32 (V (di_addrs d ! 12)) (4 * (j - 12)))"

definition own :: "(uint \<Rightarrow> byte list) \<Rightarrow> dinode \<Rightarrow> uint set" where
  "own V d = {a. a \<noteq> 0 \<and> (\<exists>j \<le> 268. a = adr V d j)}"

definition fwf :: "(uint \<Rightarrow> byte list) \<Rightarrow> superblock \<Rightarrow> dinode \<Rightarrow> bool" where
  "fwf V k d \<longleftrightarrow> length (di_addrs d) = 13 \<and> dsize d \<le> 268 * 1024 \<and> (\<forall>j < nblk (dsize d). adr V d j \<noteq> 0) \<and>
     (\<forall>a \<in> own V d. data_blk k a \<and> used_blk V k a \<and> length (V a) = 1024) \<and>
     (\<forall>i \<le> 268. \<forall>j \<le> 268. adr V d i = adr V d j \<longrightarrow> adr V d i \<noteq> 0 \<longrightarrow> i = j)"

lemma fwfD:
  assumes "fwf V k d"
  shows "length (di_addrs d) = 13" "dsize d \<le> 268 * 1024" "j < nblk (dsize d) \<Longrightarrow> adr V d j \<noteq> 0"
    "a \<in> own V d \<Longrightarrow> data_blk k a \<and> used_blk V k a \<and> length (V a) = 1024"
    "i \<le> 268 \<Longrightarrow> j \<le> 268 \<Longrightarrow> adr V d i = adr V d j \<Longrightarrow> adr V d i \<noteq> 0 \<Longrightarrow> i = j"
  using assms unfolding fwf_def by blast+

lemma ownI: "adr V d j \<noteq> 0 \<Longrightarrow> j \<le> 268 \<Longrightarrow> adr V d j \<in> own V d"
  by (auto simp: own_def)

text \<open>
  The file keeps its blocks and takes new ones from the free blocks; the used blocks that are not its own keep their contents.
\<close>

definition extends :: "superblock \<Rightarrow> (uint \<Rightarrow> byte list) \<Rightarrow> dinode \<Rightarrow> (uint \<Rightarrow> byte list) \<Rightarrow> dinode \<Rightarrow> bool" where
  "extends k V d V' d' \<longleftrightarrow> (\<forall>j \<le> 268. adr V' d' j = adr V d j \<or> adr V d j = 0 \<and> adr V' d' j \<in> free_blks V k) \<and>
     (\<forall>m. used_blk V k m \<longrightarrow> used_blk V' k m) \<and>
     (\<forall>m. used_blk V k m \<longrightarrow> m \<noteq> sb_bmapstart k \<longrightarrow> m \<notin> own V d \<longrightarrow> V' m = V m) \<and> d' = d\<lparr>di_addrs := di_addrs d'\<rparr>"

lemma extendsD:
  assumes "extends k V d V' d'"
  shows "j \<le> 268 \<Longrightarrow> adr V d j \<noteq> 0 \<Longrightarrow> adr V' d' j = adr V d j"
    "j \<le> 268 \<Longrightarrow> adr V' d' j = adr V d j \<or> adr V d j = 0 \<and> adr V' d' j \<in> free_blks V k"
    "used_blk V k m \<Longrightarrow> used_blk V' k m"
    "used_blk V k m \<Longrightarrow> m \<noteq> sb_bmapstart k \<Longrightarrow> m \<notin> own V d \<Longrightarrow> V' m = V m"
    "d' = d\<lparr>di_addrs := di_addrs d'\<rparr>"
  using assms unfolding extends_def by blast+

lemma extends_refl [simp]: "extends k V d V d"
  by (simp add: extends_def)

lemma extends_own: "extends k V d V' d' \<Longrightarrow> own V' d' \<subseteq> own V d \<union> free_blks V k"
  using extendsD(2) by (fastforce simp: own_def)

lemma extends_free: "extends k V d V' d' \<Longrightarrow> free_blks V' k \<subseteq> free_blks V k"
  using extendsD(3) by (fastforce simp: free_blks_def)

lemma extends_trans:
  assumes "extends k V d V' d'" "extends k V' d' V'' d''" "layout V k"
  shows "extends k V d V'' d''"
proof -
  have "adr V'' d'' j = adr V d j \<or> adr V d j = 0 \<and> adr V'' d'' j \<in> free_blks V k" if j: "j \<le> 268" for j
  proof (cases "adr V' d' j = adr V d j")
    case True
    then show ?thesis using extendsD(2) [OF assms(2) j] extends_free [OF assms(1)] by auto
  next
    case False
    then have "adr V d j = 0" "adr V' d' j \<in> free_blks V k" using extendsD(2) [OF assms(1) j] by auto
    moreover from this have "adr V' d' j \<noteq> 0" using data_blkD(5) [OF assms(3)] by (auto simp: free_blks_def)
    ultimately show ?thesis using extendsD(1) [OF assms(2) j] by simp
  qed
  moreover have "V'' m = V m" if m: "used_blk V k m" "m \<noteq> sb_bmapstart k" "m \<notin> own V d" for m
  proof -
    have "m \<notin> own V' d'" using extends_own [OF assms(1)] m(1,3) by (auto simp: free_blks_def)
    then show ?thesis using extendsD(4) [OF assms(2) extendsD(3) [OF assms(1) m(1)] m(2)] extendsD(4) [OF assms(1) m] by simp
  qed
  moreover have "d'' = d\<lparr>di_addrs := di_addrs d''\<rparr>"
    using extendsD(5) [OF assms(1)] extendsD(5) [OF assms(2)] by (metis dinode.surjective dinode.update_convs(6))
  ultimately show ?thesis unfolding extends_def using extendsD(3) [OF assms(1)] extendsD(3) [OF assms(2)] by blast
qed

text \<open>Another file is as before.\<close>

lemma extends_other:
  assumes "extends k V d V' d'" "layout V k" "fwf V k e" "own V e \<inter> own V d = {}"
  shows "adr V' e j = adr V e j" "a \<in> own V e \<Longrightarrow> V' a = V a" "fwf V' k e" "own V' e \<inter> own V' d' = {}"
proof -
  have k: "V' a = V a" if "a \<in> own V e" for a
    using fwfD(4) [OF assms(3) that] assms(4) that data_blkD(3) [OF assms(2)] by (intro extendsD(4) [OF assms(1)]) auto
  then show "a \<in> own V e \<Longrightarrow> V' a = V a" .
  have i: "di_addrs e ! 12 \<noteq> 0 \<Longrightarrow> di_addrs e ! 12 \<in> own V e" using ownI [of V e 268] by (simp add: adr_def)
  show a: "adr V' e j = adr V e j" for j using k i by (auto simp: adr_def)
  then have o: "own V' e = own V e" by (simp add: own_def)
  show "fwf V' k e" using assms(3) extendsD(3) [OF assms(1)] k unfolding fwf_def a o by simp
  show "own V' e \<inter> own V' d' = {}" using extends_own [OF assms(1)] assms(4) fwfD(4) [OF assms(3)] by (auto simp: o free_blks_def)
qed

text \<open>One more block.\<close>

lemma grow:
  assumes V: "layout V k" "fwf V k d" "a \<in> free_blks V k" and j: "j \<le> 268" "adr V d j = 0"
    and adr0: "\<forall>i \<le> 268. adr V' d' i = (if i = j then a else adr V d i)"
    and used0: "\<forall>m. used_blk V' k m \<longleftrightarrow> m = a \<or> used_blk V k m"
    and V': "length (V' a) = 1024" "\<forall>m \<in> own V d. length (V' m) = 1024"
      "\<forall>m. used_blk V k m \<and> m \<noteq> sb_bmapstart k \<and> m \<notin> own V d \<longrightarrow> V' m = V m"
    and d': "d' = d\<lparr>di_addrs := di_addrs d'\<rparr>" "length (di_addrs d') = 13"
  shows "extends k V d V' d'" "fwf V' k d'"
proof -
  note adr = adr0 [rule_format] and used = used0 [rule_format]
  have a: "data_blk k a" "\<not> used_blk V k a" using V(3) by (auto simp: free_blks_def)
  have na: "adr V d i \<noteq> a" if "i \<le> 268" for i
    using a data_blkD(5) [OF V(1) a(1)] fwfD(4) [OF V(2) ownI [of V d i]] that by (cases "adr V d i = 0") auto
  have own: "own V' d' = insert a (own V d)" using adr j data_blkD(5) [OF V(1) a(1)] by (auto simp: own_def)
  have sz: "dsize d' = dsize d" by (subst d'(1)) (simp add: dsize_def)
  have nz: "adr V' d' i \<noteq> 0" if "i < nblk (dsize d)" for i
  proof -
    have "i \<le> 268" using that nblk_le [OF fwfD(2) [OF V(2)]] by simp
    then show ?thesis using adr fwfD(3) [OF V(2) that] data_blkD(5) [OF V(1) a(1)] by auto
  qed
  show "extends k V d V' d'" unfolding extends_def using adr used V'(3) d'(1) j(2) V(3) by auto
  have inj: "i = l" if il: "i \<le> 268" "l \<le> 268" "adr V' d' i = adr V' d' l" "adr V' d' i \<noteq> 0" for i l
  proof (cases "i = j \<or> l = j")
    case True
    then show ?thesis using il(3) adr [OF il(1)] adr [OF il(2)] na [OF il(1)] na [OF il(2)] by (auto split: if_splits)
  next
    case False
    then show ?thesis using il adr fwfD(5) [OF V(2) il(1,2)] by simp
  qed
  show "fwf V' k d'" unfolding fwf_def own sz
    using nz d'(2) fwfD(2) [OF V(2)] fwfD(4) [OF V(2)] a(1) used V'(1,2) inj by blast
qed

text \<open>A new direct block, or a new indirect block; \<open>j\<close> is its place in the array of the inode.\<close>

lemma grow_inode:
  assumes V: "layout V k" "fwf V k d" "a \<in> free_blks V k" and j: "j \<le> 12" "di_addrs d ! j = 0"
  defines "V' \<equiv> ballocd k a V" and "d' \<equiv> d\<lparr>di_addrs := (di_addrs d)[j := a]\<rparr>" and "n \<equiv> (if j = 12 then 268 else j)"
  shows "extends k V d V' d'" "fwf V' k d'" "adr V' d' n = a" "\<And>i. i < 268 \<Longrightarrow> adr V d i \<noteq> 0 \<Longrightarrow> V' (adr V d i) = V (adr V d i)"
proof -
  have a: "data_blk k a" "\<not> used_blk V k a" "a \<noteq> 0" using V(3) data_blkD(5) [OF V(1)] by (auto simp: free_blks_def)
  note len = fwfD(1) [OF V(2)]
  have keep: "V' m = V m" if "m \<noteq> sb_bmapstart k" "m \<noteq> a" for m using that by (simp add: V'_def ballocd_def)
  have ow: "m \<noteq> sb_bmapstart k" "m \<noteq> a" if "m \<in> own V d" for m
    using fwfD(4) [OF V(2) that] data_blkD(3) [OF V(1)] a(2) by auto
  have za: "V' a = replicate BSIZE 0" by (simp add: V'_def ballocd_def)
  have ind: "di_addrs d ! 12 \<noteq> 0 \<Longrightarrow> V' (di_addrs d ! 12) = V (di_addrs d ! 12)"
    using ow [of "di_addrs d ! 12"] ownI [of V d 268] keep by (simp add: adr_def)
  have adr: "\<forall>i \<le> 268. adr V' d' i = (if i = n then a else adr V d i)"
    using j len ind za a(3) by (auto simp: adr_def d'_def n_def nth_list_update get32_zero)
  have z: "adr V d n = 0" "n \<le> 268" using j by (auto simp: adr_def n_def)
  have d': "d' = d\<lparr>di_addrs := di_addrs d'\<rparr>" "length (di_addrs d') = 13" using len by (simp_all add: d'_def)
  have l: "length (V' a) = 1024" using za by simp
  have lo: "\<forall>m \<in> own V d. length (V' m) = 1024" using fwfD(4) [OF V(2)] keep ow by simp
  have kk: "\<forall>m. used_blk V k m \<and> m \<noteq> sb_bmapstart k \<and> m \<notin> own V d \<longrightarrow> V' m = V m" using a(2) keep by blast
  have us: "\<forall>m. used_blk V' k m \<longleftrightarrow> m = a \<or> used_blk V k m" using ballocd_used(1) [OF V(1) a(1)] by (simp add: V'_def)
  note G = grow [OF V z(2,1) adr us l lo kk d']
  show "extends k V d V' d'" "fwf V' k d'" using G by simp_all
  show "adr V' d' n = a" using adr z(2) by simp
  show "V' (adr V d i) = V (adr V d i)" if "i < 268" "adr V d i \<noteq> 0" for i using ow [OF ownI [of V d i]] that keep by simp
qed

text \<open>A new block in the indirect block.\<close>

lemma grow_indirect:
  assumes V: "layout V k" "fwf V k d" "a \<in> free_blks V k" and j: "12 \<le> j" "j < 268" "adr V d j = 0" "di_addrs d ! 12 \<noteq> 0"
  defines "ind \<equiv> di_addrs d ! 12"
  defines "V' \<equiv> (ballocd k a V)(ind := put32 (4 * (j - 12)) a (V ind))"
  shows "extends k V d V' d" "fwf V' k d" "adr V' d j = a" "\<And>i. i < 268 \<Longrightarrow> adr V d i \<noteq> 0 \<Longrightarrow> V' (adr V d i) = V (adr V d i)"
    "layout V' k" "free_blks V' k = free_blks V k - {a}"
proof -
  have a: "data_blk k a" "\<not> used_blk V k a" "a \<noteq> 0" using V(3) data_blkD(5) [OF V(1)] by (auto simp: free_blks_def)
  have ow: "m \<noteq> sb_bmapstart k" "m \<noteq> a" "length (V m) = 1024" if "m \<in> own V d" for m
    using fwfD(4) [OF V(2) that] data_blkD(3) [OF V(1)] a(2) by auto
  have io: "ind \<in> own V d" using ownI [of V d 268] j(4) by (simp add: adr_def ind_def)
  note I = ow [OF io]
  have bm: "V' (sb_bmapstart k) = ballocd k a V (sb_bmapstart k)" using I(1) by (simp add: V'_def)
  have keep: "V' m = V m" if "m \<noteq> sb_bmapstart k" "m \<noteq> a" "m \<noteq> ind" for m using that by (simp add: V'_def ballocd_def)
  have za: "V' a = replicate BSIZE 0" using I(2) by (auto simp: V'_def ballocd_def)
  have vi: "V' ind = put32 (4 * (j - 12)) a (V ind)" by (simp add: V'_def)
  have jl: "4 * (j - 12) + 4 \<le> length (V ind)" using j I(3) by simp
  have adr1: "adr V' d i = (if i = j then a else adr V d i)" if "i \<le> 268" for i
  proof (cases "i < 12 \<or> i = 268")
    case False
    then have "4 * (i - 12) + 4 \<le> 4 * (j - 12) \<or> 4 * (j - 12) + 4 \<le> 4 * (i - 12)" if "i \<noteq> j" using that j by linarith
    then show ?thesis using False that j vi get32_put32_other [OF jl, of "4 * (i - 12)" a] jl by (auto simp: adr_def ind_def)
  qed (use j in \<open>auto simp: adr_def\<close>)
  have adr: "\<forall>i \<le> 268. adr V' d i = (if i = j then a else adr V d i)" using adr1 by blast
  have us: "\<forall>m. used_blk V' k m \<longleftrightarrow> m = a \<or> used_blk V k m"
    using ballocd_used(1) [OF V(1) a(1)] bm by (simp add: used_blk_def)
  have l: "length (V' a) = 1024" using za by simp
  have "length (V' m) = 1024" if "m \<in> own V d" for m using ow [OF that] keep [of m] vi jl I(3) by (cases "m = ind") simp_all
  then have lo: "\<forall>m \<in> own V d. length (V' m) = 1024" by blast
  have kk: "\<forall>m. used_blk V k m \<and> m \<noteq> sb_bmapstart k \<and> m \<notin> own V d \<longrightarrow> V' m = V m" using a(2) io keep by blast
  have d: "d = d\<lparr>di_addrs := di_addrs d\<rparr>" "length (di_addrs d) = 13" using fwfD(1) [OF V(2)] by simp_all
  have j': "j \<le> 268" using j(2) by simp
  note G = grow [OF V j' j(3) adr us l lo kk d]
  show "extends k V d V' d" "fwf V' k d" using G by simp_all
  show "adr V' d j = a" using adr j' by simp
  show "V' (adr V d i) = V (adr V d i)" if i: "i < 268" "adr V d i \<noteq> 0" for i
  proof -
    have "adr V d 268 = ind" by (simp add: adr_def ind_def)
    then have "adr V d i \<noteq> ind" using fwfD(5) [OF V(2), of i 268] i by auto
    then show ?thesis using ow [OF ownI [of V d i]] i keep by simp
  qed
  show "layout V' k" "free_blks V' k = free_blks V k - {a}"
    using ballocd_used(2,3) [OF V(1) a(1)] bm by (simp_all add: layout_def free_blks_def used_blk_def)
qed

section \<open>Finding and allocating the blocks of a file\<close>

text \<open>The file took at most \<open>r\<close> free blocks; its data is the same.\<close>

definition grew :: "superblock \<Rightarrow> nat \<Rightarrow> (uint \<Rightarrow> byte list) \<Rightarrow> dinode \<Rightarrow> (uint \<Rightarrow> byte list) \<Rightarrow> dinode \<Rightarrow> bool" where
  "grew k r V d V' d' \<longleftrightarrow> extends k V d V' d' \<and> fwf V' k d' \<and> layout V' k \<and> card (free_blks V k) \<le> card (free_blks V' k) + r \<and>
     (\<forall>n < 268. adr V d n \<noteq> 0 \<longrightarrow> V' (adr V d n) = V (adr V d n))"

lemma grewD:
  assumes "grew k r V d V' d'"
  shows "extends k V d V' d'" "fwf V' k d'" "layout V' k" "card (free_blks V k) \<le> card (free_blks V' k) + r"
    "n < 268 \<Longrightarrow> adr V d n \<noteq> 0 \<Longrightarrow> V' (adr V d n) = V (adr V d n)"
  using assms unfolding grew_def by blast+

lemma grew_refl: "fwf V k d \<Longrightarrow> layout V k \<Longrightarrow> grew k r V d V d"
  by (simp add: grew_def)

lemma grew_trans:
  assumes "grew k r V d V' d'" "grew k q V' d' V'' d''" "layout V k"
  shows "grew k (r + q) V d V'' d''"
proof -
  note A = grewD [OF assms(1)] and B = grewD [OF assms(2)]
  have "V'' (adr V d n) = V (adr V d n)" if "n < 268" "adr V d n \<noteq> 0" for n
    using A(5) [OF that] B(5) [of n] extendsD(1) [OF A(1), of n] that by simp
  then show ?thesis using extends_trans [OF A(1) B(1) assms(3)] A(4) B(2-4) by (simp add: grew_def)
qed

text \<open>The bitmap block and the blocks of a file at the given indices.\<close>

definition touch :: "superblock \<Rightarrow> (uint \<Rightarrow> byte list) \<Rightarrow> dinode \<Rightarrow> nat set \<Rightarrow> uint set" where
  "touch k V d J = insert (sb_bmapstart k) (adr V d ` {j \<in> J. j \<le> 268 \<and> adr V d j \<noteq> 0})"

lemma touch_mono: "extends k V d V' d' \<Longrightarrow> J \<subseteq> J' \<Longrightarrow> touch k V d J \<subseteq> touch k V' d' J'"
  using extendsD(1) by (fastforce simp: touch_def image_iff)

lemma card_touch: "finite J \<Longrightarrow> card (touch k V d J) \<le> Suc (card J)"
proof -
  assume J: "finite J"
  have "card (adr V d ` {j \<in> J. j \<le> 268 \<and> adr V d j \<noteq> 0}) \<le> card {j \<in> J. j \<le> 268 \<and> adr V d j \<noteq> 0}" by (rule card_image_le) (use J in simp)
  also have "\<dots> \<le> card J" by (rule card_mono [OF J]) blast
  finally show ?thesis using J by (simp add: touch_def card_insert_if)
qed

lemma finite_touch: "finite J \<Longrightarrow> finite (touch k V d J)"
  by (simp add: touch_def)

lemma tx_finite: "tx p V D C f L k H s \<Longrightarrow> finite C"
  using finite_logged by (auto elim!: txE)

lemma card_free_minus: "card (free_blks V k) \<le> card (free_blks V k - {a}) + 1"
  by (simp add: card_Diff_singleton_if) linarith

text \<open>A block for an empty place in the inode.\<close>

lemma slot_tx:
  assumes t: "tx p V D C f L k Map.empty s" and d: "d = idi (f i)" and V: "layout V k" "fwf V k d" and j: "j \<le> 12" "di_addrs d ! j = 0"
    and c: "card C < 28" "free_blks V k \<noteq> {}"
  defines "n \<equiv> if j = 12 then 268 else j"
  shows "\<exists>a s1 V' d'. balloc 1 s = Inr (a, s1) \<and>
    tx p V' D (insert a (insert (sb_bmapstart k) C)) (f(i := (f i)\<lparr>idi := d'\<rparr>)) L k Map.empty (upd_idi i (\<lambda>d. d\<lparr>di_addrs := (di_addrs d)[j := a]\<rparr>) s1) \<and>
    grew k 1 V d V' d' \<and> adr V' d' n = a \<and> a \<noteq> 0"
proof -
  obtain a s1 where b: "balloc 1 s = Inr (a, s1)" "a \<in> free_blks V k" "tx p (ballocd k a V) D (insert a (insert (sb_bmapstart k) C)) f L k Map.empty s1"
    using balloc_tx [OF t V(1) c(2)] c(1) by auto
  have da: "data_blk k a" using b(2) by (simp add: free_blks_def)
  let ?d = "d\<lparr>di_addrs := (di_addrs d)[j := a]\<rparr>"
  note G = grow_inode [OF V b(2) j]
  note B = ballocd_used(2,3) [OF V(1) da]
  have "grew k 1 V d (ballocd k a V) ?d" unfolding grew_def B(2) using G(1,2,4) B(1) card_free_minus [of V k a] by blast
  moreover have "adr (ballocd k a V) ?d n = a" using G(3) by (simp add: n_def)
  ultimately show ?thesis using b(1) tx_upd_idi [OF b(3), of i "\<lambda>d. d\<lparr>di_addrs := (di_addrs d)[j := a]\<rparr>", folded d] data_blkD(5) [OF V(1) da] by blast
qed

lemma touchI: "adr V d j = a \<Longrightarrow> j \<le> 268 \<Longrightarrow> a \<noteq> 0 \<Longrightarrow> j \<in> J \<Longrightarrow> insert a (insert (sb_bmapstart k) C) \<subseteq> C \<union> touch k V d J"
  by (auto simp: touch_def)

text \<open>The first lines of \<^verbatim>\<open>bmap\<close> in both cases: the address in the inode, allocated if there is none.\<close>

lemma slot_or_alloc:
  assumes t: "tx p V D C f L k Map.empty s" and i: "d = idi (f i)" "idev (f i) = 1" and V: "layout V k" "fwf V k d" and j: "j \<le> 12"
    and c: "card C < 28" "free_blks V k \<noteq> {}"
  defines "n \<equiv> if j = 12 then 268 else j"
  shows "\<exists>a s' V' d' C'. (let a = iaddrs i s ! j in
        if a = 0 then bindE (balloc (idev (inodes s i)) s) (\<lambda>(a, s). Inr (a, upd_idi i (\<lambda>d. d\<lparr>di_addrs := (di_addrs d)[j := a]\<rparr>) s)) else Inr (a, s)) = Inr (a, s') \<and>
    tx p V' D C' (f(i := (f i)\<lparr>idi := d'\<rparr>)) L k Map.empty s' \<and> grew k 1 V d V' d' \<and> adr V' d' n = a \<and> a \<noteq> 0 \<and> C' \<subseteq> C \<union> touch k V' d' {n}"
proof (cases "di_addrs d ! j = 0")
  case True
  then obtain a s1 V' d' where b: "balloc 1 s = Inr (a, s1)"
      "tx p V' D (insert a (insert (sb_bmapstart k) C)) (f(i := (f i)\<lparr>idi := d'\<rparr>)) L k Map.empty (upd_idi i (\<lambda>d. d\<lparr>di_addrs := (di_addrs d)[j := a]\<rparr>) s1)"
      "grew k 1 V d V' d'" "adr V' d' n = a" "a \<noteq> 0"
    using slot_tx [OF t i(1) V j _ c] unfolding n_def by blast
  have "insert a (insert (sb_bmapstart k) C) \<subseteq> C \<union> touch k V' d' {n}" by (rule touchI [OF b(4) _ b(5)]) (use j in \<open>auto simp: n_def\<close>)
  moreover have "(let a = iaddrs i s ! j in
      if a = 0 then bindE (balloc (idev (inodes s i)) s) (\<lambda>(a, s). Inr (a, upd_idi i (\<lambda>d. d\<lparr>di_addrs := (di_addrs d)[j := a]\<rparr>) s)) else Inr (a, s)) =
      Inr (a, upd_idi i (\<lambda>d. d\<lparr>di_addrs := (di_addrs d)[j := a]\<rparr>) s1)"
    using True b(1) i tx_fields(1) [OF t] by simp
  ultimately show ?thesis using b(2-5) by blast
next
  case False
  have "f(i := (f i)\<lparr>idi := d\<rparr>) = f" by (simp add: i(1))
  then have "tx p V D C (f(i := (f i)\<lparr>idi := d\<rparr>)) L k Map.empty s" using t by simp
  moreover have "adr V d n = di_addrs d ! j" using j by (auto simp: adr_def n_def)
  moreover have "(let a = iaddrs i s ! j in
      if a = 0 then bindE (balloc (idev (inodes s i)) s) (\<lambda>(a, s). Inr (a, upd_idi i (\<lambda>d. d\<lparr>di_addrs := (di_addrs d)[j := a]\<rparr>) s)) else Inr (a, s)) =
      Inr (di_addrs d ! j, s)"
    using False i tx_fields(1) [OF t] by simp
  ultimately show ?thesis using False grew_refl [OF V(2,1)] by blast
qed

text \<open>The last lines of \<^verbatim>\<open>bmap\<close>: the entry in the indirect block.\<close>

lemma entry_tx:
  assumes t: "tx p V D C f L k Map.empty s" and i: "d = idi (f i)" "idev (f i) = 1" and V: "layout V k" "fwf V k d" and j: "12 \<le> j" "j < 268"
    and ind: "di_addrs d ! 12 \<noteq> 0" and c: "card C < 27" "free_blks V k \<noteq> {}"
  shows "\<exists>b s1 a s2 s3 V' C'. bread 1 (di_addrs d ! 12) s = Inr (b, s1) \<and>
    (let a = get32 (buf_data b s1) (4 * (j - 12)) in
      if a = 0 then bindE (balloc (idev (inodes s1 i)) s1) (\<lambda>(a, s). bindE (log_write b (set_data b (put32 (4 * (j - 12)) a (buf_data b s)) s)) (\<lambda>s. Inr (a, s)))
      else Inr (a, s1)) = Inr (a, s2) \<and> brelse b s2 = Inr s3 \<and>
    tx p V' D C' f L k Map.empty s3 \<and> grew k 1 V d V' d \<and> adr V' d j = a \<and> a \<noteq> 0 \<and> C' \<subseteq> C \<union> touch k V' d {j, 268}"
proof -
  let ?m = "di_addrs d ! 12"
  have mo: "?m \<in> own V d" "adr V d 268 = ?m" using ownI [of V d 268] ind by (simp_all add: adr_def)
  have m: "data_blk k ?m" "used_blk V k ?m" "length (V ?m) = 1024" using fwfD(4) [OF V(2) mo(1)] by auto
  note dm = data_blkD [OF V(1) m(1)]
  have e0: "?m \<notin> dom (Map.empty :: uint \<rightharpoonup> nat)" "card C + card (dom (Map.empty :: uint \<rightharpoonup> nat)) < 30" using c(1) by simp_all
  obtain b s1 where r: "bread 1 ?m s = Inr (b, s1)" "tx p V D C f L k [?m \<mapsto> b] s1" "buf_data b s1 = V ?m" "?m \<in> C \<or> V ?m = D ?m"
    using tx_get [OF t e0(1) dm(1,2) e0(2)] by blast
  have a: "adr V d j = get32 (V ?m) (4 * (j - 12))" using j ind by (simp add: adr_def)
  have b: "[?m \<mapsto> b] ?m = Some b" "([?m \<mapsto> b])(?m := None) = Map.empty" by auto
  show ?thesis
  proof (cases "adr V d j = 0")
    case False
    obtain s3 where "brelse b s1 = Inr s3" "tx p V D C f L k Map.empty s3" using tx_put [OF r(2) b(1) r(4)] unfolding b(2) by blast
    moreover have "(let a = get32 (buf_data b s1) (4 * (j - 12)) in
      if a = 0 then bindE (balloc (idev (inodes s1 i)) s1) (\<lambda>(a, s). bindE (log_write b (set_data b (put32 (4 * (j - 12)) a (buf_data b s)) s)) (\<lambda>s. Inr (a, s)))
      else Inr (a, s1)) = Inr (adr V d j, s1)" using False a r(3) by simp
    ultimately show ?thesis using False r(1) grew_refl [OF V(2,1)] by blast
  next
    case True
    have h0: "sb_bmapstart k \<notin> dom [?m \<mapsto> b]" "\<forall>m \<in> dom [?m \<mapsto> b]. used_blk V k m" "card C + card (dom [?m \<mapsto> b]) < 28"
      using dm(3) m(2) c(1) by simp_all
    obtain n s2 where n: "balloc 1 s1 = Inr (n, s2)" "n \<in> free_blks V k" "tx p (ballocd k n V) D (insert n (insert (sb_bmapstart k) C)) f L k [?m \<mapsto> b] s2"
      using balloc_tx [OF r(2) V(1) c(2) h0] by blast
    let ?V = "(ballocd k n V)(?m := put32 (4 * (j - 12)) n (V ?m))" and ?C = "insert n (insert (sb_bmapstart k) C)"
    note G = grow_indirect [OF V n(2) j True ind]
    have dn: "?m \<noteq> n" "n \<noteq> 0" using n(2) m(2) data_blkD(5) [OF V(1), of n] by (auto simp: free_blks_def)
    have bd: "buf_data b s2 = V ?m" using tx_data [OF n(3) b(1)] dm(3) dn(1) by (simp add: ballocd_def)
    have cc: "card ?C < 29" using c(1) tx_finite [OF t] by (simp add: card_insert_if)
    obtain s3 where l: "log_write b (set_data b (put32 (4 * (j - 12)) n (V ?m)) s2) = Inr s3" "tx p ?V D (insert ?m ?C) f L k [?m \<mapsto> b] s3"
      using tx_log [OF tx_set [OF n(3) b(1)] b(1) dm(2) cc] by blast
    obtain s4 where q: "brelse b s3 = Inr s4" "tx p ?V D (insert ?m ?C) f L k Map.empty s4"
      using tx_put [OF l(2) b(1)] unfolding b(2) by blast
    have am: "adr ?V d 268 = ?m" by (simp add: adr_def)
    have "insert ?m ?C \<subseteq> C \<union> touch k ?V d {j, 268}" using G(3) dn j am ind by (auto simp: touch_def image_iff)
    moreover have "grew k 1 V d ?V d" unfolding grew_def G(6) using G(1,2,4,5) card_free_minus [of V k n] by blast
    moreover have "idev (inodes s1 i) = 1" "get32 (buf_data b s1) (4 * (j - 12)) = 0" using i(2) tx_fields(1) [OF r(2)] r(3) True a by simp_all
    then have "(let a = get32 (buf_data b s1) (4 * (j - 12)) in
      if a = 0 then bindE (balloc (idev (inodes s1 i)) s1) (\<lambda>(a, s). bindE (log_write b (set_data b (put32 (4 * (j - 12)) a (buf_data b s)) s)) (\<lambda>s. Inr (a, s)))
      else Inr (a, s1)) = Inr (n, s3)" using n(1) l(1) bd by simp
    ultimately show ?thesis using r(1) q G(3) dn(2) by blast
  qed
qed

lemma bmap_tx:
  assumes t: "tx p V D C f L k Map.empty s" and i: "d = idi (f i)" "idev (f i) = 1" and V: "layout V k" "fwf V k d" and bn: "bn < 268"
    and c: "card C < 25" "2 \<le> card (free_blks V k)"
  shows "\<exists>a s' V' d' C'. bmap i bn s = Inr (a, s') \<and> tx p V' D C' (f(i := (f i)\<lparr>idi := d'\<rparr>)) L k Map.empty s' \<and>
    grew k 2 V d V' d' \<and> adr V' d' (unat bn) = a \<and> a \<noteq> 0 \<and> C' \<subseteq> C \<union> touch k V' d' {unat bn, 268}"
proof (cases "bn < 12")
  case True
  then have nn: "(if unat bn = 12 then 268 else unat bn) = unat bn" "unat bn \<le> 12" by (simp_all add: word_less_nat_alt)
  have fr: "free_blks V k \<noteq> {}" "card C < 28" using c by auto
  obtain a s' V' d' C' where r: "(let a = iaddrs i s ! unat bn in
        if a = 0 then bindE (balloc (idev (inodes s i)) s) (\<lambda>(a, s). Inr (a, upd_idi i (\<lambda>d. d\<lparr>di_addrs := (di_addrs d)[unat bn := a]\<rparr>) s)) else Inr (a, s)) = Inr (a, s')"
      "tx p V' D C' (f(i := (f i)\<lparr>idi := d'\<rparr>)) L k Map.empty s'" "grew k 1 V d V' d'" "adr V' d' (unat bn) = a" "a \<noteq> 0" "C' \<subseteq> C \<union> touch k V' d' {unat bn}"
    using slot_or_alloc [OF t i V nn(2) fr(2,1), unfolded nn(1)] by blast
  have "grew k 2 V d V' d'" using r(3) by (auto simp: grew_def)
  moreover have "C' \<subseteq> C \<union> touch k V' d' {unat bn, 268}" using r(6) touch_mono [OF extends_refl, of "{unat bn}" "{unat bn, 268}" k V' d'] by blast
  moreover have "bmap i bn s = Inr (a, s')" using r(1) True by (simp add: bmap_def)
  ultimately show ?thesis using r(2,4,5) by blast
next
  case False
  let ?j = "unat bn"
  have j: "12 \<le> ?j" "?j < 268" "unat (bn - 12) = ?j - 12" "bn - 12 < 256" using False bn by (simp_all add: word_less_nat_alt unat_sub_if')
  have fr: "free_blks V k \<noteq> {}" "card C < 28" using c by auto
  obtain m s1 V1 d1 C1 where r: "(let a = iaddrs i s ! 12 in
        if a = 0 then bindE (balloc (idev (inodes s i)) s) (\<lambda>(a, s). Inr (a, upd_idi i (\<lambda>d. d\<lparr>di_addrs := (di_addrs d)[12 := a]\<rparr>) s)) else Inr (a, s)) = Inr (m, s1)"
      "tx p V1 D C1 (f(i := (f i)\<lparr>idi := d1\<rparr>)) L k Map.empty s1" "grew k 1 V d V1 d1" "adr V1 d1 268 = m" "m \<noteq> 0" "C1 \<subseteq> C \<union> touch k V1 d1 {268}"
    using slot_or_alloc [OF t i V le_refl fr(2,1), unfolded if_P [OF refl]] by blast
  note G = grewD [OF r(3)]
  let ?f = "f(i := (f i)\<lparr>idi := d1\<rparr>)"
  have m: "di_addrs d1 ! 12 = m" using r(4) by (simp add: adr_def)
  have "card C1 \<le> card (C \<union> touch k V1 d1 {268})" using r(6) tx_finite [OF t] by (intro card_mono) (auto simp: finite_touch)
  also have "\<dots> \<le> card C + card (touch k V1 d1 {268})" by (rule card_Un_le)
  also have "\<dots> \<le> card C + 2" using card_touch [of "{268}" k V1 d1] by simp
  finally have c1: "card C1 < 27" using c(1) by linarith
  have f1: "free_blks V1 k \<noteq> {}" using G(4) c(2) by auto
  have fi: "d1 = idi (?f i)" "idev (?f i) = 1" "di_addrs d1 ! 12 \<noteq> 0" using i(2) m r(5) by simp_all
  obtain b s2 a s3 s4 V' C' where e: "bread 1 (di_addrs d1 ! 12) s1 = Inr (b, s2)"
      "(let a = get32 (buf_data b s2) (4 * (?j - 12)) in
        if a = 0 then bindE (balloc (idev (inodes s2 i)) s2) (\<lambda>(a, s). bindE (log_write b (set_data b (put32 (4 * (?j - 12)) a (buf_data b s)) s)) (\<lambda>s. Inr (a, s)))
        else Inr (a, s2)) = Inr (a, s3)" "brelse b s3 = Inr s4"
      "tx p V' D C' ?f L k Map.empty s4" "grew k 1 V1 d1 V' d1" "adr V' d1 ?j = a" "a \<noteq> 0" "C' \<subseteq> C1 \<union> touch k V' d1 {?j, 268}"
    using entry_tx [OF r(2) fi(1,2) G(3,2) j(1,2) fi(3) c1 f1] by blast
  have "grew k 2 V d V' d1" using grew_trans [OF r(3) e(5) V(1)] by (simp add: numeral_2_eq_2)
  moreover have "C' \<subseteq> C \<union> touch k V' d1 {?j, 268}"
    using e(8) r(6) touch_mono [OF grewD(1) [OF e(5)], of "{268}" "{?j, 268}"] by blast
  moreover have "idev (inodes s1 i) = 1" using tx_fields(1) [OF r(2)] i(2) by simp
  then have "bmap i bn s = Inr (a, s4)"
    using False j(3,4) r(1) e(1-3) m unfolding bmap_def Let_def by (cases "get32 (buf_data b s2) (4 * (?j - 12)) = 0") auto
  ultimately show ?thesis using e(4,6,7) by blast
qed

section \<open>Writing\<close>

text \<open>The byte of a file at an offset.\<close>

definition fbyte :: "(uint \<Rightarrow> byte list) \<Rightarrow> dinode \<Rightarrow> nat \<Rightarrow> byte" where
  "fbyte V d x = V (adr V d (x div 1024)) ! (x mod 1024)"

lemma grew_fbyte:
  assumes "grew k r V d V' d'" "x div 1024 < 268" "adr V d (x div 1024) \<noteq> 0"
  shows "fbyte V' d' x = fbyte V d x" "adr V' d' (x div 1024) \<noteq> 0"
  using grewD(5) [OF assms] extendsD(1) [OF grewD(1) [OF assms(1)], of "x div 1024"] assms(2,3) by (simp_all add: fbyte_def)

lemma nth_patch:
  assumes "i + length ys \<le> length xs" "x < length xs"
  shows "patch i ys xs ! x = (if i \<le> x \<and> x < i + length ys then ys ! (x - i) else xs ! x)"
  using assms by (auto simp: patch_def nth_append min_def)

lemma write_own:
  assumes "layout V k" "fwf V k d" "j < 268" "adr V d j = a" "a \<noteq> 0" "length xs = 1024"
  shows "adr (V(a := xs)) d = adr V d" "extends k V d (V(a := xs)) d" "fwf (V(a := xs)) k d" "layout (V(a := xs)) k" "free_blks (V(a := xs)) k = free_blks V k"
proof -
  have o: "a \<in> own V d" using ownI [of V d j] assms(3-5) by simp
  have bm: "a \<noteq> sb_bmapstart k" using fwfD(4) [OF assms(2) o] data_blkD(3) [OF assms(1)] by blast
  have ind: "di_addrs d ! 12 \<noteq> a" using fwfD(5) [OF assms(2), of j 268] assms(3-5) by (auto simp: adr_def [of V d 268])
  have ad: "adr (V(a := xs)) d j = adr V d j" for j using ind by (simp add: adr_def)
  then show "adr (V(a := xs)) d = adr V d" by (rule ext)
  have u: "used_blk (V(a := xs)) k m \<longleftrightarrow> used_blk V k m" for m using bm by (simp add: used_blk_def)
  then show "free_blks (V(a := xs)) k = free_blks V k" by (simp add: free_blks_def)
  show "layout (V(a := xs)) k" using assms(1) bm by (simp add: layout_def)
  show "extends k V d (V(a := xs)) d" using o by (auto simp: extends_def ad u)
  have "own (V(a := xs)) d = own V d" by (simp add: own_def ad)
  then show "fwf (V(a := xs)) k d" using assms(2,6) unfolding fwf_def ad u by simp
qed

lemma write_chunk:
  assumes "layout V k" "fwf V k d" "off div 1024 = j" "j < 268" "adr V d j = a" "a \<noteq> 0" "off mod 1024 + length ys \<le> 1024"
    and x: "x div 1024 < 268" "adr V d (x div 1024) \<noteq> 0"
  shows "fbyte (V(a := patch (off mod 1024) ys (V a))) d x = (if off \<le> x \<and> x < off + length ys then ys ! (x - off) else fbyte V d x)"
proof -
  have l: "length (V a) = 1024" using fwfD(4) [OF assms(2) ownI [of V d j]] assms(4-6) by simp
  let ?V = "V(a := patch (off mod 1024) ys (V a))"
  have lp: "length (patch (off mod 1024) ys (V a)) = 1024" using l assms(7) by simp
  have ad: "adr ?V d = adr V d" by (rule write_own(1) [OF assms(1,2,4-6) lp])
  define r where "r = off mod 1024"
  have off: "off = j * 1024 + r" "r < 1024" using assms(3) by (auto simp: r_def)
  show ?thesis
  proof (cases "x div 1024 = j")
    case True
    define q where "q = x mod 1024"
    have xq: "x = j * 1024 + q" "q < 1024" using True by (auto simp: q_def)
    have "fbyte ?V d x = patch r ys (V a) ! q" "fbyte V d x = V a ! q" using True assms(5) unfolding fbyte_def ad q_def r_def by simp_all
    moreover have "patch r ys (V a) ! q = (if r \<le> q \<and> q < r + length ys then ys ! (q - r) else V a ! q)"
      by (rule nth_patch) (use assms(7) [folded r_def] l xq(2) in simp_all)
    moreover have "x - off = q - r" "off \<le> x \<longleftrightarrow> r \<le> q" "x < off + length ys \<longleftrightarrow> q < r + length ys" using off(1) xq(1) by linarith+
    ultimately show ?thesis by presburger
  next
    case False
    have "adr V d (x div 1024) \<noteq> a"
    proof
      assume "adr V d (x div 1024) = a"
      then have "adr V d (x div 1024) = adr V d j" using assms(5) by (rule trans [OF _ sym])
      then show False using False fwfD(5) [OF assms(2) less_imp_le [OF x(1)] less_imp_le [OF assms(4)] _ x(2)] by blast
    qed
    moreover have "\<not> (off \<le> x \<and> x < off + length ys)"
    proof
      assume "off \<le> x \<and> x < off + length ys"
      then have "j * 1024 \<le> x" "x < j * 1024 + 1024" using off(1) assms(7) [folded r_def] by linarith+
      then have "x div 1024 = j" by (intro div_nat_eqI) simp_all
      then show False using False by simp
    qed
    ultimately show ?thesis unfolding fbyte_def ad by auto
  qed
qed

text \<open>The bytes \<open>xs\<close> are at \<open>off\<close>; the other bytes of the blocks that the file had are the same.\<close>

definition wrote :: "(uint \<Rightarrow> byte list) \<Rightarrow> dinode \<Rightarrow> (uint \<Rightarrow> byte list) \<Rightarrow> dinode \<Rightarrow> nat \<Rightarrow> byte list \<Rightarrow> bool" where
  "wrote V d V' d' off xs \<longleftrightarrow> (\<forall>x. x div 1024 < 268 \<longrightarrow> adr V d (x div 1024) \<noteq> 0 \<or> off \<le> x \<and> x < off + length xs \<longrightarrow>
     adr V' d' (x div 1024) \<noteq> 0 \<and> fbyte V' d' x = (if off \<le> x \<and> x < off + length xs then xs ! (x - off) else fbyte V d x))"

lemma wroteD:
  assumes "wrote V d V' d' off xs" "x div 1024 < 268" "adr V d (x div 1024) \<noteq> 0 \<or> off \<le> x \<and> x < off + length xs"
  shows "adr V' d' (x div 1024) \<noteq> 0" "fbyte V' d' x = (if off \<le> x \<and> x < off + length xs then xs ! (x - off) else fbyte V d x)"
  using assms unfolding wrote_def by blast+

lemma wrote_chunk:
  assumes g: "grew k r V d V1 d1" and V: "layout V1 k" "fwf V1 k d1" and j: "off div 1024 = j" "j < 268" "adr V1 d1 j = a" "a \<noteq> 0"
    and ys: "off mod 1024 + length ys \<le> 1024"
  shows "wrote V d (V1(a := patch (off mod 1024) ys (V1 a))) d1 off ys"
proof -
  have l: "length (V1 a) = 1024" using fwfD(4) [OF V(2) ownI [of V1 d1 j]] j by simp
  let ?V = "V1(a := patch (off mod 1024) ys (V1 a))"
  have lp: "length (patch (off mod 1024) ys (V1 a)) = 1024" using l ys by simp
  have ad: "adr ?V d1 = adr V1 d1" by (rule write_own(1) [OF V j(2-4) lp])
  have "adr V1 d1 (x div 1024) \<noteq> 0 \<and> fbyte ?V d1 x = (if off \<le> x \<and> x < off + length ys then ys ! (x - off) else fbyte V d x)"
    if x: "x div 1024 < 268" "adr V d (x div 1024) \<noteq> 0 \<or> off \<le> x \<and> x < off + length ys" for x
  proof -
    have "adr V1 d1 (x div 1024) \<noteq> 0"
    proof (cases "adr V d (x div 1024) = 0")
      case True
      then have "off \<le> x" "x < off + length ys" using x by auto
      then have "j * 1024 \<le> x" "x < j * 1024 + 1024" using ys j(1) div_mult_mod_eq [of off 1024] by linarith+
      then have "x div 1024 = j" by (intro div_nat_eqI) simp_all
      then show ?thesis using j by simp
    qed (rule grew_fbyte(2) [OF g x(1)])
    moreover have "fbyte V1 d1 x = fbyte V d x" if "\<not> (off \<le> x \<and> x < off + length ys)" using grew_fbyte(1) [OF g x(1)] x(2) that by blast
    ultimately show ?thesis using write_chunk [OF V j ys x(1)] by simp
  qed
  then show ?thesis unfolding wrote_def ad by blast
qed

lemma wrote_trans:
  assumes "wrote V d V1 d1 off ys" "wrote V1 d1 V2 d2 (off + length ys) zs"
  shows "wrote V d V2 d2 off (ys @ zs)"
  unfolding wrote_def
proof (intro allI impI)
  fix x assume x: "x div 1024 < 268" "adr V d (x div 1024) \<noteq> 0 \<or> off \<le> x \<and> x < off + length (ys @ zs)"
  show "adr V2 d2 (x div 1024) \<noteq> 0 \<and> fbyte V2 d2 x = (if off \<le> x \<and> x < off + length (ys @ zs) then (ys @ zs) ! (x - off) else fbyte V d x)"
  proof (cases "off + length ys \<le> x \<and> x < off + length ys + length zs")
    case True
    moreover from this have "\<not> x - off < length ys" by linarith
    ultimately show ?thesis using wroteD [OF assms(2) x(1)] by (simp add: nth_append)
  next
    case False
    then have x1: "adr V d (x div 1024) \<noteq> 0 \<or> off \<le> x \<and> x < off + length ys" using x(2) by auto
    note A = wroteD [OF assms(1) x(1) x1]
    note B = wroteD [OF assms(2) x(1) disjI1 [OF A(1)]]
    show ?thesis using A B False by (auto simp: nth_append)
  qed
qed

lemma wrote_nil [simp]: "wrote V d V d off []"
  by (auto simp: wrote_def)

lemma either_copyin_SKern: "either_copyin (SKern bs) m s = Inr ((0, take m bs), s\<lparr>lks := settle (lks s)\<rparr>)"
  by (simp add: either_copyin_def myproc_eq)

lemma buf_data_lks [simp]: "buf_data b (s\<lparr>lks := l\<rparr>) = buf_data b s"
  by (simp add: buf_data_def)

text \<open>One round of the loop.\<close>

lemma write_round:
  assumes t: "tx p V D C f L k Map.empty s" and i: "d = idi (f i)" "idev (f i) = 1" and V: "layout V k" "fwf V k d"
    and c: "card C < 25" "2 \<le> card (free_blks V k)" and off: "unat off < 268 * 1024"
    and n: "tot < n" "length bs = n" "m = chunk (n - tot) off"
  shows "\<exists>s' V' d' C'. writei_loop i (SKern bs) off tot n s = writei_loop i (SKern bs) (off + of_nat m) (tot + m) n s' \<and>
    tx p V' D C' (f(i := (f i)\<lparr>idi := d'\<rparr>)) L k Map.empty s' \<and> extends k V d V' d' \<and> fwf V' k d' \<and> layout V' k \<and>
    wrote V d V' d' (unat off) (take m (drop tot bs)) \<and> C' \<subseteq> C \<union> touch k V' d' {unat off div 1024, 268} \<and>
    card (free_blks V k) \<le> card (free_blks V' k) + 2"
proof -
  let ?j = "unat off div 1024" and ?bn = "off div 1024 :: uint" and ?r = "unat off mod 1024" and ?ys = "take m (drop tot bs)"
  have j: "unat ?bn = ?j" "?j < 268" using off less_mult_imp_div_less [of "unat off" 268 1024] by (simp_all add: unat_div_1024)
  then have bn: "?bn < 268" by (simp add: word_less_nat_alt)
  obtain a s1 V1 d1 C1 where b: "bmap i ?bn s = Inr (a, s1)" "tx p V1 D C1 (f(i := (f i)\<lparr>idi := d1\<rparr>)) L k Map.empty s1"
      "grew k 2 V d V1 d1" "adr V1 d1 ?j = a" "a \<noteq> 0" "C1 \<subseteq> C \<union> touch k V1 d1 {?j, 268}"
    using bmap_tx [OF t i V bn c] unfolding j(1) by blast
  note G = grewD [OF b(3)]
  have ao: "a \<in> own V1 d1" using ownI [of V1 d1 ?j] b(4,5) j(2) by simp
  have a: "data_blk k a" "length (V1 a) = 1024" using fwfD(4) [OF G(2) ao] by auto
  note da = data_blkD [OF G(3) a(1)]
  have "card C1 \<le> card (C \<union> touch k V1 d1 {?j, 268})" using b(6) tx_finite [OF t] by (intro card_mono) (auto simp: finite_touch)
  also have "\<dots> \<le> card C + card (touch k V1 d1 {?j, 268})" by (rule card_Un_le)
  also have "\<dots> \<le> card C + 3" using card_touch [of "{?j, 268}" k V1 d1] j(2) by simp
  finally have "card C1 + card (dom (Map.empty :: uint \<rightharpoonup> nat)) < 29" using c(1) by simp
  then obtain x s2 where r: "bread 1 a s1 = Inr (x, s2)" "buf_data x s2 = V1 a" "\<And>d. \<forall>u \<in> {s2, s2\<lparr>lks := settle (lks s2)\<rparr>}. \<exists>s3 s4.
      log_write x (set_data x d u) = Inr s3 \<and> brelse x s3 = Inr s4 \<and> tx p (V1(a := d)) D (insert a C1) (f(i := (f i)\<lparr>idi := d1\<rparr>)) L k Map.empty s4"
    using tx_modify [OF b(2) _ da(1,2)] by auto
  let ?d = "patch ?r ?ys (V1 a)"
  obtain s3 s4 where w: "log_write x (set_data x ?d (s2\<lparr>lks := settle (lks s2)\<rparr>)) = Inr s3" "brelse x s3 = Inr s4"
      "tx p (V1(a := ?d)) D (insert a C1) (f(i := (f i)\<lparr>idi := d1\<rparr>)) L k Map.empty s4"
    using r(3) [of ?d] by blast
  have m: "?r + length ?ys \<le> 1024" "length ?ys = m" using n by (auto simp: chunk_def)
  have ld: "length ?d = 1024" using a(2) m by simp
  note W = write_own [OF G(3,2) j(2) b(4,5) ld]
  have "writei_loop i (SKern bs) off tot n s = writei_loop i (SKern bs) (off + of_nat m) (tot + m) n s4"
    using n b(1) r(1,2) w(1,2) i(2) tx_fields(1) [OF b(2)] by (subst writei_loop.simps) (simp add: Let_def src_add_def either_copyin_SKern)
  moreover have "insert a C1 \<subseteq> C \<union> touch k (V1(a := ?d)) d1 {?j, 268}"
    using b(4-6) j(2) by (auto simp: touch_def W(1))
  moreover have "wrote V d (V1(a := ?d)) d1 (unat off) ?ys" by (rule wrote_chunk [OF b(3) G(3,2) refl j(2) b(4,5) m(1)])
  ultimately show ?thesis using w(3) extends_trans [OF G(1) W(2) V(1)] W(3-5) G(4) by metis
qed

lemma nblk_gt: "x div 1024 < nblk z \<longleftrightarrow> x div 1024 * 1024 < z"
  by (simp add: nblk_def) linarith

lemma chunk_next:
  assumes "m = chunk (n - tot) off" "tot + m < n"
  shows "(unat off + m) div 1024 = Suc (unat off div 1024)"
proof -
  have "m = 1024 - unat off mod 1024" using assms by (auto simp: chunk_def min_def split: if_splits)
  moreover have "unat off mod 1024 < 1024" by simp
  ultimately have "unat off + m = Suc (unat off div 1024) * 1024" using div_mult_mod_eq [of "unat off" 1024] unfolding mult_Suc by linarith
  then show ?thesis by simp
qed

lemma writei_loop_tx:
  assumes "tx p V D C f L k Map.empty s" "d = idi (f i)" "idev (f i) = 1" "layout V k" "fwf V k d" "tot \<le> n" "length bs = n" "unat off + (n - tot) \<le> 268 * 1024"
    "C \<subseteq> C0 \<union> touch k V d (insert 268 J)" "finite C0" "finite J" "card C0 + card J < 23"
    "tot < n \<longrightarrow> {unat off div 1024..<nblk (unat off + (n - tot))} \<subseteq> J \<and> 2 * (nblk (unat off + (n - tot)) - unat off div 1024) \<le> card (free_blks V k)"
  shows "\<exists>s' V' d' C'. writei_loop i (SKern bs) off tot n s = Inr ((off + of_nat (n - tot), n), s') \<and>
    tx p V' D C' (f(i := (f i)\<lparr>idi := d'\<rparr>)) L k Map.empty s' \<and> extends k V d V' d' \<and> fwf V' k d' \<and> layout V' k \<and>
    wrote V d V' d' (unat off) (drop tot bs) \<and> C' \<subseteq> C0 \<union> touch k V' d' (insert 268 J)"
  using assms
proof (induction "n - tot" arbitrary: V C f s d off tot rule: less_induct)
  case less
  note P = less.prems
  show ?case
  proof (cases "tot < n")
    case False
    then have e: "tot = n" using P(6) by simp
    have "f(i := (f i)\<lparr>idi := d\<rparr>) = f" by (simp add: P(2))
    then have "tx p V D C (f(i := (f i)\<lparr>idi := d\<rparr>)) L k Map.empty s" using P(1) by simp
    moreover have "writei_loop i (SKern bs) off tot n s = Inr ((off + of_nat (n - tot), n), s)" by (subst writei_loop.simps) (simp add: e)
    moreover have "drop tot bs = []" using e P(7) by simp
    ultimately show ?thesis using P(4,5,9) extends_refl wrote_nil by metis
  next
    case True
    define m where "m = chunk (n - tot) off"
    let ?j = "unat off div 1024" and ?z = "unat off + (n - tot)" and ?off = "off + of_nat m"
    have m: "0 < m" "m \<le> n - tot" using True chunk_pos [of "n - tot" off] by (auto simp: m_def chunk_def)
    have J: "{?j..<nblk ?z} \<subseteq> J" "2 * (nblk ?z - ?j) \<le> card (free_blks V k)" using P(13) True by blast+
    have jz: "?j < nblk ?z" using True div_mult_mod_eq [of "unat off" 1024] unfolding nblk_gt by linarith
    have "card C \<le> card (C0 \<union> touch k V d (insert 268 J))" using P(9-11) by (intro card_mono) (auto simp: finite_touch)
    also have "\<dots> \<le> card C0 + card (touch k V d (insert 268 J))" by (rule card_Un_le)
    also have "\<dots> \<le> card C0 + (card J + 2)" using card_touch [of "insert 268 J" k V d] P(11) card_insert_le_m1 [of "Suc (card J)" J 268] by (simp add: card_insert_if split: if_splits)
    finally have c: "card C < 25" using P(12) by linarith
    have f2: "2 \<le> card (free_blks V k)" using J(2) jz by linarith
    have ol: "unat off < 268 * 1024" using P(8) True by linarith
    obtain s1 V1 d1 C1 where r: "writei_loop i (SKern bs) off tot n s = writei_loop i (SKern bs) ?off (tot + m) n s1"
        "tx p V1 D C1 (f(i := (f i)\<lparr>idi := d1\<rparr>)) L k Map.empty s1" "extends k V d V1 d1" "fwf V1 k d1" "layout V1 k"
        "wrote V d V1 d1 (unat off) (take m (drop tot bs))" "C1 \<subseteq> C \<union> touch k V1 d1 {?j, 268}" "card (free_blks V k) \<le> card (free_blks V1 k) + 2"
      using write_round [OF P(1-5) c f2 ol True P(7) m_def] by blast
    let ?f = "f(i := (f i)\<lparr>idi := d1\<rparr>)"
    have uo: "unat ?off = unat off + m" using P(8) m by (simp add: unat_word_ariths unat_of_nat)
    have z: "unat ?off + (n - (tot + m)) = ?z" using uo m True by linarith
    have jJ: "?j \<in> J" using J(1) jz by (simp add: subset_iff)
    have sub: "C1 \<subseteq> C0 \<union> touch k V1 d1 (insert 268 J)"
      using r(7) P(9) jJ touch_mono [OF r(3), of "insert 268 J" "insert 268 J"] touch_mono [OF extends_refl, of "{?j, 268}" "insert 268 J" k V1 d1] by blast
    have dl: "n - (tot + m) < n - tot" using True m(1) by (intro diff_less_mono2) simp_all
    have nx: "tot + m < n \<longrightarrow> {unat ?off div 1024..<nblk (unat ?off + (n - (tot + m)))} \<subseteq> J \<and>
        2 * (nblk (unat ?off + (n - (tot + m))) - unat ?off div 1024) \<le> card (free_blks V1 k)"
    proof
      assume lt: "tot + m < n"
      have e: "unat ?off div 1024 = Suc ?j" using chunk_next [OF m_def lt] uo by simp
      have "{Suc ?j..<nblk ?z} \<subseteq> J" using J(1) by (rule subset_trans [rotated]) (simp add: subset_iff)
      moreover have "2 * (nblk ?z - Suc ?j) \<le> card (free_blks V1 k)" using J(2) r(8) by linarith
      ultimately show "{unat ?off div 1024..<nblk (unat ?off + (n - (tot + m)))} \<subseteq> J \<and>
          2 * (nblk (unat ?off + (n - (tot + m))) - unat ?off div 1024) \<le> card (free_blks V1 k)"
        unfolding z e by blast
    qed
    have le: "tot + m \<le> n" "unat ?off + (n - (tot + m)) \<le> 268 * 1024" using m True P(8) z by linarith+
    obtain s' V' d' C' where h: "writei_loop i (SKern bs) ?off (tot + m) n s1 = Inr ((?off + of_nat (n - (tot + m)), n), s')"
        "tx p V' D C' (?f(i := (?f i)\<lparr>idi := d'\<rparr>)) L k Map.empty s'" "extends k V1 d1 V' d'" "fwf V' k d'" "layout V' k"
        "wrote V1 d1 V' d' (unat ?off) (drop (tot + m) bs)" "C' \<subseteq> C0 \<union> touch k V' d' (insert 268 J)"
      using less.hyps [OF dl r(2) _ _ r(5,4) le(1) P(7) le(2) sub P(10-12) nx] P(3) by auto
    have lm: "length (take m (drop tot bs)) = m" using m P(7) by simp
    have "wrote V d V' d' (unat off) (take m (drop tot bs) @ drop (tot + m) bs)" using wrote_trans [OF r(6)] h(6) lm uo by simp
    moreover have "take m (drop tot bs) @ drop (tot + m) bs = drop tot bs" by (metis append_take_drop_id drop_drop add.commute)
    moreover have "n - tot = m + (n - (tot + m))" using le(1) m by linarith
    then have "?off + of_nat (n - (tot + m)) = off + of_nat (n - tot)" by (metis add.assoc of_nat_add)
    moreover have "?f(i := (?f i)\<lparr>idi := d'\<rparr>) = f(i := (f i)\<lparr>idi := d'\<rparr>)" by simp
    ultimately show ?thesis using r(1) h(1-5,7) extends_trans [OF r(3) h(3) P(4)] by metis
  qed
qed

section \<open>The inode on the disk\<close>

definition disk_ino :: "(uint \<Rightarrow> byte list) \<Rightarrow> superblock \<Rightarrow> uint \<Rightarrow> dinode" where
  "disk_ino V k n = dinode_dec (slice (dioff n) 64 (V (IBLOCK n k)))"

text \<open>The blocks of inodes are before the bitmap and after the log.\<close>

definition inode_blk :: "(uint \<Rightarrow> byte list) \<Rightarrow> superblock \<Rightarrow> uint \<Rightarrow> bool" where
  "inode_blk V k m \<longleftrightarrow> m < sb_bmapstart k \<and> \<not> in_log (sb_logstart k) m \<and> length (V m) = BSIZE"

lemma iupdate_tx:
  assumes t: "tx p V D C f L k Map.empty s" and i: "idev (f i) = 1" "m = IBLOCK (inum (f i)) k" and V: "layout V k" "inode_blk V k m" and c: "card C < 29"
  shows "\<exists>s'. iupdate i s = Inr s' \<and>
    tx p (V(m := patch (dioff (inum (f i))) (dinode_enc (idi (f i))) (V m))) D (insert m C) f L k Map.empty s'"
proof -
  have m: "small m" "\<not> in_log (sb_logstart k) m" using V by (auto simp: inode_blk_def layout_def small_def word_less_nat_alt)
  have e: "m \<notin> dom (Map.empty :: uint \<rightharpoonup> nat)" "card C + card (dom (Map.empty :: uint \<rightharpoonup> nat)) < 29" using c by simp_all
  obtain b s1 s2 s3 where r: "bread 1 m s = Inr (b, s1)" "buf_data b s1 = V m" "inodes s1 = f"
      "log_write b (set_data b (patch (dioff (inum (f i))) (dinode_enc (idi (f i))) (V m)) s1) = Inr s2" "brelse b s2 = Inr s3"
      "tx p (V(m := patch (dioff (inum (f i))) (dinode_enc (idi (f i))) (V m))) D (insert m C) f L k Map.empty s3"
    using tx_modify [OF t e(1) m e(2)] by blast
  have "iupdate i s = Inr s3" using r(1-5) i tx_fields(1,2) [OF t] by (simp add: iupdate_def)
  then show ?thesis using r(6) by blast
qed

lemma write_meta:
  assumes "m < sb_bmapstart k" "layout V k" "fwf V k d"
  shows "adr (V(m := x)) d = adr V d" "own (V(m := x)) d = own V d" "fwf (V(m := x)) k d" "a \<in> own V d \<Longrightarrow> (V(m := x)) a = V a"
proof -
  have n: "a \<noteq> m" if "a \<in> own V d" for a using fwfD(4) [OF assms(3) that] assms(1) by (auto simp: data_blk_def)
  then show "a \<in> own V d \<Longrightarrow> (V(m := x)) a = V a" by simp
  have "di_addrs d ! 12 \<noteq> 0 \<Longrightarrow> di_addrs d ! 12 \<noteq> m" using n [of "di_addrs d ! 12"] ownI [of V d 268] by (simp add: adr_def)
  then have ad: "adr (V(m := x)) d j = adr V d j" for j by (auto simp: adr_def)
  then show "adr (V(m := x)) d = adr V d" by (rule ext)
  show o: "own (V(m := x)) d = own V d" by (simp add: own_def ad)
  have "m \<noteq> sb_bmapstart k" using assms(1) by auto
  then show "fwf (V(m := x)) k d" using assms(3) n unfolding fwf_def ad o by (simp add: used_blk_def)
qed

lemma layout_meta: "m < sb_bmapstart k \<Longrightarrow> layout V k \<Longrightarrow> layout (V(m := x)) k"
  by (auto simp: layout_def)

text \<open>The contents of a file.\<close>

definition fdata :: "(uint \<Rightarrow> byte list) \<Rightarrow> dinode \<Rightarrow> byte list" where
  "fdata V d = map (fbyte V d) [0..<dsize d]"

lemma live_blk: "x < dsize d \<Longrightarrow> x div 1024 < nblk (dsize d)"
  using div_mult_mod_eq [of x 1024] unfolding nblk_gt by linarith

lemma fdata_cong:
  assumes "fwf V k d" "adr V' d = adr V d" "\<forall>a \<in> own V d. V' a = V a"
  shows "fdata V' d = fdata V d"
proof -
  have "fbyte V' d x = fbyte V d x" if "x < dsize d" for x
  proof -
    have "x div 1024 \<le> 268" using live_blk [OF that] nblk_le [OF fwfD(2) [OF assms(1)]] by linarith
    then show ?thesis using ownI fwfD(3) [OF assms(1) live_blk [OF that]] assms(2,3) by (simp add: fbyte_def)
  qed
  then show ?thesis by (simp add: fdata_def)
qed

lemma fdata_dbytes: "fwf V k d \<Longrightarrow> fdata V d = dbytes d (\<lambda>n. V (of_nat n))"
proof -
  assume w: "fwf V k d"
  have b: "blk_addr d (\<lambda>n. V (of_nat n)) (x div 1024) = unat (adr V d (x div 1024))" if "x < dsize d" for x
    using fwfD(3) [OF w live_blk [OF that]] live_blk [OF that] nblk_le [OF fwfD(2) [OF w]] by (auto simp: adr_def blk_addr_def split: if_splits)
  show ?thesis by (simp add: fdata_def dbytes_def fbyte_def b)
qed

text \<open>A file whose size changes, with blocks for its new size.\<close>

lemma resize:
  assumes "fwf V k d" "unat z \<le> 268 * 1024" "\<forall>j < nblk (unat z). adr V d j \<noteq> 0"
  defines "d' \<equiv> d\<lparr>di_size := z\<rparr>"
  shows "fwf V k d'" "adr V d' = adr V d" "own V d' = own V d" "fbyte V d' = fbyte V d" "dsize d' = unat z"
proof -
  have ad: "adr V d' j = adr V d j" for j by (simp add: adr_def d'_def)
  then show "adr V d' = adr V d" by (rule ext)
  show o: "own V d' = own V d" by (simp add: own_def ad)
  show "fbyte V d' = fbyte V d" by (rule ext) (simp add: fbyte_def ad)
  show z: "dsize d' = unat z" by (simp add: dsize_def d'_def)
  show "fwf V k d'" using assms(1-3) unfolding fwf_def ad o z by (simp add: d'_def)
qed

lemma wrote_blocks:
  assumes "wrote V d V' d' off xs" "fwf V k d" "off \<le> dsize d" "off + length xs \<le> 268 * 1024" "j < nblk (max (dsize d) (off + length xs))"
  shows "adr V' d' j \<noteq> 0"
proof -
  let ?x = "j * 1024"
  have x: "?x < max (dsize d) (off + length xs)" using assms(5) nblk_gt [of ?x] by simp
  moreover have "max (dsize d) (off + length xs) \<le> 268 * 1024" using assms(4) fwfD(2) [OF assms(2)] by simp
  ultimately have "?x < 268 * 1024" by (rule less_le_trans)
  then have j: "?x div 1024 < 268" by (rule less_mult_imp_div_less)
  have "adr V d (?x div 1024) \<noteq> 0 \<or> off \<le> ?x \<and> ?x < off + length xs"
  proof (cases "?x < dsize d")
    case True
    then show ?thesis using fwfD(3) [OF assms(2) live_blk [OF True]] by simp
  next
    case False
    then show ?thesis using x assms(3) by linarith
  qed
  from wroteD(1) [OF assms(1) j this] show ?thesis by simp
qed

lemma wrote_data:
  assumes "wrote V d V' d' off xs" "fwf V k d" "off \<le> dsize d" "off + length xs \<le> 268 * 1024"
  shows "map (fbyte V' d') [0..<max (dsize d) (off + length xs)] = take off (fdata V d) @ xs @ drop (off + length xs) (fdata V d)"
proof (rule nth_equalityI)
  show "length (map (fbyte V' d') [0..<max (dsize d) (off + length xs)]) = length (take off (fdata V d) @ xs @ drop (off + length xs) (fdata V d))"
    using assms(3) by (simp add: fdata_def)
  fix x assume "x < length (map (fbyte V' d') [0..<max (dsize d) (off + length xs)])"
  then have x: "x < max (dsize d) (off + length xs)" by simp
  moreover have "max (dsize d) (off + length xs) \<le> 268 * 1024" using assms(4) fwfD(2) [OF assms(2)] by simp
  ultimately have "x < 268 * 1024" by (rule less_le_trans)
  then have j: "x div 1024 < 268" by (rule less_mult_imp_div_less)
  have "adr V d (x div 1024) \<noteq> 0 \<or> off \<le> x \<and> x < off + length xs"
  proof (cases "x < dsize d")
    case True
    then show ?thesis using fwfD(3) [OF assms(2) live_blk [OF True]] by simp
  next
    case False
    then show ?thesis using x assms(3) by linarith
  qed
  note W = wroteD(2) [OF assms(1) j this]
  show "map (fbyte V' d') [0..<max (dsize d) (off + length xs)] ! x = (take off (fdata V d) @ xs @ drop (off + length xs) (fdata V d)) ! x"
    using W x assms(3) by (auto simp: nth_append fdata_def min_def less_max_iff_disj)
qed

section \<open>The whole of \<^verbatim>\<open>writei\<close>\<close>

lemma writei_body:
  assumes t: "tx p V D C f L k Map.empty s" and d: "d = idi (f i)" and i: "idev (f i) = 1" and V: "layout V k" "fwf V k d"
    and off: "unat off \<le> dsize d" "unat off + length bs \<le> 268 * 1024"
    and c: "card C + (nblk (unat off + length bs) - unat off div 1024) < 23" "2 * (nblk (unat off + length bs) - unat off div 1024) \<le> card (free_blks V k)"
  shows "\<exists>s1 V' d' C'. writei i (SKern bs) off (of_nat (length bs)) s = bindE (iupdate i s1) (\<lambda>s. Inr (int (length bs), s)) \<and>
    tx p V' D C' (f(i := (f i)\<lparr>idi := d'\<rparr>)) L k Map.empty s1 \<and> card C' < 29 \<and> layout V' k \<and> fwf V' k d' \<and>
    (\<exists>a. extends k V d V' a \<and> own V' a = own V' d') \<and>
    fdata V' d' = take (unat off) (fdata V d) @ bs @ drop (unat off + length bs) (fdata V d)"
proof -
  let ?n = "length bs" and ?J = "{unat off div 1024..<nblk (unat off + length bs)}" and ?o = "off + of_nat (length bs)"
  have J: "card C + card ?J < 23" "0 < ?n \<longrightarrow> {unat off div 1024..<nblk (unat off + (?n - 0))} \<subseteq> ?J \<and>
      2 * (nblk (unat off + (?n - 0)) - unat off div 1024) \<le> card (free_blks V k)" using c by simp_all
  have le: "unat off + (?n - 0) \<le> 268 * 1024" using off(2) by simp
  obtain s1 V' d' C' where w: "writei_loop i (SKern bs) off 0 ?n s = Inr ((off + of_nat (?n - 0), ?n), s1)"
      "tx p V' D C' (f(i := (f i)\<lparr>idi := d'\<rparr>)) L k Map.empty s1" "extends k V d V' d'" "fwf V' k d'" "layout V' k"
      "wrote V d V' d' (unat off) (drop 0 bs)" "C' \<subseteq> C \<union> touch k V' d' (insert 268 ?J)"
    using writei_loop_tx [OF t d i V le0 refl le Un_upper1 tx_finite [OF t] finite_atLeastLessThan J] by blast
  have w6: "wrote V d V' d' (unat off) bs" using w(6) by simp
  have "card C' \<le> card (C \<union> touch k V' d' (insert 268 ?J))" using w(7) tx_finite [OF t] by (intro card_mono) (auto simp: finite_touch)
  also have "\<dots> \<le> card C + card (touch k V' d' (insert 268 ?J))" by (rule card_Un_le)
  also have "\<dots> \<le> card C + Suc (Suc (card ?J))" using card_touch [of "insert 268 ?J" k V' d'] card_insert_le_m1 [of "Suc (card ?J)" ?J 268] by (simp add: card_insert_if split: if_splits)
  finally have cc: "card C' < 29" using J(1) by linarith
  have uo: "unat ?o = unat off + ?n" using off(2) by (simp add: unat_word_ariths unat_of_nat)
  let ?z = "if ?o > di_size d then ?o else di_size d"
  have uz: "unat ?z = max (dsize d) (unat off + ?n)" using uo by (auto simp: word_less_nat_alt dsize_def)
  have "unat ?z \<le> 268 * 1024" using uz off(2) fwfD(2) [OF V(2)] by simp
  note R = resize [OF w(4) this] wrote_blocks [OF w6 V(2) off, folded uz]
  have nz: "\<forall>j < nblk (unat ?z). adr V' d' j \<noteq> 0" using R(6) by blast
  note Z = R(1-5) [OF nz]
  let ?d = "d'\<lparr>di_size := ?z\<rparr>"
  have sz: "di_size d' = di_size d" by (subst extendsD(5) [OF w(3)]) simp
  let ?s = "if ?o > isize i s1 then upd_idi i (\<lambda>d. d\<lparr>di_size := ?o\<rparr>) s1 else s1"
  have iz: "isize i s1 = di_size d" using tx_fields(1) [OF w(2)] sz by simp
  have t1: "tx p V' D C' (f(i := (f i)\<lparr>idi := ?d\<rparr>)) L k Map.empty ?s"
  proof (cases "?o > di_size d")
    case True
    then show ?thesis using tx_upd_idi [OF w(2), of i "\<lambda>d. d\<lparr>di_size := ?o\<rparr>"] iz by simp
  next
    case False
    have "d'\<lparr>di_size := di_size d\<rparr> = d'" using sz [symmetric] by simp
    then show ?thesis unfolding iz if_not_P [OF False] using w(2) by (simp only:)
  qed
  have "fdata V' ?d = take (unat off) (fdata V d) @ bs @ drop (unat off + ?n) (fdata V d)"
    using wrote_data [OF w6 V(2) off] unfolding fdata_def [of V'] Z(4,5) uz .
  moreover have "writei i (SKern bs) off (of_nat ?n) s = bindE (iupdate i ?s) (\<lambda>s. Inr (int ?n, s))"
  proof -
    have "\<not> off > isize i s" "\<not> ?o < off" "\<not> ?o > 274432" "unat (of_nat ?n :: uint) = ?n"
      using tx_fields(1) [OF t] d off uo by (simp_all add: word_less_nat_alt dsize_def unat_of_nat)
    then show ?thesis using w(1) by (simp add: writei_def Let_def)
  qed
  ultimately show ?thesis using t1 cc w(3,5) Z(1,3) by metis
qed

text \<open>The end of the transaction.\<close>

lemma tx_end:
  assumes "tx p V D C f L k Map.empty s" "card C < NBUF"
  shows "\<exists>s'. end_op s = Inr s' \<and> (\<forall>m. small m \<and> \<not> in_log (sb_logstart k) m \<longrightarrow> disk_of s' m = V m)"
proof (rule txE [OF assms(1)])
  fix a assume a: "trans_inv p a s" "fs_at p a f L k s" "cheld a = dom (Map.empty :: uint \<rightharpoonup> nat)"
    "cref a = (\<lambda>x. (if x \<in> C then 1 else 0) + (if x \<in> dom (Map.empty :: uint \<rightharpoonup> nat) then 1 else 0))" "cview a = V"
    "outstanding s = 1" "st_of s = sb_logstart k" "\<not> committing s"
  have "{m. cref a m \<noteq> 0} = C" by (auto simp: a(4))
  then have h: "cheld a = {}" "card {m. cref a m \<noteq> 0} < NBUF" "\<forall>m. cref a m < 2 ^ 30" using a(3,4) assms(2) by simp_all
  show ?thesis using end_op_trans [OF a(1) h a(6,8)] a(5,7) by auto
qed

lemma settled_disk:
  assumes W: "\<forall>m. small m \<and> \<not> in_log (sb_logstart k) m \<longrightarrow> W m = V m" and l: "layout V k"
  shows "layout W k" "inode_blk V k (IBLOCK n k) \<Longrightarrow> disk_ino W k n = disk_ino V k n"
    "fwf V k d \<Longrightarrow> fwf W k d \<and> own W d = own V d \<and> fdata W d = fdata V d"
proof -
  have bm: "W (sb_bmapstart k) = V (sb_bmapstart k)" using W layoutD [OF l] by simp
  then show "layout W k" using l by (simp add: layout_def)
  show "inode_blk V k (IBLOCK n k) \<Longrightarrow> disk_ino W k n = disk_ino V k n"
    using W l by (auto simp: disk_ino_def inode_blk_def layout_def small_def word_less_nat_alt)
  assume f: "fwf V k d"
  have k: "W a = V a" if "a \<in> own V d" for a using fwfD(4) [OF f that] data_blkD(1,2) [OF l, of a] W by simp
  have "di_addrs d ! 12 \<noteq> 0 \<Longrightarrow> W (di_addrs d ! 12) = V (di_addrs d ! 12)" using k ownI [of V d 268] by (simp add: adr_def)
  then have ad: "adr W d j = adr V d j" for j by (auto simp: adr_def)
  then have o: "own W d = own V d" by (simp add: own_def)
  have "fwf W k d" using f k unfolding fwf_def ad o by (simp add: used_blk_def bm)
  moreover have "fdata W d = fdata V d" by (rule fdata_cong [OF f]) (use ad k in auto)
  ultimately show "fwf W k d \<and> own W d = own V d \<and> fdata W d = fdata V d" using o by blast
qed

text \<open>The other inodes of the block that \<^verbatim>\<open>iupdate\<close> writes, and the inodes of other blocks.\<close>

lemma disk_ino_update:
  assumes "length (V (IBLOCK n k)) = BSIZE" "length (di_addrs d) = 13"
  defines "V' \<equiv> V(IBLOCK n k := patch (dioff n) (dinode_enc d) (V (IBLOCK n k)))"
  shows "disk_ino V' k n = d" "m \<noteq> n \<Longrightarrow> disk_ino V' k m = disk_ino V k m"
proof -
  note R = dinode_roundtrip [of "V (IBLOCK n k)" d n m]
  show "disk_ino V' k n = d" using R assms(1,2) by (simp add: disk_ino_def V'_def)
  assume "m \<noteq> n"
  show "disk_ino V' k m = disk_ino V k m"
  proof (cases "IBLOCK m k = IBLOCK n k")
    case True
    then have "unat (m div 16) = unat (n div 16)" by (simp add: IBLOCK_def)
    then have "unat m div 16 = unat n div 16" by (simp add: unat_div)
    then have "unat m mod 16 \<noteq> unat n mod 16" using \<open>m \<noteq> n\<close> by (metis div_mult_mod_eq word_unat_eqI)
    then show ?thesis using R assms(1,2) True by (simp add: disk_ino_def V'_def)
  qed (simp add: disk_ino_def V'_def)
qed

end
