(* ===== verification/Durable.thy ===== *)
theory Durable
  imports Boot Fwrite
begin

text \<open>
  A write to a file, from \<^verbatim>\<open>writei\<close> in a transaction to the disk after \<^verbatim>\<open>end_op\<close> (\<^verbatim>\<open>kernel/fs.c\<close>, \<^verbatim>\<open>kernel/log.c\<close>, \<^verbatim>\<open>kernel/bio.c\<close>,
  \<^verbatim>\<open>kernel/virtio_disk.c\<close>).
\<close>

lemma writei_tx:
  assumes t: "tx p V D C f L k Map.empty s" and d: "d = idi (f i)" and i: "idev (f i) = 1" and V: "layout V k" "fwf V k d"
    and ib: "inode_blk V k (IBLOCK (inum (f i)) k)" and off: "unat off \<le> dsize d" "unat off + length bs \<le> 268 * 1024"
    and c: "card C + (nblk (unat off + length bs) - unat off div 1024) < 23" "2 * (nblk (unat off + length bs) - unat off div 1024) \<le> card (free_blks V k)"
  shows "\<exists>s' U d' C'. writei i (SKern bs) off (of_nat (length bs)) s = Inr (int (length bs), s') \<and>
    tx p U D C' (f(i := (f i)\<lparr>idi := d'\<rparr>)) L k Map.empty s' \<and> card C' < NBUF \<and> layout U k \<and> fwf U k d' \<and> disk_ino U k (inum (f i)) = d' \<and>
    fdata U d' = take (unat off) (fdata V d) @ bs @ drop (unat off + length bs) (fdata V d) \<and>
    (\<forall>e. fwf V k e \<and> own V e \<inter> own V d = {} \<longrightarrow> fwf U k e \<and> own U e \<inter> own U d' = {} \<and> fdata U e = fdata V e) \<and>
    (\<forall>n. inode_blk V k (IBLOCK n k) \<longrightarrow> inode_blk U k (IBLOCK n k) \<and> (n \<noteq> inum (f i) \<longrightarrow> disk_ino U k n = disk_ino V k n))"
proof -
  let ?n = "inum (f i)"
  obtain s1 V' d' C' a where w: "writei i (SKern bs) off (of_nat (length bs)) s = bindE (iupdate i s1) (\<lambda>s. Inr (int (length bs), s))"
      "tx p V' D C' (f(i := (f i)\<lparr>idi := d'\<rparr>)) L k Map.empty s1" "card C' < 29" "layout V' k" "fwf V' k d'" "extends k V d V' a" "own V' a = own V' d'"
      "fdata V' d' = take (unat off) (fdata V d) @ bs @ drop (unat off + length bs) (fdata V d)"
    using writei_body [OF t d i V off c] by blast
  let ?f = "f(i := (f i)\<lparr>idi := d'\<rparr>)" and ?m = "IBLOCK ?n k"
  have same: "V' m = V m" if "m < sb_bmapstart k" for m
  proof (rule extendsD(4) [OF w(6)])
    show "used_blk V k m" using V(1) that by (simp add: layout_def used_blk_def word_less_nat_alt)
    show "m \<notin> own V d" using fwfD(4) [OF V(2), of m] that by (auto simp: data_blk_def)
  qed (use that in auto)
  then have blk: "inode_blk V k m \<Longrightarrow> inode_blk V' k m" for m by (simp add: inode_blk_def)
  have m: "?m < sb_bmapstart k" using ib by (simp add: inode_blk_def)
  let ?U = "V'(?m := patch (dioff ?n) (dinode_enc d') (V' ?m))"
  obtain s' where u: "iupdate i s1 = Inr s'" "tx p ?U D (insert ?m C') ?f L k Map.empty s'"
    using iupdate_tx [OF w(2) _ _ w(4) _ w(3), of i ?m] i blk [OF ib] by auto
  have len: "length (V' ?m) = BSIZE" "length (di_addrs d') = 13" using blk [OF ib] fwfD(1) [OF w(5)] by (simp_all add: inode_blk_def)
  note I = disk_ino_update [where V = V' and n = ?n and k = k and d = d', OF len]
  have lp: "length (patch (dioff ?n) (dinode_enc d') (V' ?m)) = BSIZE" using dinode_roundtrip [of "V' ?m" d' ?n 0] len by simp
  note M = write_meta [OF m w(4,5)]
  have fd: "fdata ?U d' = fdata V' d'" by (rule fdata_cong [OF w(5) M(1)]) (use M(4) in blast)
  have others: "fwf ?U k e \<and> own ?U e \<inter> own ?U d' = {} \<and> fdata ?U e = fdata V e" if e: "fwf V k e" "own V e \<inter> own V d = {}" for e
  proof -
    note E = extends_other [OF w(6) V(1) e]
    have oe: "own V' e = own V e" using E(1) by (simp add: own_def)
    note N = write_meta [OF m w(4) E(3)]
    have "fdata V' e = fdata V e" by (rule fdata_cong [OF e(1)]) (use E(1,2) in auto)
    moreover have "fdata ?U e = fdata V' e" by (rule fdata_cong [OF E(3) N(1)]) (use N(4) in blast)
    ultimately show ?thesis using N(2,3) E(4) M(2) w(7) by simp
  qed
  have inos: "inode_blk ?U k (IBLOCK n k) \<and> (n \<noteq> ?n \<longrightarrow> disk_ino ?U k n = disk_ino V k n)" if n: "inode_blk V k (IBLOCK n k)" for n
  proof -
    have "disk_ino V' k n = disk_ino V k n" using same [of "IBLOCK n k"] n by (simp add: disk_ino_def inode_blk_def)
    moreover have "inode_blk ?U k (IBLOCK n k)" using blk [OF n] lp by (simp add: inode_blk_def)
    ultimately show ?thesis using I(2) [of n] by simp
  qed
  have "card (insert ?m C') < NBUF" using w(3) tx_finite [OF w(2)] by (simp add: card_insert_if)
  moreover have "writei i (SKern bs) off (of_nat (length bs)) s = Inr (int (length bs), s')" using w(1) u(1) by simp
  ultimately show ?thesis using u(2) layout_meta [OF m w(4)] M(3) I(1) fd w(8) others inos by metis
qed

text \<open>
  C9: a write to a file. A process calls \<^verbatim>\<open>writei\<close> in a transaction, with the inode locked, for an offset in the file and as many bytes as the disk and the log have room for; then it
  calls \<^verbatim>\<open>end_op\<close>. Both return, \<^verbatim>\<open>writei\<close> with the number of bytes. On the disk, the inode then describes a file whose contents are the old contents with the bytes
  written at the offset, extended where they go past the end; each of its blocks is marked in the bitmap; every other file, with blocks of its own, is as it was, as are the other inodes.
\<close>

theorem file_write_durable:
  assumes "tx p V D C f L k Map.empty s" "idev (f i) = 1" "layout V k" "fwf V k (idi (f i))" "inode_blk V k (IBLOCK (inum (f i)) k)"
    "unat off \<le> dsize (idi (f i))" "unat off + length bs \<le> 268 * 1024" "card C + (nblk (unat off + length bs) - unat off div 1024) < 23"
    "2 * (nblk (unat off + length bs) - unat off div 1024) \<le> card (free_blks V k)"
  shows "\<exists>s1 s2. writei i (SKern bs) off (of_nat (length bs)) s = Inr (int (length bs), s1) \<and> end_op s1 = Inr s2 \<and>
    (let W = disk_of s2; d = idi (f i); d' = disk_ino W k (inum (f i)) in
      fdata W d' = take (unat off) (fdata V d) @ bs @ drop (unat off + length bs) (fdata V d) \<and> layout W k \<and> fwf W k d' \<and>
      (\<forall>e. fwf V k e \<and> own V e \<inter> own V d = {} \<longrightarrow> fwf W k e \<and> own W e \<inter> own W d' = {} \<and> fdata W e = fdata V e) \<and>
      (\<forall>n. n \<noteq> inum (f i) \<and> inode_blk V k (IBLOCK n k) \<longrightarrow> disk_ino W k n = disk_ino V k n))"
proof -
  let ?d = "idi (f i)" and ?n = "inum (f i)"
  obtain s1 U d' C' where w: "writei i (SKern bs) off (of_nat (length bs)) s = Inr (int (length bs), s1)"
      "tx p U D C' (f(i := (f i)\<lparr>idi := d'\<rparr>)) L k Map.empty s1" "card C' < NBUF" "layout U k" "fwf U k d'" "disk_ino U k ?n = d'"
      "fdata U d' = take (unat off) (fdata V ?d) @ bs @ drop (unat off + length bs) (fdata V ?d)"
      "\<forall>e. fwf V k e \<and> own V e \<inter> own V ?d = {} \<longrightarrow> fwf U k e \<and> own U e \<inter> own U d' = {} \<and> fdata U e = fdata V e"
      "\<forall>n. inode_blk V k (IBLOCK n k) \<longrightarrow> inode_blk U k (IBLOCK n k) \<and> (n \<noteq> ?n \<longrightarrow> disk_ino U k n = disk_ino V k n)"
    using writei_tx [OF assms(1) refl assms(2-9)] by blast
  obtain s2 where e: "end_op s1 = Inr s2" "\<forall>m. small m \<and> \<not> in_log (sb_logstart k) m \<longrightarrow> disk_of s2 m = U m"
    using tx_end [OF w(2,3)] by blast
  note S = settled_disk [OF e(2) w(4)]
  have d': "disk_ino (disk_of s2) k ?n = d'" using S(2) [of ?n] w(6,9) assms(5) by blast
  note F = S(3) [OF w(5)]
  have "fwf (disk_of s2) k e \<and> own (disk_of s2) e \<inter> own (disk_of s2) d' = {} \<and> fdata (disk_of s2) e = fdata V e"
    if "fwf V k e \<and> own V e \<inter> own V ?d = {}" for e
    using w(8) that S(3) [of e] F by (metis (no_types, lifting))
  moreover have "disk_ino (disk_of s2) k n = disk_ino V k n" if "n \<noteq> ?n \<and> inode_blk V k (IBLOCK n k)" for n
    using w(9) that S(2) [of n] by metis
  ultimately show ?thesis unfolding Let_def using w(1,7) e(1) d' F S(1) by (intro exI [of _ s1] exI [of _ s2]) simp
qed

text \<open>A transaction starts with the blocks of the disk and nothing logged.\<close>

lemma begin_op_tx:
  assumes "fs_at p a f L k s" "cheld a = {}" "cref a = (\<lambda>_. 0)" "log_dev s = 1" "log_area (st_of s)" "log_size s = int LOGSIZE" "length (lh_block s) = LOGSIZE"
    "lh_n s = 0" "outstanding s = 0" "\<not> committing s" "st_of s = sb_logstart k" "head_n (disk_of s (st_of s)) = 0" "length (disk_of s (st_of s)) = BSIZE"
  shows "\<exists>s' V. begin_op s = Inr s' \<and> tx p V (disk_of s) {} f L k Map.empty s' \<and> (\<forall>m. small m \<longrightarrow> V m = disk_of s m)"
proof -
  note D = fs_atD [OF assms(1)]
  let ?s = "s\<lparr>outstanding := 1, lks := settle (lks s)\<rparr>"
  have run: "begin_op s = Inr ?s" using begin_op_admits [OF D(4) assms(10)] assms(8,9) by (simp add: begin_op_def)
  have v: "cview a m = disk_of s m" if "small m" for m
    using cached_view [OF D(1) that] cached_disk [OF D(1)] assms(3) by simp
  have c: "cached p a ?s" using D(1) by simp
  have dk: "disk_of ?s = disk_of s" using cached_disk [OF c] cached_disk [OF D(1)] by simp
  have lg: "logged s = {}" "logged ?s = {}" using assms(8) by (simp_all add: logged_def)
  have t: "trans_inv p a ?s" unfolding trans_inv_def lg dk using c assms v by simp
  have "fs_at p a f L k ?s" using assms(1) c by (simp add: fs_at_def)
  then have "tx p (cview a) (disk_of s) {} f L k Map.empty ?s"
    by (rule txI [OF t]) (use assms lg dk in simp_all)
  then show ?thesis using run v by blast
qed

text \<open>A machine with an empty file in inode 2.\<close>

definition wr_img :: "uint64 \<Rightarrow> byte list" where
  "wr_img x = (if x = 90 then replicate 6 (- 1) @ replicate 1018 0 else replicate 1024 0)"

definition wr_st :: fsst where
  "wr_st = (fs_st0 wr_img)\<lparr>sb := mk_sb, inodes := (\<lambda>_. \<lparr>idev = 1, inum = 2, iref = 1, ivalid = True, idi = no_inode\<rparr>)\<rparr>"

lemma mk_sb_at: "sb_size mk_sb = 1000" "sb_logstart mk_sb = 2" "sb_inodestart mk_sb = 32" "sb_bmapstart mk_sb = 45"
  by (simp_all add: mk_sb_def ninodeblocks_def)

lemma wr_disk: "disk_of wr_st m = wr_img (sector m)"
  using fs_st0_idle(2) [of wr_img m] by (simp add: wr_st_def disk_of_def disk_block_def)

lemma wr_layout:
  "layout (disk_of wr_st) mk_sb" "fwf (disk_of wr_st) mk_sb no_inode" "inode_blk (disk_of wr_st) mk_sb (IBLOCK 2 mk_sb)" "2 \<le> card (free_blks (disk_of wr_st) mk_sb)"
proof -
  have d: "disk_of wr_st 45 = replicate 6 (- 1) @ replicate 1018 0" "disk_of wr_st 32 = replicate 1024 0" by (simp_all add: wr_disk wr_img_def sector_def)
  have b: "bm_get (replicate 6 (- 1) @ replicate 1018 0) n \<longleftrightarrow> n < 48" if "n < 8192" for n
  proof -
    have m: "n mod 8 < 8" by simp
    have "bit (- 1 :: byte) (n mod 8)" using m by (simp add: bit_simps)
    moreover have "n div 8 < 1024" "n div 8 < 6 \<longleftrightarrow> n < 48" using that by (simp_all add: div_less_iff_less_mult)
    ultimately show ?thesis by (auto simp: bm_get_def nth_append)
  qed
  show "layout (disk_of wr_st) mk_sb" by (simp add: layout_def mk_sb_at d b)
  have a: "adr V no_inode j = 0" if "j \<le> 268" for j V using that by (auto simp: adr_def no_inode_def)
  then have "own V no_inode = {}" for V by (auto simp: own_def)
  then show "fwf (disk_of wr_st) mk_sb no_inode" using a by (simp add: fwf_def) (simp add: no_inode_def dsize_def nblk_def)
  show "inode_blk (disk_of wr_st) mk_sb (IBLOCK 2 mk_sb)" by (simp add: inode_blk_def IBLOCK_def mk_sb_at d in_log_def)
  have "{100, 101} \<subseteq> free_blks (disk_of wr_st) mk_sb" by (simp add: free_blks_def data_blk_def used_blk_def mk_sb_at d b)
  then have "card {100, 101 :: uint} \<le> card (free_blks (disk_of wr_st) mk_sb)" by (rule card_mono [rotated]) simp
  then show "2 \<le> card (free_blks (disk_of wr_st) mk_sb)" by simp
qed

lemma wr_begin: "\<exists>s V. begin_op wr_st = Inr s \<and> tx 1 V (disk_of wr_st) {} (inodes wr_st) {} mk_sb Map.empty s \<and> (\<forall>m. small m \<longrightarrow> V m = disk_of wr_st m)"
proof -
  obtain a where a: "fs_at 1 a (inodes (fs_st0 wr_img)) {} (sb (fs_st0 wr_img)) (fs_st0 wr_img)" "cheld a = {}" "cref a = (\<lambda>_. 0)"
    using fs_idleD [OF fs_st0_idle(1)] by blast
  have "cached 1 a wr_st" using fs_atD(1) [OF a(1)] by (simp add: wr_st_def)
  then have "fs_at 1 a (inodes wr_st) {} mk_sb wr_st" using a(1) by (simp add: fs_at_def wr_st_def)
  moreover have "log_dev wr_st = 1" "log_start wr_st = 2" "log_size wr_st = 30" "lh_block wr_st = replicate 30 0" "lh_n wr_st = 0" "outstanding wr_st = 0" "\<not> committing wr_st"
    by (simp_all add: wr_st_def fs_st0_def logst.defs fsst.defs boot_st_def vdiskst.defs)
  moreover have "disk_of wr_st 2 = replicate 1024 0" by (simp add: wr_disk wr_img_def sector_def)
  ultimately show ?thesis using begin_op_tx [OF _ a(2,3), of 1 "inodes wr_st" "{}" mk_sb wr_st]
    by (simp add: log_area_def mk_sb_at head_n_def get32_zero)
qed

theorem file_write_durable_witness:
  "\<exists>s s1 s2. begin_op wr_st = Inr s \<and> writei 0 (SKern [104, 105]) 0 2 s = Inr (2, s1) \<and> end_op s1 = Inr s2 \<and>
     fdata (disk_of s2) (disk_ino (disk_of s2) mk_sb 2) = [104, 105]"
proof -
  obtain s V where s: "begin_op wr_st = Inr s" "tx 1 V (disk_of wr_st) {} (inodes wr_st) {} mk_sb Map.empty s" "\<forall>m. small m \<longrightarrow> V m = disk_of wr_st m"
    using wr_begin by blast
  have "\<forall>m. small m \<and> \<not> in_log (sb_logstart mk_sb) m \<longrightarrow> V m = disk_of wr_st m" using s(3) by blast
  note S = settled_disk [OF this wr_layout(1)]
  have bm: "V 45 = disk_of wr_st 45" "V 32 = disk_of wr_st 32" using s(3) by (simp_all add: small_def)
  have ib: "inode_blk V mk_sb (IBLOCK 2 mk_sb)" using wr_layout(3) bm by (simp add: inode_blk_def IBLOCK_def mk_sb_at)
  have fr: "free_blks V mk_sb = free_blks (disk_of wr_st) mk_sb" using bm by (simp add: free_blks_def used_blk_def mk_sb_at)
  have i: "inodes wr_st 0 = \<lparr>idev = 1, inum = 2, iref = 1, ivalid = True, idi = no_inode\<rparr>" by (simp add: wr_st_def)
  have z: "dsize no_inode = 0" "fdata V no_inode = []" by (simp_all add: fdata_def dsize_def no_inode_def)
  show ?thesis
    using file_write_durable [OF s(2) _ S(1), of 0 0 "[104, 105]"] S(3) [OF wr_layout(2)] ib wr_layout(4) s(1)
    by (auto simp: i z fr nblk_def Let_def)
qed

end
