(* ===== verification/Ulib.thy ===== *)
theory Ulib
  imports Printf Cstring
begin

unbundle bit_operations_syntax

text \<open>
  The library that user programs are linked with: \<^verbatim>\<open>user/ulib.c\<close> and \<^verbatim>\<open>user/printf.c\<close>. Names that the kernel's own
  string functions also have start with \<open>u_\<close>. A system call is a parameter: \<^verbatim>\<open>read\<close> is the list of its coming results, \<^verbatim>\<open>write\<close> of one
  byte after the other is the list of bytes written. \<^verbatim>\<open>char\<close> is unsigned, as on RISC-V.
\<close>

section \<open>\<^verbatim>\<open>ulib.c\<close>\<close>

partial_function (option) strcpy_loop :: "addr \<Rightarrow> addr \<Rightarrow> (addr \<Rightarrow> byte) \<Rightarrow> (addr \<Rightarrow> byte) option" where
  "strcpy_loop s t m =
     (let c = m t; m = m(s := c) in if c \<noteq> 0 then strcpy_loop (s + 1) (t + 1) m else Some m)"

definition strcpy :: "addr \<Rightarrow> addr \<Rightarrow> (addr \<Rightarrow> byte) \<Rightarrow> (addr \<Rightarrow> byte) option" where
  "strcpy s t m = strcpy_loop s t m"

partial_function (option) strcmp_loop :: "cptr \<Rightarrow> cptr \<Rightarrow> nat \<Rightarrow> int option" where
  "strcmp_loop p q i =
     (if p i \<noteq> 0 \<and> p i = q i then strcmp_loop p q (Suc i) else Some (uint (p i) - uint (q i)))"

definition strcmp :: "cptr \<Rightarrow> cptr \<Rightarrow> int option" where
  "strcmp p q = strcmp_loop p q 0"

partial_function (option) u_strlen_loop :: "cptr \<Rightarrow> nat \<Rightarrow> nat option" where
  "u_strlen_loop s n = (if s n \<noteq> 0 then u_strlen_loop s (Suc n) else Some n)"

definition u_strlen :: "cptr \<Rightarrow> nat option" where
  "u_strlen s = u_strlen_loop s 0"

primrec u_memset_loop :: "nat \<Rightarrow> addr \<Rightarrow> byte \<Rightarrow> (addr \<Rightarrow> byte) \<Rightarrow> addr \<Rightarrow> byte" where
  "u_memset_loop 0 dst c m = m"
| "u_memset_loop (Suc n) dst c m = u_memset_loop n (dst + 1) c (m(dst := c))"

definition u_memset :: "addr \<Rightarrow> int \<Rightarrow> uint \<Rightarrow> (addr \<Rightarrow> byte) \<Rightarrow> addr \<Rightarrow> byte" where
  "u_memset dst c n m = u_memset_loop (unat n) dst (of_int c) m"

text \<open>The offset of the first \<open>c\<close> in the string; \<open>Some None\<close> is the null pointer.\<close>

partial_function (option) strchr_loop :: "cptr \<Rightarrow> byte \<Rightarrow> nat \<Rightarrow> nat option option" where
  "strchr_loop s c i =
     (if s i \<noteq> 0 then if s i = c then Some (Some i) else strchr_loop s c (Suc i) else Some None)"

definition strchr :: "cptr \<Rightarrow> byte \<Rightarrow> nat option option" where
  "strchr s c = strchr_loop s c 0"

text \<open>The coming results of \<^verbatim>\<open>read(0, &c, 1)\<close>: a byte, or \<open>None\<close> for less than one byte; no result left is the end of the input.\<close>

fun gets_loop :: "nat \<Rightarrow> nat \<Rightarrow> byte option list \<Rightarrow> byte list \<times> byte option list" where
  "gets_loop i mx rs =
     (if i + 1 < mx then
        (case rs of
           [] \<Rightarrow> ([], [])
         | None # rs \<Rightarrow> ([], rs)
         | Some c # rs \<Rightarrow>
             if c = 10 \<or> c = 13 then ([c], rs)
             else let (cs, rs) = gets_loop (i + 1) mx rs in (c # cs, rs))
      else ([], rs))"

declare gets_loop.simps [simp del]

definition gets :: "byte list \<Rightarrow> nat \<Rightarrow> byte option list \<Rightarrow> byte list \<times> byte option list" where
  "gets buf mx rs =
     (let (cs, rs) = gets_loop 0 mx rs in (cs @ 0 # drop (length cs + 1) buf, rs))"

text \<open>\<^verbatim>\<open>open\<close>, \<^verbatim>\<open>fstat\<close> and \<^verbatim>\<open>close\<close> work on the state \<open>w\<close> of the kernel as the process sees it.\<close>

definition u_stat :: "('n \<Rightarrow> int \<Rightarrow> 'w \<Rightarrow> int \<times> 'w) \<Rightarrow> (int \<Rightarrow> 'st \<Rightarrow> 'w \<Rightarrow> int \<times> 'st \<times> 'w) \<Rightarrow> (int \<Rightarrow> 'w \<Rightarrow> 'w) \<Rightarrow>
    'n \<Rightarrow> 'st \<Rightarrow> 'w \<Rightarrow> int \<times> 'st \<times> 'w" where
  "u_stat open_f fstat_f close_f n st w =
     (let (fd, w) = open_f n 0 w
      in if fd < 0 then (- 1, st, w)
         else let (r, st, w) = fstat_f fd st w in (r, st, close_f fd w))"

primrec atoi_loop :: "byte list \<Rightarrow> uint \<Rightarrow> uint" where
  "atoi_loop [] n = n"
| "atoi_loop (c # cs) n =
     (if of_char CHR ''0'' \<le> c \<and> c \<le> of_char CHR ''9''
      then atoi_loop cs (n * 10 + ucast c - of_char CHR ''0'') else n)"

text \<open>The string is the list of its bytes before the terminator.\<close>

definition atoi :: "byte list \<Rightarrow> uint" where
  "atoi s = atoi_loop s 0"

definition u_memmove :: "addr \<Rightarrow> addr \<Rightarrow> int \<Rightarrow> (addr \<Rightarrow> byte) \<Rightarrow> addr \<Rightarrow> byte" where
  "u_memmove dst src n m =
     (if src > dst then memmove_up (nat n) dst src m
      else memmove_down (nat n) (dst + of_int n) (src + of_int n) m)"

primrec u_memcmp :: "cptr \<Rightarrow> cptr \<Rightarrow> nat \<Rightarrow> int" where
  "u_memcmp p1 p2 0 = 0"
| "u_memcmp p1 p2 (Suc n) =
     (if p1 0 \<noteq> p2 0 then uint (p1 0) - uint (p2 0) else u_memcmp (\<lambda>i. p1 (Suc i)) (\<lambda>i. p2 (Suc i)) n)"

definition u_memcpy :: "addr \<Rightarrow> addr \<Rightarrow> uint \<Rightarrow> (addr \<Rightarrow> byte) \<Rightarrow> addr \<Rightarrow> byte" where
  "u_memcpy dst src n m = u_memmove dst src (sint n) m"

section \<open>\<^verbatim>\<open>printf.c\<close>\<close>

definition u_digits :: "byte list" where
  "u_digits = str ''0123456789ABCDEF''"

text \<open>The digit loop, least significant digit first; the code calls it with base 10 and 16 only.\<close>

function u_int_digits :: "uint \<Rightarrow> uint \<Rightarrow> byte list" where
  "u_int_digits base x =
     u_digits ! unat (x mod base) # (if 1 < base \<and> x div base \<noteq> 0 then u_int_digits base (x div base) else [])"
  by pat_completeness auto
termination
proof (relation "measure (\<lambda>(base, x). unat x)")
  fix base x :: uint
  assume "1 < base \<and> x div base \<noteq> 0"
  then have "1 < unat base" "x \<noteq> 0" by (auto simp: word_less_nat_alt)
  then show "((base, x div base), base, x) \<in> measure (\<lambda>(base, x). unat x)"
    by (simp add: unat_div unat_gt_0)
qed simp

declare u_int_digits.simps [simp del]

definition u_printint :: "uint \<Rightarrow> uint \<Rightarrow> bool \<Rightarrow> byte list" where
  "u_printint xx base sg =
     (let neg = sg \<and> xx <s 0;
          x = (if neg then - xx else xx)
      in rev (u_int_digits base x @ (if neg then str ''-'' else [])))"

primrec u_ptr_digits :: "nat \<Rightarrow> uint64 \<Rightarrow> byte list" where
  "u_ptr_digits 0 x = []"
| "u_ptr_digits (Suc k) x = u_digits ! unat (drop_bit 60 x) # u_ptr_digits k (push_bit 4 x)"

definition u_printptr :: "uint64 \<Rightarrow> byte list" where
  "u_printptr x = str ''0x'' @ u_ptr_digits 16 x"

text \<open>
  \<^verbatim>\<open>vprintf\<close>: the bytes written to \<^verbatim>\<open>fd\<close>; the flag is the state \<^verbatim>\<open>'%'\<close>. An argument of the wrong kind is \<open>None\<close>.
  \<^verbatim>\<open>%l\<close> takes a 64-bit argument and prints its low half.
\<close>

fun vprintf_loop :: "bool \<Rightarrow> byte list \<Rightarrow> parg list \<Rightarrow> byte list option" where
  "vprintf_loop st [] ap = Some []"
| "vprintf_loop st (c # fmt) ap =
     (if c = 0 then Some []
      else if \<not> st then
        if c = of_char CHR ''%'' then vprintf_loop True fmt ap
        else map_option ((#) c) (vprintf_loop False fmt ap)
      else if c = of_char CHR ''d'' then
        (case ap of AInt x # ap \<Rightarrow> map_option ((@) (u_printint x 10 True)) (vprintf_loop False fmt ap) | _ \<Rightarrow> None)
      else if c = of_char CHR ''l'' then
        (case ap of APtr x # ap \<Rightarrow> map_option ((@) (u_printint (ucast x) 10 False)) (vprintf_loop False fmt ap) | _ \<Rightarrow> None)
      else if c = of_char CHR ''x'' then
        (case ap of AInt x # ap \<Rightarrow> map_option ((@) (u_printint x 16 False)) (vprintf_loop False fmt ap) | _ \<Rightarrow> None)
      else if c = of_char CHR ''p'' then
        (case ap of APtr x # ap \<Rightarrow> map_option ((@) (u_printptr x)) (vprintf_loop False fmt ap) | _ \<Rightarrow> None)
      else if c = of_char CHR ''s'' then
        (case ap of AStr t # ap \<Rightarrow>
           map_option ((@) (case t of None \<Rightarrow> str ''(null)'' | Some cs \<Rightarrow> takeWhile (\<lambda>c. c \<noteq> 0) cs)) (vprintf_loop False fmt ap)
         | _ \<Rightarrow> None)
      else if c = of_char CHR ''c'' then
        (case ap of AInt x # ap \<Rightarrow> map_option ((#) (ucast x)) (vprintf_loop False fmt ap) | _ \<Rightarrow> None)
      else if c = of_char CHR ''%'' then map_option ((#) c) (vprintf_loop False fmt ap)
      else map_option ((@) [of_char CHR ''%'', c]) (vprintf_loop False fmt ap))"

definition vprintf :: "int \<Rightarrow> byte list \<Rightarrow> parg list \<Rightarrow> (int \<times> byte list) option" where
  "vprintf fd fmt ap = map_option (Pair fd) (vprintf_loop False fmt ap)"

definition fprintf :: "int \<Rightarrow> byte list \<Rightarrow> parg list \<Rightarrow> (int \<times> byte list) option" where
  "fprintf fd fmt ap = vprintf fd fmt ap"

definition u_printf :: "byte list \<Rightarrow> parg list \<Rightarrow> (int \<times> byte list) option" where
  "u_printf fmt ap = vprintf 1 fmt ap"

section \<open>Numbers on the command line\<close>

lemma u_digits_nth: "u_digits = [48,49,50,51,52,53,54,55,56,57,65,66,67,68,69,70]"
  by (simp add: u_digits_def str_def of_char_def)

definition dec_digit :: "byte \<Rightarrow> bool" where
  "dec_digit c \<longleftrightarrow> 48 \<le> c \<and> c \<le> 57"

lemma atoi_loop_digits: "\<forall>c\<in>set cs. dec_digit c \<Longrightarrow> atoi_loop cs n = foldl (\<lambda>n c. n * 10 + ucast c - 48) n cs"
  by (induction cs arbitrary: n) (simp_all add: dec_digit_def of_char_def)

lemma u_digits_dec: "i < 10 \<Longrightarrow> dec_digit (u_digits ! i) \<and> ucast (u_digits ! i) - 48 = (of_nat i :: uint)"
proof -
  have "\<forall>i\<in>set [0..<10]. dec_digit (u_digits ! i) \<and> ucast (u_digits ! i) - 48 = (of_nat i :: uint)"
    by (simp add: upt_rec u_digits_nth dec_digit_def)
  then show "i < 10 \<Longrightarrow> dec_digit (u_digits ! i) \<and> ucast (u_digits ! i) - 48 = (of_nat i :: uint)" by simp
qed

lemma unat_mod_ten: "unat ((x :: uint) mod 10) < 10"
  by (simp add: unat_mod)

lemma u_int_digits_dec:
  "(\<forall>c\<in>set (u_int_digits 10 x). dec_digit c) \<and> foldl (\<lambda>n c. n * 10 + ucast c - 48) 0 (rev (u_int_digits 10 x)) = x"
proof (induction "10 :: uint" x rule: u_int_digits.induct)
  case (1 x)
  let ?d = "u_digits ! unat (x mod 10)"
  have d: "dec_digit ?d" "ucast ?d - 48 = x mod 10" using u_digits_dec [OF unat_mod_ten, of x] by simp_all
  show ?case
  proof (cases "x div 10 = 0")
    case True
    then have "x mod 10 = x" using div_mult_mod_eq [of x 10] by simp
    then show ?thesis using True d by (subst (1 2) u_int_digits.simps) simp
  next
    case False
    then have IH: "\<forall>c\<in>set (u_int_digits 10 (x div 10)). dec_digit c"
      "foldl (\<lambda>n c. n * 10 + ucast c - 48) 0 (rev (u_int_digits 10 (x div 10))) = x div 10"
      using 1 by simp_all
    have "x div 10 * 10 + ucast ?d - 48 = x" using d(2) div_mult_mod_eq [of x 10] by (simp add: add_diff_eq [symmetric])
    then show ?thesis using False IH d by (subst (1 2) u_int_digits.simps) simp
  qed
qed

text \<open>
  \<^verbatim>\<open>atoi\<close> reads back what \<^verbatim>\<open>printf\<close> prints with \<^verbatim>\<open>%d\<close>: for every 32-bit number that is not negative the number, whatever
  follows it that is not a digit. It does not know the sign: a negative number is read as 0.
\<close>

lemma atoi_printint:
  assumes "t = [] \<or> \<not> dec_digit (hd t)"
  shows "atoi (u_printint xx 10 True @ t) = (if xx <s 0 then 0 else xx)"
proof -
  have stop: "atoi_loop (cs @ t) n = atoi_loop cs n" if "\<forall>c\<in>set cs. dec_digit c" for cs n
    using that assms by (induction cs arbitrary: n) (cases t; auto simp: dec_digit_def of_char_def)+
  show ?thesis
  proof (cases "xx <s 0")
    case True
    then show ?thesis by (simp add: u_printint_def atoi_def str_def of_char_def)
  next
    case False
    then show ?thesis using stop [of "rev (u_int_digits 10 xx)" 0] u_int_digits_dec [of xx]
      by (simp add: u_printint_def atoi_def atoi_loop_digits)
  qed
qed

lemma atoi_printint_example: "atoi (u_printint 2147483647 10 True @ str '' x'') = 2147483647"
proof -
  have "\<not> dec_digit (hd (str '' x''))" by (simp add: str_def of_char_def dec_digit_def)
  then show ?thesis using atoi_printint [of "str '' x''" 2147483647] by (simp add: word_sless_alt)
qed

end
