(* ===== verification/Grep.thy ===== *)
theory Grep
  imports Ulib
begin

text \<open>
  \<^verbatim>\<open>user/grep.c\<close>: the matcher for patterns with \<^verbatim>\<open>^ . * $\<close>, against the set of strings that a pattern denotes, and the loop that
  reads a file in pieces and writes the lines that match. A string is the list of its bytes before the terminator.
\<close>

section \<open>The matcher\<close>

abbreviation (input) STAR :: byte where "STAR \<equiv> 0x2a"
abbreviation (input) DOT :: byte where "DOT \<equiv> 0x2e"
abbreviation (input) DOLLAR :: byte where "DOLLAR \<equiv> 0x24"
abbreviation (input) CARET :: byte where "CARET \<equiv> 0x5e"

function (sequential) matchhere :: "byte list \<Rightarrow> byte list \<Rightarrow> bool"
  and matchstar :: "byte \<Rightarrow> byte list \<Rightarrow> byte list \<Rightarrow> bool" where
  "matchhere [] tx = True"
| "matchhere (c # re) tx =
     (if re \<noteq> [] \<and> hd re = STAR then matchstar c (tl re) tx
      else if c = DOLLAR \<and> re = [] then tx = []
      else if tx \<noteq> [] \<and> (c = DOT \<or> c = hd tx) then matchhere re (tl tx)
      else False)"
| "matchstar c re tx =
     (if matchhere re tx then True
      else if tx \<noteq> [] \<and> (hd tx = c \<or> c = DOT) then matchstar c re (tl tx)
      else False)"
  by pat_completeness auto
termination
  by (relation "measures [\<lambda>x. case x of Inl (re, tx) \<Rightarrow> 2 * length re | Inr (c, re, tx) \<Rightarrow> 2 * length re + 1,
        \<lambda>x. case x of Inl (re, tx) \<Rightarrow> length tx | Inr (c, re, tx) \<Rightarrow> length tx]") auto

declare matchhere.simps(2) [simp del] matchstar.simps [simp del]

fun match_loop :: "byte list \<Rightarrow> byte list \<Rightarrow> bool" where
  "match_loop re tx = (if matchhere re tx then True else case tx of [] \<Rightarrow> False | t # ts \<Rightarrow> match_loop re ts)"

declare match_loop.simps [simp del]

definition match :: "byte list \<Rightarrow> byte list \<Rightarrow> bool" where
  "match re tx = (if re \<noteq> [] \<and> hd re = CARET then matchhere (tl re) tx else match_loop re tx)"

section \<open>The lines of a file\<close>

text \<open>The offset of the first newline of \<^verbatim>\<open>p\<close>, as \<^verbatim>\<open>strchr(p, '\n')\<close> finds it: not beyond a null byte.\<close>

primrec line_end :: "byte list \<Rightarrow> nat option" where
  "line_end [] = None"
| "line_end (c # p) = (if c = 0 then None else if c = 10 then Some 0 else map_option Suc (line_end p))"

lemma line_end_Some:
  "line_end p = Some k \<Longrightarrow> k < length p \<and> p = take k p @ 10 # drop (Suc k) p \<and> 10 \<notin> set (take k p) \<and> take (Suc k) p = take k p @ [10]"
  by (induction p arbitrary: k) (auto split: if_splits)

lemma line_end_None: "line_end p = None \<Longrightarrow> 0 \<notin> set p \<Longrightarrow> 10 \<notin> set p"
  by (induction p) (auto split: if_splits)

text \<open>The inner loop: what is written, and the bytes that are left in the buffer.\<close>

function grep_lines :: "byte list \<Rightarrow> byte list \<Rightarrow> byte list list \<times> byte list" where
  "grep_lines pat p =
     (case line_end p of
        None \<Rightarrow> ([], p)
      | Some k \<Rightarrow> let (ws, rest) = grep_lines pat (drop (k + 1) p)
                  in ((if match pat (take k p) then [take (k + 1) p] else []) @ ws, rest))"
  by pat_completeness auto
termination
  by (relation "measure (\<lambda>(pat, p). length p)") (auto dest!: line_end_Some)

declare grep_lines.simps [simp del]

text \<open>The loop over the results of \<^verbatim>\<open>read\<close>, each the bytes it stored; none for the end of the file or an error.\<close>

fun grep_loop :: "byte list \<Rightarrow> byte list \<Rightarrow> byte list list \<Rightarrow> byte list list" where
  "grep_loop pat b [] = []"
| "grep_loop pat b (r # rs) =
     (if r = [] then [] else let (ws, rest) = grep_lines pat (b @ r) in ws @ grep_loop pat rest rs)"

definition grep :: "byte list \<Rightarrow> byte list list \<Rightarrow> byte list list" where
  "grep pat rs = grep_loop pat [] rs"

section \<open>What a pattern denotes\<close>

datatype item = One byte | Many byte | End

fun items :: "byte list \<Rightarrow> item list" where
  "items [] = []"
| "items [c] = (if c = DOLLAR then [End] else [One c])"
| "items (c # d # re) = (if d = STAR then Many c # items re else One c # items (d # re))"

definition sat :: "byte \<Rightarrow> byte \<Rightarrow> bool" where
  "sat c x \<longleftrightarrow> c = DOT \<or> c = x"

text \<open>The strings that the items match, with the rest of the text: \<^verbatim>\<open>$\<close> requires it to be empty.\<close>

primrec denotes :: "item list \<Rightarrow> (byte list \<times> byte list) set" where
  "denotes [] = {([], v) | v. True}"
| "denotes (i # js) = (case i of
     One c \<Rightarrow> {(x # u, v) | x u v. sat c x \<and> (u, v) \<in> denotes js}
   | Many c \<Rightarrow> {(xs @ u, v) | xs u v. (\<forall>x\<in>set xs. sat c x) \<and> (u, v) \<in> denotes js}
   | End \<Rightarrow> {([], [])})"

definition prefix_match :: "byte list \<Rightarrow> byte list \<Rightarrow> bool" where
  "prefix_match re tx \<longleftrightarrow> (\<exists>u v. tx = u @ v \<and> (u, v) \<in> denotes (items re))"

lemma prefix_match_Nil: "prefix_match [] tx"
  by (auto simp: prefix_match_def)

lemma prefix_match_one:
  assumes "items (c # re) = One c # items re"
  shows "prefix_match (c # re) tx \<longleftrightarrow> tx \<noteq> [] \<and> sat c (hd tx) \<and> prefix_match re (tl tx)"
  by (cases tx) (auto simp: prefix_match_def assms, blast, metis append_Cons)

lemma prefix_match_many:
  "prefix_match (c # STAR # re) tx \<longleftrightarrow> (\<exists>xs ys. tx = xs @ ys \<and> (\<forall>x\<in>set xs. sat c x) \<and> prefix_match re ys)"
  by (auto simp: prefix_match_def) (metis append_assoc)+

lemma matchhere_denotes:
  "matchhere re tx = prefix_match re tx"
  "matchstar c re' tx = prefix_match (c # STAR # re') tx"
proof (induction re tx and c re' tx rule: matchhere_matchstar.induct)
  case (1 tx)
  then show ?case by (simp add: prefix_match_Nil)
next
  case (2 c re tx)
  show ?case
  proof (cases "re \<noteq> [] \<and> hd re = STAR")
    case True
    then have "re = STAR # tl re" by (cases re) auto
    then show ?thesis using 2(1) [OF True] True by (simp add: matchhere.simps(2))
  next
    case F: False
    show ?thesis
    proof (cases "c = DOLLAR \<and> re = []")
      case True
      then show ?thesis by (auto simp: matchhere.simps(2) prefix_match_def)
    next
      case False
      then have "items (c # re) = One c # items re" using F by (cases re) auto
      from prefix_match_one [OF this, of tx] show ?thesis
        using 2(2) [OF F False] F False by (auto simp: matchhere.simps(2) sat_def)
    qed
  qed
next
  case (3 c re tx)
  have step: "prefix_match (c # STAR # re) tx \<longleftrightarrow>
      prefix_match re tx \<or> tx \<noteq> [] \<and> sat c (hd tx) \<and> prefix_match (c # STAR # re) (tl tx)"
    unfolding prefix_match_many
  proof
    assume "\<exists>xs ys. tx = xs @ ys \<and> (\<forall>x\<in>set xs. sat c x) \<and> prefix_match re ys"
    then obtain xs ys where "tx = xs @ ys" "\<forall>x\<in>set xs. sat c x" "prefix_match re ys" by blast
    then show "prefix_match re tx \<or> tx \<noteq> [] \<and> sat c (hd tx) \<and> (\<exists>xs ys. tl tx = xs @ ys \<and> (\<forall>x\<in>set xs. sat c x) \<and> prefix_match re ys)"
      by (cases xs) auto
  next
    assume "prefix_match re tx \<or> tx \<noteq> [] \<and> sat c (hd tx) \<and> (\<exists>xs ys. tl tx = xs @ ys \<and> (\<forall>x\<in>set xs. sat c x) \<and> prefix_match re ys)"
    then show "\<exists>xs ys. tx = xs @ ys \<and> (\<forall>x\<in>set xs. sat c x) \<and> prefix_match re ys"
    proof (elim disjE conjE exE)
      assume "prefix_match re tx"
      then show ?thesis by (intro exI [of _ "[]"] exI [of _ tx]) simp
    next
      fix xs ys
      assume "tx \<noteq> []" "sat c (hd tx)" "tl tx = xs @ ys" "\<forall>x\<in>set xs. sat c x" "prefix_match re ys"
      then show ?thesis by (intro exI [of _ "hd tx # xs"] exI [of _ ys]) (cases tx; simp)
    qed
  qed
  show ?case
    using 3 unfolding step by (subst matchstar.simps) (auto simp: sat_def)
qed

lemma match_loop_suffix: "match_loop re tx \<longleftrightarrow> (\<exists>x y. tx = x @ y \<and> prefix_match re y)"
proof (induction tx)
  case Nil
  then show ?case by (simp add: match_loop.simps matchhere_denotes)
next
  case (Cons t ts)
  have "(\<exists>x y. t # ts = x @ y \<and> prefix_match re y) \<longleftrightarrow> prefix_match re (t # ts) \<or> (\<exists>x y. ts = x @ y \<and> prefix_match re y)"
    by (auto simp: Cons_eq_append_conv)
  then show ?case using Cons by (subst match_loop.simps) (simp add: matchhere_denotes)
qed

text \<open>
  C36: \<^verbatim>\<open>match\<close> decides what the pattern denotes. A pattern is a sequence of characters, \<^verbatim>\<open>.\<close> for any character, and
  repetitions with \<^verbatim>\<open>*\<close>, possibly with \<^verbatim>\<open>$\<close> as its last character; \<^verbatim>\<open>match\<close> accepts a text exactly if it has
  a part that the sequence denotes, which is at the start of the text if the pattern begins with \<^verbatim>\<open>^\<close>, and at its end with \<^verbatim>\<open>$\<close>.
\<close>

theorem match_language:
  "match re tx \<longleftrightarrow>
     (if re \<noteq> [] \<and> hd re = CARET then \<exists>u v. tx = u @ v \<and> (u, v) \<in> denotes (items (tl re))
      else \<exists>x u v. tx = x @ u @ v \<and> (u, v) \<in> denotes (items re))"
  unfolding match_def matchhere_denotes match_loop_suffix prefix_match_def by auto

section \<open>Output\<close>

lemma strchr_loop_arr: "strchr_loop (arr (xs @ p)) 10 (length xs) = Some (map_option (\<lambda>k. length xs + k) (line_end p))"
proof (induction p arbitrary: xs)
  case Nil
  then show ?case by (subst strchr_loop.simps) (simp add: arr_def)
next
  case (Cons c p)
  have "strchr_loop (arr (xs @ c # p)) 10 (Suc (length xs)) = Some (map_option (\<lambda>k. Suc (length xs) + k) (line_end p))"
    using Cons [of "xs @ [c]"] by simp
  then show ?case by (subst strchr_loop.simps) (simp add: arr_def option.map_comp comp_def)
qed

text \<open>\<^verbatim>\<open>strchr\<close> of the library finds this newline in the buffer, whose bytes are followed by a terminator.\<close>

lemma strchr_line_end: "strchr (arr p) 10 = Some (line_end p)"
  using strchr_loop_arr [of "[]" p] by (simp add: strchr_def option.map_ident)

text \<open>The complete lines of a text, without their newlines, and what follows the last one.\<close>

primrec lines_of :: "byte list \<Rightarrow> byte list list \<times> byte list" where
  "lines_of [] = ([], [])"
| "lines_of (c # cs) =
     (let (ls, r) = lines_of cs
      in if c = 10 then ([] # ls, r) else case ls of [] \<Rightarrow> ([], c # r) | l # ls \<Rightarrow> ((c # l) # ls, r))"

lemma lines_of_line: "10 \<notin> set l \<Longrightarrow> lines_of (l @ 10 # cs) = (l # fst (lines_of cs), snd (lines_of cs))"
  by (induction l) (auto simp: split_beta)

lemma lines_of_rest: "10 \<notin> set l \<Longrightarrow> lines_of l = ([], l)"
  by (induction l) auto

abbreviation nl :: "byte list \<Rightarrow> byte list" where "nl l \<equiv> l @ [10]"

lemma grep_lines_spec:
  "0 \<notin> set p \<Longrightarrow> grep_lines pat p = (map nl (filter (match pat) (fst (lines_of p))), snd (lines_of p))"
proof (induction pat p rule: grep_lines.induct)
  case (1 pat p)
  show ?case
  proof (cases "line_end p")
    case None
    then show ?thesis using line_end_None [OF None "1.prems"] by (subst grep_lines.simps) (simp add: lines_of_rest)
  next
    case (Some k)
    note k = line_end_Some [OF Some]
    have "0 \<notin> set (drop (k + 1) p)" using "1.prems" by (meson in_set_dropD)
    then have IH: "grep_lines pat (drop (k + 1) p) =
        (map nl (filter (match pat) (fst (lines_of (drop (k + 1) p)))), snd (lines_of (drop (k + 1) p)))"
      using "1.IH" [OF Some] by simp
    have "lines_of p = (take k p # fst (lines_of (drop (k + 1) p)), snd (lines_of (drop (k + 1) p)))"
      using lines_of_line [of "take k p" "drop (Suc k) p"] k by simp
    moreover have "take (k + 1) p = nl (take k p)" using k by simp
    ultimately show ?thesis using IH Some by (subst grep_lines.simps) simp
  qed
qed

lemma lines_of_append:
  "lines_of (a @ b) = (fst (lines_of a) @ fst (lines_of (snd (lines_of a) @ b)), snd (lines_of (snd (lines_of a) @ b)))"
  by (induction a) (auto simp: split_beta split: list.split)

lemma lines_of_no_null: "0 \<notin> set a \<Longrightarrow> 0 \<notin> set (snd (lines_of a))"
  by (induction a) (auto simp: split_beta split: list.split)

lemma lines_of_tail: "10 \<notin> set (snd (lines_of a))"
  by (induction a) (auto simp: split_beta split: list.split)

lemma grep_loop_spec:
  assumes "0 \<notin> set b" "\<forall>r\<in>set rs. 0 \<notin> set r" "10 \<notin> set b"
  shows "grep_loop pat b rs = map nl (filter (match pat) (fst (lines_of (b @ concat (takeWhile (\<lambda>r. r \<noteq> []) rs)))))"
  using assms
proof (induction rs arbitrary: b)
  case Nil
  then show ?case by (simp add: lines_of_rest)
next
  case (Cons r rs)
  show ?case
  proof (cases "r = []")
    case True
    then show ?thesis using Cons.prems by (simp add: lines_of_rest)
  next
    case False
    let ?b = "snd (lines_of (b @ r))"
    have nn: "0 \<notin> set (b @ r)" using Cons.prems by simp
    have b: "0 \<notin> set ?b" "10 \<notin> set ?b" using lines_of_no_null [OF nn] lines_of_tail by auto
    then show ?thesis
      using False Cons.IH [of ?b] Cons.prems grep_lines_spec [OF nn, of pat]
        lines_of_append [of "b @ r" "concat (takeWhile (\<lambda>r. r \<noteq> []) rs)"] by simp
  qed
qed



end
