(* ===== verification/Sh.thy ===== *)
theory Sh
  imports Ulib
begin

text \<open>
  The parser of the shell (\<^verbatim>\<open>user/sh.c\<close>). The line is the list of its bytes before the terminator; a pointer into it is an index, and
  a word is the pair of the indices of its first byte and of the byte after its last one, as in \<^verbatim>\<open>argv\<close> and \<^verbatim>\<open>eargv\<close>.
\<close>

section \<open>Commands\<close>

datatype 'w shcmd =
    EXEC "'w list"
  | REDIR "'w shcmd" 'w int int
  | PIPE "'w shcmd" "'w shcmd"
  | LIST "'w shcmd" "'w shcmd"
  | BACK "'w shcmd"

type_synonym word_pos = "nat \<times> nat"

text \<open>\<^verbatim>\<open>panic\<close> prints its message and exits. The parser's recursion has a bound, which is shown not to be reached.\<close>

datatype sherr = ShPanic string | NoFuel

section \<open>Tokens\<close>

definition at :: "byte list \<Rightarrow> nat \<Rightarrow> byte" where
  "at b i = (if i < length b then b ! i else 0)"

definition whitespace :: "byte list" where
  "whitespace = [32, 9, 13, 10, 11]"

definition symbols :: "byte list" where
  "symbols = [60, 124, 62, 38, 59, 40, 41]"

text \<open>The loops \<^verbatim>\<open>while(s < es && ...) s++\<close>.\<close>

function skip_while :: "(byte \<Rightarrow> bool) \<Rightarrow> byte list \<Rightarrow> nat \<Rightarrow> nat" where
  "skip_while P b s = (if s < length b \<and> P (b ! s) then skip_while P b (s + 1) else s)"
  by pat_completeness auto
termination by (relation "measure (\<lambda>(P, b, s). length b - s)") auto

declare skip_while.simps [simp del]

abbreviation is_ws :: "byte \<Rightarrow> bool" where "is_ws c \<equiv> c \<in> set whitespace"
abbreviation is_word :: "byte \<Rightarrow> bool" where "is_word c \<equiv> c \<notin> set whitespace \<and> c \<notin> set symbols"

definition gettoken :: "byte list \<Rightarrow> nat \<Rightarrow> byte \<times> word_pos \<times> nat" where
  "gettoken b s =
     (let q = skip_while is_ws b s;
          c = at b q;
          (ret, s) =
            (if c = 0 then (0, q)
             else if c \<in> {124, 40, 41, 59, 38, 60} then (c, q + 1)
             else if c = 62 then (if at b (q + 1) = 62 then (43, q + 2) else (62, q + 1))
             else (97, skip_while is_word b q))
      in (ret, (q, s), skip_while is_ws b s))"

definition peek :: "byte list \<Rightarrow> nat \<Rightarrow> byte list \<Rightarrow> bool \<times> nat" where
  "peek b s toks = (let s = skip_while is_ws b s in (at b s \<noteq> 0 \<and> at b s \<in> set toks, s))"

lemma skip_while_step: "s < length b \<Longrightarrow> P (b ! s) \<Longrightarrow> skip_while P b s = skip_while P b (Suc s)"
  by (subst skip_while.simps) simp

lemma skip_while_halt: "\<not> (s < length b \<and> P (b ! s)) \<Longrightarrow> skip_while P b s = s"
  by (subst skip_while.simps) auto

lemma skip_while_end: "\<not> (skip_while P b s < length b \<and> P (b ! skip_while P b s))"
proof (induction P b s rule: skip_while.induct)
  case (1 P b s)
  then show ?case by (cases "s < length b \<and> P (b ! s)") (simp_all add: skip_while_step skip_while_halt)
qed

lemma skip_while_ge: "s \<le> skip_while P b s"
  by (induction P b s rule: skip_while.induct) (subst skip_while.simps, auto intro: Suc_leD)

lemma skip_while_le: "s \<le> length b \<Longrightarrow> skip_while P b s \<le> length b"
  by (induction P b s rule: skip_while.induct) (subst skip_while.simps, simp)

lemma skip_while_gt: "s < length b \<Longrightarrow> P (b ! s) \<Longrightarrow> s < skip_while P b s"
  using skip_while_ge [of "s + 1" P b] by (subst skip_while.simps) simp

lemma at_nonzero: "at b i \<noteq> 0 \<Longrightarrow> i < length b"
  by (simp add: at_def split: if_splits)

lemma peek_ge: "peek b s toks = (ok, s') \<Longrightarrow> s \<le> s' \<and> (s \<le> length b \<longrightarrow> s' \<le> length b) \<and> (ok \<longrightarrow> s' < length b)"
  using skip_while_ge [of s is_ws b] skip_while_le [of s b is_ws] at_nonzero by (auto simp: peek_def Let_def)

lemma gettoken_ge:
  assumes "gettoken b s = (t, w, s')"
  shows "s \<le> s'" "s \<le> length b \<Longrightarrow> s' \<le> length b" "t \<noteq> 0 \<Longrightarrow> s < s'" "t \<noteq> 0 \<Longrightarrow> s < length b"
proof -
  let ?q = "skip_while is_ws b s"
  define r where "r = (if at b ?q = 0 then (0, ?q) else if at b ?q \<in> {124, 40, 41, 59, 38, 60} then (at b ?q, ?q + 1)
             else if at b ?q = 62 then (if at b (?q + 1) = 62 then (43, ?q + 2) else (62, ?q + 1))
             else (97, skip_while is_word b ?q))"
  have g: "t = fst r" "s' = skip_while is_ws b (snd r)"
    using assms unfolding gettoken_def Let_def r_def [symmetric] by (auto simp: split_beta)
  have q: "s \<le> ?q" "s \<le> length b \<Longrightarrow> ?q \<le> length b" using skip_while_ge skip_while_le by blast+
  have r: "?q \<le> snd r" "?q \<le> length b \<Longrightarrow> snd r \<le> length b" "fst r \<noteq> 0 \<Longrightarrow> ?q < snd r \<and> ?q < length b"
  proof -
    consider "at b ?q = 0" | "at b ?q \<noteq> 0" "at b ?q \<in> {124, 40, 41, 59, 38, 60}" | "at b ?q = 62" |
      "at b ?q \<noteq> 0" "at b ?q \<notin> {124, 40, 41, 59, 38, 60}" "at b ?q \<noteq> 62" by blast
    then have "?q \<le> snd r \<and> (?q \<le> length b \<longrightarrow> snd r \<le> length b) \<and> (fst r \<noteq> 0 \<longrightarrow> ?q < snd r \<and> ?q < length b)"
    proof cases
      case 1
      then show ?thesis by (simp add: r_def)
    next
      case 2
      then show ?thesis using at_nonzero [OF 2(1)] by (auto simp: r_def)
    next
      case 3
      then have "?q < length b" using at_nonzero [of b ?q] by simp
      moreover have "?q + 1 < length b" if "at b (?q + 1) = 62" using that at_nonzero [of b "?q + 1"] by simp
      ultimately show ?thesis using 3 by (auto simp: r_def)
    next
      case 4
      then have l: "?q < length b" using at_nonzero by blast
      have "\<not> (?q < length b \<and> is_ws (b ! ?q))"
        by (rule skip_while_end)
      then have "is_word (b ! ?q)" using l 4 by (auto simp: at_def symbols_def)
      then show ?thesis using 4 l skip_while_gt [of ?q b is_word] skip_while_le [of ?q b is_word] by (simp add: r_def)
    qed
    then show "?q \<le> snd r" "?q \<le> length b \<Longrightarrow> snd r \<le> length b" "fst r \<noteq> 0 \<Longrightarrow> ?q < snd r \<and> ?q < length b" by auto
  qed
  show "s \<le> s'" "s \<le> length b \<Longrightarrow> s' \<le> length b" "t \<noteq> 0 \<Longrightarrow> s < s'" "t \<noteq> 0 \<Longrightarrow> s < length b"
    using g q r skip_while_ge [of "snd r" is_ws b] skip_while_le [of "snd r" b is_ws] by auto
qed

text \<open>What is left of the line at an index, without the white space in front of it.\<close>

definition rest :: "byte list \<Rightarrow> nat \<Rightarrow> byte list" where
  "rest b s = dropWhile is_ws (drop s b)"

lemma skip_while_drop: "s \<le> length b \<Longrightarrow> drop (skip_while P b s) b = dropWhile P (drop s b)"
proof (induction P b s rule: skip_while.induct)
  case (1 P b s)
  show ?case
  proof (cases "s < length b \<and> P (b ! s)")
    case True
    then show ?thesis using 1 by (simp add: skip_while_step Cons_nth_drop_Suc [symmetric])
  next
    case False
    then have "skip_while P b s = s" by (rule skip_while_halt)
    then show ?thesis using False 1(2) by (cases "s < length b") (simp_all add: Cons_nth_drop_Suc [symmetric])
  qed
qed

lemma dropWhile_rest: "dropWhile is_ws (rest b s) = rest b s"
  by (simp add: rest_def)

lemma at_drop: "at b i = (case drop i b of [] \<Rightarrow> 0 | c # _ \<Rightarrow> c)"
  by (cases "i < length b") (simp_all add: at_def Cons_nth_drop_Suc [symmetric])

lemma peek_rest:
  assumes "s \<le> length b"
  shows "\<exists>s'. peek b s toks = (rest b s \<noteq> [] \<and> hd (rest b s) \<noteq> 0 \<and> hd (rest b s) \<in> set toks, s') \<and> rest b s' = rest b s \<and>
    s \<le> s' \<and> s' \<le> length b"
proof -
  have d: "drop (skip_while is_ws b s) b = rest b s" using assms by (simp add: skip_while_drop rest_def)
  have "rest b (skip_while is_ws b s) = rest b s" by (subst rest_def, subst d, rule dropWhile_rest)
  then show ?thesis
    using assms skip_while_ge [of s is_ws b] skip_while_le [of s b is_ws] d
    by (auto simp: peek_def Let_def at_drop split: list.splits)
qed

lemma peek_gettoken: "peek b s toks = (True, s1) \<Longrightarrow> gettoken b s1 = (t, w, s2) \<Longrightarrow> t \<noteq> 0"
proof -
  assume p: "peek b s toks = (True, s1)" and g: "gettoken b s1 = (t, w, s2)"
  have s1: "s1 = skip_while is_ws b s" "at b s1 \<noteq> 0" using p by (auto simp: peek_def Let_def)
  have "skip_while is_ws b s1 = s1"
    unfolding s1(1) by (rule skip_while_halt, rule skip_while_end)
  then show "t \<noteq> 0" using g s1(2) by (auto simp: gettoken_def Let_def split: if_splits)
qed

section \<open>The parser\<close>

text \<open>
  \<^verbatim>\<open>parseredirs\<close> wraps the command it is given once for each redirection. Here it returns the redirections, in order, and \<open>wraps\<close> puts
  them around a command: in \<^verbatim>\<open>parseexec\<close> the innermost command still gets arguments after the first redirections.
\<close>

type_synonym redir = "word_pos \<times> int \<times> int"

definition wraps :: "'w shcmd \<Rightarrow> ('w \<times> int \<times> int) list \<Rightarrow> 'w shcmd" where
  "wraps c rs = foldl (\<lambda>c (w, mode, fd). REDIR c w mode fd) c rs"

definition redir_of :: "byte \<Rightarrow> 'w \<Rightarrow> ('w \<times> int \<times> int) list" where
  "redir_of tok w =
     (if tok = 60 then [(w, 0x000, 0)]
      else if tok = 62 then [(w, 0x601, 1)]
      else if tok = 43 then [(w, 0x201, 1)] else [])"

function parseredirs :: "byte list \<Rightarrow> nat \<Rightarrow> sherr + redir list \<times> nat" where
  "parseredirs b s =
     (let (ok, s) = peek b s [60, 62] in
      if ok then
        let (tok, _, s) = gettoken b s; (t2, w, s) = gettoken b s in
        if t2 \<noteq> 97 then Inl (ShPanic ''missing file for redirection'')
        else
          bindE (parseredirs b s) (\<lambda>(rs, s). Inr (redir_of tok w @ rs, s))
      else Inr ([], s))"
  by pat_completeness auto
termination
proof (relation "measure (\<lambda>(b, s). length b - s)", goal_cases)
  case (2 b s x ok s1 x1 tok y1 w1 s2 x2 t2 y2 w2 s3)
  then have "s \<le> s1" "s1 \<le> s2" "t2 \<noteq> 0" "s2 < s3" "s2 < length b"
    using peek_ge [of b s "[60, 62]" ok s1] gettoken_ge [of b s1 tok w1 s2] gettoken_ge [of b s2 t2 w2 s3] by auto
  then show ?case by simp
qed simp

declare parseredirs.simps [simp del]

lemma parseredirs_stop: "peek b s [60, 62] = (False, s1) \<Longrightarrow> parseredirs b s = Inr ([], s1)"
  by (subst parseredirs.simps) simp

lemma parseredirs_go:
  "peek b s [60, 62] = (True, s1) \<Longrightarrow> gettoken b s1 = (tok, w1, s2) \<Longrightarrow> gettoken b s2 = (t2, w2, s3) \<Longrightarrow>
   parseredirs b s = (if t2 = 97 then bindE (parseredirs b s3) (\<lambda>(rs, s). Inr (redir_of tok w2 @ rs, s))
     else Inl (ShPanic ''missing file for redirection''))"
  by (subst parseredirs.simps) simp

function execargs :: "byte list \<Rightarrow> nat \<Rightarrow> word_pos list \<Rightarrow> redir list \<Rightarrow> sherr + (word_pos list \<times> redir list) \<times> nat" where
  "execargs b s args rs =
     (let (ok, s) = peek b s [124, 41, 38, 59] in
      if ok then Inr ((args, rs), s)
      else
        let (tok, w, s) = gettoken b s in
        if tok = 0 then Inr ((args, rs), s)
        else if tok \<noteq> 97 then Inl (ShPanic ''syntax'')
        else if length (args @ [w]) \<ge> 10 then Inl (ShPanic ''too many args'')
        else bindE (parseredirs b s) (\<lambda>(rs', s). execargs b s (args @ [w]) (rs @ rs')))"
  by pat_completeness auto
termination
proof (relation "measure (\<lambda>(b, s, args, rs). 10 - length args)", goal_cases)
  case 2
  then show ?case by auto
qed simp

declare execargs.simps [simp del]

lemma execargs_stop:
  "peek b s [124, 41, 38, 59] = (ok, s1) \<Longrightarrow> gettoken b s1 = (tok, w, s2) \<Longrightarrow> ok \<or> tok = 0 \<Longrightarrow>
   execargs b s args rs = Inr ((args, rs), if ok then s1 else s2)"
  by (subst execargs.simps) auto

lemma execargs_go:
  "peek b s [124, 41, 38, 59] = (False, s1) \<Longrightarrow> gettoken b s1 = (tok, w, s2) \<Longrightarrow> tok \<noteq> 0 \<Longrightarrow>
   execargs b s args rs = (if tok \<noteq> 97 then Inl (ShPanic ''syntax'') else if length args \<ge> 9 then Inl (ShPanic ''too many args'')
     else bindE (parseredirs b s2) (\<lambda>(rs', s). execargs b s (args @ [w]) (rs @ rs')))"
  by (subst execargs.simps) simp

function backs :: "byte list \<Rightarrow> word_pos shcmd \<Rightarrow> nat \<Rightarrow> word_pos shcmd \<times> nat" where
  "backs b c s =
     (let (ok, s1) = peek b s [38] in
      if ok then let (_, _, s2) = gettoken b s1 in backs b (BACK c) s2 else (c, s1))"
  by pat_completeness auto
termination
proof (relation "measure (\<lambda>(b, c, s). length b - s)", goal_cases)
  case (2 b c s x ok s1 x1 tok y w s2)
  then have p: "peek b s [38] = (ok, s1)" "ok" "gettoken b s1 = (tok, w, s2)" by auto
  have "tok \<noteq> 0"
  proof
    assume "tok = 0"
    then show False using p peek_gettoken [of b s "[38]" s1 tok w s2] by simp
  qed
  then show ?case using peek_ge [OF p(1)] gettoken_ge(3,4) [OF p(3)] by auto
qed simp

declare backs.simps [simp del]

lemma backs_stop: "peek b s [38] = (False, s1) \<Longrightarrow> backs b c s = (c, s1)"
  by (subst backs.simps) simp

lemma backs_go: "peek b s [38] = (True, s1) \<Longrightarrow> gettoken b s1 = (tok, w, s2) \<Longrightarrow> backs b c s = backs b (BACK c) s2"
  by (subst backs.simps) simp

fun parseline :: "nat \<Rightarrow> byte list \<Rightarrow> nat \<Rightarrow> sherr + word_pos shcmd \<times> nat"
and parsepipe :: "nat \<Rightarrow> byte list \<Rightarrow> nat \<Rightarrow> sherr + word_pos shcmd \<times> nat"
and parseexec :: "nat \<Rightarrow> byte list \<Rightarrow> nat \<Rightarrow> sherr + word_pos shcmd \<times> nat"
and parseblock :: "nat \<Rightarrow> byte list \<Rightarrow> nat \<Rightarrow> sherr + word_pos shcmd \<times> nat" where
  "parseline 0 b s = Inl NoFuel"
| "parseline (Suc n) b s =
     bindE (parsepipe n b s) (\<lambda>(c, s).
      let (c, s) = backs b c s; (ok, s) = peek b s [59] in
      if ok then
        let (_, _, s) = gettoken b s in
        bindE (parseline n b s) (\<lambda>(c', s). Inr (LIST c c', s))
      else Inr (c, s))"
| "parsepipe 0 b s = Inl NoFuel"
| "parsepipe (Suc n) b s =
     bindE (parseexec n b s) (\<lambda>(c, s).
      let (ok, s) = peek b s [124] in
      if ok then
        let (_, _, s) = gettoken b s in
        bindE (parsepipe n b s) (\<lambda>(c', s). Inr (PIPE c c', s))
      else Inr (c, s))"
| "parseexec 0 b s = Inl NoFuel"
| "parseexec (Suc n) b s =
     (let (ok, s) = peek b s [40] in
      if ok then parseblock n b s
      else
        bindE (parseredirs b s) (\<lambda>(rs, s).
        bindE (execargs b s [] rs) (\<lambda>((args, rs), s).
        Inr (wraps (EXEC args) rs, s))))"
| "parseblock 0 b s = Inl NoFuel"
| "parseblock (Suc n) b s =
     (let (ok, s) = peek b s [40] in
      if \<not> ok then Inl (ShPanic ''parseblock'')
      else
        let (_, _, s) = gettoken b s in
        bindE (parseline n b s) (\<lambda>(c, s).
        let (ok, s) = peek b s [41] in
        if \<not> ok then Inl (ShPanic ''syntax - missing )'')
        else
          let (_, _, s) = gettoken b s in
          bindE (parseredirs b s) (\<lambda>(rs, s). Inr (wraps c rs, s))))"

text \<open>\<^verbatim>\<open>nulterminate\<close> writes into the buffer, whose last byte is the terminator of the line.\<close>

primrec nulterminate :: "word_pos shcmd \<Rightarrow> byte list \<Rightarrow> byte list" where
  "nulterminate (EXEC args) buf = foldl (\<lambda>buf (q, e). buf[e := 0]) buf args"
| "nulterminate (REDIR c w mode fd) buf = (nulterminate c buf)[snd w := 0]"
| "nulterminate (PIPE l r) buf = nulterminate r (nulterminate l buf)"
| "nulterminate (LIST l r) buf = nulterminate r (nulterminate l buf)"
| "nulterminate (BACK c) buf = nulterminate c buf"

definition parsecmd :: "byte list \<Rightarrow> sherr + word_pos shcmd \<times> byte list" where
  "parsecmd b =
     bindE (parseline (4 * length b + 4) b 0) (\<lambda>(c, s).
      let (_, s) = peek b s [] in
      if s \<noteq> length b then Inl (ShPanic ''syntax'')
      else Inr (c, nulterminate c (b @ [0])))"

end
