(* ===== verification/Parse.thy ===== *)
theory Parse
  imports Sh
begin

text \<open>
  The shell's parser is correct: it ends, its words are the words of the line also after \<^verbatim>\<open>nulterminate\<close>, and it reads back every
  command from its text.
\<close>

section \<open>The parser moves forward\<close>

definition fwd :: "byte list \<Rightarrow> nat \<Rightarrow> nat \<Rightarrow> bool" where
  "fwd b s s' \<longleftrightarrow> s \<le> s' \<and> s' \<le> length b"

lemma fwd_trans: "fwd b s s1 \<Longrightarrow> fwd b s1 s2 \<Longrightarrow> fwd b s s2"
  by (simp add: fwd_def)

lemma fwd_refl: "s \<le> length b \<Longrightarrow> fwd b s s"
  by (simp add: fwd_def)

lemma peek_fwd: "s \<le> length b \<Longrightarrow> peek b s toks = (ok, s') \<Longrightarrow> fwd b s s'"
  using peek_ge [of b s toks ok s'] by (simp add: fwd_def)

lemma gettoken_fwd: "s \<le> length b \<Longrightarrow> gettoken b s = (t, w, s') \<Longrightarrow> fwd b s s'"
  using gettoken_ge [of b s t w s'] by (simp add: fwd_def)

lemma peek_gettoken_less: "peek b s toks = (True, s1) \<Longrightarrow> gettoken b s1 = (t, w, s2) \<Longrightarrow> s1 < s2 \<and> s1 < length b"
  using peek_gettoken [of b s toks s1 t w s2] gettoken_ge [of b s1 t w s2] by simp

lemma fwd_le: "fwd b s s' \<Longrightarrow> s' \<le> length b"
  by (simp add: fwd_def)

text \<open>A word: what \<^verbatim>\<open>gettoken\<close> delimits when it returns \<^verbatim>\<open>'a'\<close>.\<close>

definition word_ok :: "byte list \<Rightarrow> word_pos \<Rightarrow> bool" where
  "word_ok b w \<longleftrightarrow> fst w < snd w \<and> snd w \<le> length b \<and> (\<forall>i. fst w \<le> i \<and> i < snd w \<longrightarrow> is_word (b ! i)) \<and>
     (snd w < length b \<longrightarrow> \<not> is_word (b ! snd w))"

primrec cmd_ok :: "byte list \<Rightarrow> word_pos shcmd \<Rightarrow> bool" where
  "cmd_ok b (EXEC args) \<longleftrightarrow> length args < 10 \<and> (\<forall>w\<in>set args. word_ok b w)"
| "cmd_ok b (REDIR c w mode fd) \<longleftrightarrow> cmd_ok b c \<and> word_ok b w \<and> (mode, fd) \<in> {(0, 0), (0x601, 1), (0x201, 1)}"
| "cmd_ok b (PIPE l r) \<longleftrightarrow> cmd_ok b l \<and> cmd_ok b r"
| "cmd_ok b (LIST l r) \<longleftrightarrow> cmd_ok b l \<and> cmd_ok b r"
| "cmd_ok b (BACK c) \<longleftrightarrow> cmd_ok b c"

definition redir_ok :: "byte list \<Rightarrow> redir \<Rightarrow> bool" where
  "redir_ok b r \<longleftrightarrow> word_ok b (fst r) \<and> snd r \<in> {(0, 0), (0x601, 1), (0x201, 1)}"

lemma skip_while_range:
  "s \<le> i \<Longrightarrow> i < skip_while P b s \<Longrightarrow> i < length b \<and> P (b ! i)"
proof (induction P b s rule: skip_while.induct)
  case (1 P b s)
  then show ?case
    by (cases "s < length b \<and> P (b ! s)"; cases "i = s") (auto simp: skip_while_step skip_while_halt)
qed

lemma gettoken_word_ok:
  assumes g: "gettoken b s = (97, w, s')" and s: "s \<le> length b"
  shows "word_ok b w"
proof -
  let ?q = "skip_while is_ws b s"
  have nz: "at b ?q \<noteq> 0" and ns: "at b ?q \<notin> {124, 40, 41, 59, 38, 60, 62}" and w: "w = (?q, skip_while is_word b ?q)"
    using g by (auto simp: gettoken_def Let_def split: if_splits)
  have q: "?q < length b" using nz by (rule at_nonzero)
  then have "is_word (b ! ?q)" using ns skip_while_end [of is_ws b s] by (auto simp: at_def symbols_def)
  then have "?q < skip_while is_word b ?q" using q by (intro skip_while_gt) auto
  moreover have "skip_while is_word b ?q \<le> length b" using q skip_while_le [of ?q b is_word] by simp
  ultimately show ?thesis
    using skip_while_range [where P = is_word and b = b and s = ?q] skip_while_end [of is_word b ?q] by (auto simp: word_ok_def w)
qed

lemma parseredirs_ok: "s \<le> length b \<Longrightarrow> parseredirs b s = Inr (rs, s') \<Longrightarrow> fwd b s s' \<and> (\<forall>r\<in>set rs. redir_ok b r)"
proof (induction b s arbitrary: rs rule: parseredirs.induct)
  case (1 b s)
  obtain ok s1 where p: "peek b s [60, 62] = (ok, s1)" by fastforce
  obtain tok w1 s2 where g1: "gettoken b s1 = (tok, w1, s2)" by (cases "gettoken b s1") auto
  obtain t2 w2 s3 where g2: "gettoken b s2 = (t2, w2, s3)" by (cases "gettoken b s2") auto
  have f1: "fwd b s s1" using 1(2) p by (rule peek_fwd)
  show ?case
  proof (cases ok)
    case False
    then show ?thesis using 1(3) p f1 parseredirs_stop [of b s s1] by simp
  next
    case True
    have f2: "fwd b s1 s2" using gettoken_fwd [OF fwd_le [OF f1] g1] .
    have f3: "fwd b s2 s3" using gettoken_fwd [OF fwd_le [OF f2] g2] .
    have go: "(if t2 = 97 then bindE (parseredirs b s3) (\<lambda>(rs, s). Inr (redir_of tok w2 @ rs, s))
        else Inl (ShPanic ''missing file for redirection'')) = Inr (rs, s')"
      using 1(3) parseredirs_go [of b s s1 tok w1 s2 t2 w2 s3] p g1 g2 True by simp
    then have t2: "t2 = 97" by (simp split: if_splits)
    then have w: "word_ok b w2" using g2 gettoken_word_ok [of b s2 w2 s3] fwd_le [OF f2] by simp
    obtain r where r: "parseredirs b s3 = Inr (r, s')" "rs = redir_of tok w2 @ r"
      using go t2 by (auto elim!: bindE_InrE)
    have "fwd b s3 s' \<and> (\<forall>r\<in>set r. redir_ok b r)"
      using 1(1) [OF p [symmetric] refl True g1 [symmetric] refl refl g2 [symmetric] refl refl _ fwd_le [OF f3] r(1)] t2 by simp
    moreover from this f1 f2 f3 have "fwd b s s'" by (blast intro: fwd_trans)
    ultimately show ?thesis using r(2) w by (auto simp: redir_ok_def redir_of_def)
  qed
qed

lemma execargs_ok:
  "s \<le> length b \<Longrightarrow> execargs b s args rs = Inr ((args', rs'), s') \<Longrightarrow> length args < 10 \<Longrightarrow> \<forall>w\<in>set args. word_ok b w \<Longrightarrow>
   \<forall>r\<in>set rs. redir_ok b r \<Longrightarrow> fwd b s s' \<and> length args' < 10 \<and> (\<forall>w\<in>set args'. word_ok b w) \<and> (\<forall>r\<in>set rs'. redir_ok b r)"
proof (induction b s args rs rule: execargs.induct)
  case (1 b s args rs)
  obtain ok s1 where p: "peek b s [124, 41, 38, 59] = (ok, s1)" by fastforce
  obtain tok w s2 where g: "gettoken b s1 = (tok, w, s2)" by (cases "gettoken b s1") auto
  have f1: "fwd b s s1" using 1(2) p by (rule peek_fwd)
  have f2: "fwd b s1 s2" using gettoken_fwd [OF fwd_le [OF f1] g] .
  have f: "fwd b s s2" using f1 f2 by (rule fwd_trans)
  show ?case
  proof (cases "ok \<or> tok = 0")
    case True
    then show ?thesis using 1(3-6) execargs_stop [OF p g True, of args rs] f1 f by (auto split: if_splits)
  next
    case False
    have go: "(if tok \<noteq> 97 then Inl (ShPanic ''syntax'') else if length args \<ge> 9 then Inl (ShPanic ''too many args'')
       else bindE (parseredirs b s2) (\<lambda>(rs', s). execargs b s (args @ [w]) (rs @ rs'))) = Inr ((args', rs'), s')"
      using 1(3) execargs_go [of b s s1 tok w s2 args rs] p g False by simp
    then have t: "tok = 97" "length args < 9" by (auto split: if_splits)
    obtain r s3 where r: "parseredirs b s2 = Inr (r, s3)" "execargs b s3 (args @ [w]) (rs @ r) = Inr ((args', rs'), s')"
      using go t by (auto elim!: bindE_InrE)
    have f3: "fwd b s2 s3" "\<forall>r\<in>set r. redir_ok b r" using parseredirs_ok [OF fwd_le [OF f2] r(1)] by auto
    have w: "word_ok b w" using g t gettoken_word_ok [of b s1 w s2] fwd_le [OF f1] by simp
    have "fwd b s3 s' \<and> length args' < 10 \<and> (\<forall>w\<in>set args'. word_ok b w) \<and> (\<forall>r\<in>set rs'. redir_ok b r)"
      by (rule 1(1) [OF p [symmetric] refl _ g [symmetric] refl refl _ _ _ r(1) refl fwd_le [OF f3(1)] r(2)])
        (use False t 1(4-6) f3 w in auto)
    then show ?thesis using f f3(1) by (blast intro: fwd_trans)
  qed
qed

lemma backs_ok: "s \<le> length b \<Longrightarrow> backs b c s = (c', s') \<Longrightarrow> cmd_ok b c \<Longrightarrow> fwd b s s' \<and> cmd_ok b c'"
proof (induction b c s rule: backs.induct)
  case (1 b c s)
  obtain ok s1 where p: "peek b s [38] = (ok, s1)" by fastforce
  obtain tok w s2 where g: "gettoken b s1 = (tok, w, s2)" by (cases "gettoken b s1") auto
  have f1: "fwd b s s1" using 1(2) p by (rule peek_fwd)
  have f2: "fwd b s1 s2" using gettoken_fwd [OF fwd_le [OF f1] g] .
  show ?case
  proof (cases ok)
    case False
    then show ?thesis using 1(3,4) p f1 backs_stop [of b s s1 c] by simp
  next
    case True
    then have "backs b (BACK c) s2 = (c', s')" using 1(3) p backs_go [OF _ g, of s c] by simp
    then have "fwd b s2 s' \<and> cmd_ok b c'"
      using 1(1) [OF p [symmetric] refl True g [symmetric] refl refl fwd_le [OF f2]] 1(4) by simp
    then show ?thesis using f1 f2 by (blast intro: fwd_trans)
  qed
qed

lemma wraps_ok: "cmd_ok b c \<Longrightarrow> \<forall>r\<in>set rs. redir_ok b r \<Longrightarrow> cmd_ok b (wraps c rs)"
  by (induction rs arbitrary: c) (auto simp: wraps_def redir_ok_def)

definition good :: "byte list \<Rightarrow> nat \<Rightarrow> sherr + word_pos shcmd \<times> nat \<Rightarrow> bool" where
  "good b s r \<longleftrightarrow> (\<forall>c s'. r = Inr (c, s') \<longrightarrow> fwd b s s' \<and> cmd_ok b c)"

lemma good_Inl [simp]: "good b s (Inl x)"
  by (simp add: good_def)

lemma good_Inr [simp]: "good b s (Inr (c, s')) \<longleftrightarrow> fwd b s s' \<and> cmd_ok b c"
  by (simp add: good_def)

lemma good_bind:
  assumes "good b s r" "\<And>c s1. fwd b s s1 \<Longrightarrow> cmd_ok b c \<Longrightarrow> good b s (f (c, s1))"
  shows "good b s (bindE r f)"
proof (cases r)
  case (Inr x)
  then show ?thesis using assms(1) assms(2) [of "snd x" "fst x"] by (cases x) simp
qed simp

lemma good_fwd: "fwd b s s1 \<Longrightarrow> good b s1 r \<Longrightarrow> good b s r"
  unfolding good_def using fwd_trans by blast

text \<open>After a symbol that \<^verbatim>\<open>peek\<close> has found, the token is taken and the position grows.\<close>

lemma good_after:
  assumes "fwd b s s0" "peek b s0 toks = (True, s1)" "gettoken b s1 = (t, w, s2)"
  shows "fwd b s s2 \<and> s0 < s2"
proof -
  have f: "fwd b s0 s1" using peek_fwd [OF fwd_le [OF assms(1)] assms(2)] .
  then have "fwd b s1 s2" using gettoken_fwd [OF fwd_le assms(3)] by simp
  then show ?thesis using assms(1) f peek_gettoken_less [OF assms(2,3)] by (auto simp: fwd_def)
qed

lemma redirs_good:
  assumes "fwd b s s1" "cmd_ok b c"
  shows "good b s (bindE (parseredirs b s1) (\<lambda>(rs, s). Inr (wraps c rs, s)))"
proof (cases "parseredirs b s1")
  case (Inr x)
  then obtain rs s2 where r: "parseredirs b s1 = Inr (rs, s2)" by (cases x) auto
  have f: "fwd b s1 s2" "\<forall>r\<in>set rs. redir_ok b r" using parseredirs_ok [OF fwd_le [OF assms(1)] r] by auto
  show ?thesis using r fwd_trans [OF assms(1) f(1)] wraps_ok [OF assms(2) f(2)] by simp
qed simp

lemma exec_good:
  assumes f: "fwd b s s1"
  shows "good b s (bindE (parseredirs b s1) (\<lambda>(rs, s). bindE (execargs b s [] rs) (\<lambda>((args, rs), s). Inr (wraps (EXEC args) rs, s))))"
proof -
  have "fwd b s s3 \<and> cmd_ok b (wraps (EXEC args) rs')"
    if "parseredirs b s1 = Inr (rs, s2)" "execargs b s2 [] rs = Inr ((args, rs'), s3)" for rs s2 args rs' s3
  proof -
    have r: "fwd b s1 s2" "\<forall>r\<in>set rs. redir_ok b r" using parseredirs_ok [OF fwd_le [OF f] that(1)] by auto
    have e: "fwd b s2 s3 \<and> length args < 10 \<and> (\<forall>w\<in>set args. word_ok b w) \<and> (\<forall>r\<in>set rs'. redir_ok b r)"
      using execargs_ok [OF fwd_le [OF r(1)] that(2)] r(2) by simp
    then have "cmd_ok b (wraps (EXEC args) rs')" by (intro wraps_ok) auto
    then show ?thesis using fwd_trans [OF fwd_trans [OF f r(1)]] e by simp
  qed
  then show ?thesis by (auto simp: good_def elim!: bindE_InrE)
qed

lemma parse_good:
  shows "s \<le> length b \<Longrightarrow> good b s (parseline n b s)" "s \<le> length b \<Longrightarrow> good b s (parsepipe n b s)"
    "s \<le> length b \<Longrightarrow> good b s (parseexec n b s)" "s \<le> length b \<Longrightarrow> good b s (parseblock n b s)"
proof (induction n arbitrary: s)
  case (Suc n)
  {
    case 1
    show ?case unfolding parseline.simps
    proof (rule good_bind [OF Suc(2) [OF 1]])
      fix c s1 assume f: "fwd b s s1" and c: "cmd_ok b c"
      obtain c2 s2 where bk: "backs b c s1 = (c2, s2)" by fastforce
      obtain ok s3 where p: "peek b s2 [59] = (ok, s3)" by fastforce
      obtain t w s4 where g: "gettoken b s3 = (t, w, s4)" by (cases "gettoken b s3") auto
      have f2: "fwd b s s2" "cmd_ok b c2" using backs_ok [OF fwd_le [OF f] bk c] f by (auto intro: fwd_trans)
      have f3: "fwd b s s3" using f2(1) peek_fwd [OF fwd_le [OF f2(1)] p] by (rule fwd_trans)
      have "good b s (bindE (parseline n b s4) (\<lambda>(c', s). Inr (LIST c2 c', s)))" if ok
      proof -
        have f4: "fwd b s s4" using good_after [OF f2(1) _ g] p that by simp
        show ?thesis by (rule good_bind [OF good_fwd [OF f4 Suc(1) [OF fwd_le [OF f4]]]]) (simp add: f2)
      qed
      then show "good b s (case (c, s1) of (c, s) \<Rightarrow> let (c, s) = backs b c s; (ok, s) = peek b s [59] in
          if ok then let (_, _, s) = gettoken b s in bindE (parseline n b s) (\<lambda>(c', s). Inr (LIST c c', s)) else Inr (c, s))"
        using bk p g f2 f3 by simp
    qed
  next
    case 2
    show ?case unfolding parsepipe.simps
    proof (rule good_bind [OF Suc(3) [OF 2]])
      fix c s1 assume f: "fwd b s s1" and c: "cmd_ok b c"
      obtain ok s3 where p: "peek b s1 [124] = (ok, s3)" by fastforce
      obtain t w s4 where g: "gettoken b s3 = (t, w, s4)" by (cases "gettoken b s3") auto
      have f3: "fwd b s s3" using f peek_fwd [OF fwd_le [OF f] p] by (rule fwd_trans)
      have "good b s (bindE (parsepipe n b s4) (\<lambda>(c', s). Inr (PIPE c c', s)))" if ok
      proof -
        have f4: "fwd b s s4" using good_after [OF f _ g] p that by simp
        show ?thesis by (rule good_bind [OF good_fwd [OF f4 Suc(2) [OF fwd_le [OF f4]]]]) (simp add: c)
      qed
      then show "good b s (case (c, s1) of (c, s) \<Rightarrow> let (ok, s) = peek b s [124] in
          if ok then let (_, _, s) = gettoken b s in bindE (parsepipe n b s) (\<lambda>(c', s). Inr (PIPE c c', s)) else Inr (c, s))"
        using p g c f3 by simp
    qed
  next
    case 3
    obtain ok s1 where p: "peek b s [40] = (ok, s1)" by fastforce
    have f: "fwd b s s1" using 3 p by (rule peek_fwd)
    show ?case using p exec_good [OF f] good_fwd [OF f Suc(4) [OF fwd_le [OF f]]] by simp
  next
    case 4
    obtain ok s1 where p: "peek b s [40] = (ok, s1)" by fastforce
    obtain t w s2 where g: "gettoken b s1 = (t, w, s2)" by (cases "gettoken b s1") auto
    have "good b s (bindE (parseline n b s2) (\<lambda>(c, s).
        let (ok, s) = peek b s [41] in
        if \<not> ok then Inl (ShPanic ''syntax - missing )'')
        else let (_, _, s) = gettoken b s in bindE (parseredirs b s) (\<lambda>(rs, s). Inr (wraps c rs, s))))" if ok
    proof -
      have f2: "fwd b s s2" using good_after [OF fwd_refl [OF 4] _ g] p that by simp
      show ?thesis
      proof (rule good_bind [OF good_fwd [OF f2 Suc(1) [OF fwd_le [OF f2]]]])
        fix c s3 assume f: "fwd b s s3" and c: "cmd_ok b c"
        obtain ok' s4 where p': "peek b s3 [41] = (ok', s4)" by fastforce
        obtain t w s5 where g': "gettoken b s4 = (t, w, s5)" by (cases "gettoken b s4") auto
        have "good b s (bindE (parseredirs b s5) (\<lambda>(rs, s). Inr (wraps c rs, s)))" if ok'
          using good_after [OF f _ g'] p' that by (intro redirs_good [OF _ c]) simp
        then show "good b s (case (c, s3) of (c, s) \<Rightarrow> let (ok, s) = peek b s [41] in
          if \<not> ok then Inl (ShPanic ''syntax - missing )'')
          else let (_, _, s) = gettoken b s in bindE (parseredirs b s) (\<lambda>(rs, s). Inr (wraps c rs, s)))"
          using p' g' by simp
      qed
    qed
    then show ?case using p g by simp
  }
qed simp_all

section \<open>The bound of the recursion is not reached\<close>

definition halts :: "sherr + 'a \<Rightarrow> bool" where
  "halts r \<longleftrightarrow> r \<noteq> Inl NoFuel"

lemma halts_simps [simp]: "halts (Inr x)" "halts (Inl (ShPanic m))"
  by (simp_all add: halts_def)

lemma ends_bind: "halts r \<Longrightarrow> (\<And>x. r = Inr x \<Longrightarrow> halts (f x)) \<Longrightarrow> halts (bindE r f)"
  by (cases r) (auto simp: halts_def)

lemma parseredirs_ends: "halts (parseredirs b s)"
proof (induction b s rule: parseredirs.induct)
  case (1 b s)
  obtain ok s1 where p: "peek b s [60, 62] = (ok, s1)" by fastforce
  obtain tok w1 s2 where g1: "gettoken b s1 = (tok, w1, s2)" by (cases "gettoken b s1") auto
  obtain t2 w2 s3 where g2: "gettoken b s2 = (t2, w2, s3)" by (cases "gettoken b s2") auto
  show ?case
  proof (cases ok)
    case True
    have "halts (bindE (parseredirs b s3) (\<lambda>(rs, s). Inr (redir_of tok w2 @ rs, s)))" if "t2 = 97"
      using 1 [OF p [symmetric] refl True g1 [symmetric] refl refl g2 [symmetric] refl refl] that by (auto intro!: ends_bind)
    then show ?thesis using parseredirs_go [of b s s1 tok w1 s2 t2 w2 s3] p g1 g2 True by simp
  qed (use p parseredirs_stop [of b s s1] in simp)
qed

lemma execargs_ends: "halts (execargs b s args rs)"
proof (induction b s args rs rule: execargs.induct)
  case (1 b s args rs)
  obtain ok s1 where p: "peek b s [124, 41, 38, 59] = (ok, s1)" by fastforce
  obtain tok w s2 where g: "gettoken b s1 = (tok, w, s2)" by (cases "gettoken b s1") auto
  show ?case
  proof (cases "ok \<or> tok = 0")
    case False
    have "halts (bindE (parseredirs b s2) (\<lambda>(rs', s). execargs b s (args @ [w]) (rs @ rs')))" if "tok = 97" "\<not> 9 \<le> length args"
    proof (rule ends_bind [OF parseredirs_ends])
      fix x assume "parseredirs b s2 = Inr x"
      then show "halts (case x of (rs', s) \<Rightarrow> execargs b s (args @ [w]) (rs @ rs'))"
        using 1 [OF p [symmetric] refl _ g [symmetric] refl refl _ _ _ _ refl] False that by (cases x) auto
    qed
    then show ?thesis using execargs_go [of b s s1 tok w s2 args rs] p g False by simp
  qed (use execargs_stop [OF p g] in simp)
qed

lemma parse_fwd:
  assumes "s \<le> length b"
  shows "parseline n b s = Inr (c, s') \<Longrightarrow> fwd b s s'" "parsepipe n b s = Inr (c, s') \<Longrightarrow> fwd b s s'"
    "parseexec n b s = Inr (c, s') \<Longrightarrow> fwd b s s'" "parseblock n b s = Inr (c, s') \<Longrightarrow> fwd b s s'"
  using parse_good [OF assms, of n] by (simp_all add: good_def)

lemma backs_fwd: "s \<le> length b \<Longrightarrow> backs b c s = (c', s') \<Longrightarrow> fwd b s s'"
proof (induction b c s rule: backs.induct)
  case (1 b c s)
  obtain ok s1 where p: "peek b s [38] = (ok, s1)" by fastforce
  obtain tok w s2 where g: "gettoken b s1 = (tok, w, s2)" by (cases "gettoken b s1") auto
  have f1: "fwd b s s1" using 1(2) p by (rule peek_fwd)
  show ?case
  proof (cases ok)
    case True
    have f2: "fwd b s s2" using good_after [OF fwd_refl [OF 1(2)] _ g] p True by simp
    have "backs b (BACK c) s2 = (c', s')" using True 1(3) p backs_go [OF _ g, of s c] by simp
    then have "fwd b s2 s'" using 1(1) [OF p [symmetric] refl True g [symmetric] refl refl fwd_le [OF f2]] by simp
    then show ?thesis using f2 fwd_trans by blast
  qed (use 1(3) p f1 backs_stop [of b s s1 c] in simp)
qed

lemma parse_ends:
  shows "s \<le> length b \<Longrightarrow> 4 * (length b - s) + 4 \<le> n \<Longrightarrow> halts (parseline n b s)"
    "s \<le> length b \<Longrightarrow> 4 * (length b - s) + 3 \<le> n \<Longrightarrow> halts (parsepipe n b s)"
    "s \<le> length b \<Longrightarrow> 4 * (length b - s) + 2 \<le> n \<Longrightarrow> halts (parseexec n b s)"
    "s \<le> length b \<Longrightarrow> 4 * (length b - s) + 1 \<le> n \<Longrightarrow> halts (parseblock n b s)"
proof (induction n arbitrary: s)
  case (Suc n)
  {
    case 1
    show ?case unfolding parseline.simps
    proof (rule ends_bind)
      show "halts (parsepipe n b s)" using Suc(2) 1 by simp
      fix x assume x: "parsepipe n b s = Inr x"
      obtain c s1 where xs: "x = (c, s1)" by fastforce
      have f: "fwd b s s1" using parse_fwd(2) [OF 1(1)] x xs by blast
      obtain c2 s2 where bk: "backs b c s1 = (c2, s2)" by fastforce
      obtain ok s3 where p: "peek b s2 [59] = (ok, s3)" by fastforce
      obtain t w s4 where g: "gettoken b s3 = (t, w, s4)" by (cases "gettoken b s3") auto
      have f2: "fwd b s s2" using fwd_trans [OF f backs_fwd [OF fwd_le [OF f] bk]] .
      have "halts (parseline n b s4)" if ok
      proof -
        have "fwd b s s4" "s2 < s4" using good_after [OF f2 _ g] p that by simp_all
        then show ?thesis using Suc(1) [of s4] 1(2) f2 by (simp add: fwd_def)
      qed
      then show "halts (case x of (c, s) \<Rightarrow> let (c, s) = backs b c s; (ok, s) = peek b s [59] in
          if ok then let (_, _, s) = gettoken b s in bindE (parseline n b s) (\<lambda>(c', s). Inr (LIST c c', s)) else Inr (c, s))"
        using xs bk p g by (auto intro!: ends_bind)
    qed
  next
    case 2
    show ?case unfolding parsepipe.simps
    proof (rule ends_bind)
      show "halts (parseexec n b s)" using Suc(3) 2 by simp
      fix x assume x: "parseexec n b s = Inr x"
      obtain c s1 where xs: "x = (c, s1)" by fastforce
      have f: "fwd b s s1" using parse_fwd(3) [OF 2(1)] x xs by blast
      obtain ok s3 where p: "peek b s1 [124] = (ok, s3)" by fastforce
      obtain t w s4 where g: "gettoken b s3 = (t, w, s4)" by (cases "gettoken b s3") auto
      have "halts (parsepipe n b s4)" if ok
      proof -
        have "fwd b s s4" "s1 < s4" using good_after [OF f _ g] p that by simp_all
        then show ?thesis using Suc(2) [of s4] 2(2) f by (simp add: fwd_def)
      qed
      then show "halts (case x of (c, s) \<Rightarrow> let (ok, s) = peek b s [124] in
          if ok then let (_, _, s) = gettoken b s in bindE (parsepipe n b s) (\<lambda>(c', s). Inr (PIPE c c', s)) else Inr (c, s))"
        using xs p g by (auto intro!: ends_bind)
    qed
  next
    case 3
    obtain ok s1 where p: "peek b s [40] = (ok, s1)" by fastforce
    have f: "fwd b s s1" using 3(1) p by (rule peek_fwd)
    have "4 * (length b - s1) + 1 \<le> n" using 3(2) f unfolding fwd_def by linarith
    then have "halts (parseblock n b s1)" using Suc(4) [of s1] fwd_le [OF f] by simp
    moreover have "halts (bindE (parseredirs b s1) (\<lambda>(rs, s). bindE (execargs b s [] rs) (\<lambda>((args, rs), s). Inr (wraps (EXEC args) rs, s))))"
      by (auto intro!: ends_bind parseredirs_ends execargs_ends split: prod.splits)
    ultimately show ?case using p by simp
  next
    case 4
    obtain ok s1 where p: "peek b s [40] = (ok, s1)" by fastforce
    obtain t w s2 where g: "gettoken b s1 = (t, w, s2)" by (cases "gettoken b s1") auto
    have "halts (parseline n b s2)" if ok
    proof -
      have "fwd b s s2" "s < s2" using good_after [OF fwd_refl [OF 4(1)] _ g] p that by simp_all
      then show ?thesis using Suc(1) [of s2] 4(2) by (simp add: fwd_def)
    qed
    then show ?case using p g by (auto intro!: ends_bind parseredirs_ends split: prod.splits)
  }
qed (simp_all add: halts_def)

text \<open>More fuel changes nothing.\<close>

lemma bindE_agree:
  "halts (bindE r f) \<Longrightarrow> (halts r \<Longrightarrow> r' = r) \<Longrightarrow> (\<And>x. r = Inr x \<Longrightarrow> halts (f x) \<Longrightarrow> f' x = f x) \<Longrightarrow> bindE r' f' = bindE r f"
  by (cases r) (auto simp: halts_def)

lemma more_fuel:
  shows "n \<le> m \<Longrightarrow> halts (parseline n b s) \<Longrightarrow> parseline m b s = parseline n b s"
    "n \<le> m \<Longrightarrow> halts (parsepipe n b s) \<Longrightarrow> parsepipe m b s = parsepipe n b s"
    "n \<le> m \<Longrightarrow> halts (parseexec n b s) \<Longrightarrow> parseexec m b s = parseexec n b s"
    "n \<le> m \<Longrightarrow> halts (parseblock n b s) \<Longrightarrow> parseblock m b s = parseblock n b s"
proof (induction n arbitrary: m s)
  case (Suc n)
  {
    case 1
    then obtain k where k: "m = Suc k" "n \<le> k" by (cases m) auto
    show ?case using 1(2) unfolding k(1) parseline.simps
      by (rule bindE_agree) (auto simp: Suc(2) [OF k(2)] split: prod.splits if_splits intro!: bindE_agree Suc(1) [OF k(2)])
  next
    case 2
    then obtain k where k: "m = Suc k" "n \<le> k" by (cases m) auto
    show ?case using 2(2) unfolding k(1) parsepipe.simps
      by (rule bindE_agree) (auto simp: Suc(3) [OF k(2)] split: prod.splits if_splits intro!: bindE_agree Suc(2) [OF k(2)])
  next
    case 3
    then obtain k where k: "m = Suc k" "n \<le> k" by (cases m) auto
    show ?case using 3(2) unfolding k(1) parseexec.simps
      by (auto simp: Suc(4) [OF k(2)] split: prod.splits if_splits)
  next
    case 4
    then obtain k where k: "m = Suc k" "n \<le> k" by (cases m) auto
    show ?case using 4(2) unfolding k(1) parseblock.simps
      by (auto split: prod.splits if_splits intro!: bindE_agree Suc(1) [OF k(2)])
  }
qed (simp_all add: halts_def)

section \<open>The words after \<^verbatim>\<open>nulterminate\<close>\<close>

lemma cmd_ok_words: "cmd_ok b c \<Longrightarrow> w \<in> set_shcmd c \<Longrightarrow> word_ok b w"
  by (induction c) auto

lemma foldl_clear:
  "length (foldl (\<lambda>buf (q, e). buf[e := 0]) buf ws) = length buf \<and>
   (\<forall>i < length buf. foldl (\<lambda>buf (q, e). buf[e := 0]) buf ws ! i = (if i \<in> snd ` set ws then 0 else buf ! i))"
  by (induction ws arbitrary: buf) (auto simp: nth_list_update split: prod.splits)

lemma nulterminate_nth:
  "length (nulterminate c buf) = length buf \<and>
   (\<forall>i < length buf. nulterminate c buf ! i = (if i \<in> snd ` set_shcmd c then 0 else buf ! i))"
proof (induction c arbitrary: buf)
  case (EXEC ws)
  then show ?case using foldl_clear [of buf ws] by simp
next
  case (REDIR c w mode fd)
  have "(nulterminate c buf)[snd w := 0] ! i = (if i \<in> insert (snd w) (snd ` set_shcmd c) then 0 else buf ! i)"
    if "i < length buf" for i
    using REDIR [of buf] that by (cases "i = snd w") simp_all
  then show ?case using REDIR [of buf] by simp
qed (auto simp: image_Un)

text \<open>The string that a C pointer to index \<open>q\<close> of the buffer denotes.\<close>

definition cstring :: "byte list \<Rightarrow> nat \<Rightarrow> byte list" where
  "cstring buf q = takeWhile (\<lambda>c. c \<noteq> 0) (drop q buf)"

definition word_at :: "byte list \<Rightarrow> word_pos \<Rightarrow> byte list" where
  "word_at b w = take (snd w - fst w) (drop (fst w) b)"

lemma cstring_word:
  assumes "word_ok b w" "0 \<notin> set b" "length buf = Suc (length b)" "buf ! snd w = 0"
    and same: "\<And>i. fst w \<le> i \<Longrightarrow> i < snd w \<Longrightarrow> buf ! i = b ! i"
  shows "cstring buf (fst w) = word_at b w"
proof -
  let ?q = "fst w" and ?e = "snd w"
  have qe: "?q < ?e" "?e \<le> length b" using assms(1) by (auto simp: word_ok_def)
  have nz: "\<forall>c\<in>set (word_at b w). c \<noteq> 0"
    using assms(2) by (auto simp: word_at_def dest!: in_set_takeD in_set_dropD)
  have t: "take (?e - ?q) (drop ?q buf) = word_at b w"
    using qe assms(3) same by (auto simp: word_at_def intro!: nth_equalityI)
  have "drop (?e - ?q) (drop ?q buf) = drop ?e buf" using qe by simp
  also have "\<dots> = 0 # drop (Suc ?e) buf" using qe assms(3,4) by (simp add: Cons_nth_drop_Suc [symmetric])
  finally have "drop ?q buf = word_at b w @ 0 # drop (Suc ?e) buf" using t by (metis append_take_drop_id)
  then show ?thesis using nz by (simp add: cstring_def takeWhile_append2)
qed

lemma nulterminate_cstring:
  assumes c: "cmd_ok b c" and b: "0 \<notin> set b" and w: "w \<in> set_shcmd c"
  shows "cstring (nulterminate c (b @ [0])) (fst w) = word_at b w"
proof (rule cstring_word [OF cmd_ok_words [OF c w] b])
  note n = nulterminate_nth [of c "b @ [0]"]
  have qe: "snd w \<le> length b" "\<forall>i. fst w \<le> i \<and> i < snd w \<longrightarrow> is_word (b ! i)"
    using cmd_ok_words [OF c w] by (auto simp: word_ok_def)
  show "length (nulterminate c (b @ [0])) = Suc (length b)" using n by simp
  show "nulterminate c (b @ [0]) ! snd w = 0" using n qe(1) w by simp
  fix i assume i: "fst w \<le> i" "i < snd w"
  have "i \<notin> snd ` set_shcmd c"
  proof
    assume "i \<in> snd ` set_shcmd c"
    then obtain v where "v \<in> set_shcmd c" "i = snd v" by auto
    then have "\<not> is_word (b ! i)" using cmd_ok_words [OF c] i qe(1) by (auto simp: word_ok_def)
    then show False using qe(2) i by blast
  qed
  then show "nulterminate c (b @ [0]) ! i = b ! i" using n qe(1) i by (simp add: nth_append)
qed

section \<open>Text of commands\<close>

text \<open>
  A command as text. The level says where the text stands: 0 a line, 1 the part of a line before \<^verbatim>\<open>;\<close>, 2 a pipeline, 3 a part of a
  pipeline, where everything but simple commands and redirections is put in parentheses.
\<close>

definition redir_text :: "byte list \<times> int \<times> int \<Rightarrow> byte list" where
  "redir_text r = (case r of (w, mode, fd) \<Rightarrow>
     (if mode = 0 then [60] else if mode = 0x601 then [62] else [62, 62]) @ 32 # w @ [32])"

definition block :: "byte list \<Rightarrow> byte list" where
  "block t = [40, 32] @ t @ [41, 32]"

primrec cmd_text :: "nat \<Rightarrow> byte list shcmd \<Rightarrow> byte list" where
  "cmd_text l (EXEC ws) = concat (map (\<lambda>w. w @ [32]) ws)"
| "cmd_text l (REDIR c w mode fd) = cmd_text 3 c @ redir_text (w, mode, fd)"
| "cmd_text l (PIPE c d) = (let t = cmd_text 3 c @ [124, 32] @ cmd_text 2 d in if l \<le> 2 then t else block t)"
| "cmd_text l (BACK c) = (let t = cmd_text 1 c @ [38, 32] in if l \<le> 1 then t else block t)"
| "cmd_text l (LIST c d) = (let t = cmd_text 1 c @ [59, 32] @ cmd_text 0 d in if l = 0 then t else block t)"

definition valid_word :: "byte list \<Rightarrow> bool" where
  "valid_word w \<longleftrightarrow> w \<noteq> [] \<and> (\<forall>c\<in>set w. c \<noteq> 0 \<and> is_word c)"

definition valid_redir :: "byte list \<times> int \<times> int \<Rightarrow> bool" where
  "valid_redir r \<longleftrightarrow> valid_word (fst r) \<and> snd r \<in> {(0, 0), (0x601, 1), (0x201, 1)}"

primrec valid_cmd :: "byte list shcmd \<Rightarrow> bool" where
  "valid_cmd (EXEC ws) \<longleftrightarrow> length ws < 10 \<and> (\<forall>w\<in>set ws. valid_word w)"
| "valid_cmd (REDIR c w mode fd) \<longleftrightarrow> valid_cmd c \<and> valid_redir (w, mode, fd)"
| "valid_cmd (PIPE c d) \<longleftrightarrow> valid_cmd c \<and> valid_cmd d"
| "valid_cmd (BACK c) \<longleftrightarrow> valid_cmd c"
| "valid_cmd (LIST c d) \<longleftrightarrow> valid_cmd c \<and> valid_cmd d"

section \<open>Tokens of a text\<close>

abbreviation trim :: "byte list \<Rightarrow> byte list" where "trim t \<equiv> dropWhile is_ws t"

lemma drop_skip: "s \<le> length b \<Longrightarrow> drop (skip_while is_ws b s) b = rest b s"
  by (simp add: skip_while_drop rest_def)

lemma rest_skip: "s \<le> length b \<Longrightarrow> rest b (skip_while is_ws b s) = rest b s"
  by (subst rest_def, subst drop_skip) (simp_all add: rest_def)

lemma drop_ConsD: "drop q b = c # xs \<Longrightarrow> q < length b \<and> b ! q = c \<and> drop (Suc q) b = xs"
  by (metis Cons_nth_drop_Suc drop_all linorder_not_less list.distinct(1) list.inject)

lemma gettoken_sym:
  assumes s: "s \<le> length b" and r: "rest b s = c # xs" and c: "c \<in> {124, 40, 41, 59, 38, 60}"
  shows "\<exists>w s'. gettoken b s = (c, w, s') \<and> rest b s' = trim xs \<and> s' \<le> length b"
proof -
  let ?q = "skip_while is_ws b s"
  have d: "?q < length b" "b ! ?q = c" "drop (Suc ?q) b = xs" using drop_ConsD [of ?q b c xs] drop_skip [OF s] r by auto
  have "rest b (skip_while is_ws b (?q + 1)) = trim xs" using rest_skip [of "?q + 1" b] d by (simp add: rest_def)
  moreover have "skip_while is_ws b (?q + 1) \<le> length b" using d(1) skip_while_le [of "?q + 1" b is_ws] by simp
  moreover have "gettoken b s = (c, (?q, ?q + 1), skip_while is_ws b (?q + 1))"
    using c d by (auto simp: gettoken_def Let_def at_def)
  ultimately show ?thesis by blast
qed

lemma gettoken_end: "s \<le> length b \<Longrightarrow> rest b s = [] \<Longrightarrow> \<exists>w s'. gettoken b s = (0, w, s') \<and> rest b s' = [] \<and> s' \<le> length b"
  using drop_skip [of s b] rest_skip [of s b] skip_while_le [of s b is_ws] skip_while_le [of "skip_while is_ws b s" b is_ws]
    rest_skip [of "skip_while is_ws b s" b]
  by (auto simp: gettoken_def Let_def at_def)

lemma gettoken_gt:
  assumes s: "s \<le> length b" and r: "rest b s = 62 # 32 # xs"
  shows "\<exists>w s'. gettoken b s = (62, w, s') \<and> rest b s' = trim xs \<and> s' \<le> length b"
proof -
  let ?q = "skip_while is_ws b s"
  have d: "?q < length b" "b ! ?q = 62" "drop (Suc ?q) b = 32 # xs" using drop_ConsD [of ?q b 62] drop_skip [OF s] r by auto
  have e: "Suc ?q < length b" "b ! Suc ?q = 32" using drop_ConsD [OF d(3)] by auto
  have "rest b (skip_while is_ws b (?q + 1)) = trim xs" using rest_skip [of "?q + 1" b] d by (simp add: rest_def whitespace_def)
  moreover have "skip_while is_ws b (?q + 1) \<le> length b" using d(1) skip_while_le [of "?q + 1" b is_ws] by simp
  moreover have "gettoken b s = (62, (?q, ?q + 1), skip_while is_ws b (?q + 1))"
    using d e by (simp add: gettoken_def Let_def at_def)
  ultimately show ?thesis by blast
qed

lemma gettoken_gtgt:
  assumes s: "s \<le> length b" and r: "rest b s = 62 # 62 # xs"
  shows "\<exists>w s'. gettoken b s = (43, w, s') \<and> rest b s' = trim xs \<and> s' \<le> length b"
proof -
  let ?q = "skip_while is_ws b s"
  have d: "?q < length b" "b ! ?q = 62" "drop (Suc ?q) b = 62 # xs" using drop_ConsD [of ?q b 62] drop_skip [OF s] r by auto
  have e: "Suc ?q < length b" "b ! Suc ?q = 62" "drop (Suc (Suc ?q)) b = xs" using drop_ConsD [OF d(3)] by auto
  have "rest b (skip_while is_ws b (?q + 2)) = trim xs" using rest_skip [of "?q + 2" b] e by (simp add: rest_def)
  moreover have "skip_while is_ws b (?q + 2) \<le> length b" using e(1) skip_while_le [of "?q + 2" b is_ws] by simp
  moreover have "gettoken b s = (43, (?q, ?q + 2), skip_while is_ws b (?q + 2))"
    using d e by (simp add: gettoken_def Let_def at_def)
  ultimately show ?thesis by blast
qed

lemma gettoken_word:
  assumes s: "s \<le> length b" and r: "rest b s = w @ 32 # xs" and w: "valid_word w"
  shows "\<exists>p s'. gettoken b s = (97, p, s') \<and> word_at b p = w \<and> rest b s' = trim xs \<and> s' \<le> length b"
proof -
  let ?q = "skip_while is_ws b s"
  let ?e = "skip_while is_word b ?q"
  have q: "?q \<le> length b" using skip_while_le [OF s] .
  have d: "drop ?q b = w @ 32 # xs" using drop_skip [OF s] r by simp
  obtain c v where cv: "w = c # v" using w by (cases w) (auto simp: valid_word_def)
  then have c: "?q < length b" "b ! ?q = c" "c \<noteq> 0" "is_word c"
    using d drop_ConsD [of ?q b c "v @ 32 # xs"] w by (auto simp: valid_word_def)
  have e: "?e \<le> length b" using skip_while_le [OF q] .
  have de: "drop ?e b = 32 # xs"
    using skip_while_drop [OF q, of is_word] d w by (simp add: valid_word_def whitespace_def)
  have "length b - ?q = length w + Suc (length xs)" "length b - ?e = Suc (length xs)"
    using arg_cong [OF d, of length] arg_cong [OF de, of length] by simp_all
  then have "?e - ?q = length w" using q e by simp
  then have "word_at b (?q, ?e) = w" using d by (simp add: word_at_def)
  moreover have "rest b (skip_while is_ws b ?e) = trim xs" using rest_skip [OF e] de by (simp add: rest_def whitespace_def)
  moreover have "gettoken b s = (97, (?q, ?e), skip_while is_ws b ?e)"
    using c by (auto simp: gettoken_def Let_def at_def symbols_def)
  ultimately show ?thesis using skip_while_le [OF e, of is_ws] by blast
qed

definition foll :: "byte set \<Rightarrow> byte list \<Rightarrow> bool" where
  "foll S t \<longleftrightarrow> trim t = [] \<or> hd (trim t) \<in> S"

lemma foll_simps [simp]: "foll S (32 # t) \<longleftrightarrow> foll S t" "c \<notin> set whitespace \<Longrightarrow> foll S (c # t) \<longleftrightarrow> c \<in> S" "foll S []"
  by (auto simp: foll_def whitespace_def)

lemma ws_simps [simp]: "is_ws 32" "\<not> is_ws 40" "\<not> is_ws 41" "\<not> is_ws 124" "\<not> is_ws 38" "\<not> is_ws 59" "\<not> is_ws 60" "\<not> is_ws 62"
  by (simp_all add: whitespace_def)

lemma peek_text:
  assumes "s \<le> length b" "rest b s = trim t"
  shows "\<exists>s'. peek b s toks = (trim t \<noteq> [] \<and> hd (trim t) \<noteq> 0 \<and> hd (trim t) \<in> set toks, s') \<and> rest b s' = trim t \<and> s' \<le> length b"
  using peek_rest [OF assms(1), of toks] assms(2) by auto

lemma peek_not:
  assumes "s \<le> length b" "rest b s = trim t" "foll S t" "S \<inter> set toks = {}"
  shows "\<exists>s'. peek b s toks = (False, s') \<and> rest b s' = trim t \<and> s' \<le> length b"
  using peek_text [OF assms(1,2), of toks] assms(3,4) by (fastforce simp: foll_def)

lemma trim_word: "valid_word w \<Longrightarrow> trim (w @ t) = w @ t"
  by (cases w) (auto simp: valid_word_def)

lemma word_foll: "valid_word w \<Longrightarrow> foll (- set symbols) (w @ t)"
  by (cases w) (auto simp: valid_word_def foll_def)

definition args_text :: "byte list list \<Rightarrow> byte list" where
  "args_text ws = concat (map (\<lambda>w. w @ [32]) ws)"

definition redirs_text :: "(byte list \<times> int \<times> int) list \<Rightarrow> byte list" where
  "redirs_text rs = concat (map redir_text rs)"

lemma texts_simps [simp]:
  "args_text [] = []" "args_text (w # ws) = w @ 32 # args_text ws" "redirs_text [] = []"
  "redirs_text (r # rs) = redir_text r @ redirs_text rs"
  by (simp_all add: args_text_def redirs_text_def)

abbreviation fetch :: "byte list \<Rightarrow> redir \<Rightarrow> byte list \<times> int \<times> int" where "fetch b \<equiv> apfst (word_at b)"

lemma redir_tokens:
  assumes s: "s \<le> length b" and r: "rest b s = trim (redir_text x @ t)" and x: "valid_redir x"
  shows "\<exists>s1 tok p s2 w s3. peek b s [60, 62] = (True, s1) \<and> gettoken b s1 = (tok, p, s2) \<and> gettoken b s2 = (97, w, s3) \<and>
    map (fetch b) (redir_of tok w) = [x] \<and> rest b s3 = trim t \<and> s3 \<le> length b"
proof -
  obtain w mode fd where xw: "x = (w, mode, fd)" by (cases x)
  have w: "valid_word w" and m: "(mode, fd) \<in> {(0, 0), (0x601, 1), (0x201, 1)}" using x xw by (auto simp: valid_redir_def)
  obtain s1 where p: "peek b s [60, 62] = (True, s1)" "rest b s1 = redir_text x @ t" "s1 \<le> length b"
    using peek_text [OF s r, of "[60, 62]"] xw by (auto simp: redir_text_def split: if_splits)
  have "\<exists>tok p s2. gettoken b s1 = (tok, p, s2) \<and> rest b s2 = trim (w @ 32 # t) \<and> s2 \<le> length b \<and>
      (\<forall>v :: word_pos. redir_of tok v = [(v, mode, fd)])"
    using gettoken_sym [OF p(3), of 60 "32 # w @ 32 # t"] gettoken_gt [OF p(3), of "w @ 32 # t"]
      gettoken_gtgt [OF p(3), of "32 # w @ 32 # t"] p(2) m xw
    by (auto simp: redir_text_def redir_of_def)
  then obtain tok q s2 where g: "gettoken b s1 = (tok, q, s2)" "rest b s2 = w @ 32 # t" "s2 \<le> length b"
      "redir_of tok v = [(v, mode, fd)]" for v :: word_pos
    using trim_word [OF w] by auto
  obtain v s3 where v: "gettoken b s2 = (97, v, s3)" "word_at b v = w" "rest b s3 = trim t" "s3 \<le> length b"
    using gettoken_word [OF g(3,2) w] by blast
  have "map (fetch b) (redir_of tok v) = [x]" using g(4) [of v] v(2) xw by simp
  then show ?thesis using p(1) g(1) v(1,3,4) by (intro exI conjI) assumption+
qed

lemma parseredirs_text:
  assumes "s \<le> length b" "rest b s = trim (redirs_text rs @ t)" "\<forall>x\<in>set rs. valid_redir x" "foll (- {60, 62}) t"
  shows "\<exists>rs' s'. parseredirs b s = Inr (rs', s') \<and> map (fetch b) rs' = rs \<and> rest b s' = trim t \<and> s' \<le> length b"
  using assms
proof (induction rs arbitrary: s)
  case Nil
  then show ?case using peek_not [of s b t "- {60, 62}" "[60, 62]"] parseredirs_stop by fastforce
next
  case (Cons x rs)
  obtain s1 tok p s2 w s3 where h: "peek b s [60, 62] = (True, s1)" "gettoken b s1 = (tok, p, s2)" "gettoken b s2 = (97, w, s3)"
    "map (fetch b) (redir_of tok w) = [x]" "rest b s3 = trim (redirs_text rs @ t)" "s3 \<le> length b"
    using redir_tokens [OF Cons(2), of x "redirs_text rs @ t"] Cons(3,4) by auto
  obtain rs' s' where "parseredirs b s3 = Inr (rs', s')" "map (fetch b) rs' = rs" "rest b s' = trim t" "s' \<le> length b"
    using Cons(1) [OF h(6,5)] Cons(4,5) by auto
  then show ?case using parseredirs_go [OF h(1-3)] h(4) by simp
qed

lemma symbols_set: "set symbols = {60, 124, 62, 38, 59, 40, 41}"
  by (simp add: symbols_def)

lemma foll_mono: "foll S t \<Longrightarrow> S \<subseteq> T \<Longrightarrow> foll T t"
  by (auto simp: foll_def)

lemma args_foll: "\<forall>w\<in>set ws. valid_word w \<Longrightarrow> ws \<noteq> [] \<Longrightarrow> foll (- set symbols) (args_text ws @ t)"
  by (cases ws) (auto intro: word_foll)

lemma execargs_text:
  assumes "s \<le> length b" "rest b s = trim (args_text ws @ redirs_text rs @ t)" "\<forall>w\<in>set ws. valid_word w" "\<forall>x\<in>set rs. valid_redir x"
    "foll {124, 41, 38, 59} t" "length args + length ws < 10" "ws = [] \<Longrightarrow> rs = []"
  shows "\<exists>ws' rs' s'. execargs b s args rs0 = Inr ((args @ ws', rs0 @ rs'), s') \<and> map (word_at b) ws' = ws \<and>
    map (fetch b) rs' = rs \<and> rest b s' = trim t \<and> s' \<le> length b"
  using assms
proof (induction ws arbitrary: s args rs rs0)
  case Nil
  obtain ok s1 where p: "peek b s [124, 41, 38, 59] = (ok, s1)" "rest b s1 = trim t" "s1 \<le> length b" "ok \<or> trim t = []"
  proof -
    have "rest b s = trim t" using Nil(2,7) by simp
    then show ?thesis using peek_text [OF Nil(1), of t "[124, 41, 38, 59]"] Nil(5) that
      by (cases "trim t = []") (auto simp: foll_def simp del: dropWhile_eq_Nil_conv)
  qed
  obtain tok w s2 where g: "gettoken b s1 = (tok, w, s2)" by (cases "gettoken b s1") auto
  have "tok = 0 \<and> rest b s2 = [] \<and> s2 \<le> length b" if "\<not> ok" using gettoken_end [OF p(3)] p(2,4) that g by simp
  then show ?case using execargs_stop [OF p(1) g, of args rs0] p(2-4) Nil(7)
    by (cases ok) (auto simp del: dropWhile_eq_Nil_conv)
next
  case (Cons w ws)
  have v: "valid_word w" using Cons(4) by simp
  have tw: "args_text (w # ws) @ redirs_text rs @ t = w @ 32 # args_text ws @ redirs_text rs @ t" by simp
  obtain s1 where p: "peek b s [124, 41, 38, 59] = (False, s1)" "rest b s1 = w @ 32 # args_text ws @ redirs_text rs @ t" "s1 \<le> length b"
    using peek_not [OF Cons(2) Cons(3) [unfolded tw] word_foll [OF v], of "[124, 41, 38, 59]"] trim_word [OF v] by (auto simp: symbols_set)
  obtain q s2 where g: "gettoken b s1 = (97, q, s2)" "word_at b q = w" "rest b s2 = trim (args_text ws @ redirs_text rs @ t)" "s2 \<le> length b"
    using gettoken_word [OF p(3,2) v] by auto
  define now where "now = (if ws = [] then rs else [])"
  define later where "later = (if ws = [] then [] else rs)"
  have nl: "now @ later = rs" "args_text ws @ redirs_text rs @ t = redirs_text now @ args_text ws @ redirs_text later @ t"
    "ws = [] \<Longrightarrow> later = []" "\<forall>x\<in>set later. valid_redir x" using Cons(5) by (auto simp: now_def later_def)
  have "foll (- {60, 62}) (args_text ws @ redirs_text later @ t)"
    using args_foll [of ws "redirs_text later @ t"] Cons(4,6) by (cases "ws = []") (auto simp: later_def symbols_set elim!: foll_mono)
  then obtain rs1 s3 where r: "parseredirs b s2 = Inr (rs1, s3)" "map (fetch b) rs1 = now"
      "rest b s3 = trim (args_text ws @ redirs_text later @ t)" "s3 \<le> length b"
    using parseredirs_text [OF g(4), of now "args_text ws @ redirs_text later @ t"] g(3) nl(2) Cons(5) by (auto simp: now_def split: if_splits)
  obtain ws' rs' s' where e: "execargs b s3 (args @ [q]) (rs0 @ rs1) = Inr (((args @ [q]) @ ws', (rs0 @ rs1) @ rs'), s')"
      "map (word_at b) ws' = ws" "map (fetch b) rs' = later" "rest b s' = trim t" "s' \<le> length b"
    using Cons(1) [OF r(4,3) _ nl(4) Cons(6) _ nl(3), of "args @ [q]" "rs0 @ rs1"] Cons(4,7) by auto
  have "execargs b s args rs0 = Inr ((args @ (q # ws'), rs0 @ (rs1 @ rs')), s')"
    using execargs_go [OF p(1) g(1), of args rs0] Cons(7) r(1) e(1) by simp
  then show ?case using e g(2) r(2) nl(1) by (intro exI [of _ "q # ws'"] exI [of _ "rs1 @ rs'"] exI [of _ s']) simp
qed

lemma map_wraps: "map_shcmd (word_at b) (wraps c rs) = wraps (map_shcmd (word_at b) c) (map (fetch b) rs)"
  by (induction rs arbitrary: c) (auto simp: wraps_def)

section \<open>Reading back\<close>

text \<open>That the text of a command is read back at each of the four levels.\<close>

definition reads3 :: "byte list shcmd \<Rightarrow> bool" where
  "reads3 c \<longleftrightarrow> (\<forall>b s n rs t. s \<le> length b \<longrightarrow> 4 * (length b - s) + 2 \<le> n \<longrightarrow> (\<forall>x\<in>set rs. valid_redir x) \<longrightarrow> foll {124, 41, 38, 59} t \<longrightarrow>
     rest b s = trim (cmd_text 3 c @ redirs_text rs @ t) \<longrightarrow>
     (\<exists>c' s'. parseexec n b s = Inr (c', s') \<and> map_shcmd (word_at b) c' = wraps c rs \<and> rest b s' = trim t))"

definition reads2 :: "byte list shcmd \<Rightarrow> bool" where
  "reads2 c \<longleftrightarrow> (\<forall>b s n t. s \<le> length b \<longrightarrow> 4 * (length b - s) + 3 \<le> n \<longrightarrow> foll {41, 38, 59} t \<longrightarrow> rest b s = trim (cmd_text 2 c @ t) \<longrightarrow>
     (\<exists>c' s'. parsepipe n b s = Inr (c', s') \<and> map_shcmd (word_at b) c' = c \<and> rest b s' = trim t))"

definition reads1 :: "byte list shcmd \<Rightarrow> bool" where
  "reads1 c \<longleftrightarrow> (\<forall>b s n t. s \<le> length b \<longrightarrow> 4 * (length b - s) + 3 \<le> n \<longrightarrow> foll {41, 38, 59} t \<longrightarrow> rest b s = trim (cmd_text 1 c @ t) \<longrightarrow>
     (\<exists>c1 s1 c' s'. parsepipe n b s = Inr (c1, s1) \<and> backs b c1 s1 = backs b c' s' \<and> map_shcmd (word_at b) c' = c \<and>
        rest b s' = trim t \<and> fwd b s s'))"

definition reads0 :: "byte list shcmd \<Rightarrow> bool" where
  "reads0 c \<longleftrightarrow> (\<forall>b s n t. s \<le> length b \<longrightarrow> 4 * (length b - s) + 4 \<le> n \<longrightarrow> foll {41} t \<longrightarrow> rest b s = trim (cmd_text 0 c @ t) \<longrightarrow>
     (\<exists>c' s'. parseline n b s = Inr (c', s') \<and> map_shcmd (word_at b) c' = c \<and> rest b s' = trim t))"

lemma fuel_next: "s < s' \<Longrightarrow> s' \<le> L \<Longrightarrow> 4 * (L - s) + 1 \<le> Suc m \<Longrightarrow> 4 * (L - s') + 4 \<le> (m :: nat)"
  by linarith

lemma reads3D:
  "reads3 c \<Longrightarrow> s \<le> length b \<Longrightarrow> 4 * (length b - s) + 2 \<le> n \<Longrightarrow> \<forall>x\<in>set rs. valid_redir x \<Longrightarrow> foll {124, 41, 38, 59} t \<Longrightarrow>
   rest b s = trim (cmd_text 3 c @ redirs_text rs @ t) \<Longrightarrow>
   \<exists>c' s'. parseexec n b s = Inr (c', s') \<and> map_shcmd (word_at b) c' = wraps c rs \<and> rest b s' = trim t"
  unfolding reads3_def by blast

lemma reads2D:
  "reads2 c \<Longrightarrow> s \<le> length b \<Longrightarrow> 4 * (length b - s) + 3 \<le> n \<Longrightarrow> foll {41, 38, 59} t \<Longrightarrow> rest b s = trim (cmd_text 2 c @ t) \<Longrightarrow>
   \<exists>c' s'. parsepipe n b s = Inr (c', s') \<and> map_shcmd (word_at b) c' = c \<and> rest b s' = trim t"
  unfolding reads2_def by blast

lemma reads1D:
  "reads1 c \<Longrightarrow> s \<le> length b \<Longrightarrow> 4 * (length b - s) + 3 \<le> n \<Longrightarrow> foll {41, 38, 59} t \<Longrightarrow> rest b s = trim (cmd_text 1 c @ t) \<Longrightarrow>
   \<exists>c1 s1 c' s'. parsepipe n b s = Inr (c1, s1) \<and> backs b c1 s1 = backs b c' s' \<and> map_shcmd (word_at b) c' = c \<and>
     rest b s' = trim t \<and> fwd b s s'"
  unfolding reads1_def by blast

lemma reads0D:
  "reads0 c \<Longrightarrow> s \<le> length b \<Longrightarrow> 4 * (length b - s) + 4 \<le> n \<Longrightarrow> foll {41} t \<Longrightarrow> rest b s = trim (cmd_text 0 c @ t) \<Longrightarrow>
   \<exists>c' s'. parseline n b s = Inr (c', s') \<and> map_shcmd (word_at b) c' = c \<and> rest b s' = trim t"
  unfolding reads0_def by blast

lemma exec_reads3:
  assumes "valid_cmd (EXEC ws)"
  shows "reads3 (EXEC ws)"
  unfolding reads3_def
proof (intro allI impI)
  fix b s n rs t
  assume s: "s \<le> length b" and n: "4 * (length b - s) + 2 \<le> n" and rs: "\<forall>x\<in>set rs. valid_redir x" and t: "foll {124, 41, 38, 59} t"
    and r: "rest b s = trim (cmd_text 3 (EXEC ws) @ redirs_text rs @ t)"
  obtain m where m: "n = Suc m" using n by (cases n) auto
  have v: "\<forall>w\<in>set ws. valid_word w" "length ws < 10" using assms by auto
  define now where "now = (if ws = [] then rs else [])"
  define later where "later = (if ws = [] then [] else rs)"
  have nl: "now @ later = rs" "cmd_text 3 (EXEC ws) @ redirs_text rs @ t = redirs_text now @ args_text ws @ redirs_text later @ t"
    by (auto simp: now_def later_def args_text_def)
  have fl: "foll (- {60, 62, 40}) (args_text ws @ redirs_text later @ t)"
    using args_foll [of ws "redirs_text later @ t"] v t by (cases "ws = []") (auto simp: later_def symbols_set elim!: foll_mono)
  have f0: "foll (- {40}) (redirs_text now @ args_text ws @ redirs_text later @ t)"
    using fl rs by (cases now) (auto simp: redir_text_def elim!: foll_mono split: prod.splits)
  obtain s1 where p: "peek b s [40] = (False, s1)" "rest b s1 = trim (redirs_text now @ args_text ws @ redirs_text later @ t)" "s1 \<le> length b"
    using peek_not [OF s r [unfolded nl(2)] f0, of "[40]"] by auto
  obtain rs1 s2 where q: "parseredirs b s1 = Inr (rs1, s2)" "map (fetch b) rs1 = now" "s2 \<le> length b"
      "rest b s2 = trim (args_text ws @ redirs_text later @ t)"
    using parseredirs_text [OF p(3,2)] rs foll_mono [OF fl, of "- {60, 62}"] by (auto simp: now_def split: if_splits)
  obtain ws' rs2 s3 where e: "execargs b s2 [] rs1 = Inr ((ws', rs1 @ rs2), s3)" "map (word_at b) ws' = ws" "map (fetch b) rs2 = later"
      "rest b s3 = trim t"
  proof -
    have "\<forall>x\<in>set later. valid_redir x" "ws = [] \<Longrightarrow> later = []" using rs by (auto simp: later_def)
    then show ?thesis using execargs_text [OF q(3,4) v(1) _ t, of "[]" rs1] v(2) that by auto
  qed
  have "parseexec n b s = Inr (wraps (EXEC ws') (rs1 @ rs2), s3)" using m p(1) q(1) e(1) by simp
  moreover have "map_shcmd (word_at b) (wraps (EXEC ws') (rs1 @ rs2)) = wraps (EXEC ws) rs"
    using q(2) e(2,3) nl(1) by (simp add: map_wraps)
  ultimately show "\<exists>c' s'. parseexec n b s = Inr (c', s') \<and> map_shcmd (word_at b) c' = wraps (EXEC ws) rs \<and> rest b s' = trim t"
    using e(4) by blast
qed

lemma redir_reads3:
  assumes "reads3 c" "valid_redir (w, mode, fd)"
  shows "reads3 (REDIR c w mode fd)"
  unfolding reads3_def
proof (intro allI impI)
  fix b s n rs t
  assume a: "s \<le> length b" "4 * (length b - s) + 2 \<le> n" "\<forall>x\<in>set rs. valid_redir x" "foll {124, 41, 38, 59} t"
    "rest b s = trim (cmd_text 3 (REDIR c w mode fd) @ redirs_text rs @ t)"
  have "\<forall>x\<in>set ((w, mode, fd) # rs). valid_redir x" using a(3) assms(2) by simp
  from reads3D [OF assms(1) a(1,2) this a(4)] a(5)
  show "\<exists>c' s'. parseexec n b s = Inr (c', s') \<and> map_shcmd (word_at b) c' = wraps (REDIR c w mode fd) rs \<and> rest b s' = trim t"
    by (simp add: wraps_def)
qed

lemma reads3_reads2:
  assumes "reads3 c" "cmd_text 2 c = cmd_text 3 c"
  shows "reads2 c"
  unfolding reads2_def
proof (intro allI impI)
  fix b s n t
  assume s: "s \<le> length b" and n: "4 * (length b - s) + 3 \<le> n" and t: "foll {41, 38, 59} t" and r: "rest b s = trim (cmd_text 2 c @ t)"
  obtain m where m: "n = Suc m" using n by (cases n) auto
  obtain c' s1 where c: "parseexec m b s = Inr (c', s1)" "map_shcmd (word_at b) c' = c" "rest b s1 = trim t"
    using reads3D [OF assms(1) s, of m "[]" t] n m r assms(2) foll_mono [OF t, of "{124, 41, 38, 59}"] by (auto simp: wraps_def)
  have "s1 \<le> length b" using parse_fwd(3) [OF s c(1)] by (simp add: fwd_def)
  then obtain s2 where "peek b s1 [124] = (False, s2)" "rest b s2 = trim t" using peek_not [OF _ c(3) t, of "[124]"] by auto
  then show "\<exists>c' s'. parsepipe n b s = Inr (c', s') \<and> map_shcmd (word_at b) c' = c \<and> rest b s' = trim t" using m c(1,2) by simp
qed

lemma pipe_reads2:
  assumes "reads3 c" "reads2 d"
  shows "reads2 (PIPE c d)"
  unfolding reads2_def
proof (intro allI impI)
  fix b s n t
  assume s: "s \<le> length b" and n: "4 * (length b - s) + 3 \<le> n" and t: "foll {41, 38, 59} t" and r: "rest b s = trim (cmd_text 2 (PIPE c d) @ t)"
  obtain m where m: "n = Suc m" using n by (cases n) auto
  obtain c' s1 where c: "parseexec m b s = Inr (c', s1)" "map_shcmd (word_at b) c' = c" "rest b s1 = 124 # 32 # cmd_text 2 d @ t"
    using reads3D [OF assms(1) s, of m "[]" "124 # 32 # cmd_text 2 d @ t"] n m r by (auto simp: wraps_def)
  have f: "fwd b s s1" using parse_fwd(3) [OF s c(1)] .
  obtain s2 where p: "peek b s1 [124] = (True, s2)" "rest b s2 = 124 # 32 # cmd_text 2 d @ t" "s2 \<le> length b"
    using peek_text [OF fwd_le [OF f], of "124 # 32 # cmd_text 2 d @ t" "[124]"] c(3) by auto
  obtain w s3 where g: "gettoken b s2 = (124, w, s3)" "rest b s3 = trim (cmd_text 2 d @ t)"
    using gettoken_sym [OF p(3,2)] by auto
  have f3: "fwd b s s3" "s1 < s3" using good_after [OF f p(1) g(1)] by auto
  obtain d' s4 where "parsepipe m b s3 = Inr (d', s4)" "map_shcmd (word_at b) d' = d" "rest b s4 = trim t"
    using reads2D [OF assms(2) fwd_le [OF f3(1)] _ t g(2), of m] fuel_next [of s s3 "length b" m] n m f f3 by (auto simp: fwd_def)
  then show "\<exists>c' s'. parsepipe n b s = Inr (c', s') \<and> map_shcmd (word_at b) c' = PIPE c d \<and> rest b s' = trim t"
    using m c(1,2) p(1) g(1) by simp
qed

lemma reads2_reads1:
  assumes "reads2 c" "cmd_text 1 c = cmd_text 2 c"
  shows "reads1 c"
  unfolding reads1_def
proof (intro allI impI)
  fix b s n t
  assume a: "s \<le> length b" "4 * (length b - s) + 3 \<le> n" "foll {41, 38, 59} t" "rest b s = trim (cmd_text 1 c @ t)"
  obtain c' s' where "parsepipe n b s = Inr (c', s')" "map_shcmd (word_at b) c' = c" "rest b s' = trim t"
    using reads2D [OF assms(1) a(1-3)] a(4) assms(2) by auto
  then show "\<exists>c1 s1 c' s'. parsepipe n b s = Inr (c1, s1) \<and> backs b c1 s1 = backs b c' s' \<and> map_shcmd (word_at b) c' = c \<and>
      rest b s' = trim t \<and> fwd b s s'"
    using parse_fwd(2) [OF a(1)] by blast
qed

lemma back_reads1:
  assumes "reads1 c"
  shows "reads1 (BACK c)"
  unfolding reads1_def
proof (intro allI impI)
  fix b s n t
  assume a: "s \<le> length b" "4 * (length b - s) + 3 \<le> n" "foll {41, 38, 59} t" "rest b s = trim (cmd_text 1 (BACK c) @ t)"
  obtain c1 s1 c' s' where c: "parsepipe n b s = Inr (c1, s1)" "backs b c1 s1 = backs b c' s'" "map_shcmd (word_at b) c' = c"
      "rest b s' = 38 # 32 # t" "fwd b s s'"
    using reads1D [OF assms a(1,2), of "38 # 32 # t"] a(4) by auto
  obtain s2 where p: "peek b s' [38] = (True, s2)" "rest b s2 = 38 # 32 # t" "s2 \<le> length b"
    using peek_text [OF fwd_le [OF c(5)], of "38 # 32 # t" "[38]"] c(4) by auto
  obtain w s3 where g: "gettoken b s2 = (38, w, s3)" "rest b s3 = trim t" using gettoken_sym [OF p(3,2)] by auto
  have "fwd b s s3" using good_after [OF c(5) p(1) g(1)] by simp
  moreover have "backs b c1 s1 = backs b (BACK c') s3" using c(2) backs_go [OF p(1) g(1)] by simp
  moreover have "map_shcmd (word_at b) (BACK c') = BACK c" using c(3) by simp
  ultimately show "\<exists>c1 s1 c' s'. parsepipe n b s = Inr (c1, s1) \<and> backs b c1 s1 = backs b c' s' \<and>
      map_shcmd (word_at b) c' = BACK c \<and> rest b s' = trim t \<and> fwd b s s'"
    using c(1) g(2) by blast
qed

text \<open>The first part of a line, up to the \<^verbatim>\<open>;\<close> or the end.\<close>

lemma reads1_first:
  assumes "reads1 c" "s \<le> length b" "4 * (length b - s) + 3 \<le> n" "foll {41, 59} t" "rest b s = trim (cmd_text 1 c @ t)"
  shows "\<exists>c1 s1 c' s'. parsepipe n b s = Inr (c1, s1) \<and> backs b c1 s1 = (c', s') \<and> map_shcmd (word_at b) c' = c \<and>
    rest b s' = trim t \<and> fwd b s s'"
proof -
  obtain c1 s1 c' s' where c: "parsepipe n b s = Inr (c1, s1)" "backs b c1 s1 = backs b c' s'" "map_shcmd (word_at b) c' = c"
      "rest b s' = trim t" "fwd b s s'"
    using reads1D [OF assms(1-3) _ assms(5)] foll_mono [OF assms(4), of "{41, 38, 59}"] by auto
  obtain s2 where p: "peek b s' [38] = (False, s2)" "rest b s2 = trim t" "s2 \<le> length b"
    using peek_not [OF fwd_le [OF c(5)] c(4) assms(4), of "[38]"] by auto
  have "fwd b s s2" using fwd_trans [OF c(5) peek_fwd [OF fwd_le [OF c(5)] p(1)]] .
  moreover have "backs b c1 s1 = (c', s2)" using c(2) backs_stop [OF p(1)] by simp
  ultimately show ?thesis using c(1,3) p(2) by blast
qed

lemma reads1_reads0:
  assumes "reads1 c" "cmd_text 0 c = cmd_text 1 c"
  shows "reads0 c"
  unfolding reads0_def
proof (intro allI impI)
  fix b s n t
  assume s: "s \<le> length b" and n: "4 * (length b - s) + 4 \<le> n" and t: "foll {41} t" and r: "rest b s = trim (cmd_text 0 c @ t)"
  obtain m where m: "n = Suc m" using n by (cases n) auto
  obtain c1 s1 c' s' where c: "parsepipe m b s = Inr (c1, s1)" "backs b c1 s1 = (c', s')" "map_shcmd (word_at b) c' = c"
      "rest b s' = trim t" "fwd b s s'"
    using reads1_first [OF assms(1) s, of m t] n m foll_mono [OF t, of "{41, 59}"] r assms(2) by auto
  obtain s2 where "peek b s' [59] = (False, s2)" "rest b s2 = trim t"
    using peek_not [OF fwd_le [OF c(5)] c(4) t, of "[59]"] by auto
  then show "\<exists>c' s'. parseline n b s = Inr (c', s') \<and> map_shcmd (word_at b) c' = c \<and> rest b s' = trim t" using m c(1-3) by simp
qed

lemma list_reads0:
  assumes "reads1 c" "reads0 d"
  shows "reads0 (LIST c d)"
  unfolding reads0_def
proof (intro allI impI)
  fix b s n t
  assume s: "s \<le> length b" and n: "4 * (length b - s) + 4 \<le> n" and t: "foll {41} t" and r: "rest b s = trim (cmd_text 0 (LIST c d) @ t)"
  obtain m where m: "n = Suc m" using n by (cases n) auto
  let ?u = "59 # 32 # cmd_text 0 d @ t"
  obtain c1 s1 c' s' where c: "parsepipe m b s = Inr (c1, s1)" "backs b c1 s1 = (c', s')" "map_shcmd (word_at b) c' = c"
      "rest b s' = ?u" "fwd b s s'"
    using reads1_first [OF assms(1) s, of m ?u] n m r by auto
  obtain s2 where p: "peek b s' [59] = (True, s2)" "rest b s2 = ?u" "s2 \<le> length b"
    using peek_text [OF fwd_le [OF c(5)], of ?u "[59]"] c(4) by auto
  obtain w s3 where g: "gettoken b s2 = (59, w, s3)" "rest b s3 = trim (cmd_text 0 d @ t)" using gettoken_sym [OF p(3,2)] by auto
  have f3: "fwd b s s3" "s' < s3" using good_after [OF c(5) p(1) g(1)] by auto
  obtain d' s4 where "parseline m b s3 = Inr (d', s4)" "map_shcmd (word_at b) d' = d" "rest b s4 = trim t"
    using reads0D [OF assms(2) fwd_le [OF f3(1)] _ t g(2), of m] fuel_next [of s s3 "length b" m] n m c(5) f3 by (auto simp: fwd_def)
  then show "\<exists>c' s'. parseline n b s = Inr (c', s') \<and> map_shcmd (word_at b) c' = LIST c d \<and> rest b s' = trim t"
    using m c(1-3) p(1) g(1) by simp
qed

lemma block_reads3:
  assumes "reads0 c" "cmd_text 3 c = block (cmd_text 0 c)"
  shows "reads3 c"
  unfolding reads3_def
proof (intro allI impI)
  fix b s n rs t
  assume s: "s \<le> length b" and n: "4 * (length b - s) + 2 \<le> n" and rs: "\<forall>x\<in>set rs. valid_redir x" and t: "foll {124, 41, 38, 59} t"
    and r: "rest b s = trim (cmd_text 3 c @ redirs_text rs @ t)"
  obtain m where m: "n = Suc (Suc m)" using n by (cases n; cases "n - 1") auto
  let ?v = "41 # 32 # redirs_text rs @ t"
  let ?u = "40 # 32 # cmd_text 0 c @ ?v"
  have r: "rest b s = trim ?u" using r assms(2) by (simp add: block_def)
  obtain s1 where p: "peek b s [40] = (True, s1)" "rest b s1 = trim ?u" "s1 \<le> length b" using peek_text [OF s r, of "[40]"] by auto
  obtain s2 where p2: "peek b s1 [40] = (True, s2)" "rest b s2 = ?u" "s2 \<le> length b" using peek_text [OF p(3,2), of "[40]"] by auto
  obtain w s3 where g: "gettoken b s2 = (40, w, s3)" "rest b s3 = trim (cmd_text 0 c @ ?v)" using gettoken_sym [OF p2(3,2)] by auto
  have f1: "fwd b s s1" using peek_fwd [OF s p(1)] .
  have f3: "fwd b s s3" "s1 < s3" using good_after [OF f1 p2(1) g(1)] by auto
  have fuel: "4 * (length b - s3) + 4 \<le> m" using fuel_next [of s s3 "length b" m] n m f1 f3 by (simp add: fwd_def)
  obtain c' s4 where c: "parseline m b s3 = Inr (c', s4)" "map_shcmd (word_at b) c' = c" "rest b s4 = trim ?v"
    using reads0D [OF assms(1) fwd_le [OF f3(1)] fuel _ g(2)] by auto
  have f4: "s4 \<le> length b" using parse_fwd(1) [OF fwd_le [OF f3(1)] c(1)] by (rule fwd_le)
  obtain s5 where p5: "peek b s4 [41] = (True, s5)" "rest b s5 = ?v" "s5 \<le> length b" using peek_text [OF f4 c(3), of "[41]"] by auto
  obtain w' s6 where g6: "gettoken b s5 = (41, w', s6)" "rest b s6 = trim (redirs_text rs @ t)" "s6 \<le> length b"
    using gettoken_sym [OF p5(3,2)] by auto
  obtain rs' s7 where "parseredirs b s6 = Inr (rs', s7)" "map (fetch b) rs' = rs" "rest b s7 = trim t"
    using parseredirs_text [OF g6(3,2) rs] foll_mono [OF t, of "- {60, 62}"] by auto
  then show "\<exists>c' s'. parseexec n b s = Inr (c', s') \<and> map_shcmd (word_at b) c' = wraps c rs \<and> rest b s' = trim t"
    using m p(1) p2(1) g(1) c(1,2) p5(1) g6(1) by (simp add: map_wraps)
qed

lemma valid_reads: "valid_cmd c \<Longrightarrow> reads0 c \<and> reads1 c \<and> reads2 c \<and> reads3 c"
proof (induction c)
  case (EXEC ws)
  then have "reads3 (EXEC ws)" by (rule exec_reads3)
  then show ?case by (simp add: reads3_reads2 reads2_reads1 reads1_reads0)
next
  case (REDIR c w mode fd)
  then have "reads3 (REDIR c w mode fd)" by (simp add: redir_reads3)
  then show ?case by (simp add: reads3_reads2 reads2_reads1 reads1_reads0)
next
  case (PIPE c d)
  then have "reads2 (PIPE c d)" by (simp add: pipe_reads2)
  then have "reads2 (PIPE c d)" "reads1 (PIPE c d)" "reads0 (PIPE c d)" by (simp_all add: reads2_reads1 reads1_reads0)
  then show ?case by (simp add: block_reads3)
next
  case (LIST c d)
  then have "reads0 (LIST c d)" by (simp add: list_reads0)
  then have "reads0 (LIST c d)" "reads3 (LIST c d)" by (simp_all add: block_reads3)
  then show ?case by (simp add: reads3_reads2 reads2_reads1)
next
  case (BACK c)
  then have "reads1 (BACK c)" by (simp add: back_reads1)
  then have "reads1 (BACK c)" "reads0 (BACK c)" "reads3 (BACK c)" by (simp_all add: reads1_reads0 block_reads3)
  then show ?case by (simp add: reads3_reads2)
qed

lemma redir_text_nz: "valid_redir r \<Longrightarrow> 0 \<notin> set (redir_text r)"
  by (cases r) (auto simp: valid_redir_def redir_text_def valid_word_def)

lemma cmd_text_nz: "valid_cmd c \<Longrightarrow> 0 \<notin> set (cmd_text l c)"
  by (induction c arbitrary: l) (auto simp: Let_def block_def valid_word_def redir_text_nz)

lemma parsecmd_parts:
  assumes "parsecmd b = Inr (c, buf)"
  shows "cmd_ok b c \<and> buf = nulterminate c (b @ [0])"
proof -
  have "\<exists>s. parseline (4 * length b + 4) b 0 = Inr (c, s) \<and> buf = nulterminate c (b @ [0])"
    using assms by (auto simp: parsecmd_def elim!: bindE_InrE split: prod.splits if_splits)
  then show ?thesis using parse_good(1) [of 0 b "4 * length b + 4"] by (auto simp: good_def)
qed

lemma parsecmd_text:
  assumes "valid_cmd c"
  shows "\<exists>c' buf. parsecmd (cmd_text 0 c) = Inr (c', buf) \<and> map_shcmd (\<lambda>w. cstring buf (fst w)) c' = c"
proof -
  let ?b = "cmd_text 0 c"
  have "reads0 c" using valid_reads [OF assms] by simp
  then obtain c' s where p: "parseline (4 * length ?b + 4) ?b 0 = Inr (c', s)" "map_shcmd (word_at ?b) c' = c" "rest ?b s = []"
    using reads0D [of c 0 ?b "4 * length ?b + 4" "[]"] by (auto simp: rest_def)
  have ok: "cmd_ok ?b c'" "s \<le> length ?b" using parse_good(1) [of 0 ?b "4 * length ?b + 4"] p(1) by (auto simp: good_def fwd_def)
  have "skip_while is_ws ?b s = length ?b" using drop_skip [OF ok(2)] p(3) skip_while_le [OF ok(2), of is_ws] by simp
  then have "parsecmd ?b = Inr (c', nulterminate c' (?b @ [0]))" using p(1) by (simp add: parsecmd_def peek_def Let_def)
  moreover have "map_shcmd (\<lambda>w. cstring (nulterminate c' (?b @ [0])) (fst w)) c' = map_shcmd (word_at ?b) c'"
    using nulterminate_cstring [OF ok(1) cmd_text_nz [OF assms]] by (intro shcmd.map_cong) auto
  ultimately show ?thesis using p(2) by auto
qed

section \<open>Properties\<close>

text \<open>
  C33: The parser ends on every line. Its recursion is no deeper than four times the length of the line, plus four: with that
  bound or a larger one \<^verbatim>\<open>parseline\<close> gives the same answer, a command or the message of a \<^verbatim>\<open>panic\<close>, and \<^verbatim>\<open>parsecmd\<close>, which uses
  the bound, does not reach it.
\<close>

theorem parse_terminates:
  assumes "4 * length b + 4 \<le> n"
  shows "parsecmd b \<noteq> Inl NoFuel \<and> parseline n b 0 \<noteq> Inl NoFuel \<and> parseline n b 0 = parseline (4 * length b + 4) b 0"
proof -
  have h: "halts (parseline (4 * length b + 4) b 0)" using parse_ends(1) [of 0 b] by simp
  then have "halts (parsecmd b)" unfolding parsecmd_def by (auto intro!: ends_bind split: prod.splits)
  moreover have "parseline n b 0 = parseline (4 * length b + 4) b 0" using assms h by (rule more_fuel(1))
  ultimately show ?thesis using h by (simp add: halts_def)
qed

text \<open>The line \<^verbatim>\<open>a>f&\<close>.\<close>

abbreviation line1 :: "byte list" where
  "line1 \<equiv> [97, 62, 102, 38]"

theorem parse_terminates_witness:
  "parsecmd line1 \<noteq> Inl NoFuel \<and> parseline 50 line1 0 \<noteq> Inl NoFuel \<and> parseline 50 line1 0 = parseline 20 line1 0"
  using parse_terminates [of line1 50] by auto

text \<open>
  C34: What \<^verbatim>\<open>parsecmd\<close> returns is well formed: each word of it is a longest run of characters that are neither white space nor symbols,
  an \<^verbatim>\<open>execcmd\<close> has fewer than \<^verbatim>\<open>MAXARGS\<close> arguments, so that the array has room for the null pointer after them, and a redirection has one
  of the three modes. Although \<^verbatim>\<open>nulterminate\<close> writes zero bytes all over the line, the C string at the start of each word is that word.
\<close>

theorem parse_words:
  assumes "0 \<notin> set b" "parsecmd b = Inr (c, buf)"
  shows "cmd_ok b c \<and> length buf = length b + 1 \<and> (\<forall>w\<in>set_shcmd c. cstring buf (fst w) = word_at b w)"
  using parsecmd_parts [OF assms(2)] nulterminate_cstring [OF _ assms(1)] nulterminate_nth [of c "b @ [0]"] by auto

theorem parse_words_witness:
  "\<exists>c buf. parsecmd line1 = Inr (c, buf) \<and> c = BACK (REDIR (EXEC [(0, 1)]) (2, 3) 0x601 1) \<and>
    cstring buf 0 = [97] \<and> cstring buf 2 = [102]"
proof -
  let ?c = "BACK (REDIR (EXEC [(0, 1)]) (2, 3) 0x601 1)"
  have p: "parsecmd line1 = Inr (?c, [97, 0, 102, 0, 0])" by code_simp
  have "0 \<notin> set line1" by simp
  from parse_words [OF this p] have "cstring [97, 0, 102, 0, 0] 0 = [97]" "cstring [97, 0, 102, 0, 0] 2 = [102]"
    by (simp_all add: word_at_def)
  then show ?thesis using p by (intro exI conjI) (assumption, rule refl, assumption+)
qed

text \<open>
  C32: The parser reads back every command. A command tree written as text, with parentheses where the grammar needs them, is parsed
  to the same tree, whose words, as C strings in the buffer, are the words of the original: \<^verbatim>\<open>|\<close> binds tighter than \<^verbatim>\<open>&\<close>, which
  binds tighter than \<^verbatim>\<open>;\<close>, the operators \<^verbatim>\<open>|\<close> and \<^verbatim>\<open>;\<close> associate to the right, and redirections apply to a simple command or a block.
\<close>

theorem parse_roundtrip:
  assumes "valid_cmd c"
  shows "\<exists>c' buf. parsecmd (cmd_text 0 c) = Inr (c', buf) \<and> map_shcmd (\<lambda>w. cstring buf (fst w)) c' = c"
  using assms by (rule parsecmd_text)

theorem parse_roundtrip_witness:
  "\<exists>c. c = BACK (PIPE (LIST (EXEC [[97]]) (EXEC [[98], [100]])) (REDIR (EXEC [[99]]) [102] 0x601 1)) \<and>
     cmd_text 0 c = [40, 32, 97, 32, 59, 32, 98, 32, 100, 32, 41, 32, 124, 32, 99, 32, 62, 32, 102, 32, 38, 32] \<and>
     (\<exists>c' buf. parsecmd (cmd_text 0 c) = Inr (c', buf) \<and> map_shcmd (\<lambda>w. cstring buf (fst w)) c' = c)"
proof -
  let ?c = "BACK (PIPE (LIST (EXEC [[97]]) (EXEC [[98], [100]])) (REDIR (EXEC [[99]]) [102] 0x601 1))"
  have "valid_cmd ?c" by code_simp
  moreover have "cmd_text 0 ?c = [40, 32, 97, 32, 59, 32, 98, 32, 100, 32, 41, 32, 124, 32, 99, 32, 62, 32, 102, 32, 38, 32]" by code_simp
  ultimately show ?thesis using parse_roundtrip [of ?c] by (intro exI [of _ ?c]) (intro conjI refl)
qed

end
