(* ===== verification/Run.thy ===== *)
theory Run
  imports Parse
begin

text \<open>
  How the shell runs commands (\<^verbatim>\<open>user/sh.c\<close>): \<^verbatim>\<open>runcmd\<close>, \<^verbatim>\<open>getcmd\<close> and \<^verbatim>\<open>main\<close>. A process is the sequence of the calls by which it
  affects others, with the calls of a child inside the \<^verbatim>\<open>fork\<close> that makes it; what is followed exactly is the table of open files,
  which decides what a command reads and writes.
\<close>

section \<open>File descriptors\<close>

datatype 'o desc = Opened 'o | PipeEnd nat bool

type_synonym 'o fds = "nat \<Rightarrow> 'o desc option"

text \<open>\<^verbatim>\<open>fdalloc\<close>, and the parts of \<^verbatim>\<open>close\<close>, \<^verbatim>\<open>dup\<close> and \<^verbatim>\<open>pipe\<close> that concern the table.\<close>

definition fd_put :: "'o desc \<Rightarrow> 'o fds \<Rightarrow> (nat \<times> 'o fds) option" where
  "fd_put d fds = (case scan (\<lambda>i. fds i = None) 0 NOFILE of Some i \<Rightarrow> Some (i, fds(i := Some d)) | None \<Rightarrow> None)"

definition fd_close :: "nat \<Rightarrow> 'o fds \<Rightarrow> 'o fds" where
  "fd_close i fds = fds(i := None)"

definition fd_dup :: "nat \<Rightarrow> 'o fds \<Rightarrow> 'o fds" where
  "fd_dup i fds = (case fds i of None \<Rightarrow> fds | Some d \<Rightarrow> (case fd_put d fds of None \<Rightarrow> fds | Some (_, fds) \<Rightarrow> fds))"

definition fd_pipe :: "nat \<Rightarrow> 'o fds \<Rightarrow> (nat \<times> nat \<times> 'o fds) option" where
  "fd_pipe k fds =
     (case fd_put (PipeEnd k False) fds of
        None \<Rightarrow> None
      | Some (p0, fds) \<Rightarrow> (case fd_put (PipeEnd k True) fds of None \<Rightarrow> None | Some (p1, fds) \<Rightarrow> Some (p0, p1, fds)))"

section \<open>Running a command\<close>

text \<open>
  The answers of the kernel: what opening a file gives, and which of the calls of \<^verbatim>\<open>exec\<close>, \<^verbatim>\<open>pipe\<close>, \<^verbatim>\<open>fork\<close> and \<^verbatim>\<open>chdir\<close> succeed.
  Pipes and forks are numbered in the order in which \<open>runcmd\<close> lists them.
\<close>

record 'o kern =
  opens :: "byte list \<Rightarrow> int \<Rightarrow> 'o option"
  exec_ok :: "byte list list \<Rightarrow> bool"
  pipe_ok :: "nat \<Rightarrow> bool"
  fork_ok :: "nat \<Rightarrow> bool"
  chdir_ok :: "byte list \<Rightarrow> bool"

record shcount =
  npipe :: nat
  nfork :: nat

datatype 'o call =
    Exec "byte list list" "'o fds"
  | Fork "'o call list"
  | WaitChild
  | Print "byte list"
  | Exit int
  | Chdir "byte list"

text \<open>\<^verbatim>\<open>fork1\<close>: the child's calls are those of its argument; a failure is a \<^verbatim>\<open>panic\<close>.\<close>

definition sh_panic :: "string \<Rightarrow> 'o call list" where
  "sh_panic m = [Print (str m @ [10]), Exit 1]"

definition fork1 :: "'o kern \<Rightarrow> (shcount \<Rightarrow> 'o call list \<times> shcount) \<Rightarrow> (shcount \<Rightarrow> 'o call list \<times> shcount) \<Rightarrow> shcount \<Rightarrow> 'o call list \<times> shcount" where
  "fork1 k child parent z =
     (let ok = fork_ok k (nfork z); z = z\<lparr>nfork := nfork z + 1\<rparr> in
      if \<not> ok then (sh_panic ''fork'', z)
      else let (cs, z) = child z; (ps, z) = parent z in (Fork cs # ps, z))"

primrec runcmd :: "'o kern \<Rightarrow> byte list shcmd \<Rightarrow> 'o fds \<Rightarrow> shcount \<Rightarrow> 'o call list \<times> shcount" where
  "runcmd k (EXEC argv) fds z =
     (if argv = [] then ([Exit 1], z)
      else if exec_ok k argv then ([Exec argv fds], z)
      else ([Exec argv fds, Print (str ''exec '' @ hd argv @ str '' failed'' @ [10]), Exit 0], z))"
| "runcmd k (REDIR c file mode fd) fds z =
     (let fds = fd_close (nat fd) fds in
      case opens k file mode of
        None \<Rightarrow> ([Print (str ''open '' @ file @ str '' failed'' @ [10]), Exit 1], z)
      | Some ob \<Rightarrow>
          (case fd_put (Opened ob) fds of
             None \<Rightarrow> ([Print (str ''open '' @ file @ str '' failed'' @ [10]), Exit 1], z)
           | Some (_, fds) \<Rightarrow> runcmd k c fds z))"
| "runcmd k (LIST l r) fds z =
     fork1 k (runcmd k l fds)
       (\<lambda>z. let (cs, z) = runcmd k r fds z in (WaitChild # cs, z)) z"
| "runcmd k (PIPE l r) fds z =
     (case (if pipe_ok k (npipe z) then fd_pipe (npipe z) fds else None) of
        None \<Rightarrow> (sh_panic ''pipe'', z)
      | Some (p0, p1, fds) \<Rightarrow>
          fork1 k (runcmd k l (fd_close p1 (fd_close p0 (fd_dup p1 (fd_close 1 fds)))))
            (fork1 k (runcmd k r (fd_close p1 (fd_close p0 (fd_dup p0 (fd_close 0 fds)))))
              (\<lambda>z. ([WaitChild, WaitChild, Exit 0], z)))
            (z\<lparr>npipe := npipe z + 1\<rparr>))"
| "runcmd k (BACK c) fds z = fork1 k (runcmd k c fds) (\<lambda>z. ([Exit 0], z)) z"

section \<open>The main loop\<close>

text \<open>The loop that makes sure that descriptors 0, 1 and 2 are open.\<close>

lemma fd_put_SomeD: "fd_put d fds = Some (i, fds') \<Longrightarrow> i < NOFILE \<and> fds i = None \<and> fds' = fds(i := Some d) \<and> (\<forall>j < i. fds j \<noteq> None)"
  by (auto simp: fd_put_def split: option.splits dest!: scan_SomeD)

function sh_fds :: "'o kern \<Rightarrow> 'o fds \<Rightarrow> 'o fds" where
  "sh_fds k fds =
     (case opens k (str ''console'') 2 of
        None \<Rightarrow> fds
      | Some ob \<Rightarrow>
          (case fd_put (Opened ob) fds of
             None \<Rightarrow> fds
           | Some (fd, fds) \<Rightarrow> if fd \<ge> 3 then fd_close fd fds else sh_fds k fds))"
  by pat_completeness auto
termination
proof (relation "measure (\<lambda>(k, fds). card {i. i < NOFILE \<and> fds i = None})", goal_cases)
  case (2 k fds ob p i fds')
  then have f: "i < NOFILE" "fds i = None" "fds' = fds(i := Some (Opened ob))" using fd_put_SomeD [of "Opened ob" fds i fds'] by auto
  then have "{j. j < NOFILE \<and> fds' j = None} \<subset> {j. j < NOFILE \<and> fds j = None}" by auto
  then have "card {j. j < NOFILE \<and> fds' j = None} < card {j. j < NOFILE \<and> fds j = None}" by (intro psubset_card_mono) auto
  then show ?case by simp
qed simp

declare sh_fds.simps [simp del]

definition getcmd :: "byte option list \<Rightarrow> int \<times> byte list \<times> byte option list" where
  "getcmd inp =
     (let buf = replicate 100 0; (buf, inp) = gets buf 100 inp in
      (if buf ! 0 = 0 then - 1 else 0, buf, inp))"

text \<open>What the child does with the line.\<close>

definition run_line :: "'o kern \<Rightarrow> byte list \<Rightarrow> 'o fds \<Rightarrow> shcount \<Rightarrow> 'o call list \<times> shcount" where
  "run_line k buf fds z =
     (case parsecmd (cstring buf 0) of
        Inl (ShPanic m) \<Rightarrow> (sh_panic m, z)
      | Inl NoFuel \<Rightarrow> ([], z)
      | Inr (c, buf) \<Rightarrow> runcmd k (map_shcmd (\<lambda>w. cstring buf (fst w)) c) fds z)"

lemma gets_loop_le: "gets_loop i mx rs = (cs, rs') \<Longrightarrow> length rs' \<le> length rs"
proof (induction i mx rs arbitrary: cs rule: gets_loop.induct)
  case (1 i mx rs)
  show ?case
  proof (cases "i + 1 < mx \<and> (\<exists>x xs. rs = Some x # xs \<and> \<not> (x = 10 \<or> x = 13))")
    case True
    then obtain x xs where x: "i + 1 < mx" "rs = Some x # xs" "\<not> (x = 10 \<or> x = 13)" by blast
    obtain ds ys where g: "gets_loop (i + 1) mx xs = (ds, ys)" by fastforce
    have "rs' = ys" using 1(2) x g by (subst (asm) gets_loop.simps) simp
    then show ?thesis using 1(1) [OF x(1,2) refl x(3)] g x(2) by fastforce
  next
    case False
    then show ?thesis using 1(2) by (subst (asm) gets_loop.simps) (auto split: if_splits list.splits option.splits)
  qed
qed

lemma gets_loop_shorter: "gets_loop i mx rs = (c # cs, rs') \<Longrightarrow> length rs' < length rs"
  using gets_loop_le [of "i + 1" mx "tl rs"]
  by (subst (asm) gets_loop.simps) (fastforce split: if_splits list.splits option.splits prod.splits)

lemma getcmd_shorter: "getcmd inp = (r, buf, inp') \<Longrightarrow> r \<ge> 0 \<Longrightarrow> length inp' < length inp"
  by (cases "fst (gets_loop 0 100 inp)")
    (auto simp: getcmd_def gets_def Let_def split: prod.splits if_splits intro: gets_loop_shorter)

function sh_loop :: "'o kern \<Rightarrow> 'o fds \<Rightarrow> byte option list \<Rightarrow> shcount \<Rightarrow> 'o call list" where
  "sh_loop k fds inp z =
     (let (r, buf, inp) = getcmd inp in
      Print (str ''$ '') #
      (if r < 0 then [Exit 0]
       else if buf ! 0 = 99 \<and> buf ! 1 = 100 \<and> buf ! 2 = 32 then
         let buf = buf[length (cstring buf 0) - 1 := 0]; dir = cstring buf 3 in
         (if chdir_ok k dir then [Chdir dir] else [Chdir dir, Print (str ''cannot cd '' @ dir @ [10])]) @ sh_loop k fds inp z
       else
         let ok = fork_ok k (nfork z); z = z\<lparr>nfork := nfork z + 1\<rparr> in
         if \<not> ok then sh_panic ''fork''
         else let (cs, z) = run_line k buf fds z in Fork cs # WaitChild # sh_loop k fds inp z))"
  by pat_completeness auto
termination
proof (relation "measure (\<lambda>(k, fds, inp, z). length inp)", goal_cases)
  case (2 k fds inp z x r y buf inp')
  then show ?case using getcmd_shorter [of inp r buf inp'] by simp
next
  case (3 k fds inp z x r y buf inp')
  then show ?case using getcmd_shorter [of inp r buf inp'] by simp
qed simp

declare sh_loop.simps [simp del]

definition sh_main :: "'o kern \<Rightarrow> 'o fds \<Rightarrow> byte option list \<Rightarrow> 'o call list" where
  "sh_main k fds inp = sh_loop k (sh_fds k fds) inp \<lparr>npipe = 0, nfork = 0\<rparr>"

section \<open>The descriptors of a command\<close>

primrec call_execs :: "'o call \<Rightarrow> (byte list list \<times> 'o fds) list" where
  "call_execs (Exec argv fds) = [(argv, fds)]"
| "call_execs (Fork cs) = concat (map call_execs cs)"
| "call_execs WaitChild = []"
| "call_execs (Print m) = []"
| "call_execs (Exit n) = []"
| "call_execs (Chdir d) = []"

text \<open>The programs that a process and its children execute, with the descriptors they get.\<close>

definition execs :: "'o call list \<Rightarrow> (byte list list \<times> 'o fds) list" where
  "execs cs = concat (map call_execs cs)"

lemma execs_simps [simp]:
  "execs [] = []" "execs (Exec argv fds # cs) = (argv, fds) # execs cs" "execs (Fork ds # cs) = execs ds @ execs cs"
  "execs (WaitChild # cs) = execs cs" "execs (Print m # cs) = execs cs" "execs (Exit n # cs) = execs cs" "execs (Chdir d # cs) = execs cs"
  "execs (sh_panic p) = []" "execs (cs @ ds) = execs cs @ execs ds"
  by (simp_all add: execs_def sh_panic_def)

lemma fork1_execs:
  assumes "\<And>z. \<forall>x\<in>set (execs (fst (child z))). Q x" "\<And>z. \<forall>x\<in>set (execs (fst (parent z))). Q x"
  shows "\<forall>x\<in>set (execs (fst (fork1 k child parent z))). Q x"
  using assms(1) [of "z\<lparr>nfork := nfork z + 1\<rparr>"] assms(2) [of "snd (child (z\<lparr>nfork := nfork z + 1\<rparr>))"]
  by (auto simp: fork1_def Let_def split_beta)

definition std :: "'o fds \<Rightarrow> bool" where
  "std fds \<longleftrightarrow> fds 0 \<noteq> None \<and> fds 1 \<noteq> None"

text \<open>The lowest free descriptor, after 0 or 1 has been closed.\<close>

lemma fd_put_0: "fds 0 = None \<Longrightarrow> fd_put d fds = Some (0, fds(0 := Some d))"
  by (simp add: fd_put_def scan.simps)

lemma fd_put_1: "fds 0 \<noteq> None \<Longrightarrow> fds 1 = None \<Longrightarrow> fd_put d fds = Some (1, fds(1 := Some d))"
  by (simp add: fd_put_def scan.simps [of _ 0] scan.simps [of _ "Suc 0"])

lemma fd_pipe_ends:
  assumes "fd_pipe n fds = Some (p0, p1, fds')" "std fds"
  shows "fd_close p1 (fd_close p0 (fd_dup p1 (fd_close 1 fds'))) = fds(1 := Some (PipeEnd n True))"
    "fd_close p1 (fd_close p0 (fd_dup p0 (fd_close 0 fds'))) = fds(0 := Some (PipeEnd n False))"
proof -
  obtain f1 where f1: "fd_put (PipeEnd n False) fds = Some (p0, f1)" "fd_put (PipeEnd n True) f1 = Some (p1, fds')"
    using assms(1) by (auto simp: fd_pipe_def split: option.splits)
  have a: "fds p0 = None" "f1 = fds(p0 := Some (PipeEnd n False))" using fd_put_SomeD [OF f1(1)] by auto
  have b: "f1 p1 = None" "fds' = f1(p1 := Some (PipeEnd n True))" using fd_put_SomeD [OF f1(2)] by auto
  have p0: "p0 \<noteq> 0" "p0 \<noteq> 1" using a(1) assms(2) unfolding std_def by metis+
  then have "f1 0 \<noteq> None" "f1 1 \<noteq> None" "f1 p0 \<noteq> None" using a(2) assms(2) by (simp_all add: std_def)
  then have p1: "p1 \<noteq> 0" "p1 \<noteq> 1" "p1 \<noteq> p0" using b(1) by metis+
  have n: "fds p1 = None" using b(1) a(2) p1(3) by simp
  have f: "fds' 0 \<noteq> None" "fds' p0 = Some (PipeEnd n False)" "fds' p1 = Some (PipeEnd n True)"
    using a(2) b(2) p0 p1 assms(2) by (simp_all add: std_def)
  have undo: "(fds'(i := d))(p0 := None, p1 := None) = fds(i := d)" if "i \<noteq> p0" "i \<noteq> p1" for i d
    using a b(2) p1(3) n that by (auto simp: fun_eq_iff)
  have "fd_dup p1 (fds'(1 := None)) = fds'(1 := Some (PipeEnd n True))"
    using fd_put_1 [of "fds'(1 := None)" "PipeEnd n True"] f p1 by (simp add: fd_dup_def)
  then show "fd_close p1 (fd_close p0 (fd_dup p1 (fd_close 1 fds'))) = fds(1 := Some (PipeEnd n True))"
    using undo [of 1] p0 p1 by (simp add: fd_close_def)
  have "fd_dup p0 (fds'(0 := None)) = fds'(0 := Some (PipeEnd n False))"
    using fd_put_0 [of "fds'(0 := None)" "PipeEnd n False"] f p0 by (simp add: fd_dup_def)
  then show "fd_close p1 (fd_close p0 (fd_dup p0 (fd_close 0 fds'))) = fds(0 := Some (PipeEnd n False))"
    using undo [of 0] p0 p1 by (simp add: fd_close_def)
qed

primrec std_redirs :: "'w shcmd \<Rightarrow> bool" where
  "std_redirs (EXEC ws) \<longleftrightarrow> True"
| "std_redirs (REDIR c w mode fd) \<longleftrightarrow> std_redirs c \<and> fd \<in> {0, 1}"
| "std_redirs (PIPE l r) \<longleftrightarrow> std_redirs l \<and> std_redirs r"
| "std_redirs (LIST l r) \<longleftrightarrow> std_redirs l \<and> std_redirs r"
| "std_redirs (BACK c) \<longleftrightarrow> std_redirs c"

definition inherits :: "'o fds \<Rightarrow> byte list list \<times> 'o fds \<Rightarrow> bool" where
  "inherits fds x \<longleftrightarrow> std (snd x) \<and> (\<forall>i \<ge> 2. snd x i = fds i)"

lemma inherits_upd: "inherits (fds(i := d)) x \<Longrightarrow> i < 2 \<Longrightarrow> inherits fds x"
  by (auto simp: inherits_def)

lemma inherits_all:
  "\<forall>x\<in>A. inherits (fds(i := d)) x \<Longrightarrow> i < 2 \<Longrightarrow> \<forall>x\<in>A. inherits fds x"
  using inherits_upd by blast

lemma runcmd_inherits:
  "std fds \<Longrightarrow> std_redirs c \<Longrightarrow> \<forall>x\<in>set (execs (fst (runcmd k c fds z))). inherits fds x"
proof (induction c arbitrary: fds z)
  case (EXEC ws)
  then show ?case by (simp add: inherits_def)
next
  case (REDIR c w mode fd)
  show ?case
  proof (cases "opens k w mode")
    case (Some ob)
    have fd: "nat fd < 2" using REDIR(3) by auto
    have "fd_put (Opened ob) (fd_close (nat fd) fds) = Some (nat fd, fds(nat fd := Some (Opened ob)))"
      using REDIR(2,3) fd_put_0 [of "fds(0 := None)"] fd_put_1 [of "fds(1 := None)"] by (auto simp: fd_close_def std_def)
    then have e: "runcmd k (REDIR c w mode fd) fds z = runcmd k c (fds(nat fd := Some (Opened ob))) z" using Some by (simp add: Let_def)
    show ?thesis unfolding e by (rule inherits_all [OF REDIR(1) fd]) (use REDIR(2,3) in \<open>auto simp: std_def\<close>)
  qed simp
next
  case (PIPE l r)
  show ?case
  proof (cases "if pipe_ok k (npipe z) then fd_pipe (npipe z) fds else None")
    case (Some p)
    then obtain p0 p1 fds' where p: "fd_pipe (npipe z) fds = Some (p0, p1, fds')" "pipe_ok k (npipe z)"
      by (cases p) (auto split: if_splits)
    have l: "\<forall>x\<in>set (execs (fst (runcmd k l (fds(1 := Some (PipeEnd n True))) z))). inherits fds x" for z n
      by (rule inherits_all [OF PIPE(1)]) (use PIPE(3,4) in \<open>auto simp: std_def\<close>)
    have r: "\<forall>x\<in>set (execs (fst (runcmd k r (fds(0 := Some (PipeEnd n False))) z))). inherits fds x" for z n
      by (rule inherits_all [OF PIPE(2)]) (use PIPE(3,4) in \<open>auto simp: std_def\<close>)
    have e: "runcmd k (PIPE l r) fds z = fork1 k (runcmd k l (fds(1 := Some (PipeEnd (npipe z) True))))
        (fork1 k (runcmd k r (fds(0 := Some (PipeEnd (npipe z) False)))) (\<lambda>z. ([WaitChild, WaitChild, Exit 0], z)))
        (z\<lparr>npipe := npipe z + 1\<rparr>)"
      using p fd_pipe_ends [OF p(1) PIPE(3)] by simp
    show ?thesis unfolding e by (rule fork1_execs [OF l fork1_execs [OF r]]) simp
  qed simp
next
  case (LIST l r)
  have "std_redirs l" "std_redirs r" using LIST(4) by simp_all
  note h = LIST(1) [OF LIST(3) this(1)] LIST(2) [OF LIST(3) this(2)]
  show ?case unfolding runcmd.simps by (rule fork1_execs [OF h(1)]) (simp add: split_beta h(2))
next
  case (BACK c)
  have "std_redirs c" using BACK(3) by simp
  note h = BACK(1) [OF BACK(2) this]
  show ?case unfolding runcmd.simps by (rule fork1_execs [OF h]) simp
qed

lemma cmd_ok_std: "cmd_ok b c \<Longrightarrow> std_redirs (map_shcmd f c)"
  by (induction c) auto

lemma run_line_inherits: "std fds \<Longrightarrow> \<forall>x\<in>set (execs (fst (run_line k buf fds z))). inherits fds x"
proof (cases "parsecmd (cstring buf 0)")
  case (Inl e)
  then show ?thesis by (cases e) (simp_all add: run_line_def)
next
  case (Inr p)
  assume f: "std fds"
  obtain c b where cb: "p = (c, b)" by (cases p)
  then have "cmd_ok (cstring buf 0) c" using parsecmd_parts [of "cstring buf 0" c b] Inr by simp
  then show ?thesis using Inr cb runcmd_inherits [OF f cmd_ok_std] by (simp add: run_line_def)
qed

lemma sh_loop_inherits: "std fds \<Longrightarrow> \<forall>x\<in>set (execs (sh_loop k fds inp z)). inherits fds x"
proof (induction k fds inp z rule: sh_loop.induct)
  case (1 k fds inp z)
  obtain r buf inp' where g: "getcmd inp = (r, buf, inp')" by (cases "getcmd inp") auto
  let ?cd = "buf ! 0 = 99 \<and> buf ! 1 = 100 \<and> buf ! 2 = 32"
  obtain cs z' where l: "run_line k buf fds (z\<lparr>nfork := nfork z + 1\<rparr>) = (cs, z')" by fastforce
  have cs: "\<forall>x\<in>set (execs cs). inherits fds x" using run_line_inherits [OF 1(3), of k buf "z\<lparr>nfork := nfork z + 1\<rparr>"] l by simp
  have a: "\<forall>x\<in>set (execs (sh_loop k fds inp' z)). inherits fds x" if "\<not> r < 0" ?cd
    using 1(1) [OF g [symmetric] refl refl that refl refl 1(3)] .
  have b: "\<forall>x\<in>set (execs (sh_loop k fds inp' z')). inherits fds x" if "\<not> r < 0" "\<not> ?cd" "fork_ok k (nfork z)"
    using 1(2) [OF g [symmetric] refl refl that(1,2) refl refl _ l [symmetric] refl 1(3)] that(3) by simp
  consider (eof) "r < 0" | (cd) "\<not> r < 0" ?cd | (no) "\<not> r < 0" "\<not> ?cd" "\<not> fork_ok k (nfork z)" | (run) "\<not> r < 0" "\<not> ?cd" "fork_ok k (nfork z)"
    by blast
  then show ?case
  proof cases
    case eof
    then show ?thesis using g by (subst sh_loop.simps) simp
  next
    case cd
    then show ?thesis using g a [OF cd] by (subst sh_loop.simps) (simp add: Let_def)
  next
    case no
    then have "sh_loop k fds inp z = Print (str ''$ '') # sh_panic ''fork''" using g by (subst sh_loop.simps) auto
    then show ?thesis by simp
  next
    case run
    then have "sh_loop k fds inp z = Print (str ''$ '') # Fork cs # WaitChild # sh_loop k fds inp' z'"
      using g l by (subst sh_loop.simps) auto
    then show ?thesis using b [OF run] cs by (simp add: ball_Un)
  qed
qed

lemma sh_fds_std:
  assumes "opens k (str ''console'') 2 = Some ob"
  shows "(\<forall>i < 3. sh_fds k fds i \<noteq> None) \<and> (\<forall>i. fds i \<noteq> None \<or> i \<ge> 3 \<longrightarrow> sh_fds k fds i = fds i)"
  using assms
proof (induction k fds rule: sh_fds.induct)
  case (1 k fds)
  show ?case
  proof (cases "fd_put (Opened ob) fds")
    case None
    then have "fds i \<noteq> None" if "i < NOFILE" for i using that by (auto simp: fd_put_def scan_None_iff split: option.splits)
    moreover have "sh_fds k fds = fds" using None 1(2) by (subst sh_fds.simps) simp
    ultimately show ?thesis by simp
  next
    case (Some p)
    then obtain i fds' where p: "fd_put (Opened ob) fds = Some (i, fds')" by (cases p) auto
    note f = fd_put_SomeD [OF p]
    show ?thesis
    proof (cases "i \<ge> 3")
      case True
      have "fd_close i fds' = fds" using f by (simp add: fd_close_def fun_upd_idem)
      then have e: "sh_fds k fds = fds" using 1(2) p True by (subst sh_fds.simps) simp
      have "fds j \<noteq> None" if "j < 3" for j using f True that by simp
      then show ?thesis unfolding e by blast
    next
      case False
      then have e: "sh_fds k fds = sh_fds k fds'" using 1(2) p by (subst sh_fds.simps) simp
      have u: "fds i = None" "fds' i \<noteq> None" "\<And>j. j \<noteq> i \<Longrightarrow> fds' j = fds j" "i < 3" using f False by auto
      have h: "(\<forall>i < 3. sh_fds k fds' i \<noteq> None) \<and> (\<forall>i. fds' i \<noteq> None \<or> i \<ge> 3 \<longrightarrow> sh_fds k fds' i = fds' i)"
        using 1(1) [OF 1(2) p refl False 1(2)] .
      have "sh_fds k fds' j = fds j" if "fds j \<noteq> None \<or> j \<ge> 3" for j using h u that by (cases "j = i") auto
      then show ?thesis unfolding e using h by blast
    qed
  qed
qed

section \<open>Pipelines\<close>

fun pipeline :: "byte list list list \<Rightarrow> byte list shcmd" where
  "pipeline [] = EXEC []"
| "pipeline [a] = EXEC a"
| "pipeline (a # as) = PIPE (EXEC a) (pipeline as)"

text \<open>The descriptors of the commands of a pipeline: a pipe between each command and the next one.\<close>

fun plumbed :: "nat \<Rightarrow> 'o fds \<Rightarrow> byte list list list \<Rightarrow> (byte list list \<times> 'o fds) list" where
  "plumbed n fds [] = []"
| "plumbed n fds [a] = [(a, fds)]"
| "plumbed n fds (a # as) = (a, fds(1 := Some (PipeEnd n True))) # plumbed (n + 1) (fds(0 := Some (PipeEnd n False))) as"

lemma plumbed_nth:
  "length (plumbed n fds as) = length as \<and>
   (\<forall>i < length as. plumbed n fds as ! i =
     (as ! i, fds(0 := if i = 0 then fds 0 else Some (PipeEnd (n + i - 1) False),
                  1 := if i + 1 = length as then fds 1 else Some (PipeEnd (n + i) True))))"
proof (induction n fds as rule: plumbed.induct)
  case (3 n fds a b as)
  let ?g = "fds(0 := Some (PipeEnd n False))"
  have ih: "length (plumbed (n + 1) ?g (b # as)) = length (b # as) \<and>
     (\<forall>i < length (b # as). plumbed (n + 1) ?g (b # as) ! i = ((b # as) ! i, ?g(0 := if i = 0 then ?g 0 else Some (PipeEnd (n + 1 + i - 1) False),
        1 := if i + 1 = length (b # as) then ?g 1 else Some (PipeEnd (n + 1 + i) True))))"
    by (rule 3)
  have "plumbed n fds (a # b # as) ! i =
     ((a # b # as) ! i, fds(0 := if i = 0 then fds 0 else Some (PipeEnd (n + i - 1) False),
                  1 := if i + 1 = length (a # b # as) then fds 1 else Some (PipeEnd (n + i) True)))"
    if i: "i < length (a # b # as)" for i
  proof (cases i)
    case 0
    then show ?thesis by (simp add: fun_upd_idem)
  next
    case (Suc j)
    then have j: "j < length (b # as)" using i by simp
    have "plumbed n fds (a # b # as) ! i = plumbed (n + 1) (fds(0 := Some (PipeEnd n False))) (b # as) ! j" using Suc by simp
    also have "\<dots> = ((a # b # as) ! i, fds(0 := if i = 0 then fds 0 else Some (PipeEnd (n + i - 1) False),
                  1 := if i + 1 = length (a # b # as) then fds 1 else Some (PipeEnd (n + i) True)))"
      using ih [THEN conjunct2, rule_format, OF j] Suc by simp
    finally show ?thesis .
  qed
  moreover have "length (plumbed n fds (a # b # as)) = length (a # b # as)" using ih by simp
  ultimately show ?case by blast
qed (simp_all add: fun_upd_idem)

lemma fd_pipe_free:
  assumes "i < j" "j < NOFILE" "fds i = None" "fds j = None"
  shows "\<exists>p0 p1 fds'. fd_pipe n fds = Some (p0, p1, fds')"
proof -
  obtain p0 where p0: "scan (\<lambda>i. fds i = None) 0 NOFILE = Some p0" "p0 \<le> i"
  proof (cases "scan (\<lambda>i. fds i = None) 0 NOFILE")
    case None
    then have "fds j \<noteq> None" using scan_NoneD [OF None, of j] assms(2) by simp
    then show ?thesis using assms(4) by simp
  next
    case (Some p)
    then have "\<not> i < p" using scan_SomeD [OF Some] assms(3) by blast
    then show ?thesis using Some that by simp
  qed
  let ?f = "fds(p0 := Some (PipeEnd n False))"
  have "?f j = None" using assms p0(2) by simp
  then obtain p1 where "scan (\<lambda>i. ?f i = None) 0 NOFILE = Some p1"
    using assms(2) by (cases "scan (\<lambda>i. ?f i = None) 0 NOFILE") (auto simp: scan_None_iff)
  then show ?thesis using p0(1) by (simp add: fd_pipe_def fd_put_def)
qed

lemma runcmd_pipeline:
  assumes "\<forall>a\<in>set as. a \<noteq> [] \<and> exec_ok k a" "\<forall>n. pipe_ok k n \<and> fork_ok k n" "as \<noteq> []" "std fds"
    "2 \<le> i" "i < j" "j < NOFILE" "fds i = None" "fds j = None"
  shows "execs (fst (runcmd k (pipeline as) fds z)) = plumbed (npipe z) fds as"
  using assms
proof (induction "npipe z" fds as arbitrary: z rule: plumbed.induct)
  case (3 fds a b as)
  obtain p0 p1 fds' where p: "fd_pipe (npipe z) fds = Some (p0, p1, fds')" using fd_pipe_free [of i j fds] 3 by blast
  let ?z = "z\<lparr>npipe := npipe z + 1\<rparr>\<lparr>nfork := nfork z + 1\<rparr>\<lparr>nfork := nfork z + 2\<rparr>"
  let ?r = "fds(0 := Some (PipeEnd (npipe z) False))"
  have "execs (fst (runcmd k (pipeline (b # as)) ?r ?z)) = plumbed (npipe z + 1) ?r (b # as)"
    using 3(1) [of ?z] 3(2-) by (simp add: std_def)
  then show ?case using p 3(2,3) fd_pipe_ends [OF p 3(5)] by (simp add: fork1_def split_beta Let_def)
qed simp_all

lemma pipeline_valid: "\<forall>a\<in>set as. length a < 10 \<and> (\<forall>w\<in>set a. valid_word w) \<Longrightarrow> valid_cmd (pipeline as)"
  by (induction as rule: pipeline.induct) auto

lemma cstring_prefix: "0 \<notin> set t \<Longrightarrow> cstring (t @ 0 # u) 0 = t"
  unfolding cstring_def drop_0 by (subst takeWhile_append2) auto

section \<open>Properties\<close>

text \<open>
  C29: Typing a pipeline runs it. When the line in the shell's buffer is the text of a pipeline, the child of the shell executes every
  command of it, in order, with the arguments that were typed, each in its own process; the first reads what the
  shell reads, the last writes where the shell writes, and in between the standard output of a command is the write end and the standard input of
  the next one the read end of the same pipe. All other descriptors are those of the shell. Calls of the kernel succeed, and the
  shell has two descriptors to spare besides 0 and 1.
\<close>

theorem pipeline_runs:
  assumes "\<forall>a\<in>set as. a \<noteq> [] \<and> length a < 10 \<and> (\<forall>w\<in>set a. valid_word w) \<and> exec_ok k a"
    and "\<forall>n. pipe_ok k n \<and> fork_ok k n" and "as \<noteq> []"
    and "fds 0 \<noteq> None" "fds 1 \<noteq> None" "2 \<le> i" "i < j" "j < NOFILE" "fds i = None" "fds j = None"
  shows "\<exists>xs. execs (fst (run_line k (cmd_text 0 (pipeline as) @ 0 # u) fds z)) = xs \<and> map fst xs = as \<and>
    (\<forall>n < length as. snd (xs ! n) =
       fds(0 := if n = 0 then fds 0 else Some (PipeEnd (npipe z + n - 1) False),
           1 := if n + 1 = length as then fds 1 else Some (PipeEnd (npipe z + n) True)))"
proof -
  have v: "valid_cmd (pipeline as)" using assms(1) by (intro pipeline_valid) auto
  obtain c buf where p: "parsecmd (cmd_text 0 (pipeline as)) = Inr (c, buf)" "map_shcmd (\<lambda>w. cstring buf (fst w)) c = pipeline as"
    using parsecmd_text [OF v] by blast
  have "run_line k (cmd_text 0 (pipeline as) @ 0 # u) fds z = runcmd k (pipeline as) fds z"
    using p cstring_prefix [OF cmd_text_nz [OF v]] by (simp add: run_line_def)
  moreover have "execs (fst (runcmd k (pipeline as) fds z)) = plumbed (npipe z) fds as"
    using assms by (intro runcmd_pipeline [where i = i and j = j]) (auto simp: std_def)
  ultimately show ?thesis using plumbed_nth [of "npipe z" fds as] by (auto intro!: nth_equalityI)
qed

text \<open>A kernel that answers every call, descriptors 0, 1 and 2 open, and the line \<^verbatim>\<open>ls | wc\<close>.\<close>

definition kern1 :: "nat kern" where
  "kern1 = \<lparr>opens = (\<lambda>file mode. Some 7), exec_ok = (\<lambda>argv. True), pipe_ok = (\<lambda>n. True), fork_ok = (\<lambda>n. True), chdir_ok = (\<lambda>d. True)\<rparr>"

definition fds1 :: "nat fds" where
  "fds1 i = (if i < 3 then Some (Opened i) else None)"

theorem pipeline_runs_witness:
  "execs (fst (run_line kern1 [108, 115, 32, 124, 32, 119, 99, 32, 0] fds1 \<lparr>npipe = 0, nfork = 1\<rparr>)) =
    [([[108, 115]], fds1(1 := Some (PipeEnd 0 True))), ([[119, 99]], fds1(0 := Some (PipeEnd 0 False)))]"
proof -
  let ?as = "[[[108, 115]], [[119, 99]]] :: byte list list list"
  have t: "cmd_text 0 (pipeline ?as) @ 0 # [] = [108, 115, 32, 124, 32, 119, 99, 32, 0]" by (simp add: Let_def)
  have "\<exists>xs. execs (fst (run_line kern1 (cmd_text 0 (pipeline ?as) @ 0 # []) fds1 \<lparr>npipe = 0, nfork = 1\<rparr>)) = xs \<and> map fst xs = ?as \<and>
    (\<forall>n < length ?as. snd (xs ! n) =
       fds1(0 := if n = 0 then fds1 0 else Some (PipeEnd (npipe \<lparr>npipe = 0, nfork = 1\<rparr> + n - 1) False),
           1 := if n + 1 = length ?as then fds1 1 else Some (PipeEnd (npipe \<lparr>npipe = 0, nfork = 1\<rparr> + n) True)))"
    by (rule pipeline_runs [where i = 3 and j = 4]) (auto simp: kern1_def fds1_def valid_word_def whitespace_def symbols_def)
  then obtain xs where xs: "execs (fst (run_line kern1 (cmd_text 0 (pipeline ?as) @ 0 # []) fds1 \<lparr>npipe = 0, nfork = 1\<rparr>)) = xs"
    "map fst xs = ?as" "snd (xs ! 0) = fds1(0 := fds1 0, 1 := Some (PipeEnd 0 True))"
    "snd (xs ! 1) = fds1(0 := Some (PipeEnd 0 False), 1 := fds1 1)" by fastforce
  from xs(2) obtain a b where ab: "xs = [([[108, 115]], a), ([[119, 99]], b)]" by (auto simp: map_eq_Cons_conv)
  then have "a = fds1(1 := Some (PipeEnd 0 True))" "b = fds1(0 := Some (PipeEnd 0 False))" using xs(3,4) by (auto simp: fun_eq_iff)
  then show ?thesis using xs(1) ab unfolding t by simp
qed

text \<open>
  C30: A command gets from the shell what it should and nothing else. Whatever is typed, every program that the shell or one of
  its children executes has descriptors 0, 1 and 2 open, and from 3 on exactly the descriptors that the shell was
  started with: no end of a pipe, and no file of another redirection, leaks into it.
\<close>

theorem sh_no_leak:
  assumes "opens k (str ''console'') 2 \<noteq> None" and "(argv, f) \<in> set (execs (sh_main k fds inp))"
  shows "f 0 \<noteq> None \<and> f 1 \<noteq> None \<and> f 2 \<noteq> None \<and> (\<forall>i \<ge> 3. f i = fds i)"
proof -
  obtain ob where "opens k (str ''console'') 2 = Some ob" using assms(1) by blast
  note c = sh_fds_std [OF this, of fds]
  then have "std (sh_fds k fds)" by (simp add: std_def)
  then have "inherits (sh_fds k fds) (argv, f)" using sh_loop_inherits assms(2) unfolding sh_main_def by blast
  then show ?thesis using c by (simp add: inherits_def std_def)
qed

text \<open>Started with no open file and reading the line \<^verbatim>\<open>ls\<close>, the shell executes one program.\<close>

theorem sh_no_leak_witness:
  "\<exists>argv f. (argv, f) \<in> set (execs (sh_main kern1 (\<lambda>i. None) [Some 108, Some 115, Some 10])) \<and> argv = [[108, 115]] \<and>
     f 0 \<noteq> None \<and> f 1 \<noteq> None \<and> f 2 \<noteq> None \<and> f 3 = None"
proof -
  have "map fst (execs (sh_main kern1 (\<lambda>i. None) [Some 108, Some 115, Some 10])) = [[[108, 115]]]" by code_simp
  then obtain f where f: "execs (sh_main kern1 (\<lambda>i. None) [Some 108, Some 115, Some 10]) = [([[108, 115]], f)]" by auto
  have "f 0 \<noteq> None \<and> f 1 \<noteq> None \<and> f 2 \<noteq> None \<and> (\<forall>i \<ge> 3. f i = None)"
    by (rule sh_no_leak [where k = kern1 and argv = "[[108, 115]]" and fds = "\<lambda>i. None" and inp = "[Some 108, Some 115, Some 10]"])
      (simp add: kern1_def, simp add: f)
  then show ?thesis using f by auto
qed

end
