(* ===== verification/Uthread.thy ===== *)
theory Uthread
  imports Ulib
begin

text \<open>
  The user threads of this repository (\<^verbatim>\<open>user/userlib.c\<close>) and the program that uses them (\<^verbatim>\<open>user/frisbee.c\<close>). The threads share a store
  of ints. The lock is translated as it is written, with the arguments of \<^verbatim>\<open>xchg\<close> in the order in which they are passed.
\<close>

section \<open>The lock\<close>

type_synonym store = "addr \<Rightarrow> uint"

text \<open>\<^verbatim>\<open>old\<close> is a copy of the pointer, not of the value it points to.\<close>

definition xchg :: "uint \<Rightarrow> addr \<Rightarrow> store \<Rightarrow> uint \<times> store" where
  "xchg new p m = (let old = p; m = m(p := new) in (m old, m))"

definition lock_init :: "addr \<Rightarrow> store \<Rightarrow> store" where
  "lock_init locker m = m(locker := 0)"

text \<open>\<open>ia\<close> is the address of the local variable \<^verbatim>\<open>i\<close> of the call of \<^verbatim>\<open>lock_acquire\<close>.\<close>

definition lock_acquire_enter :: "addr \<Rightarrow> store \<Rightarrow> store" where
  "lock_acquire_enter ia m = m(ia := 1)"

definition lock_acquire_test :: "addr \<Rightarrow> addr \<Rightarrow> store \<Rightarrow> bool \<times> store" where
  "lock_acquire_test locker ia m = (let (r, m) = xchg (m locker) ia m in (r \<noteq> 0, m))"

definition lock_release :: "addr \<Rightarrow> store \<Rightarrow> store" where
  "lock_release locker m = snd (xchg (m locker) 0 m)"

text \<open>\<^verbatim>\<open>lock_acquire\<close> when no other thread runs: the loop, which may not end.\<close>

partial_function (option) lock_acquire_loop :: "addr \<Rightarrow> addr \<Rightarrow> store \<Rightarrow> store option" where
  "lock_acquire_loop locker ia m =
     (let (again, m) = lock_acquire_test locker ia m in
      if again then lock_acquire_loop locker ia m else Some m)"

definition lock_acquire :: "addr \<Rightarrow> addr \<Rightarrow> store \<Rightarrow> store option" where
  "lock_acquire locker ia m = lock_acquire_loop locker ia (lock_acquire_enter ia m)"

text \<open>
  \<^verbatim>\<open>thread_create\<close>, with \<^verbatim>\<open>malloc\<close>, \<^verbatim>\<open>clone\<close> and the start routine on the state \<open>w\<close> that the process sees: the text printed, and in the new
  thread, which does not return from \<^verbatim>\<open>exit\<close>, the state after the routine.
\<close>

definition thread_create :: "(nat \<Rightarrow> 'w \<Rightarrow> addr \<times> 'w) \<Rightarrow> (addr \<Rightarrow> nat \<Rightarrow> 'w \<Rightarrow> int \<times> 'w) \<Rightarrow> ('a \<Rightarrow> 'w \<Rightarrow> 'w) \<Rightarrow> 'a \<Rightarrow> 'w \<Rightarrow>
    byte list \<times> 'w \<times> bool" where
  "thread_create malloc_f clone_f start_routine arg w =
     (let (nSp, w) = malloc_f 4096 w;
          (rc, w) = clone_f nSp 4096 w;
          out = str ''pre-rc check'' @ [10] in
      if rc = 0 then (out @ str ''Starting the routine...'' @ [10], start_routine arg w, True)
      else (out, w, False))"

section \<open>Frisbee\<close>

text \<open>Where a player is in its loop; the number is the loop counter.\<close>

datatype ppc = PLoop nat | PTry nat | PCatch nat | PThrow nat | PRelease nat | PDone

record game =
  ustore :: store
  thrower :: int
  pcs :: "nat \<Rightarrow> ppc"
  said :: "(int \<times> int) list"

text \<open>One step of player \<open>t\<close>, whose number is \<open>self t\<close>; \<open>stk t\<close> is where its calls of \<^verbatim>\<open>lock_acquire\<close> have their local variable.\<close>

definition player_step :: "addr \<Rightarrow> (nat \<Rightarrow> addr) \<Rightarrow> nat \<Rightarrow> (nat \<Rightarrow> int) \<Rightarrow> nat \<Rightarrow> game \<Rightarrow> game" where
  "player_step lk stk passes self t g =
     (case pcs g t of
        PLoop i \<Rightarrow>
          if i < passes then
            if thrower g \<noteq> self t
            then g\<lparr>ustore := lock_acquire_enter (stk t) (ustore g), pcs := (pcs g)(t := PTry i)\<rparr>
            else g\<lparr>pcs := (pcs g)(t := PLoop (i + 1))\<rparr>
          else g\<lparr>pcs := (pcs g)(t := PDone)\<rparr>
      | PTry i \<Rightarrow>
          let (again, m) = lock_acquire_test lk (stk t) (ustore g) in
          g\<lparr>ustore := m, pcs := (pcs g)(t := if again then PTry i else PCatch i)\<rparr>
      | PCatch i \<Rightarrow> g\<lparr>said := said g @ [(self t, thrower g)], pcs := (pcs g)(t := PThrow i)\<rparr>
      | PThrow i \<Rightarrow> g\<lparr>thrower := self t, pcs := (pcs g)(t := PRelease i)\<rparr>
      | PRelease i \<Rightarrow> g\<lparr>ustore := lock_release lk (ustore g), pcs := (pcs g)(t := PLoop (i + 1))\<rparr>
      | PDone \<Rightarrow> g)"

inductive game_reach :: "addr \<Rightarrow> (nat \<Rightarrow> addr) \<Rightarrow> nat \<Rightarrow> (nat \<Rightarrow> int) \<Rightarrow> game \<Rightarrow> bool"
  for lk :: addr and stk :: "nat \<Rightarrow> addr" and passes :: nat and self :: "nat \<Rightarrow> int" where
  start: "game_reach lk stk passes self \<lparr>ustore = lock_init lk m, thrower = w, pcs = (\<lambda>t. PLoop 0), said = []\<rparr>"
| step: "game_reach lk stk passes self g \<Longrightarrow> game_reach lk stk passes self (player_step lk stk passes self t g)"

text \<open>A player between \<^verbatim>\<open>lock_acquire\<close> and \<^verbatim>\<open>lock_release\<close>.\<close>

definition holds_frisbee :: "game \<Rightarrow> nat \<Rightarrow> bool" where
  "holds_frisbee g t = (case pcs g t of PCatch i \<Rightarrow> True | PThrow i \<Rightarrow> True | PRelease i \<Rightarrow> True | _ \<Rightarrow> False)"

section \<open>The lock does not lock\<close>

lemma lock_test_eq: "lock_acquire_test locker ia m = (m locker \<noteq> 0, m(ia := m locker))"
  by (simp add: lock_acquire_test_def xchg_def)

lemma lock_release_eq: "lock_release locker m = m(0 := m locker)"
  by (simp add: lock_release_def xchg_def Let_def)

lemma game_lock_open:
  assumes "game_reach lk stk passes self g" "lk \<noteq> 0" "\<forall>t. stk t \<noteq> lk"
  shows "ustore g lk = 0"
  using assms
proof (induction rule: game_reach.induct)
  case (start m w)
  then show ?case by (simp add: lock_init_def)
next
  case (step g t)
  then show ?case
    by (cases "pcs g t") (auto simp: player_step_def lock_acquire_enter_def lock_test_eq lock_release_eq Let_def)
qed

text \<open>
  C31: The lock of \<^verbatim>\<open>userlib.c\<close> excludes nobody. \<^verbatim>\<open>lock_acquire\<close> copies the lock into its own local variable instead of setting it, so
  that in every state of the game, whoever is between \<^verbatim>\<open>lock_acquire\<close> and \<^verbatim>\<open>lock_release\<close>, the lock reads as free, and a
  player that tries to take it gets it at once; \<^verbatim>\<open>lock_release\<close> leaves the lock as it is and writes to address 0.
\<close>

theorem user_lock_excludes_nobody:
  assumes "game_reach lk stk passes self g" "lk \<noteq> 0" "\<forall>t. stk t \<noteq> lk" "pcs g t = PTry i"
  shows "holds_frisbee (player_step lk stk passes self t g) t \<and>
    (\<forall>u. u \<noteq> t \<longrightarrow> holds_frisbee (player_step lk stk passes self t g) u = holds_frisbee g u) \<and>
    lock_release lk (ustore g) = (ustore g)(0 := 0)"
  using game_lock_open [OF assms(1-3)] assms(4)
  by (simp add: player_step_def holds_frisbee_def lock_test_eq lock_release_eq)

text \<open>Two players with the frisbee at the same time.\<close>

theorem user_lock_excludes_nobody_witness:
  "\<exists>g. game_reach 64 (\<lambda>t. 128) 1 (\<lambda>t. int t + 1) g \<and> holds_frisbee g 0 \<and> holds_frisbee g 1"
proof -
  let ?step = "player_step 64 (\<lambda>t. 128) 1 (\<lambda>t. int t + 1)"
  let ?g = "\<lparr>ustore = lock_init 64 (\<lambda>a. 5), thrower = 0, pcs = (\<lambda>t. PLoop 0), said = []\<rparr>"
  let ?h = "?step 1 (?step 0 (?step 0 ?g))"
  have r: "game_reach 64 (\<lambda>t. 128) 1 (\<lambda>t. int t + 1) ?h" by (intro game_reach.intros)
  have h: "pcs ?h 1 = PTry 0" "holds_frisbee ?h 0"
    by (simp_all add: player_step_def holds_frisbee_def lock_test_eq lock_acquire_enter_def lock_init_def)
  have "holds_frisbee (?step 1 ?h) 1 \<and> (\<forall>u. u \<noteq> 1 \<longrightarrow> holds_frisbee (?step 1 ?h) u = holds_frisbee ?h u)"
    using user_lock_excludes_nobody [OF r _ _ h(1)] by simp
  then show ?thesis using h(2) game_reach.step [OF r, of 1] by (intro exI [of _ "?step 1 ?h"]) simp
qed

end
