(* ===== verification/Spec2Isabelle.thy ===== *)
theory Spec2Isabelle
  imports Tramp Durable Grep Run Uthread
begin

text \<open>
  A verification of the \<^verbatim>\<open>xv6-riscv\<close> kernel kept under \<^verbatim>\<open>src/xv6-riscv/kernel\<close>, with the thread extensions of
  this repository (\<^verbatim>\<open>clone\<close>, \<^verbatim>\<open>youAThread\<close>, \<^verbatim>\<open>threadCount\<close>), of the parts of \<^verbatim>\<open>src/xv6-riscv/user\<close> that
  compute, and of \<^verbatim>\<open>src/xv6-riscv/mkfs\<close>.

  \<^bold>\<open>State.\<close> The state of the machine is an extensible record that grows from theory to theory in the order in
  which the parts of the kernel build on each other: CPUs, spinlocks and byte memory (\<open>Machine\<close>), the UART
  (\<open>Printf\<close>), the page allocator (\<open>Kalloc\<close>), page tables (\<open>Pagetable\<close>), processes (\<open>Proc\<close>), the console (\<open>Console\<close>),
  pipes (\<open>Pipe\<close>), sleep locks (\<open>Sleeplock\<close>), the disk and the buffers (\<open>Virtio\<close>), the log (\<open>Log\<close>), inodes (\<open>Fs\<close>),
  open files (\<open>File\<close>), trap registers (\<open>Trap\<close>). An operation of a part is a function on every extension of that
  part's record, so that later parts call it as it is. Operations that can fail return \<^verbatim>\<open>kerr + result\<close>:
  \<open>Panic\<close> is a call of \<^verbatim>\<open>panic\<close> with its message, \<open>Spin\<close> a lock held by another CPU, \<open>Wait\<close> a sleep that the run
  does not end, \<open>Fault\<close> an access through a null or wild pointer, \<open>Hang\<close> an endless loop.

  \<^bold>\<open>Theories and sources.\<close>
  \<^item> \<open>Prelude\<close>: integer types, sequencing, counting loops, little-endian numbers. \<open>Ring\<close>: ring buffers with
    free-running indices, as a locale with three clients (console input, UART output, pipes).
  \<^item> \<open>Machine\<close> (\<^verbatim>\<open>riscv.h\<close>, \<^verbatim>\<open>memlayout.h\<close>, \<^verbatim>\<open>param.h\<close>), \<open>Spinlock\<close> (\<^verbatim>\<open>spinlock.c\<close>), \<open>Cstring\<close> (\<^verbatim>\<open>string.c\<close>),
    \<open>Printf\<close> (\<^verbatim>\<open>printf.c\<close> and polled output of \<^verbatim>\<open>uart.c\<close>, \<^verbatim>\<open>console.c\<close>), \<open>Kalloc\<close> (\<^verbatim>\<open>kalloc.c\<close>), \<open>Pagetable\<close> and \<open>Uvm\<close>
    (\<^verbatim>\<open>vm.c\<close>), \<open>Proc\<close> and \<open>Sched\<close> (\<^verbatim>\<open>proc.c\<close> without process creation), \<open>Console\<close> (\<^verbatim>\<open>console.c\<close>, \<^verbatim>\<open>uart.c\<close>),
    \<open>Pipe\<close> (\<^verbatim>\<open>pipe.c\<close>), \<open>Sleeplock\<close> (\<^verbatim>\<open>sleeplock.c\<close>), \<open>Virtio\<close> (\<^verbatim>\<open>virtio_disk.c\<close>), \<open>Bio\<close> and \<open>Bcache\<close> (\<^verbatim>\<open>bio.c\<close>: the
    operations, and the abstract cache they implement), \<open>Log\<close>, \<open>Crash\<close> and \<open>Trans\<close> (\<^verbatim>\<open>log.c\<close>: the operations, crashes, transactions),
    \<open>Fs\<close>, \<open>Inode\<close>, \<open>Tx\<close> and \<open>Fwrite\<close> (\<^verbatim>\<open>fs.c\<close>: the operations, reading through the cache, transactions as the file system sees them, writing), \<open>File\<close> (\<^verbatim>\<open>file.c\<close>), \<open>Fork\<close> (\<^verbatim>\<open>userinit\<close>, \<^verbatim>\<open>fork\<close>, \<^verbatim>\<open>clone\<close>, \<^verbatim>\<open>exit\<close> of \<^verbatim>\<open>proc.c\<close>), \<open>Exec\<close> (\<^verbatim>\<open>exec.c\<close>),
    \<open>Syscall\<close> (\<^verbatim>\<open>syscall.c\<close>, \<^verbatim>\<open>sysproc.c\<close>, \<^verbatim>\<open>sysfile.c\<close>), \<open>Trap\<close> (\<^verbatim>\<open>trap.c\<close>, \<^verbatim>\<open>plic.c\<close>, \<^verbatim>\<open>start.c\<close>, \<^verbatim>\<open>main.c\<close>),
    \<open>Asm\<close> and \<open>Tramp\<close> (\<^verbatim>\<open>swtch.S\<close>, \<^verbatim>\<open>trampoline.S\<close>, \<^verbatim>\<open>kernelvec.S\<close>, \<^verbatim>\<open>entry.S\<close>, \<^verbatim>\<open>user/initcode.S\<close>, \<^verbatim>\<open>user/usys.pl\<close>: lists of
    instructions on the registers of a hart).
  \<^item> \<open>Ulib\<close> (\<^verbatim>\<open>user/ulib.c\<close>, \<^verbatim>\<open>user/printf.c\<close>), \<open>Grep\<close> (\<^verbatim>\<open>user/grep.c\<close>), \<open>Sh\<close>, \<open>Parse\<close> and \<open>Run\<close> (\<^verbatim>\<open>user/sh.c\<close>: the
    parser, its correctness, and the processes and descriptors of a command), \<open>Uthread\<close> (\<^verbatim>\<open>user/userlib.c\<close>, \<^verbatim>\<open>user/frisbee.c\<close>).
  \<^item> \<open>Mkfs\<close>, \<open>Mkimg\<close> and \<open>Mkrun\<close> (\<^verbatim>\<open>mkfs/mkfs.c\<close>: the program, the invariant of its image, its run). The state is the image as the
    list of its blocks, with the next inode and the next block; the encodings of inodes and of the superblock are those of \<open>Fs\<close>. \<open>Boot\<close> starts the
    kernel on an image and reads the files. \<open>Durable\<close> follows a write to a file to the disk.

  \<^bold>\<open>Conventions.\<close> A definition has the name of the C function it models; a loop is a second definition with
  the suffix \<open>_loop\<close>, and the part of a function from a point of sleep on one with the suffix \<open>_pass\<close>. A pointer
  to a kernel object is the index of the object in its table, or its address where it lives in an
  allocated page; a null pointer is \<open>None\<close> or address 0. A buffer on the kernel stack is the list of its
  bytes. A thread that gives up the CPU is its saved context (\<open>Proc\<close>); a system call that sleeps returns the
  local state with which it goes on. A process that waits for the disk gives up the driver's lock, the
  device serves the request, the interrupt handler runs, and the process takes the lock again (\<open>Virtio\<close>).

  \<^bold>\<open>What is shown.\<close> Mutual exclusion of spinlocks under every interleaving of the harts; the allocator's list
  of free pages; \<^verbatim>\<open>memmove\<close> and the string functions; the page table as a refinement of a finite map, and
  copies to and from user memory against it; that no process runs on two CPUs, and that a wakeup is not
  lost; that a switch of contexts, a trap from user space and an interrupt in the kernel keep the registers they must keep; the order of bytes through the UART, the console and pipes, across the wrap-around of the indices; that
  a disk request moves one block; the buffer cache as a refinement of an abstract cache, whose laws are the locale
  \<open>block_cache\<close>; on top of it that a commit interrupted by a crash is all or nothing after recovery, that recovery may itself
  be interrupted, and that the last \<^verbatim>\<open>end_op\<close> makes a transaction durable; the disk inode round trip and path elements;
  that the parser of the shell ends and reads back the text of every command, and that pipelines are connected
  and no descriptor leaks; that the user threads' lock does not exclude anybody;
  that the matcher of \<^verbatim>\<open>grep\<close> decides the language of its pattern, and that \<^verbatim>\<open>grep\<close> writes the matching lines;
  that the image \<^verbatim>\<open>mkfs\<close> makes has the files, the directory and the bitmap it should have, and that
  the kernel finds each file of it by its path and reads its data; that a write to a file, once its transaction has ended, is on the disk, where the file
  has the new contents, in blocks that the bitmap marks and no other file has, and every other file is unchanged.
  A write of one block to the disk is atomic: a crash keeps a prefix of the sequence of block writes.

  \<^bold>\<open>Bounds.\<close> Loops over tables count to the size of the table. Loops over a device's input recurse over the
  readings still to come. \<^verbatim>\<open>free_chain\<close> has a bound of 9 turns, since the ninth descriptor it frees is one of 8
  that it has already freed; loops over a directory turn once for each 16 bytes of it.
  The recursion of the shell's parser is bounded by four times the length of the line, plus four; \<open>Parse\<close> shows that the bound is not reached.

  \<^bold>\<open>Not modelled.\<close> \<^verbatim>\<open>ramdisk.c\<close> and \<^verbatim>\<open>kernel/umalloc.c\<close>, which are not part of the build; the QEMU devices,
  which are parameters or lists of readings, as is the translation of addresses for the assembly code; the memory model below sequential consistency (the fences
  \<^verbatim>\<open>__sync_synchronize\<close> have no effect here); the user programs that only make system calls; a big-endian
  host for \<^verbatim>\<open>mkfs\<close>, and its messages.
\<close>

end
